(* ===== verification/Prelude.thy ===== *)
theory Prelude
  imports Main "HOL-Library.Word" "HOL-Library.Monad_Syntax"
begin

unbundle bit_operations_syntax

text \<open>
  Shared vocabulary of the development: the fixed-width integer types of the kernel sources, the
  values that stand for a failed assertion or a panic, and the generic facts on lists and machine
  words that the component theories rely on.

  A computation that may hit an \<^verbatim>\<open>assert\<close>, a \<^verbatim>\<open>panic\<close> or undefined behaviour returns a value of
  the sum type \<open>kerror + 'a\<close>; \<open>Rejected\<close> is the value of a routine
  that returns false on its input. A pointer algorithm that may dereference a null pointer or fail to
  terminate returns an \<open>option\<close>, where \<open>None\<close> stands for both.
\<close>

section \<open>Types\<close>

type_synonym u8 = "8 word"
type_synonym u16 = "16 word"
type_synonym u32 = "32 word"
type_synonym u64 = "64 word"
type_synonym u128 = "128 word"
type_synonym addr = "64 word"

datatype kerror = AssertFailed | Panicked | OutOfBounds | Undefined | Rejected

type_synonym 'a result = "kerror + 'a"

definition ebind :: "'a result \<Rightarrow> ('a \<Rightarrow> 'b result) \<Rightarrow> 'b result" where
  "ebind r f = (case r of Inl e \<Rightarrow> Inl e | Inr x \<Rightarrow> f x)"

definition kassert :: "bool \<Rightarrow> 'a result \<Rightarrow> 'a result" where
  "kassert b r = (if b then r else Inl AssertFailed)"

named_theorems rep_simps \<open>unfolding rules of the representation predicates\<close>
named_theorems word_nat \<open>reading of word operations on natural numbers\<close>

lemma ebind_simps [simp]: "ebind (Inl e) f = Inl e" "ebind (Inr x) f = f x"
  by (simp_all add: ebind_def)

lemma ebind_Inr_iff: "ebind r f = Inr y \<longleftrightarrow> (\<exists>x. r = Inr x \<and> f x = Inr y)"
  by (cases r) auto

lemma ebind_cong [fundef_cong]: "r = r' \<Longrightarrow> (\<And>x. r' = Inr x \<Longrightarrow> f x = g x) \<Longrightarrow> ebind r f = ebind r' g"
  by (cases r') simp_all

lemma kassert_simps [simp]: "kassert True r = r" "kassert False r = Inl AssertFailed"
  by (simp_all add: kassert_def)

lemma kassert_Inr_iff: "kassert b r = Inr y \<longleftrightarrow> b \<and> r = Inr y"
  by (simp add: kassert_def)

text \<open>\<open>rpost P r\<close>: the computation \<open>r\<close> does not fail other than by rejecting its input, and its value, if it
  has one, satisfies \<open>P\<close>.\<close>

definition rpost :: "('a \<Rightarrow> bool) \<Rightarrow> 'a result \<Rightarrow> bool" where
  "rpost P r = (case r of Inl e \<Rightarrow> e = Rejected | Inr x \<Rightarrow> P x)"

lemma rpost_simps [simp]: "rpost P (Inl e) \<longleftrightarrow> e = Rejected" "rpost P (Inr x) \<longleftrightarrow> P x"
  by (simp_all add: rpost_def)

lemma rpost_ebind: "rpost P r \<Longrightarrow> (\<And>x. P x \<Longrightarrow> rpost Q (f x)) \<Longrightarrow> rpost Q (ebind r f)"
  by (cases r) simp_all

lemma rpost_ebind2:
  "rpost (\<lambda>(a, b). P a b) r \<Longrightarrow> (\<And>a b. P a b \<Longrightarrow> rpost Q (f a b)) \<Longrightarrow> rpost Q (ebind r (\<lambda>(a, b). f a b))"
  by (cases r) auto

lemma rpost_ebind3:
  "rpost (\<lambda>(a, b, c). P a b c) r \<Longrightarrow> (\<And>a b c. P a b c \<Longrightarrow> rpost Q (f a b c)) \<Longrightarrow>
   rpost Q (ebind r (\<lambda>(a, b, c). f a b c))"
  by (cases r) auto

lemma rpost_mono: "rpost P r \<Longrightarrow> (\<And>x. P x \<Longrightarrow> Q x) \<Longrightarrow> rpost Q r"
  by (cases r) simp_all

lemma rpost_if: "(b \<Longrightarrow> rpost P r) \<Longrightarrow> (\<not> b \<Longrightarrow> rpost P s) \<Longrightarrow> rpost P (if b then r else s)"
  by simp

lemma rpostD: "rpost P r \<Longrightarrow> r = Inr x \<Longrightarrow> P x" "rpost P r \<Longrightarrow> r = Inl e \<Longrightarrow> e = Rejected"
  by simp_all

section \<open>Lists of addresses\<close>

text \<open>The first and the last element of a list, with a default for the empty list.\<close>

definition hd_or :: "'a list \<Rightarrow> 'a \<Rightarrow> 'a" where
  "hd_or xs d = (case xs of [] \<Rightarrow> d | x # _ \<Rightarrow> x)"

definition last_or :: "'a list \<Rightarrow> 'a \<Rightarrow> 'a" where
  "last_or xs d = (if xs = [] then d else last xs)"

lemma hd_or_simps [simp]: "hd_or [] d = d" "hd_or (x # xs) d = x"
  by (simp_all add: hd_or_def)

lemma last_or_simps [simp]: "last_or [] d = d" "last_or (x # xs) d = last_or xs x"
  by (simp_all add: last_or_def)

lemma hd_or_append [simp]: "hd_or (xs @ ys) d = hd_or xs (hd_or ys d)"
  by (cases xs) simp_all

lemma last_or_append [simp]: "last_or (xs @ ys) d = last_or ys (last_or xs d)"
  by (cases ys) (simp_all add: last_or_def)

lemma hd_or_in: "xs \<noteq> [] \<Longrightarrow> hd_or xs d \<in> set xs"
  by (cases xs) simp_all

lemma last_or_in: "xs \<noteq> [] \<Longrightarrow> last_or xs d \<in> set xs"
  by (simp add: last_or_def)

lemma distinct_remove1_middle:
  "distinct (as @ x # bs) \<Longrightarrow> remove1 x (as @ x # bs) = as @ bs"
  by (simp add: remove1_append)

section \<open>Functional refinement\<close>

text \<open>
  Running a sequence of operations of an abstract data type: \<open>crun\<close> on an implementation whose
  steps may fault (\<open>None\<close>), \<open>arun\<close> on the abstract type, whose steps are total; \<open>admissible\<close> says that
  each operation's precondition holds at the abstract state it is applied to.
\<close>

fun crun :: "('op \<Rightarrow> 's \<Rightarrow> ('r \<times> 's) option) \<Rightarrow> 'op list \<Rightarrow> 's \<Rightarrow> ('r list \<times> 's) option" where
  "crun f [] s = Some ([], s)"
| "crun f (x # xs) s = do { (r, s) \<leftarrow> f x s; (rs, s) \<leftarrow> crun f xs s; Some (r # rs, s) }"

fun arun :: "('op \<Rightarrow> 'a \<Rightarrow> 'r \<times> 'a) \<Rightarrow> 'op list \<Rightarrow> 'a \<Rightarrow> 'r list \<times> 'a" where
  "arun f [] a = ([], a)"
| "arun f (x # xs) a =
     (let (r, a1) = f x a; (rs, a2) = arun f xs a1 in (r # rs, a2))"

fun admissible :: "('op \<Rightarrow> 'a \<Rightarrow> bool) \<Rightarrow> ('op \<Rightarrow> 'a \<Rightarrow> 'r \<times> 'a) \<Rightarrow> 'op list \<Rightarrow> 'a \<Rightarrow> bool" where
  "admissible pre f [] a \<longleftrightarrow> True"
| "admissible pre f (x # xs) a \<longleftrightarrow> pre x a \<and> admissible pre f xs (snd (f x a))"

text \<open>
  The contract between a pointer implementation and its clients: from a represented state, an
  operation whose precondition holds runs without a fault, returns what the abstract operation
  returns and ends in a state that represents the abstract result.
\<close>

locale refines =
  fixes cstep :: "'op \<Rightarrow> 's \<Rightarrow> ('r \<times> 's) option"
    and astep :: "'op \<Rightarrow> 'a \<Rightarrow> 'r \<times> 'a"
    and pre :: "'op \<Rightarrow> 'a \<Rightarrow> bool"
    and rep :: "'s \<Rightarrow> 'a \<Rightarrow> bool"
  assumes step: "rep s a \<Longrightarrow> pre op a \<Longrightarrow>
    \<exists>s'. cstep op s = Some (fst (astep op a), s') \<and> rep s' (snd (astep op a))"
begin

lemma run:
  "rep s a \<Longrightarrow> admissible pre astep ops a \<Longrightarrow>
   \<exists>s'. crun cstep ops s = Some (fst (arun astep ops a), s') \<and> rep s' (snd (arun astep ops a))"
proof (induction ops arbitrary: s a)
  case (Cons op ops)
  from Cons.prems obtain s1 where s1: "cstep op s = Some (fst (astep op a), s1)"
    "rep s1 (snd (astep op a))" using step [of s a op] by auto
  with Cons.prems obtain s2 where "crun cstep ops s1 = Some (fst (arun astep ops (snd (astep op a))), s2)"
    "rep s2 (snd (arun astep ops (snd (astep op a))))"
    using Cons.IH [of s1 "snd (astep op a)"] by auto
  with s1 show ?case by (auto simp: Let_def split_def)
qed simp

lemma run_append:
  assumes "rep s a" "admissible pre astep (ops @ ops') a"
  shows "\<exists>s1. crun cstep ops s = Some (fst (arun astep ops a), s1)
    \<and> admissible pre astep ops' (snd (arun astep ops a)) \<and> rep s1 (snd (arun astep ops a))"
proof -
  have "admissible pre astep ops a \<and> admissible pre astep ops' (snd (arun astep ops a))"
    using assms(2) by (induction ops arbitrary: a) (auto simp: Let_def split_def)
  with run [OF assms(1)] show ?thesis by auto
qed

end

section \<open>Machine words\<close>

lemma unat_exp_64 [simp]: "k < 64 \<Longrightarrow> unat (2 ^ k :: u64) = 2 ^ k"
proof -
  assume "k < 64"
  then have "(2::nat) ^ k < 2 ^ 64"
    by (intro power_strict_increasing) simp_all
  then have "unat (of_nat (2 ^ k) :: u64) = 2 ^ k"
    by (subst unat_of_nat) simp
  then show ?thesis by simp
qed

lemma unat_lt64: "unat (w :: u64) < 2 ^ 64"
  using unsigned_less [of w] by simp

lemma unat_add_no_wrap [word_nat]:
  "unat (x :: 'a::len word) + unat y < 2 ^ LENGTH('a) \<Longrightarrow> unat (x + y) = unat x + unat y"
  by (simp add: unat_add_lem [symmetric])

lemma unat_sub_no_wrap [word_nat]:
  "y \<le> x \<Longrightarrow> unat (x - y) = unat x - unat (y :: 'a::len word)"
  by (rule unat_sub)

lemma word_eq_unatI: "unat x = unat y \<Longrightarrow> x = (y :: 'a::len word)"
  by (simp add: word_unat_eq_iff)

lemma unat_push_bit_1: "k < 64 \<Longrightarrow> unat (push_bit k (1 :: u64)) = 2 ^ k"
  by simp

lemma xor_exp_eq:
  fixes x :: "'a::len word"
  shows "x XOR 2 ^ n = (if bit x n then x - 2 ^ n else x + 2 ^ n)"
proof -
  have "x XOR 2 ^ n = flip_bit n x"
    by (simp add: flip_bit_eq_xor)
  then show ?thesis
    by (cases "n < LENGTH('a)")
      (auto simp: flip_bit_eq_if unset_bit_eq set_bit_eq dest: bit_imp_le_length)
qed

end
