(* ===== verification/LibMath.thy ===== *)
theory LibMath
  imports Prelude
begin

text \<open>
  The arithmetic macros of \<^verbatim>\<open>kernel/src/utils/lib.h\<close> (alignment, direct-map translation), the
  bit-scanning helpers of \<^verbatim>\<open>kernel/src/libc/math.h\<close> and the reciprocal search of
  \<^verbatim>\<open>kernel/src/libc/math.c\<close>. The compiler builtins for leading and trailing zero counts are
  written out over the bits of a 64-bit word. The lemmas read each macro on natural numbers: the
  alignment macros round to multiples of the alignment and say where the rounding wraps around,
  the logarithms are characterised by the powers of two around their argument, and the binary
  search returns the greatest admissible shift on the arguments the timers pass.
\<close>

section \<open>Definitions\<close>

definition ALIGN_UP :: "u64 \<Rightarrow> u64 \<Rightarrow> u64" where
  "ALIGN_UP x align = (x + (align - 1)) AND NOT (align - 1)"

definition ALIGN_DOWN :: "u64 \<Rightarrow> u64 \<Rightarrow> u64" where
  "ALIGN_DOWN x align = x AND NOT (align - 1)"

definition IS_ALIGNED :: "u64 \<Rightarrow> u64 \<Rightarrow> bool" where
  "IS_ALIGNED x align \<longleftrightarrow> x AND (align - 1) = 0"

definition MISALIGNMENT :: "u64 \<Rightarrow> u64 \<Rightarrow> u64" where
  "MISALIGNMENT x align = x AND (align - 1)"

definition TO_HHDM :: "u64 \<Rightarrow> u64 \<Rightarrow> u64" where
  "TO_HHDM hhdm_offset x = x + hhdm_offset"

definition FROM_HHDM :: "u64 \<Rightarrow> u64 \<Rightarrow> u64" where
  "FROM_HHDM hhdm_offset x = x - hhdm_offset"

text \<open>\<^verbatim>\<open>__builtin_clzll\<close> and \<^verbatim>\<open>__builtin_ctzll\<close>; on zero both are undefined in C and 64 here, and every
  caller excludes zero first.\<close>

definition clzll :: "u64 \<Rightarrow> nat" where
  "clzll v = length (takeWhile (\<lambda>i. \<not> bit v i) (rev [0..<64]))"

definition ctzll :: "u64 \<Rightarrow> nat" where
  "ctzll v = length (takeWhile (\<lambda>i. \<not> bit v i) [0..<64])"

definition COUNT_TRAILING_ZEROS :: "u64 \<Rightarrow> nat" where
  "COUNT_TRAILING_ZEROS v = (if v \<noteq> 0 then ctzll v else 64)"

definition log2ull :: "u64 \<Rightarrow> nat" where
  "log2ull val = (if val = 0 then 0 else 63 - clzll val)"

definition log2ullceil :: "u64 \<Rightarrow> nat" where
  "log2ullceil val = (if val \<le> 1 then 0 else log2ull (val - 1) + 1)"

definition isPow2ull :: "u64 \<Rightarrow> bool" where
  "isPow2ull val \<longleftrightarrow> val \<noteq> 0 \<and> val AND (val - 1) = 0"

text \<open>The \<^verbatim>\<open>while\<close> loop of \<^verbatim>\<open>find_reciprocal_shift\<close>; the shift is done at 128 bits and drops
  what it shifts out.\<close>

function frs_loop :: "u64 \<Rightarrow> u128 \<Rightarrow> nat \<Rightarrow> nat \<Rightarrow> nat" where
  "frs_loop numerator lim lo hi =
     (if lo < hi then
        let mid = (lo + hi + 1) div 2 in
        if push_bit mid (ucast numerator :: u128) \<le> lim
        then frs_loop numerator lim mid hi
        else frs_loop numerator lim lo (mid - 1)
      else lo)"
  by pat_completeness auto
termination
  by (relation "measure (\<lambda>(n, l, lo, hi). hi - lo)") (auto simp: Let_def)

definition find_reciprocal_shift :: "u64 \<Rightarrow> u64 \<Rightarrow> nat" where
  "find_reciprocal_shift numerator denominator =
     (let lim = (ucast denominator :: u128) * ucast (- 1 :: u64)
      in frs_loop numerator lim 0 127)"

declare frs_loop.simps [simp del]

section \<open>Alignment\<close>

lemma ALIGN_DOWN_push_drop:
  "k < 64 \<Longrightarrow> ALIGN_DOWN x (2 ^ k) = push_bit k (drop_bit k x)"
  unfolding ALIGN_DOWN_def mask_eq_exp_minus_1 [symmetric]
  by (rule bit_eqI) (auto simp: bit_simps)

lemma unat_ALIGN_DOWN [word_nat]:
  assumes "k < 64"
  shows "unat (ALIGN_DOWN x (2 ^ k)) = unat x div 2 ^ k * 2 ^ k"
proof -
  have "unat (push_bit k (drop_bit k x)) = take_bit 64 (push_bit k (unat x div 2 ^ k))"
    by (simp add: unsigned_push_bit_eq unat_drop_bit_eq flip: drop_bit_eq_div)
  also have "\<dots> = unat x div 2 ^ k * 2 ^ k"
  proof -
    have "unat x div 2 ^ k * 2 ^ k \<le> unat x" by simp
    also have "\<dots> < 2 ^ 64" by (rule unat_lt64)
    finally show ?thesis by (simp add: push_bit_eq_mult take_bit_nat_eq_self)
  qed
  finally show ?thesis by (simp add: ALIGN_DOWN_push_drop assms)
qed

lemma ALIGN_UP_DOWN: "ALIGN_UP x align = ALIGN_DOWN (x + (align - 1)) align"
  by (simp add: ALIGN_UP_def ALIGN_DOWN_def)

lemma unat_exp_minus_1: "k < 64 \<Longrightarrow> unat (2 ^ k - 1 :: u64) = 2 ^ k - 1"
  by (subst unat_sub) (simp_all add: word_le_nat_alt)

lemma unat_ALIGN_UP [word_nat]:
  assumes k: "k < 64" and fits: "unat x + (2 ^ k - 1) < 2 ^ 64"
  shows "unat (ALIGN_UP x (2 ^ k)) = (unat x + (2 ^ k - 1)) div 2 ^ k * 2 ^ k"
proof -
  have "unat (x + (2 ^ k - 1)) = unat x + (2 ^ k - 1)"
    using fits k by (subst unat_add_no_wrap) (simp_all add: unat_exp_minus_1)
  then show ?thesis
    by (simp add: ALIGN_UP_DOWN unat_ALIGN_DOWN k)
qed

lemma MISALIGNMENT_take_bit: "MISALIGNMENT x (2 ^ k) = take_bit k x"
  by (simp add: MISALIGNMENT_def take_bit_eq_mask mask_eq_exp_minus_1)

lemma unat_MISALIGNMENT [word_nat]: "unat (MISALIGNMENT x (2 ^ k)) = unat x mod 2 ^ k"
  by (simp add: MISALIGNMENT_take_bit unsigned_take_bit_eq flip: take_bit_eq_mod)

lemma IS_ALIGNED_MISALIGNMENT: "IS_ALIGNED x align \<longleftrightarrow> MISALIGNMENT x align = 0"
  by (simp add: IS_ALIGNED_def MISALIGNMENT_def)

lemma IS_ALIGNED_dvd: "IS_ALIGNED x (2 ^ k) \<longleftrightarrow> 2 ^ k dvd unat x"
  by (simp add: IS_ALIGNED_MISALIGNMENT word_unat_eq_iff unat_MISALIGNMENT dvd_eq_mod_eq_0)

lemma HHDM_roundtrip [simp]:
  "FROM_HHDM h (TO_HHDM h x) = x" "TO_HHDM h (FROM_HHDM h x) = x"
  by (simp_all add: FROM_HHDM_def TO_HHDM_def)

lemma TO_HHDM_inj [simp]: "TO_HHDM h x = TO_HHDM h y \<longleftrightarrow> x = y"
  by (simp add: TO_HHDM_def)

text \<open>Rounding up on natural numbers, the reference the macros are compared with.\<close>

lemma round_up_nat:
  fixes x n :: nat
  assumes "0 < n"
  shows "x \<le> (x + (n - 1)) div n * n" "(x + (n - 1)) div n * n < x + n"
    "n dvd (x + (n - 1)) div n * n"
proof -
  have *: "(x + (n - 1)) div n * n + (x + (n - 1)) mod n = x + (n - 1)"
    by simp
  have "(x + (n - 1)) mod n < n" using assms by simp
  with * show "x \<le> (x + (n - 1)) div n * n" "(x + (n - 1)) div n * n < x + n"
    using assms by linarith+
qed simp

section \<open>Bit scanning\<close>

lemma takeWhile_length_nth:
  "length (takeWhile P xs) < length xs \<Longrightarrow> \<not> P (xs ! length (takeWhile P xs))"
  by (rule nth_length_takeWhile)

lemma takeWhile_prefix_nth: "j < length (takeWhile P xs) \<Longrightarrow> P (xs ! j)"
  by (metis nth_mem set_takeWhileD takeWhile_nth)

lemma word_nonzero_bit:
  assumes "v \<noteq> (0::u64)"
  obtains i where "i < 64" "bit v i"
proof -
  from assms obtain i where "bit v i"
    by (metis bit_0_eq bit_eqI bot_apply bot_bool_def)
  then show ?thesis using that [of i] bit_imp_le_length [of v i] by simp
qed

lemma bit_ge_exp: "bit (v::u64) k \<Longrightarrow> 2 ^ k \<le> unat v"
proof -
  assume "bit v k"
  then have "bit (unat v) k"
    by (simp add: bit_unsigned_iff bit_imp_possible_bit)
  then have "odd (unat v div 2 ^ k)" by (simp add: bit_iff_odd)
  then have "unat v div 2 ^ k \<noteq> 0" by (auto elim: oddE)
  then show ?thesis by (simp add: div_eq_0_iff linorder_not_less)
qed

lemma no_high_bits_less: 
  assumes "\<And>i. k \<le> i \<Longrightarrow> \<not> bit (v::u64) i"
  shows "unat v < 2 ^ k"
proof -
  have "take_bit k v = v"
    by (rule bit_eqI) (use assms not_le in \<open>auto simp: bit_simps\<close>)
  then have "take_bit k (unat v) = unat v"
    by (metis unsigned_take_bit_eq)
  then show ?thesis by (metis take_bit_nat_less_exp)
qed

lemma clzll_bit:
  assumes "v \<noteq> 0"
  shows "clzll v < 64" "bit v (63 - clzll v)" "\<And>i. 63 - clzll v < i \<Longrightarrow> \<not> bit v i"
proof -
  let ?xs = "rev [0..<64]" and ?P = "\<lambda>i. \<not> bit v i"
  obtain b where b: "b < 64" "bit v b" using assms by (rule word_nonzero_bit)
  then have "takeWhile ?P ?xs \<noteq> ?xs"
    by (metis atLeastLessThan_iff set_rev set_takeWhileD set_upt zero_le)
  then have lt: "length (takeWhile ?P ?xs) < length ?xs"
    by (metis length_takeWhile_le nat_less_le takeWhile_eq_take take_all_iff order_refl)
  then show c: "clzll v < 64" by (simp add: clzll_def)
  show "bit v (63 - clzll v)"
    using takeWhile_length_nth [OF lt] lt by (simp add: clzll_def rev_nth)
  show "\<not> bit v i" if "63 - clzll v < i" for i
  proof (cases "i < 64")
    case True
    with that c have "63 - i < length (takeWhile ?P ?xs)" by (simp add: clzll_def)
    from takeWhile_prefix_nth [OF this] True show ?thesis by (simp add: rev_nth)
  qed (auto dest: bit_imp_le_length)
qed

lemma ctzll_bit:
  assumes "v \<noteq> 0"
  shows "ctzll v < 64" "bit v (ctzll v)" "\<And>i. i < ctzll v \<Longrightarrow> \<not> bit v i"
proof -
  let ?xs = "[0..<64]" and ?P = "\<lambda>i. \<not> bit v i"
  obtain b where b: "b < 64" "bit v b" using assms by (rule word_nonzero_bit)
  then have "takeWhile ?P ?xs \<noteq> ?xs"
    by (metis atLeastLessThan_iff set_takeWhileD set_upt zero_le)
  then have lt: "length (takeWhile ?P ?xs) < length ?xs"
    by (metis length_takeWhile_le nat_less_le takeWhile_eq_take take_all_iff order_refl)
  then show c: "ctzll v < 64" by (simp add: ctzll_def)
  show "bit v (ctzll v)"
    using takeWhile_length_nth [OF lt] lt by (simp add: ctzll_def)
  show "\<not> bit v i" if "i < ctzll v" for i
    using takeWhile_prefix_nth [of i ?P ?xs] that c by (simp add: ctzll_def)
qed

lemma log2ull_bounds:
  assumes "v \<noteq> 0"
  shows "2 ^ log2ull v \<le> unat v" "unat v < 2 ^ Suc (log2ull v)" "log2ull v < 64"
proof -
  show "2 ^ log2ull v \<le> unat v"
    using clzll_bit(2) [OF assms] assms by (auto simp: log2ull_def intro: bit_ge_exp)
  show "unat v < 2 ^ Suc (log2ull v)"
    using clzll_bit(3) [OF assms] assms by (intro no_high_bits_less) (auto simp: log2ull_def)
  show "log2ull v < 64" by (auto simp: log2ull_def)
qed

lemma log2ull_less: "log2ull v < 64"
  by (auto simp: log2ull_def)

lemma log2ull_unique:
  assumes "2 ^ k \<le> unat v" "unat v < 2 ^ Suc k"
  shows "log2ull v = k"
proof -
  have v: "v \<noteq> 0" using assms(1) by (metis not_one_le_zero one_le_numeral one_le_power order.trans unat_0)
  have "(2::nat) ^ k < 2 ^ Suc (log2ull v)" "(2::nat) ^ log2ull v < 2 ^ Suc k"
    using log2ull_bounds [OF v] assms by linarith+
  then show ?thesis by (simp add: power_strict_increasing_iff del: power_Suc)
qed

lemma log2ullceil_bounds:
  assumes "1 < unat v"
  shows "unat v \<le> 2 ^ log2ullceil v" "2 ^ (log2ullceil v - 1) < unat v" "0 < log2ullceil v"
    "log2ullceil v \<le> 64"
proof -
  have n: "\<not> v \<le> 1" using assms by (simp add: word_le_nat_alt)
  have m: "unat (v - 1) = unat v - 1"
    using assms by (subst unat_sub) (auto simp: word_le_nat_alt)
  with assms have "v - 1 \<noteq> 0" by (auto simp: word_unat_eq_iff)
  from log2ull_bounds [OF this] m assms n
  show "unat v \<le> 2 ^ log2ullceil v" "2 ^ (log2ullceil v - 1) < unat v" "0 < log2ullceil v"
    "log2ullceil v \<le> 64"
    by (auto simp: log2ullceil_def)
qed

lemma log2ullceil_le: "unat v \<le> 2 ^ k \<Longrightarrow> log2ullceil v \<le> k"
proof (rule ccontr)
  assume a: "unat v \<le> 2 ^ k" "\<not> log2ullceil v \<le> k"
  then have "1 < unat v"
    by (auto simp: log2ullceil_def word_le_nat_alt split: if_splits)
  from log2ullceil_bounds(2) [OF this] a have "(2::nat) ^ (log2ullceil v - 1) < 2 ^ k"
    by linarith
  with a show False by (simp add: power_strict_increasing_iff)
qed

lemma le_exp_log2ullceil: "unat v \<le> 2 ^ log2ullceil v"
proof (cases "1 < unat v")
  case False
  then show ?thesis by (metis linorder_not_less one_le_numeral one_le_power order_trans)
qed (rule log2ullceil_bounds)

section \<open>The reciprocal search\<close>

lemma frs_loop_eq:
  "frs_loop n l lo hi =
     (if lo < hi then
        (if push_bit ((lo + hi + 1) div 2) (ucast n :: u128) \<le> l
         then frs_loop n l ((lo + hi + 1) div 2) hi
         else frs_loop n l lo ((lo + hi + 1) div 2 - 1))
      else lo)"
  by (subst frs_loop.simps) (simp add: Let_def)

lemma frs_loop_spec:
  assumes "\<And>m. m \<le> hi \<Longrightarrow> push_bit m (ucast n :: u128) \<le> l \<longleftrightarrow> ok m" and "lo \<le> hi"
  shows "lo \<le> frs_loop n l lo hi \<and> frs_loop n l lo hi \<le> hi
    \<and> (frs_loop n l lo hi = lo \<or> ok (frs_loop n l lo hi))
    \<and> (frs_loop n l lo hi = hi \<or> \<not> ok (Suc (frs_loop n l lo hi)))"
  using assms
proof (induction n l lo hi rule: frs_loop.induct)
  case (1 n l lo hi)
  let ?mid = "(lo + hi + 1) div 2"
  show ?case
  proof (cases "lo < hi")
    case lt: True
    then have mid: "lo < ?mid" "?mid \<le> hi" by simp_all
    show ?thesis
    proof (cases "push_bit ?mid (ucast n :: u128) \<le> l")
      case True
      with 1(1) [OF lt refl] 1(3) mid lt have "?mid \<le> frs_loop n l ?mid hi
        \<and> frs_loop n l ?mid hi \<le> hi \<and> (frs_loop n l ?mid hi = ?mid \<or> ok (frs_loop n l ?mid hi))
        \<and> (frs_loop n l ?mid hi = hi \<or> \<not> ok (Suc (frs_loop n l ?mid hi)))" by blast
      moreover have "ok ?mid" using True 1(3) mid by blast
      moreover have "frs_loop n l lo hi = frs_loop n l ?mid hi"
        using True lt by (subst frs_loop_eq) simp
      ultimately show ?thesis using mid by auto
    next
      case False
      have "m \<le> ?mid - 1 \<Longrightarrow> push_bit m (ucast n :: u128) \<le> l \<longleftrightarrow> ok m" for m
        using 1(3) mid by simp
      from 1(2) [OF lt refl False this] mid have "lo \<le> frs_loop n l lo (?mid - 1)
        \<and> frs_loop n l lo (?mid - 1) \<le> ?mid - 1
        \<and> (frs_loop n l lo (?mid - 1) = lo \<or> ok (frs_loop n l lo (?mid - 1)))
        \<and> (frs_loop n l lo (?mid - 1) = ?mid - 1 \<or> \<not> ok (Suc (frs_loop n l lo (?mid - 1))))"
        by fastforce
      moreover have "\<not> ok ?mid" using False 1(3) mid by blast
      moreover have "frs_loop n l lo hi = frs_loop n l lo (?mid - 1)"
        using False lt by (subst frs_loop_eq) simp
      moreover have "Suc (?mid - 1) = ?mid" using mid by simp
      ultimately show ?thesis using mid by (metis diff_le_self order_trans)
    qed
  next
    case False
    with 1(4) show ?thesis by (subst (1 2 3 4 5 6) frs_loop_eq) simp
  qed
qed

text \<open>The 128-bit limit and the shifted numerator, read as natural numbers.\<close>

lemma unat_frs_lim:
  "unat ((ucast d :: u128) * ucast (- 1 :: u64)) = unat (d::u64) * (2 ^ 64 - 1)"
proof -
  have m: "unat (ucast (- 1 :: u64) :: u128) = 2 ^ 64 - 1"
    by (simp add: unsigned_ucast_eq unsigned_minus_1_eq_mask take_bit_nat_eq_self mask_numeral
        mask_eq_exp_minus_1)
  have d: "unat (ucast d :: u128) = unat d"
    using unat_lt64 [of d] by (simp add: unsigned_ucast_eq take_bit_nat_eq_self)
  have "unat d * (2 ^ 64 - 1) < 2 ^ 64 * (2 ^ 64 :: nat)"
    using unat_lt64 [of d] by (intro mult_strict_mono) simp_all
  then have "unat (ucast d :: u128) * unat (ucast (- 1 :: u64) :: u128) < 2 ^ LENGTH(128)"
    by (simp only: m d) simp
  then have "unat ((ucast d :: u128) * ucast (- 1 :: u64)) =
      unat (ucast d :: u128) * unat (ucast (- 1 :: u64) :: u128)"
    by (simp only: unat_mult_lem)
  then show ?thesis by (simp only: m d)
qed

lemma frs_test:
  assumes "unat n * 2 ^ m < 2 ^ 128"
  shows "push_bit m (ucast n :: u128) \<le> (ucast d :: u128) * ucast (- 1 :: u64)
    \<longleftrightarrow> unat (n::u64) * 2 ^ m \<le> unat (d::u64) * (2 ^ 64 - 1)"
proof -
  have "unat (push_bit m (ucast n :: u128)) = unat n * 2 ^ m"
    using assms unat_lt64 [of n]
    by (simp add: unsigned_push_bit_eq unsigned_ucast_eq take_bit_nat_eq_self
        flip: push_bit_eq_mult)
  then show ?thesis by (simp add: word_le_nat_alt unat_frs_lim)
qed

lemma frs_shift_less:
  fixes a b k :: nat
  assumes "a < 2 ^ b" "m + b \<le> k"
  shows "a * 2 ^ m < 2 ^ k"
proof -
  have "a * 2 ^ m < 2 ^ b * 2 ^ m" using assms(1) by simp
  also have "\<dots> = 2 ^ (m + b)" by (simp add: power_add)
  also have "\<dots> \<le> 2 ^ k" using assms(2) by (intro power_increasing) simp_all
  finally show ?thesis .
qed

text \<open>
  On every pair of arguments for which the greatest admissible shift is below 64, or below 96
  with a numerator below \<open>2 ^ 32\<close> (this covers nanoseconds per tick for every timer frequency below
  \<open>2 ^ 61\<close> and ticks per millisecond for every frequency of at least 1000),
  \<^verbatim>\<open>find_reciprocal_shift\<close> returns the greatest shift for which the shifted numerator divided by
  the denominator still fits into 64 bits, or 0 if there is none.
\<close>

lemma find_reciprocal_shift_spec:
  assumes pos: "0 < n" and range: "d \<le> n
      \<or> unat n < 2 ^ 32 \<and> unat d * (2 ^ 64 - 1) < unat n * 2 ^ 96"
  shows "let s = find_reciprocal_shift n d in
     s < 96 \<and> (s = 0 \<or> unat n * 2 ^ s \<le> unat d * (2 ^ 64 - 1))
     \<and> unat d * (2 ^ 64 - 1) < unat n * 2 ^ Suc s"
proof -
  define s where "s = find_reciprocal_shift n d"
  let ?l = "(ucast d :: u128) * ucast (- 1 :: u64)"
  let ?ok = "\<lambda>m. unat n * 2 ^ m \<le> unat d * (2 ^ 64 - 1)"
  have small: "m \<le> 64 \<Longrightarrow> push_bit m (ucast n :: u128) \<le> ?l \<longleftrightarrow> ?ok m" for m
    by (rule frs_test) (rule frs_shift_less [OF unat_lt64], simp)
  have s: "s = frs_loop n ?l 0 127" by (simp add: s_def find_reciprocal_shift_def)
  have "s < 96 \<and> (s = 0 \<or> ?ok s) \<and> \<not> ?ok (Suc s)"
  proof (cases "?ok 64")
    case False
    then have "s = frs_loop n ?l 0 63"
      unfolding s by (subst frs_loop_eq) (simp add: small)
    with frs_loop_spec [of 63 n ?l ?ok 0] small False show ?thesis by auto
  next
    case True
    have "\<not> d \<le> n"
    proof
      assume "d \<le> n"
      then have "unat d * (2 ^ 64 - 1) \<le> unat n * (2 ^ 64 - 1)"
        by (simp add: word_le_nat_alt)
      also have "\<dots> < unat n * 2 ^ 64" using pos by (simp add: unat_gt_0 word_neq_0_conv)
      finally show False using True by simp
    qed
    with range have r: "unat n < 2 ^ 32" "\<not> ?ok 96" by auto
    have mid: "m \<le> 96 \<Longrightarrow> push_bit m (ucast n :: u128) \<le> ?l \<longleftrightarrow> ?ok m" for m
      by (rule frs_test) (rule frs_shift_less [OF r(1)], simp)
    have "s = frs_loop n ?l 64 127"
      unfolding s using True by (subst frs_loop_eq) (simp add: small)
    also have "\<dots> = frs_loop n ?l 64 95"
      using r(2) by (subst frs_loop_eq) (simp add: mid)
    finally show ?thesis
      using frs_loop_spec [of 95 n ?l ?ok 64] mid r(2) True by auto
  qed
  then show ?thesis by (auto simp: Let_def not_le s_def)
qed

end
