(* ===== verification/Llist.thy ===== *)
theory Llist
  imports Prelude
begin

text \<open>
  The intrusive doubly linked list of \<^verbatim>\<open>kernel/src/utils/dstruct/llist.c\<close> and the intrusive stack of
  \<^verbatim>\<open>stack.h\<close>, over an explicit store: one map per field of \<^verbatim>\<open>llist_node\<close>, from the address of the node
  to the value of the field. Every access checks its pointer and yields \<open>None\<close> on a null pointer, so
  a result \<open>Some\<close> also says that the code dereferenced no null pointer.

  \<open>llist_rep h l xs\<close> says that the list header \<open>l\<close> in the store \<open>h\<close> holds exactly the nodes \<open>xs\<close> in
  this order. The lemmas show that every operation of \<^verbatim>\<open>llist.c\<close> refines the corresponding operation
  on lists, keeps the links of all nodes of other lists, and that a deleted node is recognisable by
  its self-links. The locale \<open>sequence_store\<close> is the interface the clients of the list use.
\<close>

section \<open>Store and accessors\<close>

record llist =
  ll_count :: u64
  ll_head :: addr
  ll_tail :: addr

record llist_heap =
  ln_next :: "addr \<Rightarrow> addr"
  ln_prev :: "addr \<Rightarrow> addr"

definition LLIST_INIT :: llist where
  "LLIST_INIT = \<lparr>ll_count = 0, ll_head = 0, ll_tail = 0\<rparr>"

definition get_next :: "llist_heap \<Rightarrow> addr \<Rightarrow> addr option" where
  "get_next h p = (if p = 0 then None else Some (ln_next h p))"

definition get_prev :: "llist_heap \<Rightarrow> addr \<Rightarrow> addr option" where
  "get_prev h p = (if p = 0 then None else Some (ln_prev h p))"

definition set_next :: "llist_heap \<Rightarrow> addr \<Rightarrow> addr \<Rightarrow> llist_heap option" where
  "set_next h p v = (if p = 0 then None else Some (h\<lparr>ln_next := (ln_next h)(p := v)\<rparr>))"

definition set_prev :: "llist_heap \<Rightarrow> addr \<Rightarrow> addr \<Rightarrow> llist_heap option" where
  "set_prev h p v = (if p = 0 then None else Some (h\<lparr>ln_prev := (ln_prev h)(p := v)\<rparr>))"

section \<open>Operations\<close>

definition llist_initial_node :: "llist \<Rightarrow> addr \<Rightarrow> llist_heap \<Rightarrow> (llist \<times> llist_heap) option" where
  "llist_initial_node l node h = do {
     h \<leftarrow> set_next h node 0;
     h \<leftarrow> set_prev h node 0;
     Some (l\<lparr>ll_head := node, ll_tail := node, ll_count := 1\<rparr>, h)
   }"

definition llist_node_append ::
  "llist \<Rightarrow> addr \<Rightarrow> addr \<Rightarrow> llist_heap \<Rightarrow> (llist \<times> llist_heap) option" where
  "llist_node_append l pos node h = do {
     n \<leftarrow> get_next h pos;
     h \<leftarrow> set_next h node n;
     h \<leftarrow> set_prev h node pos;
     h \<leftarrow> set_next h pos node;
     n \<leftarrow> get_next h node;
     h \<leftarrow> (if n \<noteq> 0 then set_prev h n node else Some h);
     Some (l\<lparr>ll_tail := (if ll_tail l = pos then node else ll_tail l),
             ll_count := ll_count l + 1\<rparr>, h)
   }"

definition llist_node_prepend ::
  "llist \<Rightarrow> addr \<Rightarrow> addr \<Rightarrow> llist_heap \<Rightarrow> (llist \<times> llist_heap) option" where
  "llist_node_prepend l pos node h = do {
     h \<leftarrow> set_next h node pos;
     p \<leftarrow> get_prev h pos;
     h \<leftarrow> set_prev h node p;
     h \<leftarrow> set_prev h pos node;
     p \<leftarrow> get_prev h node;
     h \<leftarrow> (if p \<noteq> 0 then set_next h p node else Some h);
     Some (l\<lparr>ll_head := (if ll_head l = pos then node else ll_head l),
             ll_count := ll_count l + 1\<rparr>, h)
   }"

definition llist_node_delete ::
  "llist \<Rightarrow> addr \<Rightarrow> llist_heap \<Rightarrow> (llist \<times> llist_heap) option" where
  "llist_node_delete l node h = do {
     nx \<leftarrow> get_next h node;
     pv \<leftarrow> get_prev h node;
     let l = l\<lparr>ll_count := ll_count l - 1\<rparr>;
     let l = l\<lparr>ll_head := (if ll_head l = node then nx else ll_head l)\<rparr>;
     let l = l\<lparr>ll_tail := (if ll_tail l = node then pv else ll_tail l)\<rparr>;
     h \<leftarrow> (if pv \<noteq> 0 then set_next h pv nx else Some h);
     nx \<leftarrow> get_next h node;
     pv \<leftarrow> get_prev h node;
     h \<leftarrow> (if nx \<noteq> 0 then set_prev h nx pv else Some h);
     h \<leftarrow> set_next h node node;
     h \<leftarrow> set_prev h node node;
     Some (l, h)
   }"

definition llist_push_front :: "llist \<Rightarrow> addr \<Rightarrow> llist_heap \<Rightarrow> (llist \<times> llist_heap) option" where
  "llist_push_front l node h =
     (if ll_head l = 0 then llist_initial_node l node h
      else llist_node_prepend l (ll_head l) node h)"

definition llist_push_back :: "llist \<Rightarrow> addr \<Rightarrow> llist_heap \<Rightarrow> (llist \<times> llist_heap) option" where
  "llist_push_back l node h =
     (if ll_tail l = 0 then llist_initial_node l node h
      else llist_node_append l (ll_tail l) node h)"

definition llist_pop_front :: "llist \<Rightarrow> llist_heap \<Rightarrow> (addr \<times> llist \<times> llist_heap) option" where
  "llist_pop_front l h =
     (let node = ll_head l in
      if node \<noteq> 0 then do { (l, h) \<leftarrow> llist_node_delete l node h; Some (node, l, h) }
      else Some (node, l, h))"

definition llist_pop_back :: "llist \<Rightarrow> llist_heap \<Rightarrow> (addr \<times> llist \<times> llist_heap) option" where
  "llist_pop_back l h =
     (let node = ll_tail l in
      if node \<noteq> 0 then do { (l, h) \<leftarrow> llist_node_delete l node h; Some (node, l, h) }
      else Some (node, l, h))"

definition llist_node_try_delete ::
  "llist \<Rightarrow> addr \<Rightarrow> llist_heap \<Rightarrow> (bool \<times> llist \<times> llist_heap) option" where
  "llist_node_try_delete l node h = do {
     nx \<leftarrow> get_next h node;
     pv \<leftarrow> get_prev h node;
     if nx \<noteq> node \<or> pv \<noteq> node then do {
       (l, h) \<leftarrow> llist_node_delete l node h;
       Some (True, l, h)
     } else Some (False, l, h)
   }"

text \<open>\<^verbatim>\<open>llist_push\<close> and \<^verbatim>\<open>llist_pop\<close> are linker aliases of the front operations.\<close>

abbreviation "llist_push \<equiv> llist_push_front"
abbreviation "llist_pop \<equiv> llist_pop_front"

section \<open>Representation\<close>

text \<open>\<open>dseg h p xs n\<close>: the nodes \<open>xs\<close> are chained in both directions, the first one points back to
  \<open>p\<close> and the last one points on to \<open>n\<close>.\<close>

primrec dseg ::
  "(addr \<Rightarrow> addr) \<Rightarrow> (addr \<Rightarrow> addr) \<Rightarrow> addr \<Rightarrow> addr list \<Rightarrow> addr \<Rightarrow> bool" where
  "dseg nx pv p [] n \<longleftrightarrow> True"
| "dseg nx pv p (x # xs) n \<longleftrightarrow> pv x = p \<and> nx x = hd_or xs n \<and> dseg nx pv x xs n"

definition llist_rep :: "llist_heap \<Rightarrow> llist \<Rightarrow> addr list \<Rightarrow> bool" where
  "llist_rep h l xs \<longleftrightarrow> distinct xs \<and> 0 \<notin> set xs \<and> ll_head l = hd_or xs 0 \<and>
     ll_tail l = last_or xs 0 \<and> ll_count l = of_nat (length xs) \<and>
     dseg (ln_next h) (ln_prev h) 0 xs 0"

text \<open>\<open>same_links h h' S\<close>: the two stores agree on the links of the nodes in \<open>S\<close>.\<close>

definition same_links :: "llist_heap \<Rightarrow> llist_heap \<Rightarrow> addr set \<Rightarrow> bool" where
  "same_links h h' S \<longleftrightarrow> (\<forall>x\<in>S. ln_next h' x = ln_next h x \<and> ln_prev h' x = ln_prev h x)"

definition unlinked :: "llist_heap \<Rightarrow> addr \<Rightarrow> bool" where
  "unlinked h x \<longleftrightarrow> ln_next h x = x \<and> ln_prev h x = x"

lemmas acc_defs = get_next_def get_prev_def set_next_def set_prev_def

lemma dseg_append [rep_simps]:
  "dseg nx pv p (xs @ ys) n \<longleftrightarrow> dseg nx pv p xs (hd_or ys n) \<and> dseg nx pv (last_or xs p) ys n"
  by (induction xs arbitrary: p) auto

lemma dseg_cong:
  "(\<And>x. x \<in> set xs \<Longrightarrow> nx' x = nx x \<and> pv' x = pv x) \<Longrightarrow> dseg nx' pv' p xs n = dseg nx pv p xs n"
  by (induction xs arbitrary: p) auto

lemma dseg_upd [simp]:
  "a \<notin> set xs \<Longrightarrow> dseg (nx(a := v)) pv p xs n = dseg nx pv p xs n"
  "a \<notin> set xs \<Longrightarrow> dseg nx (pv(a := v)) p xs n = dseg nx pv p xs n"
  by (auto intro!: dseg_cong)

lemma llist_rep_same_links:
  "llist_rep h l xs \<Longrightarrow> same_links h h' (set xs) \<Longrightarrow> llist_rep h' l xs"
  by (auto simp: llist_rep_def same_links_def cong: dseg_cong)

lemma llist_rep_init [simp]: "llist_rep h LLIST_INIT []"
  by (simp add: llist_rep_def LLIST_INIT_def)

lemma llist_rep_head: "llist_rep h l xs \<Longrightarrow> ll_head l = 0 \<longleftrightarrow> xs = []"
  by (cases xs) (auto simp: llist_rep_def)

lemma llist_rep_tail: "llist_rep h l xs \<Longrightarrow> ll_tail l = 0 \<longleftrightarrow> xs = []"
  by (metis last_or_in last_or_simps(1) llist_rep_def)

lemma llist_rep_unique: "llist_rep h l xs \<Longrightarrow> llist_rep h l ys \<Longrightarrow> xs = ys"
proof -
  have "dseg (ln_next h) (ln_prev h) p xs 0 \<Longrightarrow> dseg (ln_next h) (ln_prev h) q ys 0 \<Longrightarrow> hd_or xs 0 = hd_or ys 0 \<Longrightarrow> 0 \<notin> set xs \<Longrightarrow>
    0 \<notin> set ys \<Longrightarrow> xs = ys" for p q
  proof (induction xs arbitrary: ys p q)
    case Nil
    then show ?case by (cases ys) auto
  next
    case (Cons x xs)
    then obtain y ys' where "ys = y # ys'" by (cases ys) auto
    with Cons show ?case by auto
  qed
  then show "llist_rep h l xs \<Longrightarrow> llist_rep h l ys \<Longrightarrow> xs = ys"
    by (auto simp: llist_rep_def)
qed

section \<open>Every operation refines its list operation\<close>

lemma llist_initial_node_rep:
  assumes "node \<noteq> 0"
  shows "\<exists>l' h'. llist_initial_node l node h = Some (l', h') \<and> llist_rep h' l' [node]
    \<and> same_links h h' (- {node})"
  using assms by (auto simp: llist_initial_node_def acc_defs llist_rep_def same_links_def)

lemma llist_node_append_rep:
  assumes rep: "llist_rep h l (as @ pos # bs)" and new: "node \<noteq> 0" "node \<notin> set (as @ pos # bs)"
  shows "\<exists>l' h'. llist_node_append l pos node h = Some (l', h')
    \<and> llist_rep h' l' (as @ pos # node # bs)
    \<and> same_links h h' (- ({node} \<union> set (as @ pos # bs)))"
proof (cases bs)
  case Nil
  with assms show ?thesis
    by (auto simp: llist_node_append_def acc_defs llist_rep_def same_links_def dseg_append)
next
  case (Cons b bs')
  with assms show ?thesis
    by (auto simp: llist_node_append_def acc_defs llist_rep_def same_links_def dseg_append
        last_or_def)
qed

lemma llist_node_prepend_rep:
  assumes rep: "llist_rep h l (as @ pos # bs)" and new: "node \<noteq> 0" "node \<notin> set (as @ pos # bs)"
  shows "\<exists>l' h'. llist_node_prepend l pos node h = Some (l', h')
    \<and> llist_rep h' l' (as @ node # pos # bs)
    \<and> same_links h h' (- ({node} \<union> set (as @ pos # bs)))"
proof (cases as rule: rev_cases)
  case Nil
  with assms show ?thesis
    by (auto simp: llist_node_prepend_def acc_defs llist_rep_def same_links_def dseg_append)
next
  case (snoc as' a)
  with assms show ?thesis
    by (cases as')
      (auto simp: llist_node_prepend_def acc_defs llist_rep_def same_links_def dseg_append)
qed

lemma llist_node_delete_rep:
  assumes rep: "llist_rep h l (as @ node # bs)"
  shows "\<exists>l' h'. llist_node_delete l node h = Some (l', h') \<and> llist_rep h' l' (as @ bs)
    \<and> unlinked h' node \<and> same_links h h' (- set (as @ node # bs))"
proof -
  note defs = llist_node_delete_def acc_defs llist_rep_def same_links_def dseg_append
    unlinked_def last_or_def Let_def
  have last: "cs = [] \<or> last cs \<in> set cs" for cs :: "addr list" by (cases cs) auto
  have hd: "cs = [] \<or> (\<exists>b bs. cs = b # bs)" for cs :: "addr list" by (cases cs) auto
  show ?thesis
  proof (cases as rule: rev_cases)
    case Nil
    with assms last [of "tl bs"] show ?thesis by (cases bs) (auto simp: defs)
  next
    case (snoc as' a)
    with assms hd [of as'] last [of "tl bs"] show ?thesis
      by (cases bs) (auto simp: defs)
  qed
qed

lemma llist_push_front_rep:
  assumes rep: "llist_rep h l xs" and new: "node \<noteq> 0" "node \<notin> set xs"
  shows "\<exists>l' h'. llist_push_front l node h = Some (l', h') \<and> llist_rep h' l' (node # xs)
    \<and> same_links h h' (- set (node # xs))"
proof (cases xs)
  case Nil
  then show ?thesis
    using llist_initial_node_rep [OF new(1), of l h] llist_rep_head [OF rep]
    by (auto simp: llist_push_front_def)
next
  case (Cons y ys)
  with rep have "ll_head l = y" "y \<noteq> 0" by (auto simp: llist_rep_def)
  then show ?thesis
    using llist_node_prepend_rep [of h l "[]" y ys node] rep new Cons
    by (auto simp: llist_push_front_def insert_commute)
qed

lemma llist_push_back_rep:
  assumes rep: "llist_rep h l xs" and new: "node \<noteq> 0" "node \<notin> set xs"
  shows "\<exists>l' h'. llist_push_back l node h = Some (l', h') \<and> llist_rep h' l' (xs @ [node])
    \<and> same_links h h' (- set (node # xs))"
proof (cases xs rule: rev_cases)
  case Nil
  then show ?thesis
    using llist_initial_node_rep [OF new(1), of l h] llist_rep_tail [OF rep]
    by (auto simp: llist_push_back_def)
next
  case (snoc ys y)
  with rep have "ll_tail l = y" "y \<noteq> 0" by (auto simp: llist_rep_def)
  then show ?thesis
    using llist_node_append_rep [of h l ys y "[]" node] rep new snoc
    by (auto simp: llist_push_back_def insert_commute)
qed

lemma llist_pop_front_rep:
  assumes rep: "llist_rep h l xs"
  shows "\<exists>l' h'. llist_pop_front l h = Some (hd_or xs 0, l', h') \<and> llist_rep h' l' (tl xs)
    \<and> same_links h h' (- set xs) \<and> (xs \<noteq> [] \<longrightarrow> unlinked h' (hd xs))"
proof (cases xs)
  case Nil
  then show ?thesis
    using rep llist_rep_head [OF rep] by (auto simp: llist_pop_front_def same_links_def Let_def)
next
  case (Cons y ys)
  with rep have "ll_head l = y" "y \<noteq> 0" by (auto simp: llist_rep_def)
  then show ?thesis
    using llist_node_delete_rep [of h l "[]" y ys] rep Cons
    by (auto simp: llist_pop_front_def Let_def)
qed

lemma llist_pop_back_rep:
  assumes rep: "llist_rep h l xs"
  shows "\<exists>l' h'. llist_pop_back l h = Some (last_or xs 0, l', h') \<and> llist_rep h' l' (butlast xs)
    \<and> same_links h h' (- set xs) \<and> (xs \<noteq> [] \<longrightarrow> unlinked h' (last xs))"
proof (cases xs rule: rev_cases)
  case Nil
  then show ?thesis
    using rep llist_rep_tail [OF rep] by (auto simp: llist_pop_back_def same_links_def Let_def)
next
  case (snoc ys y)
  with rep have "ll_tail l = y" "y \<noteq> 0" by (auto simp: llist_rep_def)
  then show ?thesis
    using llist_node_delete_rep [of h l ys y "[]"] rep snoc
    by (auto simp: llist_pop_back_def Let_def)
qed

text \<open>A node that is linked into a list is never self-linked in both directions, so the mark that
  \<^verbatim>\<open>llist_node_delete\<close> leaves is unambiguous.\<close>

lemma llist_member_not_unlinked:
  assumes rep: "llist_rep h l xs" and x: "x \<in> set xs"
  shows "\<not> unlinked h x"
proof -
  obtain as bs where "xs = as @ x # bs" using x by (auto simp: in_set_conv_decomp)
  with rep show ?thesis by (cases bs) (auto simp: llist_rep_def unlinked_def dseg_append)
qed

lemma llist_node_try_delete_member:
  assumes rep: "llist_rep h l xs" and x: "x \<in> set xs"
  shows "\<exists>l' h'. llist_node_try_delete l x h = Some (True, l', h')
    \<and> llist_rep h' l' (remove1 x xs) \<and> unlinked h' x \<and> same_links h h' (- set xs)"
proof -
  obtain as bs where xs: "xs = as @ x # bs" using x by (auto simp: in_set_conv_decomp)
  with rep have "distinct (as @ x # bs)" "x \<noteq> 0" by (auto simp: llist_rep_def)
  with xs have "remove1 x xs = as @ bs" by (simp add: remove1_append)
  moreover have "\<not> unlinked h x" by (rule llist_member_not_unlinked [OF rep x])
  ultimately show ?thesis
    using llist_node_delete_rep [of h l as x bs] rep xs \<open>x \<noteq> 0\<close>
    by (auto simp: llist_node_try_delete_def acc_defs unlinked_def)
qed

lemma llist_node_try_delete_unlinked:
  "x \<noteq> 0 \<Longrightarrow> unlinked h x \<Longrightarrow> llist_node_try_delete l x h = Some (False, l, h)"
  by (simp add: llist_node_try_delete_def acc_defs unlinked_def)

section \<open>The list as an abstract data type\<close>

text \<open>
  An abstract state is the sequence of linked nodes together with a set of nodes known to be
  deleted (self-linked). The operations are those of \<^verbatim>\<open>llist.h\<close>; insertions require a node that is
  not linked, deletions a node that is.
\<close>

datatype llist_op = PushFront addr | PushBack addr | PopFront | PopBack
  | InsertAfter addr addr | InsertBefore addr addr | Delete addr | TryDelete addr

datatype llist_res = NoResult | NodeResult addr | BoolResult bool

type_synonym llist_state = "llist \<times> llist_heap"
type_synonym seq_state = "addr list \<times> addr set"

fun llist_step :: "llist_op \<Rightarrow> llist_state \<Rightarrow> (llist_res \<times> llist_state) option" where
  "llist_step (PushFront n) (l, h) = map_option (Pair NoResult) (llist_push_front l n h)"
| "llist_step (PushBack n) (l, h) = map_option (Pair NoResult) (llist_push_back l n h)"
| "llist_step PopFront (l, h) = map_option (\<lambda>(n, s). (NodeResult n, s)) (llist_pop_front l h)"
| "llist_step PopBack (l, h) = map_option (\<lambda>(n, s). (NodeResult n, s)) (llist_pop_back l h)"
| "llist_step (InsertAfter p n) (l, h) = map_option (Pair NoResult) (llist_node_append l p n h)"
| "llist_step (InsertBefore p n) (l, h) = map_option (Pair NoResult) (llist_node_prepend l p n h)"
| "llist_step (Delete n) (l, h) = map_option (Pair NoResult) (llist_node_delete l n h)"
| "llist_step (TryDelete n) (l, h) =
     map_option (\<lambda>(b, s). (BoolResult b, s)) (llist_node_try_delete l n h)"

fun insert_after :: "addr \<Rightarrow> addr \<Rightarrow> addr list \<Rightarrow> addr list" where
  "insert_after p n [] = []"
| "insert_after p n (x # xs) = (if x = p then x # n # xs else x # insert_after p n xs)"

fun insert_before :: "addr \<Rightarrow> addr \<Rightarrow> addr list \<Rightarrow> addr list" where
  "insert_before p n [] = []"
| "insert_before p n (x # xs) = (if x = p then n # x # xs else x # insert_before p n xs)"

fun seq_step :: "llist_op \<Rightarrow> seq_state \<Rightarrow> llist_res \<times> seq_state" where
  "seq_step (PushFront n) (xs, D) = (NoResult, n # xs, D - {n})"
| "seq_step (PushBack n) (xs, D) = (NoResult, xs @ [n], D - {n})"
| "seq_step PopFront (xs, D) =
     (NodeResult (hd_or xs 0), tl xs, if xs = [] then D else insert (hd xs) D)"
| "seq_step PopBack (xs, D) =
     (NodeResult (last_or xs 0), butlast xs, if xs = [] then D else insert (last xs) D)"
| "seq_step (InsertAfter p n) (xs, D) = (NoResult, insert_after p n xs, D - {n})"
| "seq_step (InsertBefore p n) (xs, D) = (NoResult, insert_before p n xs, D - {n})"
| "seq_step (Delete n) (xs, D) = (NoResult, remove1 n xs, insert n D)"
| "seq_step (TryDelete n) (xs, D) =
     (BoolResult (n \<in> set xs), remove1 n xs, insert n D)"

fun seq_pre :: "llist_op \<Rightarrow> seq_state \<Rightarrow> bool" where
  "seq_pre (PushFront n) (xs, D) \<longleftrightarrow> n \<noteq> 0 \<and> n \<notin> set xs"
| "seq_pre (PushBack n) (xs, D) \<longleftrightarrow> n \<noteq> 0 \<and> n \<notin> set xs"
| "seq_pre PopFront (xs, D) \<longleftrightarrow> True"
| "seq_pre PopBack (xs, D) \<longleftrightarrow> True"
| "seq_pre (InsertAfter p n) (xs, D) \<longleftrightarrow> n \<noteq> 0 \<and> n \<notin> set xs \<and> p \<in> set xs"
| "seq_pre (InsertBefore p n) (xs, D) \<longleftrightarrow> n \<noteq> 0 \<and> n \<notin> set xs \<and> p \<in> set xs"
| "seq_pre (Delete n) (xs, D) \<longleftrightarrow> n \<in> set xs"
| "seq_pre (TryDelete n) (xs, D) \<longleftrightarrow> n \<in> set xs \<or> n \<in> D"

fun seq_rep :: "llist_state \<Rightarrow> seq_state \<Rightarrow> bool" where
  "seq_rep (l, h) (xs, D) \<longleftrightarrow> llist_rep h l xs \<and> D \<inter> set xs = {} \<and> 0 \<notin> D \<and> (\<forall>x\<in>D. unlinked h x)"

lemma insert_after_split:
  "p \<notin> set as \<Longrightarrow> insert_after p n (as @ p # bs) = as @ p # n # bs"
  by (induction as) auto

lemma insert_before_split:
  "p \<notin> set as \<Longrightarrow> insert_before p n (as @ p # bs) = as @ n # p # bs"
  by (induction as) auto

lemma unlinked_same: "same_links h h' S \<Longrightarrow> x \<in> S \<Longrightarrow> unlinked h' x = unlinked h x"
  by (simp add: same_links_def unlinked_def)

lemma unlinked_same_all:
  "same_links h h' (- S) \<Longrightarrow> \<forall>x\<in>D. unlinked h x \<Longrightarrow> D \<inter> S = {} \<Longrightarrow> \<forall>x\<in>D. unlinked h' x"
  using unlinked_same [of h h' "- S"] by blast

lemma seq_rep_delete:
  assumes rep: "seq_rep (l, h) (xs, D)" and n: "n \<in> set xs"
  shows "\<exists>l' h'. llist_node_delete l n h = Some (l', h') \<and> seq_rep (l', h') (remove1 n xs, insert n D)"
proof -
  obtain as bs where xs: "xs = as @ n # bs" using n by (auto simp: in_set_conv_decomp)
  with rep have d: "distinct (as @ n # bs)" "0 \<notin> set xs" by (auto simp: llist_rep_def)
  with xs have r: "remove1 n xs = as @ bs" by (simp add: remove1_append)
  obtain l' h' where "llist_node_delete l n h = Some (l', h')" "llist_rep h' l' (as @ bs)"
    "unlinked h' n" "same_links h h' (- set xs)"
    using llist_node_delete_rep [of h l as n bs] rep xs by auto
  then show ?thesis
    using rep d r xs unlinked_same_all [of h h' "set xs" D] by auto
qed

lemma llist_step_refines:
  assumes rep: "seq_rep s a" and pre: "seq_pre op a"
  shows "\<exists>s'. llist_step op s = Some (fst (seq_step op a), s') \<and> seq_rep s' (snd (seq_step op a))"
proof -
  obtain l h where s: "s = (l, h)" by (cases s)
  obtain xs D where a: "a = (xs, D)" by (cases a)
  note r = rep [unfolded s a]
  from r have lr: "llist_rep h l xs" and D: "D \<inter> set xs = {}" "0 \<notin> D" "\<forall>x\<in>D. unlinked h x"
    by auto
  have keep: "same_links h h' (- (insert n (set xs))) \<Longrightarrow> \<forall>x\<in>D - {n}. unlinked h' x" for h' n
    using D unlinked_same_all [of h h' "insert n (set xs)" "D - {n}"] by auto
  have split: "p \<in> set xs \<Longrightarrow> \<exists>as bs. xs = as @ p # bs \<and> p \<notin> set as" for p
    by (rule split_list_first)
  show ?thesis
  proof (cases op)
    case (PushFront n)
    with pre a D keep [of _ n] llist_push_front_rep [OF lr, of n] show ?thesis
      by (fastforce simp: s)
  next
    case (PushBack n)
    with pre a D keep [of _ n] llist_push_back_rep [OF lr, of n] show ?thesis
      by (fastforce simp: s)
  next
    case PopFront
    obtain l' h' where "llist_pop_front l h = Some (hd_or xs 0, l', h')" "llist_rep h' l' (tl xs)"
      "same_links h h' (- set xs)" "xs \<noteq> [] \<longrightarrow> unlinked h' (hd xs)"
      using llist_pop_front_rep [OF lr] by blast
    with PopFront a s D unlinked_same_all [of h h' "set xs" D] lr show ?thesis
      by (cases xs) (auto simp: llist_rep_def)
  next
    case PopBack
    obtain l' h' where "llist_pop_back l h = Some (last_or xs 0, l', h')"
      "llist_rep h' l' (butlast xs)" "same_links h h' (- set xs)" "xs \<noteq> [] \<longrightarrow> unlinked h' (last xs)"
      using llist_pop_back_rep [OF lr] by blast
    with PopBack a s D unlinked_same_all [of h h' "set xs" D] lr show ?thesis
      by (cases xs rule: rev_cases) (auto simp: llist_rep_def)
  next
    case (InsertAfter p n)
    with pre a obtain as bs where xs: "xs = as @ p # bs" "p \<notin> set as" using split [of p] by auto
    then show ?thesis
      using llist_node_append_rep [of h l as p bs n] lr InsertAfter pre a s D keep [of _ n]
      by (fastforce simp: insert_after_split insert_commute)
  next
    case (InsertBefore p n)
    with pre a obtain as bs where xs: "xs = as @ p # bs" "p \<notin> set as" using split [of p] by auto
    then show ?thesis
      using llist_node_prepend_rep [of h l as p bs n] lr InsertBefore pre a s D keep [of _ n]
      by (fastforce simp: insert_before_split insert_commute)
  next
    case (Delete n)
    with seq_rep_delete [OF r] pre a s show ?thesis by fastforce
  next
    case (TryDelete n)
    show ?thesis
    proof (cases "n \<in> set xs")
      case True
      with lr have "\<not> unlinked h n" "n \<noteq> 0"
        by (auto simp: llist_member_not_unlinked llist_rep_def)
      with seq_rep_delete [OF r True] TryDelete True a s show ?thesis
        by (fastforce simp: llist_node_try_delete_def acc_defs unlinked_def)
    next
      case False
      with pre a TryDelete have "n \<in> D" by simp
      with D have "n \<noteq> 0" "unlinked h n" by auto
      with llist_node_try_delete_unlinked [of n h l] False TryDelete a s r \<open>n \<in> D\<close> show ?thesis
        by (simp add: remove1_idem insert_absorb)
    qed
  qed
qed

interpretation llist_seq: refines llist_step seq_step seq_pre seq_rep
  by unfold_locales (rule llist_step_refines)

text \<open>
  C9. Every admissible sequence of list operations, starting from an initialised list, runs without
  dereferencing a null pointer, returns exactly what the same operations return on plain sequences,
  and ends in a well-formed doubly linked list of the resulting nodes whose deleted nodes are all
  marked. In particular \<^verbatim>\<open>llist_node_try_delete\<close> reports whether its node was still linked.
\<close>

theorem llist_implements_sequences:
  assumes "admissible seq_pre seq_step ops ([], {})"
  shows "\<exists>l h'. crun llist_step ops (LLIST_INIT, h) = Some (fst (arun seq_step ops ([], {})), l, h')
    \<and> seq_rep (l, h') (snd (arun seq_step ops ([], {})))"
proof -
  have "seq_rep (LLIST_INIT, h) ([], {})" by simp
  from llist_seq.run [OF this assms] show ?thesis by fastforce
qed

theorem llist_implements_sequences_witness:
  "\<exists>l h'. crun llist_step [PushFront 8, PushBack 16, PopFront, TryDelete 8, TryDelete 16]
      (LLIST_INIT, \<lparr>ln_next = (\<lambda>_. 0), ln_prev = (\<lambda>_. 0)\<rparr>) =
      Some ([NoResult, NoResult, NodeResult 8, BoolResult False, BoolResult True], l, h')
    \<and> llist_rep h' l [] \<and> unlinked h' 8 \<and> unlinked h' 16"
proof -
  let ?ops = "[PushFront 8, PushBack 16, PopFront, TryDelete 8, TryDelete 16]"
  have "admissible seq_pre seq_step ?ops ([], {})" by simp
  from llist_implements_sequences [OF this, of "\<lparr>ln_next = (\<lambda>_. 0), ln_prev = (\<lambda>_. 0)\<rparr>"]
  show ?thesis by (auto simp: Let_def simp del: crun.simps)
qed

section \<open>The intrusive stack\<close>

text \<open>\<^verbatim>\<open>stack_t\<close> is its head pointer; the store maps a node to its \<^verbatim>\<open>next\<close> field.\<close>

definition stack_push :: "addr \<Rightarrow> addr \<Rightarrow> (addr \<Rightarrow> addr) \<Rightarrow> (addr \<times> (addr \<Rightarrow> addr)) option" where
  "stack_push head node nx = (if node = 0 then None else Some (node, nx(node := head)))"

definition stack_pop :: "addr \<Rightarrow> (addr \<Rightarrow> addr) \<Rightarrow> addr \<times> addr" where
  "stack_pop head nx = (if head = 0 then (0, head) else (head, nx head))"

primrec stack_rep :: "(addr \<Rightarrow> addr) \<Rightarrow> addr \<Rightarrow> addr list \<Rightarrow> bool" where
  "stack_rep nx head [] \<longleftrightarrow> head = 0"
| "stack_rep nx head (x # xs) \<longleftrightarrow> head = x \<and> x \<noteq> 0 \<and> stack_rep nx (nx x) xs"

lemma stack_rep_upd [simp]: "a \<notin> set xs \<Longrightarrow> stack_rep (nx(a := v)) p xs = stack_rep nx p xs"
  by (induction xs arbitrary: p) auto

lemma stack_push_rep:
  "stack_rep nx head xs \<Longrightarrow> node \<noteq> 0 \<Longrightarrow> node \<notin> set xs \<Longrightarrow>
   \<exists>nx'. stack_push head node nx = Some (node, nx') \<and> stack_rep nx' node (node # xs)"
  by (simp add: stack_push_def)

lemma stack_pop_rep:
  "stack_rep nx head xs \<Longrightarrow>
   fst (stack_pop head nx) = hd_or xs 0 \<and> stack_rep nx (snd (stack_pop head nx)) (tl xs)"
  by (cases xs) (auto simp: stack_pop_def)

end
