(* ===== verification/Pheap.thy ===== *)
theory Pheap
  imports Prelude "HOL-Library.Tree"
begin

text \<open>
  The pairing heap of \<^verbatim>\<open>kernel/src/utils/dstruct/pheap.c\<close>, which orders sleeping threads by wake-up
  time, over an explicit store with one map per field of \<^verbatim>\<open>pheap_node\<close>. The key function
  \<^verbatim>\<open>value_of_node\<close> of the heap is the argument \<open>von\<close> of the operations. The two loops of
  \<^verbatim>\<open>pheap_merge_children\<close> are partial functions: \<open>None\<close> is a null dereference or a loop that never ends.

  A heap in the store is abstracted to a binary tree in left-child right-sibling form: \<open>Node c a s\<close> is
  the node \<open>a\<close> with first child tree \<open>c\<close> and following siblings \<open>s\<close>. The lemmas show that each operation
  refines an operation on these trees, that the tree operations keep heap order and the set of
  nodes, and hence that \<^verbatim>\<open>pheap_pop\<close> returns a node with the least key.
\<close>

section \<open>Store and operations\<close>

record pheap_heap =
  ph_left :: "addr \<Rightarrow> addr"
  ph_next :: "addr \<Rightarrow> addr"
  ph_prev :: "addr \<Rightarrow> addr"

definition get_left :: "pheap_heap \<Rightarrow> addr \<Rightarrow> addr option" where
  "get_left h p = (if p = 0 then None else Some (ph_left h p))"

definition get_nsib :: "pheap_heap \<Rightarrow> addr \<Rightarrow> addr option" where
  "get_nsib h p = (if p = 0 then None else Some (ph_next h p))"

definition get_psib :: "pheap_heap \<Rightarrow> addr \<Rightarrow> addr option" where
  "get_psib h p = (if p = 0 then None else Some (ph_prev h p))"

definition set_left :: "pheap_heap \<Rightarrow> addr \<Rightarrow> addr \<Rightarrow> pheap_heap option" where
  "set_left h p v = (if p = 0 then None else Some (h\<lparr>ph_left := (ph_left h)(p := v)\<rparr>))"

definition set_nsib :: "pheap_heap \<Rightarrow> addr \<Rightarrow> addr \<Rightarrow> pheap_heap option" where
  "set_nsib h p v = (if p = 0 then None else Some (h\<lparr>ph_next := (ph_next h)(p := v)\<rparr>))"

definition set_psib :: "pheap_heap \<Rightarrow> addr \<Rightarrow> addr \<Rightarrow> pheap_heap option" where
  "set_psib h p v = (if p = 0 then None else Some (h\<lparr>ph_prev := (ph_prev h)(p := v)\<rparr>))"

definition pheap_attach :: "addr \<Rightarrow> addr \<Rightarrow> pheap_heap \<Rightarrow> pheap_heap option" where
  "pheap_attach parent child h = do {
     h \<leftarrow> set_psib h child parent;
     l \<leftarrow> get_left h parent;
     h \<leftarrow> set_nsib h child l;
     l \<leftarrow> get_left h parent;
     h \<leftarrow> (if l \<noteq> 0 then set_psib h l child else Some h);
     set_left h parent child
   }"

definition pheap_detach :: "addr \<Rightarrow> pheap_heap \<Rightarrow> pheap_heap option" where
  "pheap_detach node h = do {
     prev \<leftarrow> get_psib h node;
     l \<leftarrow> get_left h prev;
     n \<leftarrow> get_nsib h node;
     h \<leftarrow> (if l = node then set_left h prev n else set_nsib h prev n);
     n \<leftarrow> get_nsib h node;
     if n \<noteq> 0 then set_psib h n prev else Some h
   }"

definition pheap_meld ::
  "(addr \<Rightarrow> u64) \<Rightarrow> addr \<Rightarrow> addr \<Rightarrow> pheap_heap \<Rightarrow> (addr \<times> pheap_heap) option" where
  "pheap_meld von first second h =
     (if first = 0 then Some (second, h)
      else if second = 0 then Some (first, h)
      else if von first \<le> von second
      then do { h \<leftarrow> pheap_attach first second h; Some (first, h) }
      else do { h \<leftarrow> pheap_attach second first h; Some (second, h) })"

text \<open>First loop of \<^verbatim>\<open>pheap_merge_children\<close>: meld the children in pairs from left to right.\<close>

partial_function (option) merge_pairs ::
  "(addr \<Rightarrow> u64) \<Rightarrow> addr \<Rightarrow> addr \<Rightarrow> pheap_heap \<Rightarrow> (addr \<times> pheap_heap) option" where
  "merge_pairs von cur pairs h =
     (if cur = 0 then Some (pairs, h)
      else do {
        let first = cur;
        second \<leftarrow> get_nsib h first;
        cur \<leftarrow> (if second \<noteq> 0 then get_nsib h second else Some 0);
        (first, h) \<leftarrow> pheap_meld von first second h;
        h \<leftarrow> set_nsib h first pairs;
        merge_pairs von cur first h
      })"

text \<open>Second loop: meld the pairs in the reverse order.\<close>

partial_function (option) merge_list ::
  "(addr \<Rightarrow> u64) \<Rightarrow> addr \<Rightarrow> addr \<Rightarrow> pheap_heap \<Rightarrow> (addr \<times> pheap_heap) option" where
  "merge_list von head pairs h =
     (if pairs = 0 then Some (head, h)
      else do {
        next \<leftarrow> get_nsib h pairs;
        (head, h) \<leftarrow> pheap_meld von head pairs h;
        merge_list von head next h
      })"

definition pheap_merge_children ::
  "(addr \<Rightarrow> u64) \<Rightarrow> addr \<Rightarrow> pheap_heap \<Rightarrow> (addr \<times> pheap_heap) option" where
  "pheap_merge_children von root h = do {
     cur \<leftarrow> get_left h root;
     (pairs, h) \<leftarrow> merge_pairs von cur 0 h;
     merge_list von 0 pairs h
   }"

definition pheap_insert ::
  "(addr \<Rightarrow> u64) \<Rightarrow> addr \<Rightarrow> addr \<Rightarrow> pheap_heap \<Rightarrow> (addr \<times> pheap_heap) option" where
  "pheap_insert von head node h = do {
     h \<leftarrow> set_left h node 0;
     pheap_meld von head node h
   }"

text \<open>\<^verbatim>\<open>pheap_pop\<close> returns the popped node and the new head.\<close>

definition pheap_pop ::
  "(addr \<Rightarrow> u64) \<Rightarrow> addr \<Rightarrow> pheap_heap \<Rightarrow> (addr \<times> addr \<times> pheap_heap) option" where
  "pheap_pop von head h =
     (let root = head in
      if root = 0 then Some (0, head, h)
      else do {
        (head, h) \<leftarrow> pheap_merge_children von root h;
        h \<leftarrow> set_left h root 1;
        Some (root, head, h)
      })"

definition pheap_remove ::
  "(addr \<Rightarrow> u64) \<Rightarrow> addr \<Rightarrow> addr \<Rightarrow> pheap_heap \<Rightarrow> (addr \<times> addr \<times> pheap_heap) option" where
  "pheap_remove von head node h =
     (if node = head then pheap_pop von head h
      else do {
        h \<leftarrow> pheap_detach node h;
        (children, h) \<leftarrow> pheap_merge_children von node h;
        (head, h) \<leftarrow> pheap_meld von head children h;
        h \<leftarrow> set_left h node 1;
        Some (node, head, h)
      })"

definition pheap_try_remove ::
  "(addr \<Rightarrow> u64) \<Rightarrow> addr \<Rightarrow> addr \<Rightarrow> pheap_heap \<Rightarrow> (addr \<times> addr \<times> pheap_heap) option" where
  "pheap_try_remove von head node h = do {
     l \<leftarrow> get_left h node;
     if l \<noteq> 1 then pheap_remove von head node h else Some (0, head, h)
   }"

definition pheap_peek :: "addr \<Rightarrow> addr" where
  "pheap_peek head = head"

section \<open>Trees in the store\<close>

fun root_of :: "addr tree \<Rightarrow> addr" where
  "root_of Leaf = 0"
| "root_of (Node c a s) = a"

text \<open>\<open>forest lf nx pv p t\<close>: the first-child, next-sibling and previous fields hold the tree \<open>t\<close>, and the
  previous field of its root is \<open>p\<close>. \<open>single\<close> is the same for a root whose sibling fields are free.\<close>

primrec forest ::
  "(addr \<Rightarrow> addr) \<Rightarrow> (addr \<Rightarrow> addr) \<Rightarrow> (addr \<Rightarrow> addr) \<Rightarrow> addr \<Rightarrow> addr tree \<Rightarrow> bool" where
  "forest lf nx pv p Leaf \<longleftrightarrow> True"
| "forest lf nx pv p (Node c a s) \<longleftrightarrow> a \<noteq> 0 \<and> pv a = p \<and> lf a = root_of c \<and> nx a = root_of s \<and>
     forest lf nx pv a c \<and> forest lf nx pv a s"

fun single :: "(addr \<Rightarrow> addr) \<Rightarrow> (addr \<Rightarrow> addr) \<Rightarrow> (addr \<Rightarrow> addr) \<Rightarrow> addr tree \<Rightarrow> bool" where
  "single lf nx pv Leaf \<longleftrightarrow> True"
| "single lf nx pv (Node c a s) \<longleftrightarrow> a \<noteq> 0 \<and> s = Leaf \<and> lf a = root_of c \<and> forest lf nx pv a c"

abbreviation nodes :: "'a tree \<Rightarrow> 'a set" where
  "nodes t \<equiv> set_tree t"

abbreviation dist :: "'a tree \<Rightarrow> bool" where
  "dist t \<equiv> distinct (inorder t)"

section \<open>Operations on trees\<close>

text \<open>Melding two single trees, pairing up a sibling list, and folding the pairs together.\<close>

fun tmeld :: "(addr \<Rightarrow> u64) \<Rightarrow> addr tree \<Rightarrow> addr tree \<Rightarrow> addr tree" where
  "tmeld v Leaf t = t"
| "tmeld v t Leaf = t"
| "tmeld v (Node c a s) (Node d b r) =
     (if v a \<le> v b then Node (Node d b c) a Leaf else Node (Node c a d) b Leaf)"

fun tpairs :: "(addr \<Rightarrow> u64) \<Rightarrow> addr tree \<Rightarrow> addr tree list \<Rightarrow> addr tree list" where
  "tpairs v Leaf acc = acc"
| "tpairs v (Node c a Leaf) acc = Node c a Leaf # acc"
| "tpairs v (Node c a (Node d b s)) acc =
     tpairs v s (tmeld v (Node c a Leaf) (Node d b Leaf) # acc)"

definition tmerge :: "(addr \<Rightarrow> u64) \<Rightarrow> addr tree \<Rightarrow> addr tree" where
  "tmerge v t = foldl (tmeld v) Leaf (tpairs v t [])"

fun tkids :: "addr \<Rightarrow> addr tree \<Rightarrow> addr tree" where
  "tkids x Leaf = Leaf"
| "tkids x (Node c a s) = (if a = x then c else if x \<in> nodes c then tkids x c else tkids x s)"

fun tcut :: "addr \<Rightarrow> addr tree \<Rightarrow> addr tree" where
  "tcut x Leaf = Leaf"
| "tcut x (Node c a s) = (if a = x then s else Node (tcut x c) a (tcut x s))"

definition tpop :: "(addr \<Rightarrow> u64) \<Rightarrow> addr tree \<Rightarrow> addr tree" where
  "tpop v t = (case t of Leaf \<Rightarrow> Leaf | Node c a s \<Rightarrow> tmerge v c)"

definition tremove :: "(addr \<Rightarrow> u64) \<Rightarrow> addr \<Rightarrow> addr tree \<Rightarrow> addr tree" where
  "tremove v x t = (if x = root_of t then tpop v t else tmeld v (tcut x t) (tmerge v (tkids x t)))"

section \<open>Frame rules\<close>

lemmas pacc_defs = get_left_def get_nsib_def get_psib_def set_left_def set_nsib_def set_psib_def

lemma root_of_in: "t \<noteq> Leaf \<Longrightarrow> root_of t \<in> nodes t"
  by (cases t) auto

lemma forest_nonzero: "forest lf nx pv p t \<Longrightarrow> 0 \<notin> nodes t"
  by (induction t arbitrary: p) auto

lemma forest_root_0: "forest lf nx pv p t \<Longrightarrow> root_of t = 0 \<longleftrightarrow> t = Leaf"
  by (cases t) auto

lemma forest_cong:
  "(\<And>x. x \<in> nodes t \<Longrightarrow> lf' x = lf x \<and> nx' x = nx x \<and> pv' x = pv x) \<Longrightarrow>
   forest lf' nx' pv' p t = forest lf nx pv p t"
  by (induction t arbitrary: p) auto

lemma forest_upd [simp]:
  "a \<notin> nodes t \<Longrightarrow> forest (lf(a := v)) nx pv p t = forest lf nx pv p t"
  "a \<notin> nodes t \<Longrightarrow> forest lf (nx(a := v)) pv p t = forest lf nx pv p t"
  "a \<notin> nodes t \<Longrightarrow> forest lf nx (pv(a := v)) p t = forest lf nx pv p t"
  by (auto intro!: forest_cong)

lemma forest_new_prev:
  "forest lf nx pv p t \<Longrightarrow> dist t \<Longrightarrow> t \<noteq> Leaf \<Longrightarrow> forest lf nx (pv(root_of t := q)) q t"
  by (cases t) auto

lemma single_frame:
  assumes "single lf nx pv t" "dist t"
    and "\<And>x. x \<in> nodes t \<Longrightarrow> lf' x = lf x"
    and "\<And>x. x \<in> nodes t \<Longrightarrow> x \<noteq> root_of t \<Longrightarrow> nx' x = nx x \<and> pv' x = pv x"
  shows "single lf' nx' pv' t"
proof (cases t)
  case (Node c a s)
  have "forest lf' nx' pv' a c = forest lf nx pv a c"
    by (rule forest_cong) (use assms Node in auto)
  with assms Node show ?thesis by auto
qed simp

lemma single_upd [simp]:
  "a \<notin> nodes t \<Longrightarrow> single (lf(a := v)) nx pv t = single lf nx pv t"
  "a \<notin> nodes t \<Longrightarrow> single lf (nx(a := v)) pv t = single lf nx pv t"
  "a \<notin> nodes t \<Longrightarrow> single lf nx (pv(a := v)) t = single lf nx pv t"
  subgoal by (cases t) auto
  subgoal by (cases t) auto
  subgoal by (cases t) auto
  done

lemma single_nonzero: "single lf nx pv t \<Longrightarrow> 0 \<notin> nodes t"
  by (cases t) (auto dest: forest_nonzero)

lemma single_root_0: "single lf nx pv t \<Longrightarrow> root_of t = 0 \<longleftrightarrow> t = Leaf"
  by (cases t) auto

text \<open>\<open>same3 h h' S\<close>: the stores agree on all fields of the nodes in \<open>S\<close>.\<close>

definition same3 :: "pheap_heap \<Rightarrow> pheap_heap \<Rightarrow> addr set \<Rightarrow> bool" where
  "same3 h h' S \<longleftrightarrow> (\<forall>x\<in>S. ph_left h' x = ph_left h x \<and> ph_next h' x = ph_next h x
     \<and> ph_prev h' x = ph_prev h x)"

abbreviation "hforest h \<equiv> forest (ph_left h) (ph_next h) (ph_prev h)"
abbreviation "hsingle h \<equiv> single (ph_left h) (ph_next h) (ph_prev h)"

lemma same3_trans: "same3 h h1 S \<Longrightarrow> same3 h1 h2 T \<Longrightarrow> same3 h h2 (S \<inter> T)"
  by (auto simp: same3_def)

lemma same3_mono: "same3 h h' S \<Longrightarrow> T \<subseteq> S \<Longrightarrow> same3 h h' T"
  by (auto simp: same3_def)

lemma same3_forest: "same3 h h' (nodes t) \<Longrightarrow> hforest h' p t = hforest h p t"
  by (rule forest_cong) (simp add: same3_def)

lemma same3_single: "same3 h h' (nodes t) \<Longrightarrow> dist t \<Longrightarrow> hsingle h t \<Longrightarrow> hsingle h' t"
  by (rule single_frame) (auto simp: same3_def)

section \<open>Melding and merging refine the tree operations\<close>

lemma pheap_attach_single:
  assumes "hsingle h (Node c a Leaf)" "hsingle h (Node d b Leaf)"
    and "dist (Node c a Leaf)" "dist (Node d b Leaf)"
    and "nodes (Node c a Leaf) \<inter> nodes (Node d b Leaf) = {}"
  shows "\<exists>h'. pheap_attach a b h = Some h' \<and> hsingle h' (Node (Node d b c) a Leaf)
    \<and> same3 h h' (- (nodes (Node c a Leaf) \<union> nodes (Node d b Leaf)))"
proof (cases c)
  case Leaf
  with assms show ?thesis by (auto simp: pheap_attach_def pacc_defs same3_def)
next
  case (Node c1 x c2)
  with assms show ?thesis by (auto simp: pheap_attach_def pacc_defs same3_def)
qed

fun is_single :: "addr tree \<Rightarrow> bool" where
  "is_single Leaf \<longleftrightarrow> True"
| "is_single (Node c a s) \<longleftrightarrow> s = Leaf"

lemma hsingle_is_single: "hsingle h t \<Longrightarrow> is_single t"
  by (cases t) auto

lemma nodes_tmeld [simp]:
  "is_single t \<Longrightarrow> is_single u \<Longrightarrow> nodes (tmeld v t u) = nodes t \<union> nodes u"
  by (cases t; cases u) auto

lemma dist_tmeld:
  "is_single t \<Longrightarrow> is_single u \<Longrightarrow> dist t \<Longrightarrow> dist u \<Longrightarrow> nodes t \<inter> nodes u = {} \<Longrightarrow>
   dist (tmeld v t u)"
  by (cases t; cases u) auto

lemma is_single_tmeld [simp]: "is_single t \<Longrightarrow> is_single u \<Longrightarrow> is_single (tmeld v t u)"
  by (cases t; cases u) auto

lemma pheap_meld_single:
  assumes t: "hsingle h t" "dist t" and u: "hsingle h u" "dist u" and d: "nodes t \<inter> nodes u = {}"
  shows "\<exists>h'. pheap_meld von (root_of t) (root_of u) h = Some (root_of (tmeld von t u), h')
    \<and> hsingle h' (tmeld von t u) \<and> same3 h h' (- (nodes t \<union> nodes u))"
proof (cases t)
  case Leaf
  with u show ?thesis by (simp add: pheap_meld_def same3_def)
next
  case tN: (Node c a s)
  show ?thesis
  proof (cases u)
    case Leaf
    with t tN show ?thesis by (auto simp: pheap_meld_def same3_def)
  next
    case (Node d b r)
    with tN t u d have "s = Leaf" "r = Leaf" "a \<noteq> 0" "b \<noteq> 0" by auto
    with tN Node t u d pheap_attach_single [of h c a d b] pheap_attach_single [of h d b c a]
    show ?thesis by (auto simp: pheap_meld_def Int_commute Un_commute insert_commute)
  qed
qed

primrec pairs_rep :: "pheap_heap \<Rightarrow> addr \<Rightarrow> addr tree list \<Rightarrow> bool" where
  "pairs_rep h p [] \<longleftrightarrow> p = 0"
| "pairs_rep h p (t # ts) \<longleftrightarrow> t \<noteq> Leaf \<and> p = root_of t \<and> hsingle h t \<and> pairs_rep h (ph_next h p) ts"

abbreviation lnodes :: "addr tree list \<Rightarrow> addr set" where
  "lnodes ts \<equiv> set (concat (map inorder ts))"

abbreviation ldist :: "addr tree list \<Rightarrow> bool" where
  "ldist ts \<equiv> distinct (concat (map inorder ts))"

lemma pairs_rep_frame:
  "pairs_rep h p ts \<Longrightarrow> ldist ts \<Longrightarrow> same3 h h' (lnodes ts) \<Longrightarrow> pairs_rep h' p ts"
proof (induction ts arbitrary: p)
  case (Cons t ts)
  from Cons.prems have s: "same3 h h' (nodes t)" "same3 h h' (lnodes ts)"
    by (auto elim!: same3_mono)
  with Cons.prems have "hsingle h' t" by (auto intro: same3_single)
  moreover have "ph_next h' p = ph_next h p"
    using s(1) Cons.prems root_of_in [of t] by (auto simp: same3_def)
  ultimately show ?case using Cons s(2) by auto
qed simp

lemma pairs_rep_single: "pairs_rep h p ts \<Longrightarrow> t \<in> set ts \<Longrightarrow> is_single t"
  by (induction ts arbitrary: p) (auto dest: hsingle_is_single)

lemma tmeld_nonleaf: "t \<noteq> Leaf \<Longrightarrow> tmeld v t u \<noteq> Leaf"
  by (cases t; cases u) auto

lemma merge_pairs_eq_0 [simp]: "merge_pairs von 0 pairs h = Some (pairs, h)"
  by (subst merge_pairs.simps) simp

lemma merge_list_eq_0 [simp]: "merge_list von head 0 h = Some (head, h)"
  by (subst merge_list.simps) simp

lemma merge_pairs_step:
  assumes f: "hforest h q (Node c a (Node d b s))" and dt: "dist (Node c a (Node d b s))"
  obtains h' where
    "merge_pairs von a p h =
       merge_pairs von (root_of s) (root_of (tmeld von (Node c a Leaf) (Node d b Leaf))) h'"
    "hsingle h' (tmeld von (Node c a Leaf) (Node d b Leaf))"
    "ph_next h' (root_of (tmeld von (Node c a Leaf) (Node d b Leaf))) = p"
    "same3 h h' (- nodes (Node c a (Node d b Leaf)))"
proof -
  let ?t = "Node c a Leaf" and ?u = "Node d b Leaf"
  let ?m = "tmeld von ?t ?u"
  have tu: "hsingle h ?t" "dist ?t" "hsingle h ?u" "dist ?u" "nodes ?t \<inter> nodes ?u = {}"
    using f dt by auto
  from pheap_meld_single [OF tu] obtain h1 where
    h1: "pheap_meld von a b h = Some (root_of ?m, h1)" "hsingle h1 ?m"
      "same3 h h1 (- (nodes ?t \<union> nodes ?u))"
    by auto
  have m: "?m \<noteq> Leaf" "dist ?m" by (rule tmeld_nonleaf, simp) (rule dist_tmeld, use tu in auto)
  then have r0: "root_of ?m \<noteq> 0" using h1(2) by (simp add: single_root_0)
  define h2 where "h2 = h1\<lparr>ph_next := (ph_next h1)(root_of ?m := p)\<rparr>"
  have "hsingle h2 ?m"
    by (rule single_frame [OF h1(2) m(2)]) (auto simp: h2_def)
  moreover have "same3 h h2 (- nodes (Node c a (Node d b Leaf)))"
    using h1(3) root_of_in [OF m(1)] by (auto simp: same3_def h2_def)
  moreover have "merge_pairs von a p h = merge_pairs von (root_of s) (root_of ?m) h2"
    using f h1(1) r0 by (subst merge_pairs.simps) (simp add: pacc_defs h2_def)
  ultimately show ?thesis using that [of h2] by (simp add: h2_def)
qed

lemma merge_pairs_rep:
  assumes "hforest h q t" "dist t" "pairs_rep h p ts" "ldist ts" "nodes t \<inter> lnodes ts = {}"
  shows "\<exists>p' h'. merge_pairs von (root_of t) p h = Some (p', h')
    \<and> pairs_rep h' p' (tpairs von t ts) \<and> same3 h h' (- (nodes t \<union> lnodes ts))"
  using assms
proof (induction von t ts arbitrary: h q p rule: tpairs.induct)
  case (1 von acc)
  then show ?case by (simp add: same3_def)
next
  case (2 von c a acc)
  define h2 where "h2 = h\<lparr>ph_next := (ph_next h)(a := p)\<rparr>"
  have "merge_pairs von a p h = Some (a, h2)"
    using 2 by (subst merge_pairs.simps) (simp add: pacc_defs pheap_meld_def h2_def)
  moreover have "pairs_rep h2 p acc"
    by (rule pairs_rep_frame [OF 2(3,4)]) (use 2 in \<open>auto simp: same3_def h2_def\<close>)
  ultimately show ?case using 2 by (auto simp: h2_def same3_def)
next
  case (3 von c a d b s acc)
  let ?m = "tmeld von (Node c a Leaf) (Node d b Leaf)"
  obtain h' where h': "merge_pairs von a p h = merge_pairs von (root_of s) (root_of ?m) h'"
    "hsingle h' ?m" "ph_next h' (root_of ?m) = p"
    "same3 h h' (- nodes (Node c a (Node d b Leaf)))"
    using merge_pairs_step [OF 3(2,3)] by blast
  have m: "?m \<noteq> Leaf" "nodes ?m = nodes (Node c a (Node d b Leaf))" "dist ?m"
    by (rule tmeld_nonleaf, simp) (simp_all, use 3(3) in auto)
  have "same3 h h' (nodes s)" "same3 h h' (lnodes acc)"
    by (rule same3_mono [OF h'(4)], use 3(3,6) in auto)+
  then have "hforest h' b s" "pairs_rep h' p acc"
    using 3(2,4,5) same3_forest [of h h' s] pairs_rep_frame by auto
  then obtain p' h2 where h2: "merge_pairs von (root_of s) (root_of ?m) h' = Some (p', h2)"
    "pairs_rep h2 p' (tpairs von s (?m # acc))" "same3 h' h2 (- (nodes s \<union> lnodes (?m # acc)))"
    using 3(1) [of h' b "root_of ?m"] h'(2,3) m 3(3,5,6) by (force simp: simp del: tmeld.simps)
  moreover have "same3 h h2 (- (nodes (Node c a (Node d b s)) \<union> lnodes acc))"
    using same3_trans [OF h'(4) h2(3)] m(2) by (elim same3_mono) auto
  ultimately show ?case using h'(1) by auto
qed

lemma tpairs_nodes:
  "lnodes (tpairs v t ts) = nodes t \<union> lnodes ts"
  by (induction v t ts rule: tpairs.induct) auto

lemma tpairs_dist:
  "dist t \<Longrightarrow> ldist ts \<Longrightarrow> nodes t \<inter> lnodes ts = {} \<Longrightarrow> ldist (tpairs v t ts)"
proof (induction v t ts rule: tpairs.induct)
  case (3 v c a d b s acc)
  have "dist (tmeld v (Node c a Leaf) (Node d b Leaf))"
    by (rule dist_tmeld) (use 3(2) in auto)
  moreover have "nodes s \<inter> lnodes (tmeld v (Node c a Leaf) (Node d b Leaf) # acc) = {}"
    "nodes (tmeld v (Node c a Leaf) (Node d b Leaf)) \<inter> lnodes acc = {}"
    using 3(2,4) by (auto simp del: tmeld.simps)
  ultimately show ?case using 3 by (simp del: tmeld.simps)
qed auto

lemma merge_list_rep:
  assumes "hsingle h t" "dist t" "pairs_rep h p ts" "ldist ts" "nodes t \<inter> lnodes ts = {}"
  shows "\<exists>h'. merge_list von (root_of t) p h = Some (root_of (foldl (tmeld von) t ts), h')
    \<and> hsingle h' (foldl (tmeld von) t ts) \<and> same3 h h' (- (nodes t \<union> lnodes ts))"
  using assms
proof (induction ts arbitrary: h t p)
  case Nil
  then show ?case by (simp add: same3_def)
next
  case (Cons u ts)
  then have u: "u \<noteq> Leaf" "p = root_of u" "hsingle h u" "pairs_rep h (ph_next h p) ts" "dist u"
    by auto
  then have p0: "p \<noteq> 0" by (simp add: single_root_0)
  obtain h1 where h1: "pheap_meld von (root_of t) p h = Some (root_of (tmeld von t u), h1)"
    "hsingle h1 (tmeld von t u)" "same3 h h1 (- (nodes t \<union> nodes u))"
    using pheap_meld_single [OF Cons.prems(1,2) u(3,5), of von] Cons.prems(5) u(2) by auto
  have m: "nodes (tmeld von t u) = nodes t \<union> nodes u" "dist (tmeld von t u)"
    using Cons.prems u hsingle_is_single [OF u(3)] hsingle_is_single [OF Cons.prems(1)]
    by (auto intro!: dist_tmeld)
  have "pairs_rep h1 (ph_next h p) ts"
    by (rule pairs_rep_frame [OF u(4)]) (use Cons.prems h1(3) in \<open>auto elim!: same3_mono\<close>)
  moreover have "nodes (tmeld von t u) \<inter> lnodes ts = {}" "ldist ts"
    using Cons.prems(4,5) m(1) by auto
  ultimately obtain h2 where h2: "merge_list von (root_of (tmeld von t u)) (ph_next h p) h1 =
      Some (root_of (foldl (tmeld von) t (u # ts)), h2)"
    "hsingle h2 (foldl (tmeld von) t (u # ts))"
    "same3 h1 h2 (- (nodes (tmeld von t u) \<union> lnodes ts))"
    using Cons.IH [OF h1(2) m(2), of "ph_next h p"] by auto
  moreover have "same3 h h2 (- (nodes t \<union> lnodes (u # ts)))"
    using same3_trans [OF h1(3) h2(3)] m(1) by (elim same3_mono) auto
  moreover have "merge_list von (root_of t) p h =
      merge_list von (root_of (tmeld von t u)) (ph_next h p) h1"
    using p0 h1(1) by (subst merge_list.simps) (simp add: pacc_defs)
  ultimately show ?case by auto
qed

lemma foldl_tmeld_nodes:
  "is_single t \<Longrightarrow> \<forall>u\<in>set ts. is_single u \<Longrightarrow>
   is_single (foldl (tmeld v) t ts) \<and> nodes (foldl (tmeld v) t ts) = nodes t \<union> lnodes ts"
  by (induction ts arbitrary: t) auto

lemma foldl_tmeld_dist:
  "is_single t \<Longrightarrow> \<forall>u\<in>set ts. is_single u \<Longrightarrow> dist t \<Longrightarrow> ldist ts \<Longrightarrow>
   nodes t \<inter> lnodes ts = {} \<Longrightarrow> dist (foldl (tmeld v) t ts)"
proof (induction ts arbitrary: t)
  case (Cons u ts)
  have "dist (tmeld v t u)" by (rule dist_tmeld) (use Cons.prems in auto)
  with Cons.IH [of "tmeld v t u"] Cons.prems show ?case by auto
qed simp

lemma tpairs_is_single: "\<forall>u\<in>set ts. is_single u \<Longrightarrow> \<forall>u\<in>set (tpairs v t ts). is_single u"
  by (induction v t ts rule: tpairs.induct) auto

lemma tmerge_nodes [simp]: "nodes (tmerge v t) = nodes t"
  using foldl_tmeld_nodes [of Leaf "tpairs v t []" v] tpairs_is_single [of "[]" v t]
  by (simp add: tmerge_def tpairs_nodes del: set_concat)

lemma tmerge_is_single [simp]: "is_single (tmerge v t)"
  using foldl_tmeld_nodes [of Leaf "tpairs v t []" v] tpairs_is_single [of "[]" v t]
  by (simp add: tmerge_def)

lemma tmerge_dist: "dist t \<Longrightarrow> dist (tmerge v t)"
  using foldl_tmeld_dist [of Leaf "tpairs v t []" v] tpairs_is_single [of "[]" v t]
    tpairs_dist [of t "[]" v]
  by (simp add: tmerge_def)

lemma pheap_merge_children_rep:
  assumes f: "hforest h a c" "dist c" "ph_left h a = root_of c" "a \<noteq> 0"
  shows "\<exists>h'. pheap_merge_children von a h = Some (root_of (tmerge von c), h')
    \<and> hsingle h' (tmerge von c) \<and> same3 h h' (- nodes c)"
proof -
  obtain p h1 where h1: "merge_pairs von (root_of c) 0 h = Some (p, h1)"
    "pairs_rep h1 p (tpairs von c [])" "same3 h h1 (- nodes c)"
    using merge_pairs_rep [OF f(1,2), of 0 "[]" von] by auto
  obtain h2 where h2: "merge_list von 0 p h1 = Some (root_of (tmerge von c), h2)"
    "hsingle h2 (tmerge von c)" "same3 h1 h2 (- nodes c)"
    using merge_list_rep [of h1 Leaf p "tpairs von c []" von] h1(2) tpairs_dist [OF f(2), of "[]" von]
      tpairs_nodes [of von c "[]"]
    by (auto simp: tmerge_def simp del: set_concat)
  show ?thesis
    using f(3,4) h1 h2 same3_trans [OF h1(3) h2(3)]
    by (auto simp: pheap_merge_children_def pacc_defs)
qed

section \<open>Insert, pop and remove\<close>

definition pheap_rep :: "pheap_heap \<Rightarrow> addr \<Rightarrow> addr tree \<Rightarrow> bool" where
  "pheap_rep h head t \<longleftrightarrow> head = root_of t \<and> hsingle h t \<and> dist t"

lemma pheap_insert_rep:
  assumes rep: "pheap_rep h head t" and new: "node \<noteq> 0" "node \<notin> nodes t"
  shows "\<exists>h'. pheap_insert von head node h = Some (root_of (tmeld von t (Node Leaf node Leaf)), h')
    \<and> pheap_rep h' (root_of (tmeld von t (Node Leaf node Leaf))) (tmeld von t (Node Leaf node Leaf))
    \<and> same3 h h' (- insert node (nodes t))"
proof -
  define h1 where "h1 = h\<lparr>ph_left := (ph_left h)(node := 0)\<rparr>"
  have "hsingle h1 t" "hsingle h1 (Node Leaf node Leaf)"
    using rep new by (auto simp: pheap_rep_def h1_def)
  then obtain h2 where "pheap_meld von (root_of t) node h1 =
      Some (root_of (tmeld von t (Node Leaf node Leaf)), h2)"
    "hsingle h2 (tmeld von t (Node Leaf node Leaf))" "same3 h1 h2 (- insert node (nodes t))"
    using pheap_meld_single [of h1 t "Node Leaf node Leaf" von] rep new
    by (auto simp: pheap_rep_def simp del: tmeld.simps)
  moreover have "dist (tmeld von t (Node Leaf node Leaf))"
    by (rule dist_tmeld) (use rep new hsingle_is_single in \<open>auto simp: pheap_rep_def\<close>)
  ultimately show ?thesis
    using rep new
    by (auto simp: pheap_insert_def pacc_defs pheap_rep_def h1_def same3_def simp del: tmeld.simps)
qed

lemma pheap_pop_rep:
  assumes rep: "pheap_rep h head t"
  shows "\<exists>h'. pheap_pop von head h = Some (root_of t, root_of (tpop von t), h')
    \<and> pheap_rep h' (root_of (tpop von t)) (tpop von t) \<and> same3 h h' (- nodes t)
    \<and> (t \<noteq> Leaf \<longrightarrow> ph_left h' (root_of t) = 1)"
proof (cases t)
  case Leaf
  with rep show ?thesis by (simp add: pheap_rep_def pheap_pop_def tpop_def same3_def)
next
  case (Node c a s)
  with rep have c: "hforest h a c" "dist c" "ph_left h a = root_of c" "a \<noteq> 0" "a \<notin> nodes c"
    "s = Leaf" "head = a"
    by (auto simp: pheap_rep_def)
  obtain h1 where h1: "pheap_merge_children von a h = Some (root_of (tmerge von c), h1)"
    "hsingle h1 (tmerge von c)" "same3 h h1 (- nodes c)"
    using pheap_merge_children_rep [OF c(1-4)] by blast
  with c Node show ?thesis
    by (auto simp: pheap_pop_def pheap_rep_def tpop_def pacc_defs same3_def tmerge_dist)
qed

text \<open>The effect of \<^verbatim>\<open>pheap_detach\<close> on each of the three fields.\<close>

definition det_left :: "(addr \<Rightarrow> addr) \<Rightarrow> (addr \<Rightarrow> addr) \<Rightarrow> (addr \<Rightarrow> addr) \<Rightarrow> addr \<Rightarrow> addr \<Rightarrow> addr" where
  "det_left lf nx pv x = (if lf (pv x) = x then lf(pv x := nx x) else lf)"

definition det_next :: "(addr \<Rightarrow> addr) \<Rightarrow> (addr \<Rightarrow> addr) \<Rightarrow> (addr \<Rightarrow> addr) \<Rightarrow> addr \<Rightarrow> addr \<Rightarrow> addr" where
  "det_next lf nx pv x = (if lf (pv x) = x then nx else nx(pv x := nx x))"

definition det_prev :: "(addr \<Rightarrow> addr) \<Rightarrow> (addr \<Rightarrow> addr) \<Rightarrow> addr \<Rightarrow> addr \<Rightarrow> addr" where
  "det_prev nx pv x = (if nx x \<noteq> 0 then pv(nx x := pv x) else pv)"

lemmas det_defs = det_left_def det_next_def det_prev_def forest_upd [unfolded fun_upd_def]

lemma tcut_notin [simp]: "x \<notin> nodes t \<Longrightarrow> tcut x t = t"
  by (induction t) auto

lemma tkids_notin [simp]: "x \<notin> nodes t \<Longrightarrow> tkids x t = Leaf"
  by (induction t) auto

lemma root_of_tcut: "x \<noteq> root_of t \<Longrightarrow> root_of (tcut x t) = root_of t"
  by (cases t) auto

lemma detach_neighbours:
  assumes "forest lf nx pv p t" "x \<in> nodes t" "x \<noteq> root_of t"
  shows "pv x \<in> nodes t \<and> (nx x = 0 \<or> nx x \<in> nodes t)"
proof -
  have "forest lf nx pv p t \<Longrightarrow> x \<in> nodes t \<Longrightarrow> pv x \<in> insert p (nodes t) \<and> nx x \<in> insert 0 (nodes t)
     \<and> (x \<noteq> root_of t \<longrightarrow> pv x \<in> nodes t)" for p
  proof (induction t arbitrary: p)
    case (Node c a s)
    then show ?case by (cases c; cases s) auto
  qed simp
  with assms show ?thesis by auto
qed

lemma forest_det_frame:
  assumes "forest lf nx pv p t" "pv x \<notin> nodes t" "nx x \<notin> nodes t"
  shows "forest (det_left lf nx pv x) (det_next lf nx pv x) (det_prev nx pv x) p t"
  using assms by (auto simp: det_defs)

lemma detach_forest:
  assumes "forest lf nx pv p t" "dist t" "x \<in> nodes t" "x \<noteq> root_of t"
  shows "forest (det_left lf nx pv x) (det_next lf nx pv x) (det_prev nx pv x) p (tcut x t)
    \<and> forest (det_left lf nx pv x) (det_next lf nx pv x) (det_prev nx pv x) x (tkids x t)
    \<and> det_left lf nx pv x x = root_of (tkids x t)"
  using assms
proof (induction t arbitrary: p)
  case (Node c a s)
  note prems = Node.prems
  consider (croot) "x = root_of c" "x \<in> nodes c" | (cdeep) "x \<in> nodes c" "x \<noteq> root_of c"
    | (sroot) "x = root_of s" "x \<in> nodes s" | (sdeep) "x \<in> nodes s" "x \<noteq> root_of s"
    using prems(3,4) by (cases "x = root_of c"; cases "x = root_of s") auto
  then show ?case
  proof cases
    case croot
    then obtain cc cs where c: "c = Node cc x cs" by (cases c) auto
    show ?thesis
    proof (cases cs)
      case Leaf
      with prems c show ?thesis by (auto simp: det_defs)
    next
      case (Node l y r)
      with prems c show ?thesis by (auto simp: det_defs)
    qed
  next
    case cdeep
    with Node.IH(1) [of a] prems
    have ih: "forest (det_left lf nx pv x) (det_next lf nx pv x) (det_prev nx pv x) a (tcut x c)"
      "forest (det_left lf nx pv x) (det_next lf nx pv x) (det_prev nx pv x) x (tkids x c)"
      "det_left lf nx pv x x = root_of (tkids x c)" by auto
    have nb: "pv x \<in> nodes c \<and> (nx x = 0 \<or> nx x \<in> nodes c)"
      using detach_neighbours [of lf nx pv a c x] cdeep prems by auto
    have "0 \<notin> nodes s" using prems forest_nonzero by auto
    with nb prems have "pv x \<notin> nodes s" "nx x \<notin> nodes s" by auto
    then have s: "forest (det_left lf nx pv x) (det_next lf nx pv x) (det_prev nx pv x) a s"
      using forest_det_frame prems by auto
    have a: "a \<noteq> pv x" "a \<noteq> nx x" "x \<notin> nodes s" using nb prems cdeep by auto
    with ih s cdeep prems show ?thesis
      by (auto simp: root_of_tcut det_defs)
  next
    case sroot
    then obtain sc ss where s: "s = Node sc x ss" by (cases s) auto
    then have ca: "root_of c \<noteq> x" using prems by (cases c) auto
    show ?thesis
    proof (cases ss)
      case Leaf
      with prems s ca show ?thesis by (auto simp: det_defs)
    next
      case (Node l y r)
      with prems s ca show ?thesis by (auto simp: det_defs)
    qed
  next
    case sdeep
    with Node.IH(2) [of a] prems
    have ih: "forest (det_left lf nx pv x) (det_next lf nx pv x) (det_prev nx pv x) a (tcut x s)"
      "forest (det_left lf nx pv x) (det_next lf nx pv x) (det_prev nx pv x) x (tkids x s)"
      "det_left lf nx pv x x = root_of (tkids x s)" by auto
    have nb: "pv x \<in> nodes s \<and> (nx x = 0 \<or> nx x \<in> nodes s)"
      using detach_neighbours [of lf nx pv a s x] sdeep prems by auto
    have "0 \<notin> nodes c" using prems forest_nonzero by auto
    with nb prems have "pv x \<notin> nodes c" "nx x \<notin> nodes c" by auto
    then have c: "forest (det_left lf nx pv x) (det_next lf nx pv x) (det_prev nx pv x) a c"
      using forest_det_frame prems by auto
    have a: "a \<noteq> pv x" "a \<noteq> nx x" "x \<notin> nodes c" using nb prems sdeep by auto
    with ih c sdeep prems show ?thesis
      by (auto simp: root_of_tcut det_defs)
  qed
qed simp

lemma forest_prev_neq:
  "forest lf nx pv p t \<Longrightarrow> dist t \<Longrightarrow> p \<notin> nodes t \<Longrightarrow> x \<in> nodes t \<Longrightarrow> pv x \<noteq> x"
proof (induction t arbitrary: p)
  case (Node c a s)
  then show ?case by (cases "x = a"; cases "x \<in> nodes c") auto
qed simp

lemma tkids_nodes: "nodes (tkids x t) \<subseteq> nodes t"
  by (induction t) auto

lemma tcut_sub: "nodes (tcut x t) \<subseteq> nodes t"
  by (induction t) auto

lemma tcut_nodes:
  "dist t \<Longrightarrow> x \<in> nodes t \<Longrightarrow> insert x (nodes (tcut x t) \<union> nodes (tkids x t)) = nodes t"
proof (induction t)
  case (Node c a s)
  consider "x = a" | "x \<noteq> a" "x \<in> nodes c" "x \<notin> nodes s" | "x \<noteq> a" "x \<in> nodes s" "x \<notin> nodes c"
    using Node.prems by (cases "x = a"; cases "x \<in> nodes c") auto
  then show ?case
  proof cases
    case 1
    with Node.prems show ?thesis by auto
  next
    case 2
    with Node.IH(1) Node.prems have "insert x (nodes (tcut x c) \<union> nodes (tkids x c)) = nodes c" by simp
    with 2 show ?thesis by (simp, blast)
  next
    case 3
    with Node.IH(2) Node.prems have "insert x (nodes (tcut x s) \<union> nodes (tkids x s)) = nodes s" by simp
    with 3 show ?thesis by (simp, blast)
  qed
qed simp

lemma tcut_disjoint:
  "dist t \<Longrightarrow> x \<in> nodes t \<Longrightarrow>
   dist (tcut x t) \<and> dist (tkids x t) \<and> nodes (tcut x t) \<inter> nodes (tkids x t) = {}
   \<and> x \<notin> nodes (tcut x t) \<and> x \<notin> nodes (tkids x t)"
proof (induction t)
  case (Node c a s)
  note sub = tcut_sub [of x c] tcut_sub [of x s] tkids_nodes [of x c] tkids_nodes [of x s]
  consider "x = a" | "x \<noteq> a" "x \<in> nodes c" "x \<notin> nodes s" | "x \<noteq> a" "x \<in> nodes s" "x \<notin> nodes c"
    using Node.prems by (cases "x = a"; cases "x \<in> nodes c") auto
  then show ?case
  proof cases
    case 1
    with Node.prems show ?thesis by auto
  next
    case 2
    with Node.IH(1) Node.prems sub show ?thesis by auto
  next
    case 3
    with Node.IH(2) Node.prems sub show ?thesis by auto
  qed
qed simp

lemma pheap_detach_rep:
  assumes s: "hsingle h t" "dist t" and x: "x \<in> nodes t" "x \<noteq> root_of t"
  shows "\<exists>h'. pheap_detach x h = Some h' \<and> hsingle h' (tcut x t) \<and> hforest h' x (tkids x t)
    \<and> ph_left h' x = root_of (tkids x t) \<and> same3 h h' (- nodes t)"
proof -
  obtain c a where t: "t = Node c a Leaf" using s x by (cases t) auto
  let ?lf = "ph_left h" and ?nx = "(ph_next h)(a := 0)" and ?pv = "(ph_prev h)(a := 0)"
  let ?h' = "\<lparr>ph_left = det_left ?lf (ph_next h) (ph_prev h) x,
      ph_next = det_next ?lf (ph_next h) (ph_prev h) x, ph_prev = det_prev (ph_next h) (ph_prev h) x\<rparr>"
  have f: "forest ?lf ?nx ?pv 0 t" using s t by auto
  have xa: "x \<noteq> a" "x \<in> nodes c" using x t by auto
  have nz: "0 \<notin> nodes t" using single_nonzero [OF s(1)] .
  then have x0: "x \<noteq> 0" using x by auto
  from detach_neighbours [OF f x] xa have nb: "ph_prev h x \<in> nodes t"
    "ph_next h x = 0 \<or> ph_next h x \<in> nodes t" by auto
  with nz have q0: "ph_prev h x \<noteq> 0" by auto
  have qx: "ph_prev h x \<noteq> x" using forest_prev_neq [OF f s(2) nz x(1)] xa by simp
  have "pheap_detach x h = Some ?h'"
    using x0 q0 qx by (auto simp: pheap_detach_def pacc_defs det_left_def det_next_def det_prev_def)
  moreover have "det_left ?lf ?nx ?pv x = det_left ?lf (ph_next h) (ph_prev h) x"
    using xa by (simp add: det_left_def)
  then have main: "forest (ph_left ?h') (det_next ?lf ?nx ?pv x) (det_prev ?nx ?pv x) 0 (tcut x t)"
      "forest (ph_left ?h') (det_next ?lf ?nx ?pv x) (det_prev ?nx ?pv x) x (tkids x t)"
      "ph_left ?h' x = root_of (tkids x t)"
    using detach_forest [OF f s(2) x] by simp_all
  moreover have same: "y \<noteq> a \<Longrightarrow> det_next ?lf ?nx ?pv x y = ph_next ?h' y
      \<and> det_prev ?nx ?pv x y = ph_prev ?h' y" for y
    using xa by (simp add: det_next_def det_prev_def)
  moreover have "hsingle ?h' (tcut x t)"
  proof -
    have tc: "tcut x t = Node (tcut x c) a Leaf" using t xa by simp
    with main(1) have "single (ph_left ?h') (det_next ?lf ?nx ?pv x) (det_prev ?nx ?pv x) (tcut x t)"
      by simp
    then show ?thesis
      by (rule single_frame) (use tcut_disjoint [OF s(2) x(1)] same tc in auto)
  qed
  moreover have "hforest ?h' x (tkids x t)"
  proof -
    have "a \<notin> nodes (tkids x t)" using tkids_nodes [of x c] t xa s(2) by auto
    then have "hforest ?h' x (tkids x t) =
      forest (ph_left ?h') (det_next ?lf ?nx ?pv x) (det_prev ?nx ?pv x) x (tkids x t)"
    proof (intro forest_cong)
      fix y assume "y \<in> nodes (tkids x t)"
      with \<open>a \<notin> nodes (tkids x t)\<close> have "y \<noteq> a" by auto
      from same [OF this] show "ph_left ?h' y = ph_left ?h' y \<and>
        ph_next ?h' y = det_next ?lf ?nx ?pv x y \<and> ph_prev ?h' y = det_prev ?nx ?pv x y" by simp
    qed
    then show ?thesis using main(2) by simp
  qed
  moreover have "same3 h ?h' (- nodes t)"
    using nb by (auto simp: same3_def det_left_def det_next_def det_prev_def)
  ultimately show ?thesis by blast
qed

lemma is_single_tcut: "is_single t \<Longrightarrow> x \<noteq> root_of t \<Longrightarrow> is_single (tcut x t)"
  by (cases t) auto

lemma tremove_nodes:
  assumes "is_single t" "dist t" "x \<in> nodes t"
  shows "nodes (tremove v x t) = nodes t - {x}" "dist (tremove v x t)" "is_single (tremove v x t)"
proof -
  have "nodes (tremove v x t) = nodes t - {x} \<and> dist (tremove v x t) \<and> is_single (tremove v x t)"
  proof (cases "x = root_of t")
    case True
    with assms show ?thesis by (cases t) (auto simp: tremove_def tpop_def tmerge_dist)
  next
    case False
    note d = tcut_disjoint [OF assms(2,3)] tcut_nodes [OF assms(2,3)]
    have "dist (tmeld v (tcut x t) (tmerge v (tkids x t)))"
      by (rule dist_tmeld) (use d tmerge_dist is_single_tcut [OF assms(1) False] in auto)
    with False d is_single_tcut [OF assms(1) False] show ?thesis
      by (auto simp: tremove_def)
  qed
  then show "nodes (tremove v x t) = nodes t - {x}" "dist (tremove v x t)" "is_single (tremove v x t)"
    by auto
qed

lemma pheap_remove_rep:
  assumes rep: "pheap_rep h head t" and x: "x \<in> nodes t"
  shows "\<exists>h'. pheap_remove von head x h = Some (x, root_of (tremove von x t), h')
    \<and> pheap_rep h' (root_of (tremove von x t)) (tremove von x t) \<and> same3 h h' (- nodes t)
    \<and> ph_left h' x = 1"
proof (cases "x = root_of t")
  case True
  with pheap_pop_rep [OF rep, of von] rep x show ?thesis
    by (auto simp: pheap_remove_def tremove_def pheap_rep_def)
next
  case False
  from rep have t: "head = root_of t" "hsingle h t" "dist t" by (auto simp: pheap_rep_def)
  have x0: "x \<noteq> 0" using single_nonzero [OF t(2)] x by auto
  note d = tcut_disjoint [OF t(3) x]
  have sub: "nodes (tkids x t) \<subseteq> nodes t" "nodes (tcut x t) \<subseteq> nodes t"
    by (rule tkids_nodes tcut_sub)+
  obtain h1 where h1: "pheap_detach x h = Some h1" "hsingle h1 (tcut x t)"
    "hforest h1 x (tkids x t)" "ph_left h1 x = root_of (tkids x t)" "same3 h h1 (- nodes t)"
    using pheap_detach_rep [OF t(2,3) x False] by blast
  obtain h2 where h2: "pheap_merge_children von x h1 = Some (root_of (tmerge von (tkids x t)), h2)"
    "hsingle h2 (tmerge von (tkids x t))" "same3 h1 h2 (- nodes (tkids x t))"
    using pheap_merge_children_rep [OF h1(3) _ h1(4) x0] d by blast
  have "hsingle h2 (tcut x t)"
    by (rule same3_single [OF _ _ h1(2)]) (use d same3_mono [OF h2(3)] in auto)
  then obtain h3 where h3: "pheap_meld von (root_of (tcut x t)) (root_of (tmerge von (tkids x t))) h2 =
      Some (root_of (tremove von x t), h3)" "hsingle h3 (tremove von x t)"
      "same3 h2 h3 (- (nodes (tcut x t) \<union> nodes (tkids x t)))"
    using pheap_meld_single [of h2 "tcut x t" "tmerge von (tkids x t)" von] h2(2) d tmerge_dist False
    by (auto simp: tremove_def)
  have r: "x \<notin> nodes (tremove von x t)" "dist (tremove von x t)"
    using tremove_nodes [OF hsingle_is_single [OF t(2)] t(3) x] by auto
  have "same3 h h3 (- nodes t)"
    using same3_trans [OF same3_trans [OF h1(5) h2(3)] h3(3)] sub by (elim same3_mono) auto
  then show ?thesis
    using False t x0 h1(1) h2(1) h3(1,2) r x
    by (auto simp: pheap_remove_def pheap_rep_def pacc_defs root_of_tcut same3_def)
qed

text \<open>A node in the heap never carries the canary, because address 1 is not the address of a node.\<close>

lemma forest_left_in: "forest lf nx pv p t \<Longrightarrow> x \<in> nodes t \<Longrightarrow> lf x \<in> insert 0 (nodes t)"
proof (induction t arbitrary: p)
  case (Node c a s)
  then show ?case by (cases c) auto
qed simp

lemma single_left_in: "hsingle h t \<Longrightarrow> x \<in> nodes t \<Longrightarrow> ph_left h x \<in> insert 0 (nodes t)"
proof (cases t)
  case (Node c a s)
  assume "hsingle h t" "x \<in> nodes t"
  with Node show ?thesis
    using forest_left_in [of "ph_left h" "ph_next h" "ph_prev h" a c x] by (cases c) auto
qed simp

lemma pheap_try_remove_member:
  assumes rep: "pheap_rep h head t" and x: "x \<in> nodes t" "1 \<notin> nodes t"
  shows "pheap_try_remove von head x h = pheap_remove von head x h"
proof -
  have "x \<noteq> 0" "ph_left h x \<noteq> 1"
    using rep x single_nonzero [of _ _ _ t] single_left_in [of h t x] by (auto simp: pheap_rep_def)
  then show ?thesis by (simp add: pheap_try_remove_def pacc_defs)
qed

lemma pheap_try_remove_canary:
  "x \<noteq> 0 \<Longrightarrow> ph_left h x = 1 \<Longrightarrow> pheap_try_remove von head x h = Some (0, head, h)"
  by (simp add: pheap_try_remove_def pacc_defs)

section \<open>Heap order\<close>

text \<open>Every node's key bounds the keys of its descendants from below.\<close>

primrec heap_ordered :: "(addr \<Rightarrow> u64) \<Rightarrow> addr tree \<Rightarrow> bool" where
  "heap_ordered v Leaf \<longleftrightarrow> True"
| "heap_ordered v (Node c a s) \<longleftrightarrow> (\<forall>y\<in>nodes c. v a \<le> v y) \<and> heap_ordered v c \<and> heap_ordered v s"

lemma heap_ordered_root:
  "heap_ordered v t \<Longrightarrow> is_single t \<Longrightarrow> y \<in> nodes t \<Longrightarrow> v (root_of t) \<le> v y"
  by (cases t) auto

lemma heap_ordered_tmeld:
  "heap_ordered v t \<Longrightarrow> heap_ordered v u \<Longrightarrow> is_single t \<Longrightarrow> is_single u \<Longrightarrow> heap_ordered v (tmeld v t u)"
  by (cases t; cases u) (auto intro: order_trans)

lemma heap_ordered_tpairs:
  "heap_ordered v t \<Longrightarrow> \<forall>u\<in>set ts. heap_ordered v u \<Longrightarrow> \<forall>u\<in>set (tpairs v t ts). heap_ordered v u"
proof (induction v t ts rule: tpairs.induct)
  case (3 v c a d b s acc)
  have "heap_ordered v (tmeld v (Node c a Leaf) (Node d b Leaf))"
    by (rule heap_ordered_tmeld) (use 3(2) in auto)
  with 3 show ?case by (simp del: tmeld.simps)
qed auto

lemma heap_ordered_foldl:
  "heap_ordered v t \<Longrightarrow> is_single t \<Longrightarrow> \<forall>u\<in>set ts. heap_ordered v u \<and> is_single u \<Longrightarrow>
   heap_ordered v (foldl (tmeld v) t ts)"
  by (induction ts arbitrary: t) (auto simp: heap_ordered_tmeld)

lemma heap_ordered_tmerge: "heap_ordered v t \<Longrightarrow> heap_ordered v (tmerge v t)"
  unfolding tmerge_def
  by (rule heap_ordered_foldl) (use heap_ordered_tpairs [of v t "[]"] tpairs_is_single [of "[]" v t] in auto)

lemma heap_ordered_tkids: "heap_ordered v t \<Longrightarrow> heap_ordered v (tkids x t)"
  by (induction t) auto

lemma heap_ordered_tcut: "heap_ordered v t \<Longrightarrow> heap_ordered v (tcut x t)"
  by (induction t) (use tcut_sub in auto)

lemma heap_ordered_tremove:
  "heap_ordered v t \<Longrightarrow> is_single t \<Longrightarrow> heap_ordered v (tremove v x t)"
  by (cases t) (auto simp: tremove_def tpop_def heap_ordered_tmerge heap_ordered_tkids
      heap_ordered_tcut intro!: heap_ordered_tmeld dest!: tcut_sub [THEN subsetD])

section \<open>The heap as an abstract data type\<close>

text \<open>
  What a client of a queue ordered by keys relies on: \<open>top\<close> is an element with the least key, \<open>pop\<close>
  removes exactly that element, and every operation keeps the invariant.
\<close>

locale min_queue =
  fixes elems :: "'q \<Rightarrow> 'n set"
    and invar :: "'q \<Rightarrow> bool"
    and key :: "'n \<Rightarrow> 'k::linorder"
    and add :: "'n \<Rightarrow> 'q \<Rightarrow> 'q"
    and top :: "'q \<Rightarrow> 'n"
    and pop :: "'q \<Rightarrow> 'q"
    and del :: "'n \<Rightarrow> 'q \<Rightarrow> 'q"
  assumes elems_finite: "invar q \<Longrightarrow> finite (elems q)"
    and elems_add: "invar q \<Longrightarrow> n \<notin> elems q \<Longrightarrow> elems (add n q) = insert n (elems q)"
    and top_in: "invar q \<Longrightarrow> elems q \<noteq> {} \<Longrightarrow> top q \<in> elems q"
    and top_least: "invar q \<Longrightarrow> y \<in> elems q \<Longrightarrow> key (top q) \<le> key y"
    and elems_pop: "invar q \<Longrightarrow> elems q \<noteq> {} \<Longrightarrow> elems (pop q) = elems q - {top q}"
    and elems_del: "invar q \<Longrightarrow> n \<in> elems q \<Longrightarrow> elems (del n q) = elems q - {n}"
    and invar_add: "invar q \<Longrightarrow> n \<notin> elems q \<Longrightarrow> invar (add n q)"
    and invar_pop: "invar q \<Longrightarrow> elems q \<noteq> {} \<Longrightarrow> invar (pop q)"
    and invar_del: "invar q \<Longrightarrow> n \<in> elems q \<Longrightarrow> invar (del n q)"
begin

lemma pop_card: "invar q \<Longrightarrow> elems q \<noteq> {} \<Longrightarrow> card (elems (pop q)) < card (elems q)"
  using card_Diff1_less [OF elems_finite top_in] by (simp add: elems_pop)

lemma pops_ascend:
  assumes "invar q" "elems q \<noteq> {}" "elems (pop q) \<noteq> {}"
  shows "key (top q) \<le> key (top (pop q))"
  using assms top_in [of "pop q"] by (auto intro!: top_least simp: elems_pop invar_pop)

end

definition pheap_ok :: "(addr \<Rightarrow> u64) \<Rightarrow> addr tree \<Rightarrow> bool" where
  "pheap_ok v t \<longleftrightarrow> heap_ordered v t \<and> is_single t \<and> dist t"

definition tinsert :: "(addr \<Rightarrow> u64) \<Rightarrow> addr \<Rightarrow> addr tree \<Rightarrow> addr tree" where
  "tinsert v n t = tmeld v t (Node Leaf n Leaf)"

lemma pheap_ok_tinsert: "pheap_ok v t \<Longrightarrow> n \<notin> nodes t \<Longrightarrow> pheap_ok v (tinsert v n t)"
  by (auto simp: pheap_ok_def tinsert_def simp del: tmeld.simps
      intro!: heap_ordered_tmeld dist_tmeld is_single_tmeld)

lemma pheap_ok_tpop: "pheap_ok v t \<Longrightarrow> pheap_ok v (tpop v t)"
  by (cases t) (auto simp: pheap_ok_def tpop_def heap_ordered_tmerge tmerge_dist)

lemma pheap_ok_tremove: "pheap_ok v t \<Longrightarrow> n \<in> nodes t \<Longrightarrow> pheap_ok v (tremove v n t)"
  using tremove_nodes [of t n v] heap_ordered_tremove [of v t n] by (auto simp: pheap_ok_def)

interpretation pheap_queue: min_queue nodes "pheap_ok v" v "tinsert v" root_of "tpop v" "tremove v"
  for v
proof unfold_locales
  fix q n y
  assume q: "pheap_ok v q"
  show "finite (nodes q)" by simp
  show "nodes (tinsert v n q) = insert n (nodes q)"
    using q by (simp add: pheap_ok_def tinsert_def del: tmeld.simps)
  show "nodes q \<noteq> {} \<Longrightarrow> root_of q \<in> nodes q" by (cases q) auto
  show "y \<in> nodes q \<Longrightarrow> v (root_of q) \<le> v y"
    using q by (auto simp: pheap_ok_def intro: heap_ordered_root)
  show "nodes q \<noteq> {} \<Longrightarrow> nodes (tpop v q) = nodes q - {root_of q}"
    using q by (cases q) (auto simp: pheap_ok_def tpop_def)
  show "n \<in> nodes q \<Longrightarrow> nodes (tremove v n q) = nodes q - {n}"
    using q tremove_nodes(1) by (auto simp: pheap_ok_def)
  show "n \<notin> nodes q \<Longrightarrow> pheap_ok v (tinsert v n q)" using q by (rule pheap_ok_tinsert)
  show "pheap_ok v (tpop v q)" using q by (rule pheap_ok_tpop)
  show "n \<in> nodes q \<Longrightarrow> pheap_ok v (tremove v n q)" using q by (rule pheap_ok_tremove)
qed

text \<open>The operations of \<^verbatim>\<open>pheap.h\<close> as one step function; a result of 0 is the null pointer, which
  \<^verbatim>\<open>pheap_insert\<close> (a procedure) also gets. The abstract state is the tree and the set of nodes that
  carry the removal canary.\<close>

datatype pheap_op = PInsert addr | PPop | PRemove addr | PTryRemove addr | PPeek

fun pheap_step ::
  "(addr \<Rightarrow> u64) \<Rightarrow> pheap_op \<Rightarrow> addr \<times> pheap_heap \<Rightarrow> (addr \<times> addr \<times> pheap_heap) option" where
  "pheap_step von (PInsert n) (head, h) = map_option (Pair 0) (pheap_insert von head n h)"
| "pheap_step von PPop (head, h) = pheap_pop von head h"
| "pheap_step von (PRemove n) (head, h) = pheap_remove von head n h"
| "pheap_step von (PTryRemove n) (head, h) = pheap_try_remove von head n h"
| "pheap_step von PPeek (head, h) = Some (pheap_peek head, head, h)"

fun ptree_step ::
  "(addr \<Rightarrow> u64) \<Rightarrow> pheap_op \<Rightarrow> addr tree \<times> addr set \<Rightarrow> addr \<times> addr tree \<times> addr set" where
  "ptree_step v (PInsert n) (t, D) = (0, tinsert v n t, D - {n})"
| "ptree_step v PPop (t, D) = (root_of t, tpop v t, if t = Leaf then D else insert (root_of t) D)"
| "ptree_step v (PRemove n) (t, D) = (n, tremove v n t, insert n D)"
| "ptree_step v (PTryRemove n) (t, D) =
     (if n \<in> nodes t then (n, tremove v n t, insert n D) else (0, t, D))"
| "ptree_step v PPeek (t, D) = (root_of t, t, D)"

fun ptree_pre :: "pheap_op \<Rightarrow> addr tree \<times> addr set \<Rightarrow> bool" where
  "ptree_pre (PInsert n) (t, D) \<longleftrightarrow> n \<noteq> 0 \<and> n \<noteq> 1 \<and> n \<notin> nodes t"
| "ptree_pre (PRemove n) (t, D) \<longleftrightarrow> n \<in> nodes t"
| "ptree_pre (PTryRemove n) (t, D) \<longleftrightarrow> n \<in> nodes t \<or> n \<in> D"
| "ptree_pre _ (t, D) \<longleftrightarrow> True"

fun ptree_rep :: "(addr \<Rightarrow> u64) \<Rightarrow> addr \<times> pheap_heap \<Rightarrow> addr tree \<times> addr set \<Rightarrow> bool" where
  "ptree_rep v (head, h) (t, D) \<longleftrightarrow> pheap_rep h head t \<and> pheap_ok v t \<and> 1 \<notin> nodes t
     \<and> D \<inter> nodes t = {} \<and> 0 \<notin> D \<and> (\<forall>x\<in>D. ph_left h x = 1)"

lemma same3_left: "same3 h h' (- A) \<Longrightarrow> D \<inter> A = {} \<Longrightarrow> x \<in> D \<Longrightarrow> ph_left h' x = ph_left h x"
  unfolding same3_def by blast

lemma pheap_rep_nonzero: "pheap_rep h head t \<Longrightarrow> 0 \<notin> nodes t"
  by (auto simp: pheap_rep_def dest: single_nonzero)

lemma pheap_step_remove:
  assumes r: "ptree_rep v (head, h) (t, D)" and n: "n \<in> nodes t"
  shows "\<exists>s'. pheap_remove v head n h = Some (n, s') \<and> ptree_rep v s' (tremove v n t, insert n D)"
proof -
  from r have rep: "pheap_rep h head t" and ok: "pheap_ok v t" by auto
  obtain h' where h': "pheap_remove v head n h = Some (n, root_of (tremove v n t), h')"
    "pheap_rep h' (root_of (tremove v n t)) (tremove v n t)" "same3 h h' (- nodes t)"
    "ph_left h' n = 1"
    using pheap_remove_rep [OF rep n] by blast
  moreover have "nodes (tremove v n t) = nodes t - {n}" by (rule pheap_queue.elems_del [OF ok n])
  moreover have "\<forall>x\<in>D. ph_left h' x = 1" using same3_left [OF h'(3)] r by auto
  ultimately show ?thesis
    using r n pheap_ok_tremove [OF ok n] pheap_rep_nonzero [OF rep] by auto
qed

lemma pheap_step_refines:
  assumes r: "ptree_rep v s a" and p: "ptree_pre op a"
  shows "\<exists>s'. pheap_step v op s = Some (fst (ptree_step v op a), s')
    \<and> ptree_rep v s' (snd (ptree_step v op a))"
proof -
  obtain head h where s: "s = (head, h)" by (cases s)
  obtain t D where a: "a = (t, D)" by (cases a)
  note r' = r [unfolded s a]
  from r' have rep: "pheap_rep h head t" and ok: "pheap_ok v t" by auto
  show ?thesis
  proof (cases op)
    case (PInsert n)
    with p a have n: "n \<noteq> 0" "n \<noteq> 1" "n \<notin> nodes t" by auto
    obtain h' where "pheap_insert v head n h = Some (root_of (tinsert v n t), h')"
      "pheap_rep h' (root_of (tinsert v n t)) (tinsert v n t)" "same3 h h' (- insert n (nodes t))"
      using pheap_insert_rep [OF rep n(1,3), of v] by (auto simp: tinsert_def)
    with n r' PInsert a s pheap_queue.elems_add [OF ok n(3)] pheap_ok_tinsert [OF ok n(3)]
    show ?thesis by (auto simp: same3_def)
  next
    case PPop
    obtain h' where h': "pheap_pop v head h = Some (root_of t, root_of (tpop v t), h')"
      "pheap_rep h' (root_of (tpop v t)) (tpop v t)" "same3 h h' (- nodes t)"
      "t \<noteq> Leaf \<longrightarrow> ph_left h' (root_of t) = 1"
      using pheap_pop_rep [OF rep, of v] by blast
    show ?thesis
    proof (cases "t = Leaf")
      case True
      with h' PPop r' a s show ?thesis by (auto simp: same3_def tpop_def pheap_ok_def)
    next
      case False
      then have "nodes (tpop v t) = nodes t - {root_of t}" "root_of t \<in> nodes t"
        using pheap_queue.elems_pop [OF ok] root_of_in by auto
      with False h' PPop r' a s pheap_ok_tpop [OF ok] pheap_rep_nonzero [OF rep] same3_left [OF h'(3)]
      show ?thesis by auto
    qed
  next
    case (PRemove n)
    with pheap_step_remove [OF r'] p a s show ?thesis by fastforce
  next
    case (PTryRemove n)
    show ?thesis
    proof (cases "n \<in> nodes t")
      case True
      with pheap_step_remove [OF r' True] pheap_try_remove_member [OF rep True] r' PTryRemove a s
      show ?thesis by auto
    next
      case False
      with p a PTryRemove r' have "n \<noteq> 0" "ph_left h n = 1" by auto
      with False PTryRemove r' a s show ?thesis by (simp add: pheap_try_remove_canary)
    qed
  next
    case PPeek
    with r' a s show ?thesis by (auto simp: pheap_peek_def pheap_rep_def)
  qed
qed

interpretation pheap_trees: refines "pheap_step v" "ptree_step v" ptree_pre "ptree_rep v" for v
  by unfold_locales (rule pheap_step_refines)

text \<open>
  The set-level specification of a run: \<open>S\<close> holds the nodes that were inserted and not yet removed;
  a pop or peek gives some element of least key, or the null pointer when there is none.
\<close>

definition least_of :: "(addr \<Rightarrow> u64) \<Rightarrow> addr set \<Rightarrow> addr \<Rightarrow> bool" where
  "least_of v S r \<longleftrightarrow> (if S = {} then r = 0 else r \<in> S \<and> (\<forall>y\<in>S. v r \<le> v y))"

fun pq_spec :: "(addr \<Rightarrow> u64) \<Rightarrow> pheap_op list \<Rightarrow> addr list \<Rightarrow> addr set \<Rightarrow> addr set \<Rightarrow> bool" where
  "pq_spec v [] [] S S' \<longleftrightarrow> S = S'"
| "pq_spec v (PInsert n # ops) (r # rs) S S' \<longleftrightarrow> pq_spec v ops rs (insert n S) S'"
| "pq_spec v (PPop # ops) (r # rs) S S' \<longleftrightarrow> least_of v S r \<and> pq_spec v ops rs (S - {r}) S'"
| "pq_spec v (PRemove n # ops) (r # rs) S S' \<longleftrightarrow> r = n \<and> pq_spec v ops rs (S - {n}) S'"
| "pq_spec v (PTryRemove n # ops) (r # rs) S S' \<longleftrightarrow>
     r = (if n \<in> S then n else 0) \<and> pq_spec v ops rs (S - {n}) S'"
| "pq_spec v (PPeek # ops) (r # rs) S S' \<longleftrightarrow> least_of v S r \<and> pq_spec v ops rs S S'"
| "pq_spec v _ _ S S' \<longleftrightarrow> False"

lemma least_of_root: "pheap_ok v t \<Longrightarrow> least_of v (nodes t) (root_of t)"
  using pheap_queue.top_in pheap_queue.top_least by (cases "t = Leaf") (auto simp: least_of_def)

lemma nodes_tpop: "pheap_ok v t \<Longrightarrow> 0 \<notin> nodes t \<Longrightarrow> nodes (tpop v t) = nodes t - {root_of t}"
  using pheap_queue.elems_pop by (cases "t = Leaf") (auto simp: tpop_def)

lemma pq_spec_trees:
  "pheap_ok v t \<Longrightarrow> 0 \<notin> nodes t \<Longrightarrow> admissible ptree_pre (ptree_step v) ops (t, D) \<Longrightarrow>
   pq_spec v ops (fst (arun (ptree_step v) ops (t, D))) (nodes t)
     (nodes (fst (snd (arun (ptree_step v) ops (t, D)))))"
proof (induction ops arbitrary: t D)
  case (Cons op ops)
  show ?case
  proof (cases op)
    case (PInsert n)
    with Cons.prems Cons.IH [of "tinsert v n t" "D - {n}"] show ?thesis
      by (auto simp: Let_def split_def pheap_queue.elems_add pheap_ok_tinsert)
  next
    case PPop
    with Cons.prems Cons.IH [of "tpop v t" "if t = Leaf then D else insert (root_of t) D"]
    show ?thesis
      by (auto simp: Let_def split_def nodes_tpop pheap_ok_tpop least_of_root)
  next
    case (PRemove n)
    with Cons.prems Cons.IH [of "tremove v n t" "insert n D"] show ?thesis
      by (auto simp: Let_def split_def pheap_queue.elems_del pheap_ok_tremove)
  next
    case (PTryRemove n)
    with Cons.prems Cons.IH [of "tremove v n t" "insert n D"] Cons.IH [of t D] show ?thesis
      by (auto simp: Let_def split_def pheap_queue.elems_del pheap_ok_tremove)
  next
    case PPeek
    with Cons.prems Cons.IH [of t D] show ?thesis
      by (auto simp: Let_def split_def least_of_root)
  qed
qed simp

text \<open>
  C8. The intrusive pairing heap is a priority queue. Any admissible sequence of inserts, pops, peeks,
  removals and tentative removals on an empty heap runs without a null dereference and terminates;
  every pop and peek returns a node of least key among the nodes inserted and not yet removed (the
  null pointer when there are none), pop and remove take out exactly the node they return, and
  \<^verbatim>\<open>pheap_try_remove\<close> succeeds exactly on the nodes that are still in the heap. The final pointers
  represent a heap-ordered tree with exactly the remaining nodes.
\<close>

theorem pheap_is_priority_queue:
  assumes "admissible ptree_pre (ptree_step v) ops (Leaf, {})"
  shows "\<exists>rs head h' t D. crun (pheap_step v) ops (0, h) = Some (rs, head, h')
    \<and> pq_spec v ops rs {} (nodes t) \<and> pheap_rep h' head t \<and> heap_ordered v t
    \<and> (t, D) = snd (arun (ptree_step v) ops (Leaf, {}))"
proof -
  have "ptree_rep v (0, h) (Leaf, {})" by (simp add: pheap_rep_def pheap_ok_def)
  from pheap_trees.run [OF this assms] obtain head h' where
    "crun (pheap_step v) ops (0, h) = Some (fst (arun (ptree_step v) ops (Leaf, {})), head, h')"
    "ptree_rep v (head, h') (snd (arun (ptree_step v) ops (Leaf, {})))" by fastforce
  moreover have "pq_spec v ops (fst (arun (ptree_step v) ops (Leaf, {}))) {}
      (nodes (fst (snd (arun (ptree_step v) ops (Leaf, {})))))"
    using pq_spec_trees [OF _ _ assms] by (simp add: pheap_ok_def)
  ultimately show ?thesis
    by (cases "snd (arun (ptree_step v) ops (Leaf, {}))") (auto simp: pheap_ok_def)
qed

theorem pheap_is_priority_queue_witness:
  "\<exists>rs head h' t. crun (pheap_step (\<lambda>n. if n = 16 then 3 else 7))
      [PInsert 8, PInsert 16, PPop, PTryRemove 16, PPeek]
      (0, \<lparr>ph_left = (\<lambda>_. 0), ph_next = (\<lambda>_. 0), ph_prev = (\<lambda>_. 0)\<rparr>) = Some (rs, head, h')
    \<and> pq_spec (\<lambda>n. if n = 16 then 3 else 7) [PInsert 8, PInsert 16, PPop, PTryRemove 16, PPeek] rs {}
        (nodes t)
    \<and> pheap_rep h' head t \<and> nodes t = {8}"
proof -
  let ?v = "\<lambda>n::addr. if n = 16 then 3 else 7 :: u64"
  let ?ops = "[PInsert 8, PInsert 16, PPop, PTryRemove 16, PPeek]"
  have "admissible ptree_pre (ptree_step ?v) ?ops (Leaf, {})"
    by (simp add: tinsert_def tpop_def tmerge_def)
  from pheap_is_priority_queue [OF this, of "\<lparr>ph_left = (\<lambda>_. 0), ph_next = (\<lambda>_. 0), ph_prev = (\<lambda>_. 0)\<rparr>"]
  show ?thesis by (auto simp: tinsert_def tpop_def tmerge_def simp del: crun.simps pq_spec.simps
        intro!: exI [of _ "Node Leaf 8 Leaf"])
qed

end
