(* ===== verification/RbTree.thy ===== *)
theory RbTree
  imports Prelude "HOL-Library.Tree"
begin

text \<open>
  Red-black trees as the algorithms of \<^verbatim>\<open>utils/dstruct/rbtree.c\<close> build them: insertion and removal
  walk up from the changed node with parent pointers, which is a walk along a zipper (the list of
  frames from the node to the root). The theory gives the functional counterparts of
  \<^verbatim>\<open>rbtree_insert\<close>, \<^verbatim>\<open>rbtree_remove\<close> and the searches, and shows that they keep the red-black
  balance and the key order. The theory \<open>RbPtr\<close> shows that the pointer code computes exactly these
  functions.
\<close>

section \<open>Trees, directions and zippers\<close>

datatype color = Red | Black

type_synonym rbtree_direction = bool

type_synonym rbt = "(addr \<times> color) tree"

abbreviation (input) RB_LEFT :: rbtree_direction where "RB_LEFT \<equiv> False"

abbreviation (input) RB_RIGHT :: rbtree_direction where "RB_RIGHT \<equiv> True"

text \<open>\<open>nd d s x t\<close> is the node \<open>x\<close> with \<open>s\<close> as the child in direction \<open>d\<close> and \<open>t\<close> as the other one;
  \<open>sub d t\<close> is the child in direction \<open>d\<close>.\<close>

definition nd :: "rbtree_direction \<Rightarrow> rbt \<Rightarrow> addr \<times> color \<Rightarrow> rbt \<Rightarrow> rbt" where
  "nd d s x t = (if d then Node t x s else Node s x t)"

fun sub :: "rbtree_direction \<Rightarrow> rbt \<Rightarrow> rbt" where
  "sub d Leaf = Leaf"
| "sub d (Node l x r) = (if d then r else l)"

fun col :: "rbt \<Rightarrow> color" where
  "col Leaf = Black"
| "col (Node l (a, c) r) = c"

fun paint :: "color \<Rightarrow> rbt \<Rightarrow> rbt" where
  "paint c Leaf = Leaf"
| "paint c (Node l (a, _) r) = Node l (a, c) r"

fun rid :: "rbt \<Rightarrow> addr" where
  "rid Leaf = 0"
| "rid (Node l (a, c) r) = a"

definition ids :: "rbt \<Rightarrow> addr list" where
  "ids t = map fst (inorder t)"

type_synonym frame = "rbtree_direction \<times> addr \<times> color \<times> rbt"

fun plug :: "frame \<Rightarrow> rbt \<Rightarrow> rbt" where
  "plug (d, p, c, s) t = nd d t (p, c) s"

primrec zip_up :: "frame list \<Rightarrow> rbt \<Rightarrow> rbt" where
  "zip_up [] t = t"
| "zip_up (f # K) t = zip_up K (plug f t)"

section \<open>Insertion\<close>

fun ins_fix :: "frame list \<Rightarrow> rbt \<Rightarrow> rbt" where
  "ins_fix [] t = paint Black t"
| "ins_fix [(d, p, c, s)] t = nd d t (p, Black) s"
| "ins_fix ((d, p, c, s) # (e, g, gc, u) # K) t =
    (if c = Black then zip_up ((d, p, c, s) # (e, g, gc, u) # K) t
     else if col u = Black then
       (if d \<noteq> e
        then zip_up K (nd e (nd e s (p, c) (sub e t)) (rid t, Black) (nd e (sub (\<not> e) t) (g, Red) u))
        else zip_up K (nd e t (p, Black) (nd e s (g, Red) u)))
     else ins_fix K (nd e (nd d t (p, Black) s) (g, Red) (paint Black u)))"

fun rb_path :: "(addr \<Rightarrow> u64) \<Rightarrow> u64 \<Rightarrow> rbt \<Rightarrow> frame list \<Rightarrow> frame list" where
  "rb_path v k Leaf K = K"
| "rb_path v k (Node l (a, c) r) K =
    (if k < v a then rb_path v k l ((RB_LEFT, a, c, r) # K)
     else rb_path v k r ((RB_RIGHT, a, c, l) # K))"

definition rb_insert :: "(addr \<Rightarrow> u64) \<Rightarrow> addr \<Rightarrow> rbt \<Rightarrow> rbt" where
  "rb_insert v n t = ins_fix (rb_path v (v n) t []) (Node Leaf (n, Red) Leaf)"

section \<open>Removal\<close>

text \<open>\<open>rem_rot\<close> is the rotation that makes a red sibling black (case 3); it returns the frame of the
  parent and the frame it puts above it.\<close>

fun rem_rot :: "frame \<Rightarrow> frame \<times> frame list" where
  "rem_rot (d, p, pc, s) =
    (if col s = Red then ((d, p, Red, sub d s), [(d, rid s, Black, sub (\<not> d) s)])
     else ((d, p, pc, s), []))"

fun rem_fix :: "frame list \<Rightarrow> rbt \<Rightarrow> rbt" where
  "rem_fix [] t = t"
| "rem_fix (f # K) t =
    (let ((d, p, pc, s), K') = rem_rot f;
         close = sub d s; distant = sub (\<not> d) s in
     if col distant = Red then
       zip_up (K' @ K) (nd d (nd d t (p, Black) close) (rid s, pc) (paint Black distant))
     else if col close = Red then
       zip_up (K' @ K) (nd d (nd d t (p, Black) (sub d close)) (rid close, pc)
         (nd d (sub (\<not> d) close) (rid s, col s) distant))
     else if pc = Red then zip_up (K' @ K) (nd d t (p, Black) (paint Red s))
     else rem_fix K (nd d t (p, Black) (paint Red s)))"

fun rb_locate :: "addr \<Rightarrow> rbt \<Rightarrow> frame list \<Rightarrow> (frame list \<times> rbt) option" where
  "rb_locate n Leaf K = None"
| "rb_locate n (Node l (a, c) r) K =
    (if a = n then Some (K, Node l (a, c) r)
     else if n \<in> set (ids l) then rb_locate n l ((RB_LEFT, a, c, r) # K)
     else rb_locate n r ((RB_RIGHT, a, c, l) # K))"

fun min_path :: "rbt \<Rightarrow> frame list \<Rightarrow> frame list \<times> rbt" where
  "min_path Leaf K = (K, Leaf)"
| "min_path (Node Leaf x r) K = (K, Node Leaf x r)"
| "min_path (Node l (a, c) r) K = min_path l ((RB_LEFT, a, c, r) # K)"

text \<open>\<open>rem_one\<close> takes out a node with at most one child; \<open>rem_swap\<close> first exchanges a node that has two
  children with its successor.\<close>

definition rem_one :: "frame list \<Rightarrow> rbt \<Rightarrow> rbt" where
  "rem_one K t =
    (let r = (if sub RB_LEFT t \<noteq> Leaf then sub RB_LEFT t else sub RB_RIGHT t) in
     if col t = Black then
       (if col r = Red then zip_up K (paint Black r) else rem_fix K r)
     else zip_up K r)"

definition rem_swap :: "frame list \<Rightarrow> rbt \<Rightarrow> frame list \<times> rbt" where
  "rem_swap K t =
    (if sub RB_LEFT t \<noteq> Leaf \<and> sub RB_RIGHT t \<noteq> Leaf then
       (let (K', m) = min_path (sub RB_RIGHT t) [] in
        (K' @ (RB_RIGHT, rid m, col t, sub RB_LEFT t) # K,
         Node Leaf (rid t, col m) (sub RB_RIGHT m)))
     else (K, t))"

definition rb_remove :: "addr \<Rightarrow> rbt \<Rightarrow> rbt" where
  "rb_remove n t = (case rb_locate n t [] of None \<Rightarrow> t | Some (K, s) \<Rightarrow> case_prod rem_one (rem_swap K s))"

section \<open>Key sequences\<close>

fun frame_l :: "frame \<Rightarrow> (addr \<times> color) list" where
  "frame_l (d, p, c, s) = (if d then inorder s @ [(p, c)] else [])"

fun frame_r :: "frame \<Rightarrow> (addr \<times> color) list" where
  "frame_r (d, p, c, s) = (if d then [] else (p, c) # inorder s)"

definition ctx_l :: "frame list \<Rightarrow> addr list" where
  "ctx_l K = map fst (concat (rev (map frame_l K)))"

definition ctx_r :: "frame list \<Rightarrow> addr list" where
  "ctx_r K = map fst (concat (map frame_r K))"

lemma inorder_nd [simp]:
  "inorder (nd d s x t) = (if d then inorder t @ x # inorder s else inorder s @ x # inorder t)"
  by (simp add: nd_def)

lemma ids_simps [simp]:
  "ids Leaf = []" "ids (Node l x r) = ids l @ fst x # ids r"
  "ids (nd d s x t) = (if d then ids t @ fst x # ids s else ids s @ fst x # ids t)"
  by (simp_all add: ids_def)

lemma ids_eq_Nil [simp]: "ids t = [] \<longleftrightarrow> t = Leaf"
  by (cases t) auto

lemma ids_paint [simp]: "ids (paint c t) = ids t"
  by (cases "(c, t)" rule: paint.cases) auto

lemma nd_not_Leaf [simp]: "nd d s x t \<noteq> Leaf" "Leaf \<noteq> nd d s x t"
  by (simp_all add: nd_def)

lemma sub_nd [simp]: "sub e (nd d s x t) = (if e = d then s else t)"
  by (auto simp: nd_def)

lemma col_nd [simp]: "col (nd d s (a, c) t) = c"
  by (simp add: nd_def)

lemma top_nd [simp]: "rid (nd d s (a, c) t) = a"
  by (simp add: nd_def)

lemma paint_nd [simp]: "paint c (nd d s (a, c') t) = nd d s (a, c) t"
  by (simp add: nd_def)

lemma col_paint [simp]: "col (paint c t) = (if t = Leaf then Black else c)"
  by (cases "(c, t)" rule: paint.cases) auto

lemma paint_col [simp]: "paint (col t) t = t"
  by (cases t rule: col.cases) auto

lemma nd_cases:
  obtains "t = Leaf" | s a c r where "t = nd d s (a, c) r"
  by (cases t rule: col.cases; cases d) (auto simp: nd_def)

lemma nd_collapse: "t \<noteq> Leaf \<Longrightarrow> nd d (sub d t) (rid t, col t) (sub (\<not> d) t) = t"
  by (cases t rule: nd_cases [where d = d]) auto

lemma ctx_simps [simp]:
  "ctx_l [] = []" "ctx_r [] = []"
  "ctx_l ((d, p, c, s) # K) = ctx_l K @ (if d then ids s @ [p] else [])"
  "ctx_r ((d, p, c, s) # K) = (if d then [] else p # ids s) @ ctx_r K"
  "ctx_l (K @ K') = ctx_l K' @ ctx_l K" "ctx_r (K @ K') = ctx_r K @ ctx_r K'"
  by (simp_all add: ctx_l_def ctx_r_def ids_def)

lemma ids_plug: "ids (plug f t) = ctx_l [f] @ ids t @ ctx_r [f]"
  by (cases f) auto

lemma ids_zip_up: "ids (zip_up K t) = ctx_l K @ ids t @ ctx_r K"
proof (induction K arbitrary: t)
  case (Cons f K)
  then show ?case by (cases f) (auto simp: ids_plug)
qed simp

lemma zip_up_append [simp]: "zip_up (K @ K') t = zip_up K' (zip_up K t)"
  by (induction K arbitrary: t) auto

section \<open>Contents\<close>

lemma ids_ins_fix: "t \<noteq> Leaf \<Longrightarrow> ids (ins_fix K t) = ctx_l K @ ids t @ ctx_r K"
proof (induction K t rule: ins_fix.induct)
  case (3 d p c s e g gc u K t)
  obtain l a tc r where t: "t = nd e l (a, tc) r" using 3(2) by (cases t rule: nd_cases [where d = e]) auto
  show ?case using 3 by (auto simp: ids_zip_up t simp del: zip_up.simps(2)) 
qed auto

lemma ids_rem_rot:
  "rem_rot f = ((d, p, pc, s), K') \<Longrightarrow>
   ctx_l K' @ ids (nd d t (p, c) s) @ ctx_r K' = ids (plug f t)"
  by (cases f; cases "snd (snd (snd f))" rule: nd_cases [where d = "fst f"]) (auto split: if_splits)

lemma rem_rot_dir: "rem_rot f = ((d, p, pc, s), K') \<Longrightarrow> \<exists>pc' s'. f = (d, p, pc', s')"
  by (cases f) (auto split: if_splits)

lemma sub_ids: "col s = Red \<Longrightarrow> s = nd d (sub d s) (rid s, Red) (sub (\<not> d) s)"
  by (cases s rule: nd_cases [where d = d]) auto

lemma col_Red_nd:
  assumes "col t = Red"
  obtains l a r where "t = nd d l (a, Red) r"
  using assms by (cases t rule: nd_cases [where d = d]) auto

lemma ids_rem_step:
  assumes f: "f = (d, p, pc0, s0)" and r: "rem_rot f = ((d, p, pc, s), K')"
  shows "ctx_l K' @ ids (nd d t (p, c) s) @ ctx_r K' = ctx_l [f] @ ids t @ ctx_r [f]"
  using ids_rem_rot [OF r, of t c] by (simp add: ids_plug)

lemma ids_rem_fix: "ids (rem_fix K t) = ctx_l K @ ids t @ ctx_r K"
proof (induction K arbitrary: t)
  case (Cons f K)
  obtain d p pc s K' where r: "rem_rot f = ((d, p, pc, s), K')" by (metis surj_pair)
  obtain pc0 s0 where f: "f = (d, p, pc0, s0)" using rem_rot_dir [OF r] by auto
  note step = ids_rem_step [OF f r, of t Black]
  have split: "ctx_l (f # K) @ ids t @ ctx_r (f # K) =
      ctx_l K @ (ctx_l [f] @ ids t @ ctx_r [f]) @ ctx_r K" by (simp add: f)
  have K': "K' = []" "f = (d, p, pc, s)" if "pc \<noteq> Red" using r that f by (auto split: if_splits)
  consider (six) "col (sub (\<not> d) s) = Red"
    | (five) "col (sub (\<not> d) s) \<noteq> Red" "col (sub d s) = Red"
    | (four) "col (sub (\<not> d) s) \<noteq> Red" "col (sub d s) \<noteq> Red" "pc = Red"
    | (two) "col (sub (\<not> d) s) \<noteq> Red" "col (sub d s) \<noteq> Red" "pc \<noteq> Red" by blast
  then show ?case
  proof cases
    case six
    then obtain x a y where "s = nd d x a y" by (cases s rule: nd_cases [where d = d]) auto
    with six r step show ?thesis unfolding split by (cases a) (auto simp: ids_zip_up)
  next
    case five
    then obtain x a y where s: "s = nd d x a y" by (cases s rule: nd_cases [where d = d]) auto
    with five obtain x1 b x2 where "x = nd d x1 (b, Red) x2" by (auto elim: col_Red_nd [where d = d])
    with five r step s show ?thesis unfolding split by (cases a) (auto simp: ids_zip_up)
  next
    case four
    with r step show ?thesis unfolding split by (auto simp: ids_zip_up)
  next
    case two
    with r step show ?thesis unfolding split by (auto simp: Cons.IH K')
  qed
qed simp

lemma rb_locate_zip: "rb_locate n t K = Some (K', s) \<Longrightarrow> zip_up K' s = zip_up K t \<and> rid s = n \<and> s \<noteq> Leaf"
  by (induction n t K rule: rb_locate.induct) (auto simp: nd_def split: if_splits)

lemma rb_locate_in: "n \<in> set (ids t) \<Longrightarrow> \<exists>K' s. rb_locate n t K = Some (K', s)"
  by (induction n t K rule: rb_locate.induct) auto

lemma rb_locate_notin: "n \<notin> set (ids t) \<Longrightarrow> rb_locate n t K = None"
  by (induction n t K rule: rb_locate.induct) auto

lemma min_path_zip: "min_path t K = (K', m) \<Longrightarrow> zip_up K' m = zip_up K t"
  by (induction t K rule: min_path.induct) (auto simp: nd_def)

lemma min_path_min:
  "min_path t K = (K', m) \<Longrightarrow> t \<noteq> Leaf \<Longrightarrow> m = Node Leaf (rid m, col m) (sub RB_RIGHT m)"
  by (induction t K rule: min_path.induct) auto

lemma min_path_append: "min_path t K = (case min_path t [] of (K', m) \<Rightarrow> (K' @ K, m))"
proof (induction t arbitrary: K rule: tree.induct)
  case (Node l x r)
  show ?case
  proof (cases l)
    case (Node l' y r')
    with Node.IH(1) [of "(RB_LEFT, fst x, snd x, r) # K"] Node.IH(1) [of "[(RB_LEFT, fst x, snd x, r)]"]
    show ?thesis by (cases x) (auto split: prod.splits)
  qed simp
qed simp

lemma min_path_ctx_l: "min_path t K = (K', m) \<Longrightarrow> ctx_l K' = ctx_l K"
  by (induction t K rule: min_path.induct) auto

definition ord_ins :: "(addr \<Rightarrow> u64) \<Rightarrow> addr \<Rightarrow> addr list \<Rightarrow> addr list" where
  "ord_ins v n xs = takeWhile (\<lambda>x. v x \<le> v n) xs @ n # dropWhile (\<lambda>x. v x \<le> v n) xs"

lemma ctx_rb_path:
  "sorted (map v (ids t)) \<Longrightarrow>
   ctx_l (rb_path v k t K) = ctx_l K @ takeWhile (\<lambda>x. v x \<le> k) (ids t) \<and>
   ctx_r (rb_path v k t K) = dropWhile (\<lambda>x. v x \<le> k) (ids t) @ ctx_r K"
proof (induction t arbitrary: K rule: tree.induct)
  case (Node l x r)
  obtain a c where x: "x = (a, c)" by (cases x)
  have "\<forall>y\<in>set (ids l). v y \<le> v a" using Node.prems by (auto simp: x sorted_append)
  then have l: "\<forall>y\<in>set (ids l). v y \<le> k" if "v a \<le> k" using that by auto
  show ?case
  proof (cases "k < v a")
    case True
    then show ?thesis
      using Node.IH(1) [of "(RB_LEFT, a, c, r) # K"] Node.prems
      by (auto simp: x sorted_append takeWhile_append dropWhile_append takeWhile_eq_all_conv
          dropWhile_eq_Nil_conv)
  next
    case False
    then show ?thesis
      using Node.IH(2) [of "(RB_RIGHT, a, c, l) # K"] Node.prems l
      by (auto simp: x sorted_append)
  qed
qed simp

lemma ids_rb_insert:
  "sorted (map v (ids t)) \<Longrightarrow> ids (rb_insert v n t) = ord_ins v n (ids t)"
  using ctx_rb_path [of v t "v n" "[]"] by (simp add: rb_insert_def ids_ins_fix ord_ins_def)

lemma ids_rem_one:
  "sub RB_LEFT t = Leaf \<or> sub RB_RIGHT t = Leaf \<Longrightarrow> t \<noteq> Leaf \<Longrightarrow>
   ids (rem_one K t) = ctx_l K @ ids (sub RB_LEFT t) @ ids (sub RB_RIGHT t) @ ctx_r K"
  by (cases t rule: col.cases) (auto simp: rem_one_def ids_zip_up ids_rem_fix)

lemma rem_swap_one_child:
  "rem_swap K t = (K', s) \<Longrightarrow> t \<noteq> Leaf \<Longrightarrow>
   (sub RB_LEFT s = Leaf \<or> sub RB_RIGHT s = Leaf) \<and> s \<noteq> Leaf \<and> rid s = rid t"
  by (auto simp: rem_swap_def split: if_splits prod.splits)

lemma ids_rem_swap:
  assumes "rem_swap K t = (K', s)" "t \<noteq> Leaf"
  shows "ctx_l K' @ ids (sub RB_LEFT s) @ ids (sub RB_RIGHT s) @ ctx_r K' =
    ctx_l K @ ids (sub RB_LEFT t) @ ids (sub RB_RIGHT t) @ ctx_r K"
proof (cases "sub RB_LEFT t \<noteq> Leaf \<and> sub RB_RIGHT t \<noteq> Leaf")
  case True
  obtain L m where m: "min_path (sub RB_RIGHT t) [] = (L, m)" by fastforce
  have "ids (sub RB_RIGHT t) = ctx_l L @ ids m @ ctx_r L"
    using min_path_zip [OF m] by (metis ids_zip_up zip_up.simps(1))
  moreover have "ctx_l L = []" using min_path_ctx_l [OF m] by simp
  moreover have "ids m = rid m # ids (sub RB_RIGHT m)"
    using min_path_min [OF m] True by (metis append_Nil fst_conv ids_simps(1,2))
  ultimately show ?thesis using assms True m by (auto simp: rem_swap_def)
qed (use assms in \<open>auto simp: rem_swap_def\<close>)

lemma ids_rb_remove:
  assumes "distinct (ids t)"
  shows "ids (rb_remove n t) = remove1 n (ids t)"
proof (cases "n \<in> set (ids t)")
  case True
  then obtain K s where l: "rb_locate n t [] = Some (K, s)" using rb_locate_in by blast
  note z = rb_locate_zip [OF l]
  obtain K' s' where w: "rem_swap K s = (K', s')" by fastforce
  from z obtain a c b where s: "s = Node a (n, c) b" by (cases s rule: col.cases) auto
  have t: "ids t = ctx_l K @ (ids a @ n # ids b) @ ctx_r K"
    using arg_cong [OF conjunct1 [OF z], of ids] by (simp add: s ids_zip_up)
  have "ids (rb_remove n t) = ctx_l K @ ids a @ ids b @ ctx_r K"
    using rem_swap_one_child [OF w] ids_rem_one ids_rem_swap [OF w] z
    by (simp add: rb_remove_def l w [unfolded s] s)
  then show ?thesis using assms unfolding t by (auto simp: remove1_append)
qed (simp add: rb_remove_def rb_locate_notin remove1_idem)

section \<open>Balance\<close>

text \<open>\<open>bal h t\<close>: every path of \<open>t\<close> has \<open>h\<close> black nodes and no red node has a red child. \<open>ctx_bal K h\<close>: a
  tree of black height \<open>h\<close> may be put into the hole of \<open>K\<close>, with a red root if \<open>red_ok K\<close>.\<close>

fun bal :: "nat \<Rightarrow> rbt \<Rightarrow> bool" where
  "bal h Leaf \<longleftrightarrow> h = 0"
| "bal h (Node l (a, c) r) \<longleftrightarrow>
    (case c of Red \<Rightarrow> col l = Black \<and> col r = Black \<and> bal h l \<and> bal h r
     | Black \<Rightarrow> h > 0 \<and> bal (h - 1) l \<and> bal (h - 1) r)"

definition rb_ok :: "rbt \<Rightarrow> bool" where
  "rb_ok t \<longleftrightarrow> col t = Black \<and> (\<exists>h. bal h t)"

fun red_ok :: "frame list \<Rightarrow> bool" where
  "red_ok [] \<longleftrightarrow> False"
| "red_ok ((d, p, c, s) # K) \<longleftrightarrow> c = Black"

fun ctx_bal :: "frame list \<Rightarrow> nat \<Rightarrow> bool" where
  "ctx_bal [] h \<longleftrightarrow> True"
| "ctx_bal ((d, p, c, s) # K) h \<longleftrightarrow> bal h s \<and>
    (case c of Red \<Rightarrow> col s = Black \<and> red_ok K \<and> ctx_bal K h | Black \<Rightarrow> ctx_bal K (Suc h))"

lemma bal_nd [simp]:
  "bal h (nd d s (a, Red) t) \<longleftrightarrow> col s = Black \<and> col t = Black \<and> bal h s \<and> bal h t"
  "bal h (nd d s (a, Black) t) \<longleftrightarrow> h > 0 \<and> bal (h - 1) s \<and> bal (h - 1) t"
  by (auto simp: nd_def)

lemma bal_paint_Black: "bal h t \<Longrightarrow> col t = Red \<Longrightarrow> bal (Suc h) (paint Black t)"
  by (cases t rule: col.cases) auto

lemma bal_paint_Red:
  "bal (Suc h) t \<Longrightarrow> col t = Black \<Longrightarrow> col (sub RB_LEFT t) = Black \<Longrightarrow> col (sub RB_RIGHT t) = Black \<Longrightarrow>
   bal h (paint Red t)"
  by (cases t rule: col.cases) auto

lemma not_Black [simp]: "c \<noteq> Black \<longleftrightarrow> c = Red" "c \<noteq> Red \<longleftrightarrow> c = Black"
  by (cases c; simp)+

lemma rb_ok_zip_up:
  "ctx_bal K h \<Longrightarrow> bal h t \<Longrightarrow> (col t = Red \<Longrightarrow> red_ok K) \<Longrightarrow> rb_ok (zip_up K t)"
proof (induction K arbitrary: h t)
  case Nil
  then show ?case by (cases "col t") (auto simp: rb_ok_def)
next
  case (Cons f K)
  obtain d p c s where f: "f = (d, p, c, s)" by (cases f)
  show ?case
    using Cons.prems Cons.IH [of h "plug f t"] Cons.IH [of "Suc h" "plug f t"]
    by (cases c; cases "col t") (auto simp: f)
qed

lemma zip_up_bal:
  "bal h (zip_up K t) \<Longrightarrow> col (zip_up K t) = Black \<Longrightarrow>
   \<exists>i. ctx_bal K i \<and> bal i t \<and> (col t = Red \<longrightarrow> red_ok K)"
proof (induction K arbitrary: t)
  case (Cons f K)
  obtain d p c s where f: "f = (d, p, c, s)" by (cases f)
  from Cons obtain i where i: "ctx_bal K i" "bal i (nd d t (p, c) s)" "c = Red \<longrightarrow> red_ok K"
    using Cons.IH [of "plug f t"] by (auto simp: f)
  show ?case
  proof (cases c)
    case Red
    with i show ?thesis by (intro exI [of _ i]) (auto simp: f)
  next
    case Black
    with i show ?thesis by (intro exI [of _ "i - 1"]) (auto simp: f)
  qed
qed auto

lemma rb_ok_split:
  "rb_ok (zip_up K t) \<Longrightarrow> \<exists>h. ctx_bal K h \<and> bal h t \<and> (col t = Red \<longrightarrow> red_ok K)"
  using zip_up_bal by (auto simp: rb_ok_def)

lemma rb_ok_ins_fix: "ctx_bal K h \<Longrightarrow> bal h t \<Longrightarrow> col t = Red \<Longrightarrow> rb_ok (ins_fix K t)"
proof (induction K t arbitrary: h rule: ins_fix.induct)
  case (1 t)
  then show ?case by (auto simp: rb_ok_def intro: bal_paint_Black)
next
  case (2 d p c s t)
  then have "bal (Suc h) (nd d t (p, Black) s)" by auto
  then show ?case by (auto simp: rb_ok_def)
next
  case (3 d p c s e g gc u K t)
  obtain l a r where t: "t = nd e l (a, Red) r" using 3(4) by (rule col_Red_nd)
  show ?case
  proof (cases c)
    case Black
    then show ?thesis
      using 3(2,3) rb_ok_zip_up [of "(d, p, c, s) # (e, g, gc, u) # K" h t] by simp
  next
    case Red
    with 3(2) have g: "gc = Black" "bal h s" "col s = Black" "bal h u" "ctx_bal K (Suc h)" by auto
    show ?thesis
    proof (cases "col u")
      case u: Red
      then show ?thesis
        using 3(1) [of "Suc h"] 3(3) Red g by (auto simp: bal_paint_Black)
    next
      case u: Black
      then show ?thesis
        using 3(3) Red g by (auto simp: t intro!: rb_ok_zip_up [of K "Suc h"])
    qed
  qed
qed

lemma ctx_bal_rb_path:
  "bal h t \<Longrightarrow> ctx_bal K h \<Longrightarrow> (col t = Red \<Longrightarrow> red_ok K) \<Longrightarrow> ctx_bal (rb_path v k t K) 0"
  by (induction v k t K arbitrary: h rule: rb_path.induct) (auto split: color.splits)

lemma rb_ok_rb_insert: "rb_ok t \<Longrightarrow> rb_ok (rb_insert v n t)"
  by (auto simp: rb_insert_def rb_ok_def [of t] intro!: rb_ok_ins_fix [of _ 0] ctx_bal_rb_path)

lemma rem_rot_bal:
  assumes "rem_rot f = ((d, p, pc, s), K')" "ctx_bal (f # K) (Suc h)"
  shows "col s = Black \<and> bal (Suc h) s \<and>
    (pc = Red \<longrightarrow> ctx_bal (K' @ K) (Suc h) \<and> red_ok (K' @ K)) \<and>
    (pc = Black \<longrightarrow> K' = [] \<and> ctx_bal K (Suc (Suc h)))"
  using assms by (cases f; cases "snd (snd (snd f))" rule: nd_cases [where d = "fst f"])
    (auto split: if_splits color.splits)

lemma rb_ok_rem_fix: "ctx_bal K (Suc h) \<Longrightarrow> bal h t \<Longrightarrow> col t = Black \<Longrightarrow> rb_ok (rem_fix K t)"
proof (induction K arbitrary: h t)
  case (Cons f K)
  obtain d p pc s K' where r: "rem_rot f = ((d, p, pc, s), K')" by (metis surj_pair)
  note b = rem_rot_bal [OF r Cons.prems(1)]
  then obtain x a y where s: "s = nd d x (a, Black) y" by (cases s rule: nd_cases [where d = d]) auto
  then have xy: "bal h x" "bal h y" using b by auto
  let ?H = "if pc = Red then Suc h else Suc (Suc h)"
  have K: "ctx_bal (K' @ K) ?H" "pc = Red \<longrightarrow> red_ok (K' @ K)" using b by (cases pc; simp)+
  consider (six) "col y = Red" | (five) "col y = Black" "col x = Red"
    | (four) "col y = Black" "col x = Black" "pc = Red"
    | (two) "col y = Black" "col x = Black" "pc = Black"
    by (cases "col y"; cases "col x"; cases pc) auto
  then show ?case
  proof cases
    case six
    have "rb_ok (zip_up (K' @ K) (nd d (nd d t (p, Black) x) (a, pc) (paint Black y)))"
      using six K xy Cons.prems by (intro rb_ok_zip_up [of _ ?H]) (cases pc; auto simp: bal_paint_Black)+
    then show ?thesis using r s six by simp
  next
    case five
    then obtain x1 q x2 where x: "x = nd d x1 (q, Red) x2" using col_Red_nd [of x d] by blast
    have "rb_ok (zip_up (K' @ K) (nd d (nd d t (p, Black) x1) (q, pc) (nd d x2 (a, Black) y)))"
      using five K xy Cons.prems by (intro rb_ok_zip_up [of _ ?H]) (cases pc; auto simp: x)+
    then show ?thesis using r s five by (simp add: x)
  next
    case four
    have "rb_ok (zip_up (K' @ K) (nd d t (p, Black) (nd d x (a, Red) y)))"
      using four K xy Cons.prems by (intro rb_ok_zip_up [of _ ?H]) auto
    then show ?thesis using r s four by simp
  next
    case two
    then show ?thesis
      using r s b xy Cons.prems Cons.IH [of "Suc h" "nd d t (p, Black) (nd d x (a, Red) y)"] by simp
  qed
qed (auto simp: rb_ok_def)

lemma rb_ok_rem_one:
  assumes "rb_ok (zip_up K t)" "sub RB_LEFT t = Leaf \<or> sub RB_RIGHT t = Leaf" "t \<noteq> Leaf"
  shows "rb_ok (rem_one K t)"
proof -
  obtain l a c r where t: "t = Node l (a, c) r" using assms(3) by (cases t rule: col.cases) auto
  obtain h where h: "ctx_bal K h" "bal h t" "col t = Red \<longrightarrow> red_ok K"
    using rb_ok_split [OF assms(1)] by blast
  show ?thesis
  proof (cases c)
    case Red
    then show ?thesis
      using h assms(2) by (auto simp: t rem_one_def intro!: rb_ok_zip_up [of _ h])
  next
    case Black
    with h obtain i where i: "h = Suc i" "bal i l" "bal i r" by (cases h) (auto simp: t)
    have "rb_ok (zip_up K (paint Black s))" if "col s = Red" "bal i s" for s
      using that h(1) i by (intro rb_ok_zip_up [of _ h]) (auto simp: bal_paint_Black)
    moreover have "rb_ok (rem_fix K s)" if "col s = Black" "bal i s" for s
      using that h(1) i by (auto intro: rb_ok_rem_fix)
    ultimately show ?thesis using assms(2) Black i by (auto simp: t rem_one_def Let_def)
  qed
qed

lemma min_path_bal:
  "min_path t K = (K', m) \<Longrightarrow> ctx_bal K h \<Longrightarrow> bal h t \<Longrightarrow> (col t = Red \<Longrightarrow> red_ok K) \<Longrightarrow>
   \<exists>i. ctx_bal K' i \<and> bal i m \<and> (col m = Red \<longrightarrow> red_ok K')"
proof (induction t K arbitrary: h rule: min_path.induct)
  case (3 l1 x l2 a c r K)
  show ?case
  proof (cases c)
    case Red
    with 3 show ?thesis by auto
  next
    case Black
    with 3 show ?thesis using 3(1) [of "h - 1"] by auto
  qed
qed auto

lemma ctx_bal_relabel:
  "ctx_bal (K' @ (d, p, c, s) # K) h \<longleftrightarrow> ctx_bal (K' @ (d, q, c, s) # K) h"
  "red_ok (K' @ (d, p, c, s) # K) \<longleftrightarrow> red_ok (K' @ (d, q, c, s) # K)"
proof -
  have red: "red_ok (L @ (d, p, c, s) # K) \<longleftrightarrow> red_ok (L @ (d, q, c, s) # K)" for L
    by (cases L rule: red_ok.cases) auto
  show "red_ok (K' @ (d, p, c, s) # K) \<longleftrightarrow> red_ok (K' @ (d, q, c, s) # K)" by (rule red)
  show "ctx_bal (K' @ (d, p, c, s) # K) h \<longleftrightarrow> ctx_bal (K' @ (d, q, c, s) # K) h"
    by (induction K' h rule: ctx_bal.induct) (auto simp: red split: color.splits)
qed

lemma rb_ok_rem_swap:
  assumes ok: "rb_ok (zip_up K t)" and w: "rem_swap K t = (K', s)" and "t \<noteq> Leaf"
  shows "rb_ok (zip_up K' s)"
proof (cases "sub RB_LEFT t \<noteq> Leaf \<and> sub RB_RIGHT t \<noteq> Leaf")
  case True
  obtain h where h: "ctx_bal K h" "bal h t" "col t = Red \<longrightarrow> red_ok K"
    using rb_ok_split [OF ok] by blast
  obtain l a c r where t: "t = Node l (a, c) r" using \<open>t \<noteq> Leaf\<close> by (cases t rule: col.cases) auto
  obtain L m where m: "min_path r [] = (L, m)" by fastforce
  let ?F = "(RB_RIGHT, a, c, l)"
  have "min_path r (?F # K) = (L @ ?F # K, m)" using min_path_append [of r "?F # K"] m by simp
  then obtain i where i: "ctx_bal (L @ ?F # K) i" "bal i m" "col m = Red \<longrightarrow> red_ok (L @ ?F # K)"
    using min_path_bal [of r "?F # K" _ m "if c = Black then h - 1 else h"] h
    by (cases c) (auto simp: t)
  obtain b where mm: "m = Node Leaf (rid m, col m) b" using min_path_min [OF m] True t by auto
  have "bal i (Node Leaf (a, col m) b)" using i(2) by (subst (asm) mm) simp
  then have "rb_ok (zip_up (L @ (RB_RIGHT, rid m, c, l) # K) (Node Leaf (a, col m) b))"
    using i by (intro rb_ok_zip_up [of _ i]) (auto simp: ctx_bal_relabel [where p = "rid m" and q = a])
  moreover have "sub RB_RIGHT m = b" by (subst mm) simp
  ultimately show ?thesis using w True m by (auto simp: rem_swap_def t)
qed (use assms in \<open>auto simp: rem_swap_def\<close>)

lemma rb_ok_rb_remove: "rb_ok t \<Longrightarrow> rb_ok (rb_remove n t)"
proof (cases "rb_locate n t []")
  case (Some x)
  obtain K s where l: "rb_locate n t [] = Some (K, s)" using Some by (cases x) auto
  obtain K' s' where w: "rem_swap K s = (K', s')" by fastforce
  assume "rb_ok t"
  then have "rb_ok (zip_up K' s')" using rb_locate_zip [OF l] rb_ok_rem_swap [OF _ w] by simp
  then show ?thesis
    using rb_locate_zip [OF l] rem_swap_one_child [OF w] by (simp add: rb_remove_def l w rb_ok_rem_one)
qed (simp add: rb_remove_def)

lemma rb_ok_Leaf [simp]: "rb_ok Leaf"
  by (simp add: rb_ok_def)

text \<open>The depth of a balanced tree is logarithmic in its size.\<close>

lemma bal_size: "bal h t \<Longrightarrow> 2 ^ h \<le> size1 t"
proof (induction h t rule: bal.induct)
  case (2 h l a c r)
  show ?case
  proof (cases c)
    case Red
    with 2 show ?thesis by (auto simp: size1_size)
  next
    case Black
    with 2 obtain i where "h = Suc i" by (cases h) auto
    with 2 Black show ?thesis by (auto simp: size1_size)
  qed
qed (simp add: size1_size)

lemma bal_height: "bal h t \<Longrightarrow> height t \<le> 2 * h + (if col t = Red then 1 else 0)"
proof (induction h t rule: bal.induct)
  case (2 h l a c r)
  show ?case
  proof (cases c)
    case Black
    with 2 obtain i where "h = Suc i" by (cases h) auto
    with 2 Black show ?thesis by (cases "col l"; cases "col r"; auto)
  qed (use 2 in auto)
qed simp

lemma rb_ok_height: "rb_ok t \<Longrightarrow> 2 ^ height t \<le> (size t + 1) ^ 2"
proof -
  assume "rb_ok t"
  then obtain h where h: "bal h t" "col t = Black" by (auto simp: rb_ok_def)
  have "(2::nat) ^ height t \<le> 2 ^ (2 * h)" using bal_height [OF h(1)] h(2) by (simp add: power_increasing)
  also have "\<dots> = (2 ^ h) ^ 2" by (simp add: power_mult power2_eq_square power_mult_distrib mult.commute)
  also have "\<dots> \<le> (size t + 1) ^ 2" using bal_size [OF h(1)] by (intro power_mono) (auto simp: size1_size)
  finally show ?thesis .
qed

section \<open>Searches\<close>

fun tmin :: "rbt \<Rightarrow> addr" where
  "tmin Leaf = 0"
| "tmin (Node l (a, c) r) = (if l = Leaf then a else tmin l)"

fun tmax :: "rbt \<Rightarrow> addr" where
  "tmax Leaf = 0"
| "tmax (Node l (a, c) r) = (if r = Leaf then a else tmax r)"

fun search_exact :: "(addr \<Rightarrow> u64) \<Rightarrow> u64 \<Rightarrow> rbt \<Rightarrow> addr" where
  "search_exact v q Leaf = 0"
| "search_exact v q (Node l (a, c) r) =
    (if q < v a then search_exact v q l else if q > v a then search_exact v q r else a)"

definition key_dist :: "u64 \<Rightarrow> u64 \<Rightarrow> u64" where
  "key_dist x q = (if x > q then x - q else q - x)"

fun search_nearest :: "(addr \<Rightarrow> u64) \<Rightarrow> u64 \<Rightarrow> rbt \<Rightarrow> addr \<Rightarrow> u64 \<Rightarrow> addr" where
  "search_nearest v q Leaf nearest best = nearest"
| "search_nearest v q (Node l (a, c) r) nearest best =
    (let (nearest, best) = (if key_dist (v a) q < best then (a, key_dist (v a) q) else (nearest, best)) in
     if q < v a then search_nearest v q l nearest best
     else if q > v a then search_nearest v q r nearest best else a)"

fun search_lesser :: "(addr \<Rightarrow> u64) \<Rightarrow> u64 \<Rightarrow> bool \<Rightarrow> rbt \<Rightarrow> addr \<Rightarrow> addr" where
  "search_lesser v q eq Leaf cand = cand"
| "search_lesser v q eq (Node l (a, c) r) cand =
    (if v a < q then search_lesser v q eq r a
     else if v a > q then search_lesser v q eq l cand
     else if eq then a else if l \<noteq> Leaf then tmax l else cand)"

fun search_greater :: "(addr \<Rightarrow> u64) \<Rightarrow> u64 \<Rightarrow> bool \<Rightarrow> rbt \<Rightarrow> addr \<Rightarrow> addr" where
  "search_greater v q eq Leaf cand = cand"
| "search_greater v q eq (Node l (a, c) r) cand =
    (if v a > q then search_greater v q eq l a
     else if v a < q then search_greater v q eq r cand
     else if eq then a else if r \<noteq> Leaf then tmin r else cand)"

datatype rbtree_search_type = RB_SEARCH_TYPE_EXACT | RB_SEARCH_TYPE_NEAREST
  | RB_SEARCH_TYPE_NEAREST_LT | RB_SEARCH_TYPE_NEAREST_LTE
  | RB_SEARCH_TYPE_NEAREST_GT | RB_SEARCH_TYPE_NEAREST_GTE

fun rb_search :: "(addr \<Rightarrow> u64) \<Rightarrow> u64 \<Rightarrow> rbtree_search_type \<Rightarrow> rbt \<Rightarrow> addr" where
  "rb_search v q RB_SEARCH_TYPE_EXACT t = search_exact v q t"
| "rb_search v q RB_SEARCH_TYPE_NEAREST t = search_nearest v q t 0 (-1)"
| "rb_search v q RB_SEARCH_TYPE_NEAREST_LT t = search_lesser v q False t 0"
| "rb_search v q RB_SEARCH_TYPE_NEAREST_LTE t = search_lesser v q True t 0"
| "rb_search v q RB_SEARCH_TYPE_NEAREST_GT t = search_greater v q False t 0"
| "rb_search v q RB_SEARCH_TYPE_NEAREST_GTE t = search_greater v q True t 0"

lemma tmin_hd: "t \<noteq> Leaf \<Longrightarrow> tmin t = hd (ids t)"
  by (induction t rule: tmin.induct) (auto simp: hd_append)

lemma tmax_last: "t \<noteq> Leaf \<Longrightarrow> tmax t = last (ids t)"
  by (induction t rule: tmax.induct) auto

lemma search_exact_correct:
  "sorted (map v (ids t)) \<Longrightarrow>
   (search_exact v q t = 0 \<and> (\<forall>x\<in>set (ids t). v x \<noteq> q)) \<or>
   (search_exact v q t \<in> set (ids t) \<and> v (search_exact v q t) = q)"
proof (induction v q t rule: search_exact.induct)
  case (2 v q l a c r)
  then have l: "\<forall>y\<in>set (ids l). v y \<le> v a" and r: "\<forall>y\<in>set (ids r). v a \<le> v y"
    by (auto simp: sorted_append)
  show ?case
  proof (cases q "v a" rule: linorder_cases)
    case less
    with r have "\<forall>y\<in>set (ids r). v y \<noteq> q" by auto
    with less 2 show ?thesis by (auto simp: sorted_append)
  next
    case greater
    with l have "\<forall>y\<in>set (ids l). v y \<noteq> q" by auto
    with greater 2 show ?thesis by (auto simp: sorted_append)
  qed auto
qed simp

text \<open>\<open>greatest_in v S r\<close>: \<open>r\<close> is a member of \<open>S\<close> with the greatest key, or null when \<open>S\<close> is empty.\<close>

definition greatest_in :: "(addr \<Rightarrow> u64) \<Rightarrow> addr set \<Rightarrow> addr \<Rightarrow> addr \<Rightarrow> bool" where
  "greatest_in v S d r \<longleftrightarrow> (if S = {} then r = d else r \<in> S \<and> (\<forall>y\<in>S. v y \<le> v r))"

definition least_in :: "(addr \<Rightarrow> u64) \<Rightarrow> addr set \<Rightarrow> addr \<Rightarrow> addr \<Rightarrow> bool" where
  "least_in v S d r \<longleftrightarrow> (if S = {} then r = d else r \<in> S \<and> (\<forall>y\<in>S. v r \<le> v y))"

lemma sorted_last_greatest: "sorted (map v xs) \<Longrightarrow> y \<in> set xs \<Longrightarrow> v y \<le> v (last xs)"
  by (induction xs) auto

lemma sorted_hd_least: "sorted (map v xs) \<Longrightarrow> y \<in> set xs \<Longrightarrow> v (hd xs) \<le> v y"
  by (cases xs) auto

definition at_most :: "(addr \<Rightarrow> u64) \<Rightarrow> u64 \<Rightarrow> bool \<Rightarrow> rbt \<Rightarrow> addr set" where
  "at_most v q eq t = {x \<in> set (ids t). v x < q \<or> (eq \<and> v x = q)}"

definition at_least :: "(addr \<Rightarrow> u64) \<Rightarrow> u64 \<Rightarrow> bool \<Rightarrow> rbt \<Rightarrow> addr set" where
  "at_least v q eq t = {x \<in> set (ids t). q < v x \<or> (eq \<and> v x = q)}"

lemma search_lesser_correct:
  "sorted (map v (ids t)) \<Longrightarrow> eq \<or> distinct (map v (ids t)) \<Longrightarrow>
   greatest_in v (at_most v q eq t) cand (search_lesser v q eq t cand)"
proof (induction v q eq t cand rule: search_lesser.induct)
  case (2 v q eq l a c r cand)
  then have l: "\<forall>y\<in>set (ids l). v y \<le> v a" and r: "\<forall>y\<in>set (ids r). v a \<le> v y"
    and s: "sorted (map v (ids l))" by (auto simp: sorted_append)
  show ?case
  proof (cases "v a" q rule: linorder_cases)
    case less
    then have "greatest_in v (at_most v q eq r) a (search_lesser v q eq r a)"
      using 2 by (auto simp: sorted_append)
    with less l r show ?thesis
      by (auto simp: greatest_in_def at_most_def split: if_splits dest: order_trans)
  next
    case equal
    show ?thesis
    proof (cases eq)
      case True
      with equal l r show ?thesis by (auto simp: greatest_in_def at_most_def)
    next
      case False
      with 2 equal l r have "at_most v q eq (Node l (a, c) r) = set (ids l)"
        by (auto simp: at_most_def order_less_le image_iff)
      with equal False s show ?thesis
        by (auto simp: greatest_in_def tmax_last sorted_last_greatest)
    qed
  next
    case greater
    then have "greatest_in v (at_most v q eq l) cand (search_lesser v q eq l cand)"
      using 2 by (auto simp: sorted_append)
    moreover have "at_most v q eq (Node l (a, c) r) = at_most v q eq l"
      using greater r by (auto simp: at_most_def)
    ultimately show ?thesis using greater by auto
  qed
qed (simp add: greatest_in_def at_most_def)

lemma search_greater_correct:
  "sorted (map v (ids t)) \<Longrightarrow> eq \<or> distinct (map v (ids t)) \<Longrightarrow>
   least_in v (at_least v q eq t) cand (search_greater v q eq t cand)"
proof (induction v q eq t cand rule: search_greater.induct)
  case (2 v q eq l a c r cand)
  then have l: "\<forall>y\<in>set (ids l). v y \<le> v a" and r: "\<forall>y\<in>set (ids r). v a \<le> v y"
    and s: "sorted (map v (ids r))" by (auto simp: sorted_append)
  show ?case
  proof (cases "v a" q rule: linorder_cases)
    case less
    then have "least_in v (at_least v q eq r) cand (search_greater v q eq r cand)"
      using 2 by (auto simp: sorted_append)
    moreover have "at_least v q eq (Node l (a, c) r) = at_least v q eq r"
      using less l by (auto simp: at_least_def)
    ultimately show ?thesis using less by auto
  next
    case equal
    show ?thesis
    proof (cases eq)
      case True
      with equal l r show ?thesis by (auto simp: least_in_def at_least_def)
    next
      case False
      with 2 equal l r have "at_least v q eq (Node l (a, c) r) = set (ids r)"
        by (auto simp: at_least_def order_less_le image_iff)
      with equal False s show ?thesis
        by (auto simp: least_in_def tmin_hd sorted_hd_least)
    qed
  next
    case greater
    then have "least_in v (at_least v q eq l) a (search_greater v q eq l a)"
      using 2 by (auto simp: sorted_append)
    with greater l r show ?thesis
      by (auto simp: least_in_def at_least_def split: if_splits dest: order_trans)
  qed
qed (simp add: least_in_def at_least_def)

lemma key_dist_less: "q < x \<Longrightarrow> x \<le> y \<Longrightarrow> key_dist x q \<le> key_dist y q"
  unfolding key_dist_def by (auto simp: word_le_nat_alt word_less_nat_alt unat_sub_if')

lemma key_dist_greater: "x < q \<Longrightarrow> y \<le> x \<Longrightarrow> key_dist x q \<le> key_dist y q"
  unfolding key_dist_def by (auto simp: word_le_nat_alt word_less_nat_alt unat_sub_if')

text \<open>\<open>near v q S n b r\<close>: \<open>r\<close> is a member of \<open>S\<close> nearest to \<open>q\<close> when one is closer than \<open>b\<close>, else \<open>n\<close>.\<close>

definition near :: "(addr \<Rightarrow> u64) \<Rightarrow> u64 \<Rightarrow> addr set \<Rightarrow> addr \<Rightarrow> u64 \<Rightarrow> addr \<Rightarrow> bool" where
  "near v q S n b r \<longleftrightarrow> (r = n \<and> (\<forall>y\<in>S. b \<le> key_dist (v y) q)) \<or>
     (r \<in> S \<and> key_dist (v r) q < b \<and> (\<forall>y\<in>S. key_dist (v r) q \<le> key_dist (v y) q))"

lemma search_nearest_correct:
  "sorted (map v (ids t)) \<Longrightarrow> 0 < b \<Longrightarrow> near v q (set (ids t)) n b (search_nearest v q t n b)"
proof (induction v q t n b rule: search_nearest.induct)
  case (2 v q l a c r n b)
  then have l: "\<forall>y\<in>set (ids l). v y \<le> v a" and r: "\<forall>y\<in>set (ids r). v a \<le> v y"
    by (auto simp: sorted_append)
  let ?d = "key_dist (v a) q"
  let ?n = "if ?d < b then a else n" and ?b = "if ?d < b then ?d else b"
  show ?case
  proof (cases q "v a" rule: linorder_cases)
    case less
    then have far: "\<forall>y\<in>set (ids r). ?d \<le> key_dist (v y) q" using r key_dist_less by auto
    have "0 < ?b" using less 2(4) by (auto simp: key_dist_def word_neq_0_conv [symmetric])
    with 2 less have "near v q (set (ids l)) ?n ?b (search_nearest v q l ?n ?b)"
      by (auto simp: sorted_append)
    with less far show ?thesis
      by (auto simp: near_def split: if_splits dest: order_trans)
  next
    case equal
    with 2(4) show ?thesis by (auto simp: near_def key_dist_def)
  next
    case greater
    then have far: "\<forall>y\<in>set (ids l). ?d \<le> key_dist (v y) q" using l key_dist_greater by auto
    have "0 < ?b" using greater 2(4) by (auto simp: key_dist_def word_neq_0_conv [symmetric])
    with 2 greater have "near v q (set (ids r)) ?n ?b (search_nearest v q r ?n ?b)"
      by (auto simp: sorted_append)
    with greater far show ?thesis
      by (auto simp: near_def split: if_splits dest: order_trans)
  qed
qed (simp add: near_def)

section \<open>The ordered index the clients see\<close>

text \<open>
  An ordered index of nodes by a key function that belongs to the nodes: insertion and removal by
  node, and the search for the greatest key that is at most the query.
\<close>

locale ordered_index =
  fixes elems :: "'t \<Rightarrow> 'n set"
    and invar :: "('n \<Rightarrow> 'k::linorder) \<Rightarrow> 't \<Rightarrow> bool"
    and nil :: 'n
    and ins :: "('n \<Rightarrow> 'k) \<Rightarrow> 'n \<Rightarrow> 't \<Rightarrow> 't"
    and del :: "'n \<Rightarrow> 't \<Rightarrow> 't"
    and floor_of :: "('n \<Rightarrow> 'k) \<Rightarrow> 'k \<Rightarrow> 't \<Rightarrow> 'n"
  assumes nil_out: "invar v t \<Longrightarrow> nil \<notin> elems t"
    and invar_key: "invar v t \<Longrightarrow> (\<And>x. x \<in> elems t \<Longrightarrow> w x = v x) \<Longrightarrow> invar w t"
    and invar_ins: "invar v t \<Longrightarrow> n \<notin> elems t \<Longrightarrow> n \<noteq> nil \<Longrightarrow> invar v (ins v n t)"
    and invar_del: "invar v t \<Longrightarrow> invar v (del n t)"
    and elems_ins: "invar v t \<Longrightarrow> elems (ins v n t) = insert n (elems t)"
    and elems_del: "invar v t \<Longrightarrow> elems (del n t) = elems t - {n}"
    and floor_none: "invar v t \<Longrightarrow> (\<And>x. x \<in> elems t \<Longrightarrow> q < v x) \<Longrightarrow> floor_of v q t = nil"
    and floor_some: "invar v t \<Longrightarrow> x \<in> elems t \<Longrightarrow> v x \<le> q \<Longrightarrow>
      floor_of v q t \<in> elems t \<and> v (floor_of v q t) \<le> q \<and> v x \<le> v (floor_of v q t)"
begin

lemma floor_in: "invar v t \<Longrightarrow> floor_of v q t \<noteq> nil \<Longrightarrow> floor_of v q t \<in> elems t"
  using floor_none floor_some by (metis not_le)

lemma floor_le: "invar v t \<Longrightarrow> floor_of v q t \<noteq> nil \<Longrightarrow> v (floor_of v q t) \<le> q"
  using floor_none floor_some by (metis not_le)

lemma floor_unique:
  assumes "invar v t" "x \<in> elems t" "v x \<le> q" "inj_on v (elems t)"
    and "\<And>y. y \<in> elems t \<Longrightarrow> v x < v y \<Longrightarrow> q < v y"
  shows "floor_of v q t = x"
proof -
  have f: "floor_of v q t \<in> elems t" "v (floor_of v q t) \<le> q" "v x \<le> v (floor_of v q t)"
    using floor_some assms(1-3) by auto
  then have "v (floor_of v q t) = v x" using assms(5) by fastforce
  then show ?thesis using inj_onD [OF assms(4)] f(1) assms(2) by blast
qed

end

definition rb_inv :: "(addr \<Rightarrow> u64) \<Rightarrow> rbt \<Rightarrow> bool" where
  "rb_inv v t \<longleftrightarrow> rb_ok t \<and> sorted (map v (ids t)) \<and> distinct (ids t) \<and> 0 \<notin> set (ids t)"

lemma ord_ins_simps [simp]:
  "ord_ins v n [] = [n]"
  "ord_ins v n (x # xs) = (if v x \<le> v n then x # ord_ins v n xs else n # x # xs)"
  by (simp_all add: ord_ins_def)

lemma set_ord_ins [simp]: "set (ord_ins v n xs) = insert n (set xs)"
  by (induction xs) auto

lemma distinct_ord_ins: "distinct xs \<Longrightarrow> n \<notin> set xs \<Longrightarrow> distinct (ord_ins v n xs)"
  by (induction xs) auto

lemma sorted_ord_ins: "sorted (map v xs) \<Longrightarrow> sorted (map v (ord_ins v n xs))"
  by (induction xs) auto

lemma ord_ins_key: "(\<And>x. x \<in> insert n (set xs) \<Longrightarrow> w x = v x) \<Longrightarrow> ord_ins w n xs = ord_ins v n xs"
  by (induction xs) auto

lemma rb_inv_insert: "rb_inv v t \<Longrightarrow> n \<notin> set (ids t) \<Longrightarrow> n \<noteq> 0 \<Longrightarrow> rb_inv v (rb_insert v n t)"
  by (auto simp: rb_inv_def rb_ok_rb_insert ids_rb_insert distinct_ord_ins sorted_ord_ins)

lemma sorted_remove1_map: "sorted (map v xs) \<Longrightarrow> sorted (map v (remove1 n xs))"
  by (induction xs) (auto dest: set_remove1_subset [THEN subsetD])

lemma rb_inv_remove: "rb_inv v t \<Longrightarrow> rb_inv v (rb_remove n t)"
  by (auto simp: rb_inv_def rb_ok_rb_remove ids_rb_remove sorted_remove1_map
      dest: set_remove1_subset [THEN subsetD])

lemma rb_inv_key: "rb_inv v t \<Longrightarrow> (\<And>x. x \<in> set (ids t) \<Longrightarrow> w x = v x) \<Longrightarrow> rb_inv w t"
proof -
  assume "rb_inv v t" and "\<And>x. x \<in> set (ids t) \<Longrightarrow> w x = v x"
  moreover from this(2) have "map w (ids t) = map v (ids t)" by simp
  ultimately show ?thesis by (simp only: rb_inv_def simp_thms)
qed

interpretation rb_index: ordered_index "\<lambda>t. set (ids t)" rb_inv 0 rb_insert rb_remove
  "\<lambda>v q. rb_search v q RB_SEARCH_TYPE_NEAREST_LTE"
proof unfold_locales
  fix v w :: "addr \<Rightarrow> u64" and t n q x
  assume t: "rb_inv v t"
  show "0 \<notin> set (ids t)" using t by (simp add: rb_inv_def)
  show "(\<And>x. x \<in> set (ids t) \<Longrightarrow> w x = v x) \<Longrightarrow> rb_inv w t" using t by (rule rb_inv_key)
  show "n \<notin> set (ids t) \<Longrightarrow> n \<noteq> 0 \<Longrightarrow> rb_inv v (rb_insert v n t)" using t by (rule rb_inv_insert)
  show "rb_inv v (rb_remove n t)" using t by (rule rb_inv_remove)
  show "set (ids (rb_insert v n t)) = insert n (set (ids t))"
    using t by (simp add: rb_inv_def ids_rb_insert)
  show "set (ids (rb_remove n t)) = set (ids t) - {n}"
    using t by (simp add: rb_inv_def ids_rb_remove)
  have g: "greatest_in v (at_most v q True t) 0 (rb_search v q RB_SEARCH_TYPE_NEAREST_LTE t)"
    using t search_lesser_correct [of v t True q 0] by (simp add: rb_inv_def)
  show "rb_search v q RB_SEARCH_TYPE_NEAREST_LTE t = 0" if "\<And>x. x \<in> set (ids t) \<Longrightarrow> q < v x"
  proof -
    have "at_most v q True t = {}" using that by (force simp: at_most_def)
    with g show ?thesis by (simp add: greatest_in_def)
  qed
  show "rb_search v q RB_SEARCH_TYPE_NEAREST_LTE t \<in> set (ids t) \<and>
      v (rb_search v q RB_SEARCH_TYPE_NEAREST_LTE t) \<le> q \<and>
      v x \<le> v (rb_search v q RB_SEARCH_TYPE_NEAREST_LTE t)"
    if "x \<in> set (ids t)" "v x \<le> q"
  proof -
    have "x \<in> at_most v q True t" using that by (auto simp: at_most_def)
    with g show ?thesis by (auto simp: greatest_in_def at_most_def split: if_splits)
  qed
qed

end
