(* ===== verification/RbPtr.thy ===== *)
theory RbPtr
  imports RbTree "HOL-Library.Monad_Syntax"
begin

unbundle bit_operations_syntax

text \<open>
  The intrusive red-black tree of \<^verbatim>\<open>utils/dstruct/rbtree.c\<close> at pointer level: parent words that pack
  the colour into bit 0, child arrays, and the loops of the source as partial functions that are
  \<open>None\<close> when they dereference a null pointer or do not return. The theory shows that every
  operation computes the function of \<open>RbTree\<close> on the represented tree.
\<close>

section \<open>The heap and the operations\<close>

record rb_state =
  rb_root :: addr
  rb_parent :: "addr \<Rightarrow> u64"
  rb_children :: "rbtree_direction \<Rightarrow> addr \<Rightarrow> addr"

definition get_child :: "rb_state \<Rightarrow> rbtree_direction \<Rightarrow> addr \<Rightarrow> addr option" where
  "get_child s d a = (if a = 0 then None else Some (rb_children s d a))"

definition set_child :: "rb_state \<Rightarrow> rbtree_direction \<Rightarrow> addr \<Rightarrow> addr \<Rightarrow> rb_state option" where
  "set_child s d a v = (if a = 0 then None
     else Some (s\<lparr>rb_children := (rb_children s)(d := (rb_children s d)(a := v))\<rparr>))"

definition rb_get_parent :: "rb_state \<Rightarrow> addr \<Rightarrow> addr option" where
  "rb_get_parent s a = (if a = 0 then None else Some (rb_parent s a AND NOT 1))"

definition rb_set_parent :: "rb_state \<Rightarrow> addr \<Rightarrow> addr \<Rightarrow> rb_state option" where
  "rb_set_parent s a p = (if a = 0 then None
     else Some (s\<lparr>rb_parent := (rb_parent s)(a := (rb_parent s a AND 1) OR p)\<rparr>))"

definition rb_get_color :: "rb_state \<Rightarrow> addr \<Rightarrow> color option" where
  "rb_get_color s a = (if a = 0 then None else Some (if rb_parent s a AND 1 \<noteq> 0 then Black else Red))"

definition cbit :: "color \<Rightarrow> u64" where
  "cbit c = (if c = Black then 1 else 0)"

definition rb_set_color :: "rb_state \<Rightarrow> addr \<Rightarrow> color \<Rightarrow> rb_state option" where
  "rb_set_color s a c = (if a = 0 then None
     else Some (s\<lparr>rb_parent := (rb_parent s)(a := (rb_parent s a AND NOT 1) OR cbit c)\<rparr>))"

definition rbtree_direction_of :: "rb_state \<Rightarrow> addr \<Rightarrow> rbtree_direction option" where
  "rbtree_direction_of s node = do {
     p \<leftarrow> rb_get_parent s node;
     r \<leftarrow> get_child s RB_RIGHT p;
     Some (if node = r then RB_RIGHT else RB_LEFT) }"

definition is_red :: "rb_state \<Rightarrow> addr \<Rightarrow> bool option" where
  "is_red s a = (if a = 0 then Some False else map_option (\<lambda>c. c = Red) (rb_get_color s a))"

partial_function (option) descend :: "rb_state \<Rightarrow> rbtree_direction \<Rightarrow> addr \<Rightarrow> addr option" where
  "descend s d node = do {
     c \<leftarrow> get_child s d node;
     if c \<noteq> 0 then descend s d c else Some node }"

definition rbtree_minimum :: "rb_state \<Rightarrow> addr \<Rightarrow> addr option" where
  "rbtree_minimum s node = (if node = 0 then Some 0 else descend s RB_LEFT node)"

definition rbtree_maximum :: "rb_state \<Rightarrow> addr \<Rightarrow> addr option" where
  "rbtree_maximum s node = (if node = 0 then Some 0 else descend s RB_RIGHT node)"

partial_function (option) ascend :: "rb_state \<Rightarrow> rbtree_direction \<Rightarrow> addr \<Rightarrow> addr \<Rightarrow> addr option" where
  "ascend s d node parent = (if parent = 0 then Some parent else do {
     c \<leftarrow> get_child s d parent;
     if node = c then do { p \<leftarrow> rb_get_parent s parent; ascend s d parent p } else Some parent })"

definition rbtree_successor :: "rb_state \<Rightarrow> addr \<Rightarrow> addr option" where
  "rbtree_successor s node = do {
     r \<leftarrow> get_child s RB_RIGHT node;
     if r \<noteq> 0 then rbtree_minimum s r
     else do { p \<leftarrow> rb_get_parent s node; ascend s RB_RIGHT node p } }"

definition rbtree_predecessor :: "rb_state \<Rightarrow> addr \<Rightarrow> addr option" where
  "rbtree_predecessor s node = do {
     l \<leftarrow> get_child s RB_LEFT node;
     if l \<noteq> 0 then rbtree_maximum s l
     else do { p \<leftarrow> rb_get_parent s node; ascend s RB_LEFT node p } }"

definition rbtree_rotate_subtree ::
  "rb_state \<Rightarrow> addr \<Rightarrow> rbtree_direction \<Rightarrow> (addr \<times> rb_state) option" where
  "rbtree_rotate_subtree s subn dir = do {
     sub_parent \<leftarrow> rb_get_parent s subn;
     new_root \<leftarrow> get_child s (\<not> dir) subn;
     new_child \<leftarrow> get_child s dir new_root;
     s \<leftarrow> set_child s (\<not> dir) subn new_child;
     s \<leftarrow> (if new_child \<noteq> 0 then rb_set_parent s new_child subn else Some s);
     s \<leftarrow> set_child s dir new_root subn;
     s \<leftarrow> rb_set_parent s new_root sub_parent;
     s \<leftarrow> rb_set_parent s subn new_root;
     s \<leftarrow> (if sub_parent \<noteq> 0 then do {
         r \<leftarrow> get_child s RB_RIGHT sub_parent;
         set_child s (subn = r) sub_parent new_root }
       else Some (s\<lparr>rb_root := new_root\<rparr>));
     Some (new_root, s) }"

section \<open>Search\<close>

partial_function (option) exact_loop ::
  "(addr \<Rightarrow> u64) \<Rightarrow> u64 \<Rightarrow> rb_state \<Rightarrow> addr \<Rightarrow> addr option" where
  "exact_loop von query s node = (if node = 0 then Some 0
     else if query < von node then do { n \<leftarrow> get_child s RB_LEFT node; exact_loop von query s n }
     else if query > von node then do { n \<leftarrow> get_child s RB_RIGHT node; exact_loop von query s n }
     else Some node)"

definition rbtree_search_exact :: "(addr \<Rightarrow> u64) \<Rightarrow> rb_state \<Rightarrow> u64 \<Rightarrow> addr option" where
  "rbtree_search_exact von s query = exact_loop von query s (rb_root s)"

partial_function (option) nearest_loop ::
  "(addr \<Rightarrow> u64) \<Rightarrow> u64 \<Rightarrow> rb_state \<Rightarrow> addr \<Rightarrow> addr \<Rightarrow> u64 \<Rightarrow> addr option" where
  "nearest_loop von query s node nearest best = (if node = 0 then Some nearest else
     (let val = von node;
          dist = (if val > query then val - query else query - val);
          (nearest, best) = (if dist < best then (node, dist) else (nearest, best)) in
      if query < val then do { n \<leftarrow> get_child s RB_LEFT node; nearest_loop von query s n nearest best }
      else if query > val then do { n \<leftarrow> get_child s RB_RIGHT node; nearest_loop von query s n nearest best }
      else Some node))"

definition rbtree_search_nearest :: "(addr \<Rightarrow> u64) \<Rightarrow> rb_state \<Rightarrow> u64 \<Rightarrow> addr option" where
  "rbtree_search_nearest von s query = nearest_loop von query s (rb_root s) 0 (- 1)"

partial_function (option) lesser_loop ::
  "(addr \<Rightarrow> u64) \<Rightarrow> u64 \<Rightarrow> bool \<Rightarrow> rb_state \<Rightarrow> addr \<Rightarrow> addr \<Rightarrow> addr option" where
  "lesser_loop von query find_equal s node candidate = (if node = 0 then Some candidate
     else if von node < query then
       do { n \<leftarrow> get_child s RB_RIGHT node; lesser_loop von query find_equal s n node }
     else if von node > query then
       do { n \<leftarrow> get_child s RB_LEFT node; lesser_loop von query find_equal s n candidate }
     else if find_equal then Some node
     else do { l \<leftarrow> get_child s RB_LEFT node;
               if l \<noteq> 0 then rbtree_maximum s l else Some candidate })"

definition rbtree_search_lesser :: "(addr \<Rightarrow> u64) \<Rightarrow> rb_state \<Rightarrow> u64 \<Rightarrow> bool \<Rightarrow> addr option" where
  "rbtree_search_lesser von s query find_equal = lesser_loop von query find_equal s (rb_root s) 0"

partial_function (option) greater_loop ::
  "(addr \<Rightarrow> u64) \<Rightarrow> u64 \<Rightarrow> bool \<Rightarrow> rb_state \<Rightarrow> addr \<Rightarrow> addr \<Rightarrow> addr option" where
  "greater_loop von query find_equal s node candidate = (if node = 0 then Some candidate
     else if von node > query then
       do { n \<leftarrow> get_child s RB_LEFT node; greater_loop von query find_equal s n node }
     else if von node < query then
       do { n \<leftarrow> get_child s RB_RIGHT node; greater_loop von query find_equal s n candidate }
     else if find_equal then Some node
     else do { r \<leftarrow> get_child s RB_RIGHT node;
               if r \<noteq> 0 then rbtree_minimum s r else Some candidate })"

definition rbtree_search_greater :: "(addr \<Rightarrow> u64) \<Rightarrow> rb_state \<Rightarrow> u64 \<Rightarrow> bool \<Rightarrow> addr option" where
  "rbtree_search_greater von s query find_equal = greater_loop von query find_equal s (rb_root s) 0"

fun rbtree_search :: "(addr \<Rightarrow> u64) \<Rightarrow> rb_state \<Rightarrow> u64 \<Rightarrow> rbtree_search_type \<Rightarrow> addr option" where
  "rbtree_search von s q RB_SEARCH_TYPE_EXACT = rbtree_search_exact von s q"
| "rbtree_search von s q RB_SEARCH_TYPE_NEAREST = rbtree_search_nearest von s q"
| "rbtree_search von s q RB_SEARCH_TYPE_NEAREST_LT = rbtree_search_lesser von s q False"
| "rbtree_search von s q RB_SEARCH_TYPE_NEAREST_LTE = rbtree_search_lesser von s q True"
| "rbtree_search von s q RB_SEARCH_TYPE_NEAREST_GT = rbtree_search_greater von s q False"
| "rbtree_search von s q RB_SEARCH_TYPE_NEAREST_GTE = rbtree_search_greater von s q True"

section \<open>Insertion and removal\<close>

partial_function (option) insert_fixup_loop :: "rb_state \<Rightarrow> addr \<Rightarrow> addr \<Rightarrow> rb_state option" where
  "insert_fixup_loop s node parent = do {
     pc \<leftarrow> rb_get_color s parent;
     if pc = Black then Some s
     else do {
       grandparent \<leftarrow> rb_get_parent s parent;
       if grandparent = 0 then rb_set_color s parent Black
       else do {
         dir \<leftarrow> rbtree_direction_of s parent;
         uncle \<leftarrow> get_child s (\<not> dir) grandparent;
         ur \<leftarrow> is_red s uncle;
         if \<not> ur then do {
           inner \<leftarrow> get_child s (\<not> dir) parent;
           (s, parent) \<leftarrow> (if node = inner then do {
               (_, s) \<leftarrow> rbtree_rotate_subtree s parent dir;
               parent \<leftarrow> get_child s dir grandparent;
               Some (s, parent) }
             else Some (s, parent));
           (_, s) \<leftarrow> rbtree_rotate_subtree s grandparent (\<not> dir);
           s \<leftarrow> rb_set_color s parent Black;
           rb_set_color s grandparent Red }
         else do {
           s \<leftarrow> rb_set_color s parent Black;
           s \<leftarrow> rb_set_color s uncle Black;
           s \<leftarrow> rb_set_color s grandparent Red;
           parent \<leftarrow> rb_get_parent s grandparent;
           if parent \<noteq> 0 then insert_fixup_loop s grandparent parent
           else rb_set_color s (rb_root s) Black } } } }"

definition rbtree_insert_fixup :: "rb_state \<Rightarrow> addr \<Rightarrow> addr \<Rightarrow> rb_state option" where
  "rbtree_insert_fixup s node parent = do {
     s \<leftarrow> rb_set_color s node Red;
     if parent = 0 then rb_set_color (s\<lparr>rb_root := node\<rparr>) node Black
     else insert_fixup_loop s node parent }"

partial_function (option) insert_descend ::
  "(addr \<Rightarrow> u64) \<Rightarrow> u64 \<Rightarrow> rb_state \<Rightarrow> addr \<Rightarrow> addr \<Rightarrow> rbtree_direction \<Rightarrow> (addr \<times> rbtree_direction) option"
where
  "insert_descend von key s cur parent dir = (if cur = 0 then Some (parent, dir)
     else if key < von cur then
       do { n \<leftarrow> get_child s RB_LEFT cur; insert_descend von key s n cur RB_LEFT }
     else do { n \<leftarrow> get_child s RB_RIGHT cur; insert_descend von key s n cur RB_RIGHT })"

definition rbtree_insert :: "(addr \<Rightarrow> u64) \<Rightarrow> rb_state \<Rightarrow> addr \<Rightarrow> (addr \<times> rb_state) option" where
  "rbtree_insert von s node = do {
     s \<leftarrow> set_child s RB_LEFT node 0;
     s \<leftarrow> set_child s RB_RIGHT node 0;
     let s = s\<lparr>rb_parent := (rb_parent s)(node := 0)\<rparr>;
     (parent, dir) \<leftarrow> insert_descend von (von node) s (rb_root s) 0 RB_LEFT;
     s \<leftarrow> (if parent = 0 then Some (s\<lparr>rb_root := node\<rparr>)
           else do { s \<leftarrow> rb_set_parent s node parent; set_child s dir parent node });
     s \<leftarrow> rbtree_insert_fixup s node parent;
     Some (node, s) }"

partial_function (option) remove_fixup_loop ::
  "rb_state \<Rightarrow> addr \<Rightarrow> rbtree_direction \<Rightarrow> rb_state option" where
  "remove_fixup_loop s parent dir = do {
     sibling \<leftarrow> get_child s (\<not> dir) parent;
     sc \<leftarrow> rb_get_color s sibling;
     (s, sibling) \<leftarrow> (if sc = Red then do {
         s \<leftarrow> rb_set_color s parent Red;
         s \<leftarrow> rb_set_color s sibling Black;
         sibling \<leftarrow> get_child s dir sibling;
         (_, s) \<leftarrow> rbtree_rotate_subtree s parent dir;
         Some (s, sibling) }
       else Some (s, sibling));
     distant_nephew \<leftarrow> get_child s (\<not> dir) sibling;
     close_nephew \<leftarrow> get_child s dir sibling;
     dr \<leftarrow> is_red s distant_nephew;
     if dr then do {
       (_, s) \<leftarrow> rbtree_rotate_subtree s parent dir;
       pc \<leftarrow> rb_get_color s parent;
       s \<leftarrow> rb_set_color s sibling pc;
       s \<leftarrow> rb_set_color s distant_nephew Black;
       rb_set_color s parent Black }
     else do {
       cr \<leftarrow> is_red s close_nephew;
       if cr then do {
         (_, s) \<leftarrow> rbtree_rotate_subtree s sibling (\<not> dir);
         (_, s) \<leftarrow> rbtree_rotate_subtree s parent dir;
         pc \<leftarrow> rb_get_color s parent;
         s \<leftarrow> rb_set_color s close_nephew pc;
         rb_set_color s parent Black }
       else do {
         s \<leftarrow> rb_set_color s sibling Red;
         pc \<leftarrow> rb_get_color s parent;
         if pc = Red then rb_set_color s parent Black
         else do {
           let node = parent;
           parent \<leftarrow> rb_get_parent s node;
           if parent \<noteq> 0 then do {
             r \<leftarrow> get_child s RB_RIGHT parent;
             remove_fixup_loop s parent (r = node) }
           else Some s } } } }"

definition rbtree_remove_fixup :: "rb_state \<Rightarrow> addr \<Rightarrow> rbtree_direction \<Rightarrow> rb_state option" where
  "rbtree_remove_fixup s node dir = do {
     parent \<leftarrow> rb_get_parent s node;
     if parent = 0 then rb_set_color s node Black else remove_fixup_loop s parent dir }"

text \<open>The exchange of a node that has two children with its successor, up to and including the
  exchange of their colours.\<close>

definition swap_successor :: "rb_state \<Rightarrow> addr \<Rightarrow> rb_state option" where
  "swap_successor s node = do {
     right \<leftarrow> get_child s RB_RIGHT node;
     succ \<leftarrow> rbtree_minimum s right;
     succ_parent \<leftarrow> rb_get_parent s succ;
     succ_right \<leftarrow> get_child s RB_RIGHT succ;
     left \<leftarrow> get_child s RB_LEFT node;
     s \<leftarrow> set_child s RB_LEFT succ left;
     s \<leftarrow> rb_set_parent s left succ;
     node_parent \<leftarrow> rb_get_parent s node;
     s \<leftarrow> rb_set_parent s succ node_parent;
     s \<leftarrow> (if node_parent = 0 then Some (s\<lparr>rb_root := succ\<rparr>)
           else do { r \<leftarrow> get_child s RB_RIGHT node_parent;
                     set_child s (node = r) node_parent succ });
     s \<leftarrow> (if succ_parent = node then do {
             s \<leftarrow> set_child s RB_RIGHT succ node;
             rb_set_parent s node succ }
           else do {
             right \<leftarrow> get_child s RB_RIGHT node;
             s \<leftarrow> set_child s RB_RIGHT succ right;
             s \<leftarrow> rb_set_parent s right succ;
             s \<leftarrow> set_child s RB_LEFT succ_parent node;
             rb_set_parent s node succ_parent });
     s \<leftarrow> set_child s RB_LEFT node 0;
     s \<leftarrow> set_child s RB_RIGHT node succ_right;
     s \<leftarrow> (if succ_right \<noteq> 0 then rb_set_parent s succ_right node else Some s);
     tmp \<leftarrow> rb_get_color s node;
     c \<leftarrow> rb_get_color s succ;
     s \<leftarrow> rb_set_color s node c;
     rb_set_color s succ tmp }"

definition rbtree_remove :: "rb_state \<Rightarrow> addr \<Rightarrow> (addr \<times> rb_state) option" where
  "rbtree_remove s node = do {
     left \<leftarrow> get_child s RB_LEFT node;
     right \<leftarrow> get_child s RB_RIGHT node;
     s \<leftarrow> (if left \<noteq> 0 \<and> right \<noteq> 0 then swap_successor s node else Some s);
     parent \<leftarrow> rb_get_parent s node;
     left \<leftarrow> get_child s RB_LEFT node;
     right \<leftarrow> get_child s RB_RIGHT node;
     let replacement = (if left \<noteq> 0 then left else right);
     s \<leftarrow> (if replacement \<noteq> 0 then rb_set_parent s replacement parent else Some s);
     (s, dir) \<leftarrow> (if parent = 0 then Some (s\<lparr>rb_root := replacement\<rparr>, RB_LEFT)
       else do {
         dir \<leftarrow> rbtree_direction_of s node;
         s \<leftarrow> set_child s dir parent replacement;
         Some (s, dir) });
     c \<leftarrow> rb_get_color s node;
     s \<leftarrow> (if c = Black then do {
             rr \<leftarrow> is_red s replacement;
             if rr then rb_set_color s replacement Black
             else if replacement \<noteq> 0 then rbtree_remove_fixup s replacement dir
             else if parent \<noteq> 0 then rbtree_remove_fixup s node dir
             else Some s }
           else Some s);
     Some (replacement, s) }"

section \<open>Representation\<close>

abbreviation even_addr :: "addr \<Rightarrow> bool" where
  "even_addr a \<equiv> a AND 1 = 0"

primrec trep ::
  "(rbtree_direction \<Rightarrow> addr \<Rightarrow> addr) \<Rightarrow> (addr \<Rightarrow> u64) \<Rightarrow> addr \<Rightarrow> addr \<Rightarrow> rbt \<Rightarrow> bool" where
  "trep C P par ptr Leaf \<longleftrightarrow> ptr = 0"
| "trep C P par ptr (Node l x r) \<longleftrightarrow> ptr = fst x \<and> fst x \<noteq> 0 \<and> even_addr (fst x) \<and>
    P (fst x) = par OR cbit (snd x) \<and> trep C P (fst x) (C RB_LEFT (fst x)) l \<and>
    trep C P (fst x) (C RB_RIGHT (fst x)) r"

text \<open>\<open>crep C P par root K hole\<close>: the frames \<open>K\<close> hang below \<open>par\<close> at the pointer \<open>root\<close> and their hole is
  filled with the pointer \<open>hole\<close>.\<close>

fun par_of :: "addr \<Rightarrow> frame list \<Rightarrow> addr" where
  "par_of par [] = par"
| "par_of par ((d, p, c, s) # K) = p"

fun crep ::
  "(rbtree_direction \<Rightarrow> addr \<Rightarrow> addr) \<Rightarrow> (addr \<Rightarrow> u64) \<Rightarrow> addr \<Rightarrow> addr \<Rightarrow> frame list \<Rightarrow> addr \<Rightarrow> bool"
where
  "crep C P par root [] hole \<longleftrightarrow> hole = root"
| "crep C P par root ((d, p, c, s) # K) hole \<longleftrightarrow> C d p = hole \<and> p \<noteq> 0 \<and> even_addr p \<and>
    P p = par_of par K OR cbit c \<and> trep C P p (C (\<not> d) p) s \<and> crep C P par root K p"

definition rb_rep :: "rb_state \<Rightarrow> rbt \<Rightarrow> bool" where
  "rb_rep s t \<longleftrightarrow> trep (rb_children s) (rb_parent s) 0 (rb_root s) t \<and> distinct (ids t)"

definition ctx_ids :: "frame list \<Rightarrow> addr list" where
  "ctx_ids K = ctx_l K @ ctx_r K"

declare ids_simps(3) [simp del]

lemma ids_nd [simp]:
  "set (ids (nd d l (x, c) r)) = insert x (set (ids l) \<union> set (ids r))"
  "distinct (ids (nd d l (x, c) r)) \<longleftrightarrow> x \<notin> set (ids l) \<and> x \<notin> set (ids r) \<and> distinct (ids l) \<and>
    distinct (ids r) \<and> set (ids l) \<inter> set (ids r) = {}"
  by (auto simp: ids_simps(3))

lemma trep_nd [simp]:
  "trep C P par ptr (nd d l (x, c) r) \<longleftrightarrow> ptr = x \<and> x \<noteq> 0 \<and> even_addr x \<and>
    P x = par OR cbit c \<and> trep C P x (C d x) l \<and> trep C P x (C (\<not> d) x) r"
  by (cases d) (auto simp: nd_def)

lemma trep_rid: "trep C P par ptr t \<Longrightarrow> ptr = rid t"
  by (cases t rule: rid.cases) auto

lemma trep_at: "trep C P par ptr t \<Longrightarrow> ptr = rid t \<and> trep C P par (rid t) t"
  using trep_rid by blast

lemma trep_nonzero: "trep C P par ptr t \<Longrightarrow> a \<in> set (ids t) \<Longrightarrow> a \<noteq> 0 \<and> even_addr a"
  by (induction t arbitrary: par ptr) auto

lemma crep_hole: "crep C P par root (f # K) h \<Longrightarrow> crep C P par root (f # K) h' \<Longrightarrow> h = h'"
  by (cases f) auto

lemma trep_zip:
  "trep C P par root (zip_up K t) \<longleftrightarrow> crep C P par root K (rid t) \<and> trep C P (par_of par K) (rid t) t"
proof (induction K arbitrary: t)
  case Nil
  then show ?case using trep_rid by auto
next
  case (Cons f K)
  obtain d p c s where f: "f = (d, p, c, s)" by (cases f)
  show ?case using Cons.IH [of "nd d t (p, c) s"] trep_rid [of C P p "C d p" t] by (auto simp: f)
qed

lemma ctx_ids_Cons [simp]:
  "set (ctx_ids ((d, p, c, s) # K)) = insert p (set (ids s) \<union> set (ctx_ids K))"
  by (auto simp: ctx_ids_def)

lemma ctx_ids_Nil [simp]: "ctx_ids [] = []"
  by (simp add: ctx_ids_def)

lemma ctx_ids_append [simp]: "set (ctx_ids (K @ L)) = set (ctx_ids K) \<union> set (ctx_ids L)"
  by (auto simp: ctx_ids_def)

lemma distinct_zip:
  "distinct (ids (zip_up K t)) \<longleftrightarrow>
    distinct (ctx_ids K) \<and> distinct (ids t) \<and> set (ctx_ids K) \<inter> set (ids t) = {}"
  by (auto simp: ids_zip_up ctx_ids_def)

lemma distinct_ctx_Cons [simp]:
  "distinct (ctx_ids ((d, p, c, s) # K)) \<longleftrightarrow> distinct (ids s) \<and> distinct (ctx_ids K) \<and>
    p \<notin> set (ids s) \<and> p \<notin> set (ctx_ids K) \<and> set (ids s) \<inter> set (ctx_ids K) = {}"
  by (auto simp: ctx_ids_def)

lemma distinct_ctx_append [simp]:
  "distinct (ctx_ids (L @ K)) \<longleftrightarrow>
    distinct (ctx_ids L) \<and> distinct (ctx_ids K) \<and> set (ctx_ids L) \<inter> set (ctx_ids K) = {}"
  by (auto simp: ctx_ids_def)

lemma trep_cong:
  "(\<And>a. a \<in> set (ids t) \<Longrightarrow> P a = P' a \<and> (\<forall>d. C d a = C' d a)) \<Longrightarrow>
   trep C P par ptr t = trep C' P' par ptr t"
  by (induction t arbitrary: par ptr) auto

lemma crep_cong:
  "(\<And>a. a \<in> set (ctx_ids K) \<Longrightarrow> P a = P' a \<and> (\<forall>d. C d a = C' d a)) \<Longrightarrow>
   crep C P par root K hole = crep C' P' par root K hole"
proof (induction K arbitrary: hole)
  case (Cons f K)
  obtain d p c s where f: "f = (d, p, c, s)" by (cases f)
  have "trep C P p (C (\<not> d) p) s = trep C' P' p (C (\<not> d) p) s"
    using Cons.prems by (intro trep_cong) (auto simp: f)
  moreover have "crep C P par root K p = crep C' P' par root K p"
    using Cons.prems by (intro Cons.IH) (auto simp: f)
  ultimately show ?case using Cons.prems by (auto simp: f)
qed simp

lemma trep_upd [simp]:
  "a \<notin> set (ids t) \<Longrightarrow> trep C (P(a := w)) par ptr t = trep C P par ptr t"
  "a \<notin> set (ids t) \<Longrightarrow> trep (C(d := (C d)(a := w))) P par ptr t = trep C P par ptr t"
  by (rule trep_cong; auto)+

lemma crep_upd [simp]:
  "a \<notin> set (ctx_ids K) \<Longrightarrow> crep C (P(a := w)) par root K h = crep C P par root K h"
  "a \<notin> set (ctx_ids K) \<Longrightarrow> crep (C(d := (C d)(a := w))) P par root K h = crep C P par root K h"
  by (rule crep_cong; auto)+

lemmas upd_lam [simp] = trep_upd(1) [unfolded fun_upd_def] crep_upd(1) [unfolded fun_upd_def]

lemma even_addr_bit: "even_addr p \<Longrightarrow> \<not> bit p 0"
  using bit_and_iff [of p 1 0] by (auto simp: bit_1_0)

lemma cbit_word [simp]:
  assumes "even_addr p"
  shows "(p OR cbit c) AND NOT 1 = p" "(p OR cbit c) AND 1 = cbit c" "(p OR cbit c) AND - 2 = p"
proof -
  have "bit p n \<Longrightarrow> n \<noteq> 0" for n using even_addr_bit [OF assms] by (cases n) auto
  then show *: "(p OR cbit c) AND NOT 1 = p" "(p OR cbit c) AND 1 = cbit c"
    by (auto simp: cbit_def bit_eq_iff bit_simps)
  from *(1) show "(p OR cbit c) AND - 2 = p" by simp
qed

lemma even_addr_0 [simp]: "even_addr 0"
  by simp

lemma cbit_eq [simp]: "cbit c = 0 \<longleftrightarrow> c = Red" "cbit c \<noteq> 0 \<longleftrightarrow> c = Black"
  by (auto simp: cbit_def)

lemma crep_par_even: "crep C P par root K h \<Longrightarrow> even_addr par \<Longrightarrow> even_addr (par_of par K)"
  by (cases "(C, P, par, root, K, h)" rule: crep.cases) auto

lemma par_of_in: "K \<noteq> [] \<Longrightarrow> par_of par K \<in> set (ctx_ids K)"
  by (cases "(par, K)" rule: par_of.cases) auto

lemma rb_rep_zip:
  "rb_rep s (zip_up K t) \<longleftrightarrow>
    crep (rb_children s) (rb_parent s) 0 (rb_root s) K (rid t) \<and>
    trep (rb_children s) (rb_parent s) (par_of 0 K) (rid t) t \<and>
    distinct (ctx_ids K) \<and> distinct (ids t) \<and> set (ctx_ids K) \<inter> set (ids t) = {}"
  by (auto simp: rb_rep_def trep_zip distinct_zip)

lemma rb_reads:
  assumes "rb_rep s (zip_up K (nd d l (x, c) r))"
  shows "x \<noteq> 0" "even_addr x" "get_child s d x = Some (rid l)" "get_child s (\<not> d) x = Some (rid r)"
    "rb_get_parent s x = Some (par_of 0 K)" "rb_get_color s x = Some c"
proof -
  note r = assms [unfolded rb_rep_zip]
  have "even_addr (par_of 0 K)" using r crep_par_even by fastforce
  with r show "x \<noteq> 0" "even_addr x" "get_child s d x = Some (rid l)"
    "get_child s (\<not> d) x = Some (rid r)"
    "rb_get_parent s x = Some (par_of 0 K)" "rb_get_color s x = Some c"
    by (auto simp: get_child_def rb_get_parent_def rb_get_color_def dest!: trep_rid)
qed

lemma rb_root_read: "rb_rep s t \<Longrightarrow> rb_root s = rid t"
  by (auto simp: rb_rep_def dest: trep_rid)

lemma is_red_read: "rb_rep s (zip_up K t) \<Longrightarrow> is_red s (rid t) = Some (col t = Red)"
  using rb_reads(1,6) [of s K RB_LEFT] by (cases t rule: nd_cases [where d = RB_LEFT]) (auto simp: is_red_def)

lemma rb_set_color_rep:
  assumes "rb_rep s (zip_up K (nd d l (x, c) r))"
  shows "\<exists>s'. rb_set_color s x c' = Some s' \<and> rb_rep s' (zip_up K (nd d l (x, c') r))"
proof -
  note r = assms [unfolded rb_rep_zip]
  have "even_addr (par_of 0 K)" using r crep_par_even by fastforce
  with r show ?thesis unfolding rb_rep_zip
    by (auto simp: rb_set_color_def split: if_splits)
qed

lemma rid_in: "t \<noteq> Leaf \<Longrightarrow> rid t \<in> set (ids t)"
  by (cases t rule: rid.cases) auto

lemma rid_eq_0: "trep C P par ptr t \<Longrightarrow> rid t = 0 \<longleftrightarrow> t = Leaf"
  by (cases t rule: rid.cases) auto

lemma trep_reparent:
  "trep C P par ptr t \<Longrightarrow> even_addr par \<Longrightarrow> even_addr par' \<Longrightarrow> distinct (ids t) \<Longrightarrow> t \<noteq> Leaf \<Longrightarrow>
   trep C (P(ptr := (P ptr AND 1) OR par')) par' ptr t"
  by (cases t rule: rid.cases) (auto simp: or.commute)

lemma crep_replace:
  assumes "crep C P par root K x" "x \<noteq> 0" "x \<notin> set (ctx_ids K)" "distinct (ctx_ids K)"
  shows "K \<noteq> [] \<Longrightarrow> par_of par K \<noteq> 0"
    and "K \<noteq> [] \<Longrightarrow>
      crep (C((x = C RB_RIGHT (par_of par K)) := (C (x = C RB_RIGHT (par_of par K)))(par_of par K := y)))
        P par root K y"
    and "K = [] \<Longrightarrow> crep C P par y K y"
proof -
  show "K \<noteq> [] \<Longrightarrow> par_of par K \<noteq> 0"
    using assms by (cases "(par, K)" rule: par_of.cases) auto
  show "K = [] \<Longrightarrow> crep C P par y K y" by simp
  assume "K \<noteq> []"
  then obtain d p c s L where K: "K = (d, p, c, s) # L" by (cases K) auto
  have "(x = C RB_RIGHT p) = d"
    using assms trep_rid [of C P p "C (\<not> d) p" s] rid_in [of s] by (cases d; cases "s = Leaf") (auto simp: K)
  then show "crep (C((x = C RB_RIGHT (par_of par K)) := (C (x = C RB_RIGHT (par_of par K)))(par_of par K := y)))
        P par root K y"
    using assms by (auto simp: K)
qed

definition upd2 ::
  "(rbtree_direction \<Rightarrow> addr \<Rightarrow> addr) \<Rightarrow> rbtree_direction \<Rightarrow> addr \<Rightarrow> addr \<Rightarrow> rbtree_direction \<Rightarrow> addr \<Rightarrow> addr"
  where "upd2 C d a v = C(d := (C d)(a := v))"

lemma upd2_apply: "upd2 C d a v e b = (if e = d \<and> b = a then v else C e b)"
  by (simp add: upd2_def)

lemma trep_upd2 [simp]: "a \<notin> set (ids t) \<Longrightarrow> trep (upd2 C d a v) P par ptr t = trep C P par ptr t"
  by (simp add: upd2_def)

lemma crep_upd2 [simp]: "a \<notin> set (ctx_ids K) \<Longrightarrow> crep (upd2 C d a v) P par root K h = crep C P par root K h"
  by (simp add: upd2_def)

lemma set_child_upd2:
  "set_child s d a v = (if a = 0 then None else Some (s\<lparr>rb_children := upd2 (rb_children s) d a v\<rparr>))"
  by (simp add: set_child_def upd2_def)

text \<open>Redirecting the link from the context to a new root of the subtree.\<close>

definition relink :: "rb_state \<Rightarrow> addr \<Rightarrow> addr \<Rightarrow> addr \<Rightarrow> rb_state option" where
  "relink s parent old new = (if parent \<noteq> 0 then do {
       r \<leftarrow> get_child s RB_RIGHT parent;
       set_child s (old = r) parent new }
     else Some (s\<lparr>rb_root := new\<rparr>))"

lemma relink_alt:
  "relink s parent old new = (if parent = 0 then Some (s\<lparr>rb_root := new\<rparr>)
     else do { r \<leftarrow> get_child s RB_RIGHT parent; set_child s (old = r) parent new })"
  by (simp add: relink_def)

lemma relink_rep:
  assumes "crep (rb_children s) (rb_parent s) 0 (rb_root s) K x" "x \<noteq> 0" "x \<notin> set (ctx_ids K)"
    "distinct (ctx_ids K)"
  shows "\<exists>s'. relink s (par_of 0 K) x y = Some s' \<and> rb_parent s' = rb_parent s \<and>
    crep (rb_children s') (rb_parent s) 0 (rb_root s') K y \<and>
    (\<forall>a d. a \<notin> set (ctx_ids K) \<longrightarrow> rb_children s' d a = rb_children s d a)"
proof (cases "K = []")
  case True
  then show ?thesis by (auto simp: relink_def)
next
  case False
  then show ?thesis
    using crep_replace(1,2) [OF assms False] par_of_in [OF False, of 0]
    by (auto simp: relink_def get_child_def set_child_def)
qed

lemma rotate_relink:
  "rbtree_rotate_subtree s x d = do {
     sub_parent \<leftarrow> rb_get_parent s x;
     new_root \<leftarrow> get_child s (\<not> d) x;
     new_child \<leftarrow> get_child s d new_root;
     s \<leftarrow> set_child s (\<not> d) x new_child;
     s \<leftarrow> (if new_child \<noteq> 0 then rb_set_parent s new_child x else Some s);
     s \<leftarrow> set_child s d new_root x;
     s \<leftarrow> rb_set_parent s new_root sub_parent;
     s \<leftarrow> rb_set_parent s x new_root;
     s \<leftarrow> relink s sub_parent x new_root;
     Some (new_root, s) }"
  unfolding rbtree_rotate_subtree_def relink_def ..

lemma rotate_rep:
  assumes r: "rb_rep s (zip_up K (nd d a (x, cx) (nd d b (y, cy) e)))"
  shows "\<exists>s'. rbtree_rotate_subtree s x d = Some (y, s') \<and>
    rb_rep s' (zip_up K (nd d (nd d a (x, cx) b) (y, cy) e))"
proof -
  let ?C = "rb_children s" and ?P = "rb_parent s" and ?p = "par_of 0 K" and ?b = "rid b"
  note z = r [unfolded rb_rep_zip, simplified]
  have ev: "even_addr ?p" using z crep_par_even by fastforce
  have xy: "x \<noteq> 0" "y \<noteq> 0" "x \<noteq> y" "even_addr x" "even_addr y" using z by (auto split: if_splits)
  have b: "?C d y = ?b" "trep ?C ?P y ?b b" "?C (\<not> d) x = y" "?P x = ?p OR cbit cx" "?P y = x OR cbit cy"
    using z trep_rid [of ?C ?P y "?C d y" b] by auto
  define P1 where "P1 = (if b = Leaf then ?P else ?P(?b := (?P ?b AND 1) OR x))"
  define C2 where "C2 = upd2 (upd2 ?C (\<not> d) x ?b) d y x"
  define P3 where "P3 = P1(y := cbit cy OR ?p, x := cbit cx OR y)"
  define s3 where "s3 = s\<lparr>rb_children := C2, rb_parent := P3\<rparr>"
  have rb: "trep ?C P1 x ?b b"
    using trep_reparent [OF b(2) xy(5,4)] z by (cases "b = Leaf") (auto simp: P1_def split: if_splits)
  have "?b \<in> set (ids b)" if "b \<noteq> Leaf" using that by (rule rid_in)
  then have P1: "P1 a = ?P a" if "a \<notin> set (ids b)" for a using that by (auto simp: P1_def)
  have xb: "x \<notin> set (ids b)" "y \<notin> set (ids b)" using z by auto
  have bx: "rid b = 0 \<longleftrightarrow> b = Leaf" by (rule rid_eq_0 [OF b(2)])
  have dK: "q \<notin> set (ids b)" "q \<noteq> x" "q \<noteq> y" if "q \<in> set (ctx_ids K)" for q using z that by auto
  have d: "q \<notin> set (ctx_ids K)" "q \<noteq> x" "q \<noteq> y" if "q \<in> set (ids a) \<union> set (ids b) \<union> set (ids e)" for q
    using z that by auto
  have db: "q \<notin> set (ids b)" if "q \<in> set (ids a) \<union> set (ids e)" for q using z that by auto
  have "crep C2 P3 0 (rb_root s) K x"
    using z dK by (subst crep_cong [where P' = ?P and C' = ?C]) (auto simp: C2_def P3_def upd2_apply P1)
  then obtain s4 where s4: "relink s3 ?p x y = Some s4" "rb_parent s4 = P3"
    "crep (rb_children s4) P3 0 (rb_root s4) K y"
    "\<And>a d. a \<notin> set (ctx_ids K) \<Longrightarrow> rb_children s4 d a = C2 d a"
    using relink_rep [of s3 K x y] z xy by (auto simp: s3_def)
  have "rbtree_rotate_subtree s x d = Some (y, s4)"
    using xy b ev s4(1) P1 [OF xb(1)] P1 [OF xb(2)] bx
    by (auto simp: rotate_relink rb_get_parent_def get_child_def set_child_upd2 rb_set_parent_def
        upd2_apply s3_def C2_def P3_def P1_def split: if_splits)
  moreover have "rb_rep s4 (zip_up K (nd d (nd d a (x, cx) b) (y, cy) e))"
  proof -
    have "trep (rb_children s4) P3 p q a = trep ?C ?P p q a"
      "trep (rb_children s4) P3 p q e = trep ?C ?P p q e" for p q
      using d db by (auto intro!: trep_cong simp: s4(4) C2_def P3_def upd2_apply P1)
    moreover have "trep (rb_children s4) P3 x ?b b = trep ?C P1 x ?b b"
      using d by (auto intro!: trep_cong simp: s4(4) C2_def P3_def upd2_apply)
    moreover have "rb_children s4 f q = C2 f q" if "q = x \<or> q = y" for f q
      using that z by (auto simp: s4(4))
    ultimately show ?thesis
      using z s4 rb xy unfolding rb_rep_zip
      by (auto simp: C2_def P3_def upd2_apply or.commute)
  qed
  ultimately show ?thesis by blast
qed

section \<open>Insertion refines \<open>rb_insert\<close>\<close>

text \<open>The same facts with the focus one or two levels below the top of the zipper.\<close>

lemma rb_rep_focus: "rb_rep s (zip_up K (nd d t (p, c) u)) \<Longrightarrow> rb_rep s (zip_up ((d, p, c, u) # K) t)"
  by simp

lemma nd_flip: "nd (\<not> d) l x r = nd d r x l"
  by (simp add: nd_def)

lemma rb_rep_focus_other:
  "rb_rep s (zip_up K (nd d t (p, c) u)) \<Longrightarrow> rb_rep s (zip_up ((\<not> d, p, c, t) # K) u)"
  by (simp add: nd_flip)

lemma siblings_differ:
  assumes "rb_rep s (zip_up K (nd d t (p, c) u))" "t \<noteq> Leaf"
  shows "rid u \<noteq> rid t" "rid t \<noteq> 0"
proof -
  from assms(1) have r: "set (ids t) \<inter> set (ids u) = {}" by (auto simp: rb_rep_zip)
  from assms(1) have "trep (rb_children s) (rb_parent s) p (rid t) t"
    using rb_rep_focus [OF assms(1)] unfolding rb_rep_zip by simp
  then show "rid t \<noteq> 0" using rid_eq_0 assms(2) by blast
  then show "rid u \<noteq> rid t" using r rid_in [of t] rid_in [of u] assms(2) by (cases "u = Leaf") auto
qed

lemma direction_rep:
  assumes r: "rb_rep s (zip_up K (nd d t (p, c) u))" and t: "t \<noteq> Leaf"
  shows "rbtree_direction_of s (rid t) = Some d"
proof -
  from t obtain l a ac w where w: "t = nd d l (a, ac) w" by (cases t rule: nd_cases [where d = d]) auto
  have "rb_get_parent s (rid t) = Some p"
    using rb_reads(5) [OF rb_rep_focus [OF r, unfolded w]] by (simp add: w)
  then show ?thesis
    using rb_reads(3,4) [OF r] siblings_differ [OF r t] by (cases d) (auto simp: rbtree_direction_of_def)
qed

lemma par_of_zero: "rb_rep s (zip_up K t) \<Longrightarrow> par_of 0 K = 0 \<longleftrightarrow> K = []"
  by (cases "(0 :: addr, K)" rule: par_of.cases) (auto simp: rb_rep_zip)

lemma insert_fixup_rotate:
  assumes r: "rb_rep s (zip_up K (nd e (nd d t (p, Red) x) (g, gc) u))"
    and t: "t \<noteq> Leaf" and u: "col u = Black"
  shows "\<exists>s'. insert_fixup_loop s (rid t) p = Some s' \<and>
    rb_rep s' (ins_fix ((d, p, Red, x) # (e, g, gc, u) # K) t)"
proof -
  note rp = rb_rep_focus [OF r]
  note reads = rb_reads [OF rp] rb_reads [OF r] direction_rep [OF r, simplified]
    is_red_read [OF rb_rep_focus_other [OF r]]
  show ?thesis
  proof (cases "d = e")
    case True
    obtain s1 where s1: "rbtree_rotate_subtree s g (\<not> e) = Some (p, s1)"
      "rb_rep s1 (zip_up K (nd e t (p, Red) (nd e x (g, gc) u)))"
      using rotate_rep [of s K "\<not> e" u g gc x p Red t] r True by (auto simp: nd_flip)
    obtain s2 where s2: "rb_set_color s1 p Black = Some s2"
      "rb_rep s2 (zip_up K (nd e t (p, Black) (nd e x (g, gc) u)))"
      using rb_set_color_rep [OF s1(2)] by blast
    obtain s3 where s3: "rb_set_color s2 g Red = Some s3"
      "rb_rep s3 (zip_up K (nd e t (p, Black) (nd e x (g, Red) u)))"
      using rb_set_color_rep [OF rb_rep_focus_other [OF s2(2)]] by (auto simp: nd_flip)
    show ?thesis
      using s1(1) s2(1) s3 reads siblings_differ [OF rp t] True u
      by (subst insert_fixup_loop.simps) auto
  next
    case False
    then have d: "d = (\<not> e)" by auto
    obtain l a ac w where w: "t = nd e l (a, ac) w" using t by (cases t rule: nd_cases [where d = e]) auto
    obtain s0 where s0: "rbtree_rotate_subtree s p e = Some (a, s0)"
      "rb_rep s0 (zip_up K (nd e (nd e (nd e x (p, Red) l) (a, ac) w) (g, gc) u))"
      using rotate_rep [of s "(e, g, gc, u) # K" e x p Red l a ac w] r by (auto simp: d w nd_flip)
    obtain s1 where s1: "rbtree_rotate_subtree s0 g (\<not> e) = Some (a, s1)"
      "rb_rep s1 (zip_up K (nd e (nd e x (p, Red) l) (a, ac) (nd e w (g, gc) u)))"
      using rotate_rep [of s0 K "\<not> e" u g gc w a ac "nd e x (p, Red) l"] s0(2) by (auto simp: nd_flip)
    obtain s2 where s2: "rb_set_color s1 a Black = Some s2"
      "rb_rep s2 (zip_up K (nd e (nd e x (p, Red) l) (a, Black) (nd e w (g, gc) u)))"
      using rb_set_color_rep [OF s1(2)] by blast
    obtain s3 where s3: "rb_set_color s2 g Red = Some s3"
      "rb_rep s3 (zip_up K (nd e (nd e x (p, Red) l) (a, Black) (nd e w (g, Red) u)))"
      using rb_set_color_rep [OF rb_rep_focus_other [OF s2(2)]] by (auto simp: nd_flip)
    show ?thesis
      using s0(1) s1(1) s2(1) s3 reads rb_reads(3) [OF s0(2)] u
      by (subst insert_fixup_loop.simps) (auto simp: d w)
  qed
qed

lemma insert_fixup_loop_rep:
  "rb_rep s (zip_up ((d, p, c, x) # K) t) \<Longrightarrow> t \<noteq> Leaf \<Longrightarrow>
   \<exists>s'. insert_fixup_loop s (rid t) p = Some s' \<and> rb_rep s' (ins_fix ((d, p, c, x) # K) t)"
proof (induction K arbitrary: s d p c x t rule: length_induct)
  case (1 K)
  note r = 1(2) [simplified]
  note reads = rb_reads [OF r]
  show ?case
  proof (cases c)
    case Black
    then show ?thesis
      using reads r by (subst insert_fixup_loop.simps) (cases K; auto)
  next
    case Red
    show ?thesis
    proof (cases K)
      case Nil
      then show ?thesis
        using reads Red rb_set_color_rep [OF r, of Black] by (subst insert_fixup_loop.simps) auto
    next
      case (Cons f L)
      obtain e g gc u where f: "f = (e, g, gc, u)" by (cases f)
      note rg = r [unfolded Cons f Red, simplified]
      show ?thesis
      proof (cases "col u")
        case Black
        then show ?thesis using insert_fixup_rotate [OF rg 1(3)] by (simp add: Cons f Red)
      next
        case u: Red
        then obtain ul ua ur where uu: "u = nd e ul (ua, Red) ur" by (rule col_Red_nd)
        obtain s1 where s1: "rb_set_color s p Black = Some s1"
          "rb_rep s1 (zip_up L (nd e (nd d t (p, Black) x) (g, gc) u))"
          using rb_set_color_rep [OF rb_rep_focus [OF rg]] by auto
        obtain s2 where s2: "rb_set_color s1 ua Black = Some s2"
          "rb_rep s2 (zip_up L (nd e (nd d t (p, Black) x) (g, gc) (paint Black u)))"
          using rb_set_color_rep [OF rb_rep_focus_other [OF s1(2), unfolded uu]] by (auto simp: nd_flip uu)
        obtain s3 where s3: "rb_set_color s2 g Red = Some s3"
          "rb_rep s3 (zip_up L (nd e (nd d t (p, Black) x) (g, Red) (paint Black u)))"
          using rb_set_color_rep [OF s2(2)] by blast
        let ?t = "nd e (nd d t (p, Black) x) (g, Red) (paint Black u)"
        have fin: "\<exists>s'. (if par_of 0 L \<noteq> 0 then insert_fixup_loop s3 g (par_of 0 L)
            else rb_set_color s3 (rb_root s3) Black) = Some s' \<and> rb_rep s' (ins_fix L ?t)"
        proof (cases L)
          case Nil
          then show ?thesis using rb_set_color_rep [OF s3(2), of Black] rb_root_read s3(2) by auto
        next
          case (Cons f' L')
          obtain e' g' gc' u' where f': "f' = (e', g', gc', u')" by (cases f')
          show ?thesis
            using 1(1) [rule_format, of L' s3 e' g' gc' u' ?t] s3(2) par_of_zero [OF s3(2)]
            by (auto simp: Cons f' \<open>K = f # L\<close>)
        qed
        have "insert_fixup_loop s (rid t) p = (if par_of 0 L \<noteq> 0 then insert_fixup_loop s3 g (par_of 0 L)
            else rb_set_color s3 (rb_root s3) Black)"
          using s1(1) s2(1) s3(1) rb_reads [OF rg] rb_reads [OF rb_rep_focus [OF rg]] direction_rep [OF rg]
            is_red_read [OF rb_rep_focus_other [OF rg]] rb_reads(5) [OF s3(2)]
          by (subst insert_fixup_loop.simps) (auto simp: uu)
        then show ?thesis using fin u Red by (simp add: Cons f)
      qed
    qed
  qed
qed

fun dir_of :: "frame list \<Rightarrow> rbtree_direction" where
  "dir_of [] = RB_LEFT"
| "dir_of ((d, p, c, s) # K) = d"

lemma insert_descend_rep:
  "rb_rep s (zip_up K t) \<Longrightarrow> insert_descend von key s (rid t) (par_of 0 K) (dir_of K) =
     Some (par_of 0 (rb_path von key t K), dir_of (rb_path von key t K))"
proof (induction t arbitrary: K rule: tree.induct)
  case Leaf
  then show ?case by (simp add: insert_descend.simps)
next
  case (Node l x r)
  obtain a c where x: "x = (a, c)" by (cases x)
  have rep: "rb_rep s (zip_up K (nd RB_LEFT l (a, c) r))" using Node.prems by (simp add: x nd_def)
  show ?case
    using rb_reads [OF rep] Node.IH(1) [OF rb_rep_focus [OF rep]] Node.IH(2) [OF rb_rep_focus_other [OF rep]]
    by (subst insert_descend.simps) (auto simp: x)
qed

text \<open>Hanging a fresh node, with null links, into the hole of the context.\<close>

lemma link_rep:
  assumes r: "rb_rep s (zip_up K Leaf)" and n: "n \<notin> set (ctx_ids K)" "n \<noteq> 0" "even_addr n"
    and f: "rb_parent s n = 0" "\<And>d. rb_children s d n = 0"
  shows "\<exists>s'. (if par_of 0 K = 0 then Some (s\<lparr>rb_root := n\<rparr>)
      else do { s \<leftarrow> rb_set_parent s n (par_of 0 K); set_child s (dir_of K) (par_of 0 K) n }) = Some s' \<and>
    rb_rep s' (zip_up K (Node Leaf (n, Red) Leaf))"
proof (cases K)
  case Nil
  then show ?thesis using n f by (auto simp: rb_rep_def cbit_def)
next
  case (Cons f' L)
  obtain d p c x where f': "f' = (d, p, c, x)" by (cases f')
  show ?thesis
    using r n f unfolding rb_rep_zip
    by (auto simp: Cons f' rb_set_parent_def set_child_upd2 upd2_apply cbit_def)
qed

lemma ids_rb_path: "set (ctx_ids (rb_path v k t K)) = set (ids t) \<union> set (ctx_ids K)"
  by (induction v k t K rule: rb_path.induct) auto

lemma zip_rb_path: "zip_up (rb_path v k t K) Leaf = zip_up K t"
  by (induction v k t K rule: rb_path.induct) (auto simp: nd_def)

lemma rbtree_insert_rep:
  assumes r: "rb_rep s t" and n: "n \<notin> set (ids t)" "n \<noteq> 0" "even_addr n"
  shows "\<exists>s'. rbtree_insert von s n = Some (n, s') \<and> rb_rep s' (rb_insert von n t)"
proof -
  define s0 where "s0 = s\<lparr>rb_children := upd2 (upd2 (rb_children s) RB_LEFT n 0) RB_RIGHT n 0,
    rb_parent := (rb_parent s)(n := 0)\<rparr>"
  let ?K = "rb_path von (von n) t []"
  have r0: "rb_rep s0 t" using r n by (simp add: rb_rep_def s0_def)
  have d: "insert_descend von (von n) s0 (rb_root s0) 0 RB_LEFT = Some (par_of 0 ?K, dir_of ?K)"
    using insert_descend_rep [of s0 "[]" t von "von n"] r0 rb_root_read [OF r0] by simp
  have z: "rb_rep s0 (zip_up ?K Leaf)" "n \<notin> set (ctx_ids ?K)" using r0 n by (simp_all add: zip_rb_path ids_rb_path)
  have "rb_parent s0 n = 0" "\<And>d. rb_children s0 d n = 0" by (auto simp: s0_def upd2_apply)
  from link_rep [OF z n(2,3) this] obtain s1 where s1: "(if par_of 0 ?K = 0 then Some (s0\<lparr>rb_root := n\<rparr>)
      else do { s \<leftarrow> rb_set_parent s0 n (par_of 0 ?K); set_child s (dir_of ?K) (par_of 0 ?K) n }) = Some s1"
    and r1: "rb_rep s1 (zip_up ?K (Node Leaf (n, Red) Leaf))" by blast
  have r1': "rb_rep s1 (zip_up ?K (nd RB_LEFT Leaf (n, Red) Leaf))" using r1 by (simp add: nd_def)
  obtain s2 where s2: "rb_set_color s1 n Red = Some s2"
    "rb_rep s2 (zip_up ?K (Node Leaf (n, Red) Leaf))"
    using rb_set_color_rep [OF r1', of Red] by (auto simp: nd_def)
  have "\<exists>s3. rbtree_insert_fixup s1 n (par_of 0 ?K) = Some s3 \<and> rb_rep s3 (rb_insert von n t)"
  proof (cases "?K")
    case Nil
    then have "rb_rep s2 (zip_up [] (nd RB_LEFT Leaf (n, Red) Leaf))" using s2 by (simp add: nd_def)
    from rb_set_color_rep [OF this, of Black] rb_root_read [OF this] show ?thesis
      using s2 Nil by (auto simp: rbtree_insert_fixup_def rb_insert_def nd_def)
  next
    case (Cons f L)
    obtain e p c x where f: "f = (e, p, c, x)" by (cases f)
    have "p \<noteq> 0" using s2(2) by (auto simp: rb_rep_zip Cons f)
    then show ?thesis
      using insert_fixup_loop_rep [of s2 e p c x L "Node Leaf (n, Red) Leaf"] s2
      by (auto simp: rbtree_insert_fixup_def rb_insert_def Cons f)
  qed
  moreover have "rbtree_insert von s n = do {
      (parent, dir) \<leftarrow> insert_descend von (von n) s0 (rb_root s0) 0 RB_LEFT;
      s \<leftarrow> (if parent = 0 then Some (s0\<lparr>rb_root := n\<rparr>)
            else do { s \<leftarrow> rb_set_parent s0 n parent; set_child s dir parent n });
      s \<leftarrow> rbtree_insert_fixup s n parent;
      Some (n, s) }"
    unfolding s0_def using n by (simp add: rbtree_insert_def set_child_upd2 Let_def cong: if_cong)
  ultimately show ?thesis using s1 by (auto simp: d split del: if_split)
qed

section \<open>Removal refines \<open>rb_remove\<close>\<close>

lemma right_child_rep:
  assumes r: "rb_rep s (zip_up K (nd d t (p, c) u))" and t: "t \<noteq> Leaf"
  shows "\<exists>q. get_child s RB_RIGHT p = Some q \<and> (q = rid t) = d"
  using rb_reads(3,4) [OF r] siblings_differ [OF r t] by (cases d) auto

text \<open>Case 3: a red sibling is rotated up and the near nephew becomes the sibling.\<close>

lemma remove_rot_rep:
  assumes r: "rb_rep s (zip_up K (nd d t (p, pc) x))" and x: "x \<noteq> Leaf"
    and rot: "rem_rot (d, p, pc, x) = ((d, p, pc', x'), K')"
  shows "\<exists>s1. (if col x = Red then do {
         s \<leftarrow> rb_set_color s p Red;
         s \<leftarrow> rb_set_color s (rid x) Black;
         sibling \<leftarrow> get_child s d (rid x);
         (_, s) \<leftarrow> rbtree_rotate_subtree s p d;
         Some (s, sibling) }
       else Some (s, rid x)) = Some (s1, rid x') \<and> rb_rep s1 (zip_up (K' @ K) (nd d t (p, pc') x'))"
proof (cases "col x")
  case Red
  then obtain a n b where xx: "x = nd d a (n, Red) b" by (rule col_Red_nd)
  obtain s1 where s1: "rb_set_color s p Red = Some s1"
    "rb_rep s1 (zip_up K (nd d t (p, Red) (nd d a (n, Red) b)))"
    using rb_set_color_rep [OF r] by (auto simp: xx)
  obtain s2 where s2: "rb_set_color s1 n Black = Some s2"
    "rb_rep s2 (zip_up K (nd d t (p, Red) (nd d a (n, Black) b)))"
    using rb_set_color_rep [OF rb_rep_focus_other [OF s1(2)]] by (auto simp: nd_flip)
  obtain s3 where s3: "rbtree_rotate_subtree s2 p d = Some (n, s3)"
    "rb_rep s3 (zip_up K (nd d (nd d t (p, Red) a) (n, Black) b))"
    using rotate_rep [OF s2(2)] by blast
  show ?thesis
    using rot s1(1) s2(1) s3 rb_reads(3) [OF rb_rep_focus_other [OF s2(2)]] by (auto simp: xx)
next
  case Black
  then show ?thesis using r rot by auto
qed

text \<open>The rest of a round, once the sibling is black.\<close>

definition remove_round :: "rb_state \<Rightarrow> addr \<Rightarrow> rbtree_direction \<Rightarrow> addr \<Rightarrow> rb_state option" where
  "remove_round s parent dir sibling = do {
     distant_nephew \<leftarrow> get_child s (\<not> dir) sibling;
     close_nephew \<leftarrow> get_child s dir sibling;
     dr \<leftarrow> is_red s distant_nephew;
     if dr then do {
       (_, s) \<leftarrow> rbtree_rotate_subtree s parent dir;
       pc \<leftarrow> rb_get_color s parent;
       s \<leftarrow> rb_set_color s sibling pc;
       s \<leftarrow> rb_set_color s distant_nephew Black;
       rb_set_color s parent Black }
     else do {
       cr \<leftarrow> is_red s close_nephew;
       if cr then do {
         (_, s) \<leftarrow> rbtree_rotate_subtree s sibling (\<not> dir);
         (_, s) \<leftarrow> rbtree_rotate_subtree s parent dir;
         pc \<leftarrow> rb_get_color s parent;
         s \<leftarrow> rb_set_color s close_nephew pc;
         rb_set_color s parent Black }
       else do {
         s \<leftarrow> rb_set_color s sibling Red;
         pc \<leftarrow> rb_get_color s parent;
         if pc = Red then rb_set_color s parent Black
         else do {
           let node = parent;
           parent \<leftarrow> rb_get_parent s node;
           if parent \<noteq> 0 then do {
             r \<leftarrow> get_child s RB_RIGHT parent;
             remove_fixup_loop s parent (r = node) }
           else Some s } } } }"

lemma remove_fixup_loop_round:
  "remove_fixup_loop s parent dir = do {
     sibling \<leftarrow> get_child s (\<not> dir) parent;
     sc \<leftarrow> rb_get_color s sibling;
     (s, sibling) \<leftarrow> (if sc = Red then do {
         s \<leftarrow> rb_set_color s parent Red;
         s \<leftarrow> rb_set_color s sibling Black;
         sibling \<leftarrow> get_child s dir sibling;
         (_, s) \<leftarrow> rbtree_rotate_subtree s parent dir;
         Some (s, sibling) }
       else Some (s, sibling));
     remove_round s parent dir sibling }"
  unfolding remove_round_def by (rule remove_fixup_loop.simps)

lemma remove_round_six:
  assumes r: "rb_rep s (zip_up K (nd d t (p, pc) (nd d x (a, Black) y)))" and y: "col y = Red"
  shows "\<exists>s'. remove_round s p d a = Some s' \<and>
    rb_rep s' (zip_up K (nd d (nd d t (p, Black) x) (a, pc) (paint Black y)))"
proof -
  from y obtain y1 n y2 where yy: "y = nd d y1 (n, Red) y2" by (rule col_Red_nd)
  note rx = rb_rep_focus_other [OF r]
  obtain s1 where s1: "rbtree_rotate_subtree s p d = Some (a, s1)"
    "rb_rep s1 (zip_up K (nd d (nd d t (p, pc) x) (a, Black) y))"
    using rotate_rep [OF r] by blast
  obtain s2 where s2: "rb_set_color s1 a pc = Some s2"
    "rb_rep s2 (zip_up K (nd d (nd d t (p, pc) x) (a, pc) (nd d y1 (n, Red) y2)))"
    using rb_set_color_rep [OF s1(2)] by (auto simp: yy)
  obtain s3 where s3: "rb_set_color s2 n Black = Some s3"
    "rb_rep s3 (zip_up K (nd d (nd d t (p, pc) x) (a, pc) (nd d y1 (n, Black) y2)))"
    using rb_set_color_rep [OF rb_rep_focus_other [OF s2(2)]] by (auto simp: nd_flip)
  obtain s4 where s4: "rb_set_color s3 p Black = Some s4"
    "rb_rep s4 (zip_up K (nd d (nd d t (p, Black) x) (a, pc) (nd d y1 (n, Black) y2)))"
    using rb_set_color_rep [OF rb_rep_focus [OF s3(2)]] by auto
  show ?thesis
    using s1(1) s2(1) s3(1) s4 rb_reads(3,4) [OF rx] is_red_read [OF rb_rep_focus_other [OF rx]]
      rb_reads(6) [OF rb_rep_focus [OF s1(2)]]
    by (auto simp: remove_round_def yy)
qed

lemma remove_round_five:
  assumes r: "rb_rep s (zip_up K (nd d t (p, pc) (nd d x (a, Black) y)))"
    and y: "col y = Black" and x: "x = nd d x1 (n, Red) x2"
  shows "\<exists>s'. remove_round s p d a = Some s' \<and>
    rb_rep s' (zip_up K (nd d (nd d t (p, Black) x1) (n, pc) (nd d x2 (a, Black) y)))"
proof -
  note rx = rb_rep_focus_other [OF r]
  obtain s1 where s1: "rbtree_rotate_subtree s a (\<not> d) = Some (n, s1)"
    "rb_rep s1 (zip_up K (nd d t (p, pc) (nd d x1 (n, Red) (nd d x2 (a, Black) y))))"
    using rotate_rep [of s "(\<not> d, p, pc, t) # K" "\<not> d" y a Black x2 n Red x1] r by (auto simp: nd_flip x)
  obtain s2 where s2: "rbtree_rotate_subtree s1 p d = Some (n, s2)"
    "rb_rep s2 (zip_up K (nd d (nd d t (p, pc) x1) (n, Red) (nd d x2 (a, Black) y)))"
    using rotate_rep [OF s1(2)] by blast
  obtain s3 where s3: "rb_set_color s2 n pc = Some s3"
    "rb_rep s3 (zip_up K (nd d (nd d t (p, pc) x1) (n, pc) (nd d x2 (a, Black) y)))"
    using rb_set_color_rep [OF s2(2)] by blast
  obtain s4 where s4: "rb_set_color s3 p Black = Some s4"
    "rb_rep s4 (zip_up K (nd d (nd d t (p, Black) x1) (n, pc) (nd d x2 (a, Black) y)))"
    using rb_set_color_rep [OF rb_rep_focus [OF s3(2)]] by auto
  show ?thesis
    using s1(1) s2(1) s3(1) s4 rb_reads(3,4) [OF rx] y is_red_read [OF rb_rep_focus_other [OF rx]]
      is_red_read [OF rb_rep_focus [OF rx]] rb_reads(6) [OF rb_rep_focus [OF s2(2)]]
    by (auto simp: remove_round_def x)
qed

lemma remove_round_four:
  assumes r: "rb_rep s (zip_up K (nd d t (p, pc) (nd d x (a, Black) y)))"
    and xy: "col x = Black" "col y = Black"
  shows "\<exists>s1. rb_rep s1 (zip_up K (nd d t (p, pc) (nd d x (a, Red) y))) \<and>
    remove_round s p d a = (if pc = Red then rb_set_color s1 p Black
      else if par_of 0 K \<noteq> 0 then do {
        q \<leftarrow> get_child s1 RB_RIGHT (par_of 0 K);
        remove_fixup_loop s1 (par_of 0 K) (q = p) }
      else Some s1)"
proof -
  note rx = rb_rep_focus_other [OF r]
  obtain s1 where s1: "rb_set_color s a Red = Some s1"
    "rb_rep s1 (zip_up K (nd d t (p, pc) (nd d x (a, Red) y)))"
    using rb_set_color_rep [OF rx] by (auto simp: nd_flip)
  show ?thesis
    using s1 rb_reads(3,4) [OF rx] xy is_red_read [OF rb_rep_focus_other [OF rx]]
      is_red_read [OF rb_rep_focus [OF rx]] rb_reads(5,6) [OF s1(2)]
    by (auto simp: remove_round_def)
qed

lemma remove_round_rep:
  assumes r: "rb_rep s (zip_up (K' @ K) (nd d t (p, pc) x))" and x: "x \<noteq> Leaf" "col x = Black"
    and rot: "rem_rot f = ((d, p, pc, x), K')" and K': "pc = Black \<Longrightarrow> K' = []"
    and IH: "\<And>s e q qc y L w. K = (e, q, qc, y) # L \<Longrightarrow> pc = Black \<Longrightarrow> w = nd d t (p, Black) (paint Red x) \<Longrightarrow>
      rb_rep s (zip_up K w) \<Longrightarrow> \<exists>s'. remove_fixup_loop s q e = Some s' \<and> rb_rep s' (rem_fix K w)"
  shows "\<exists>s'. remove_round s p d (rid x) = Some s' \<and> rb_rep s' (rem_fix (f # K) t)"
proof -
  from x obtain a n b where xx: "x = nd d a (n, Black) b" by (cases x rule: nd_cases [where d = d]) auto
  note r' = r [unfolded xx]
  consider (six) "col b = Red" | (five) "col b = Black" "col a = Red"
    | (four) "col b = Black" "col a = Black"
    by (cases "col b"; cases "col a") auto
  then show ?thesis
  proof cases
    case six
    then show ?thesis using remove_round_six [OF r'] rot by (simp add: xx)
  next
    case five
    then obtain a1 m a2 where a: "a = nd d a1 (m, Red) a2" by (auto elim: col_Red_nd [where d = d])
    then show ?thesis using remove_round_five [OF r' five(1)] rot five by (simp add: xx)
  next
    case four
    obtain s1 where s1: "rb_rep s1 (zip_up (K' @ K) (nd d t (p, pc) (nd d a (n, Red) b)))"
      "remove_round s p d n = (if pc = Red then rb_set_color s1 p Black
        else if par_of 0 (K' @ K) \<noteq> 0 then do {
          q \<leftarrow> get_child s1 RB_RIGHT (par_of 0 (K' @ K));
          remove_fixup_loop s1 (par_of 0 (K' @ K)) (q = p) }
        else Some s1)"
      using remove_round_four [OF r' four(2,1)] by blast
    show ?thesis
    proof (cases pc)
      case Red
      then show ?thesis
        using s1 rb_set_color_rep [OF s1(1), of Black] rot four by (auto simp: xx)
    next
      case Black
      let ?w = "nd d t (p, Black) (nd d a (n, Red) b)"
      note s1' = s1 [unfolded K' [OF Black] Black]
      have eq: "rem_fix (f # K) t = rem_fix K ?w" using rot four Black by (simp add: xx)
      show ?thesis
      proof (cases K)
        case Nil
        then show ?thesis using s1' unfolding eq by (simp add: xx)
      next
        case (Cons g L)
        obtain e q qc y where g: "g = (e, q, qc, y)" by (cases g)
        obtain z where "get_child s1 RB_RIGHT q = Some z" "(z = p) = e" "q \<noteq> 0"
          using right_child_rep [of s1 L e ?w q qc y] rb_reads(1) [of s1 L e ?w q qc y] s1'
          by (auto simp: Cons g)
        then show ?thesis
          using s1' IH [of e q qc y L ?w s1] Black unfolding eq by (simp add: Cons g xx)
      qed
    qed
  qed
qed

lemma remove_fixup_loop_rep:
  "rb_rep s (zip_up ((d, p, pc, x) # K) t) \<Longrightarrow> ctx_bal ((d, p, pc, x) # K) (Suc h) \<Longrightarrow>
   \<exists>s'. remove_fixup_loop s p d = Some s' \<and> rb_rep s' (rem_fix ((d, p, pc, x) # K) t)"
proof (induction K arbitrary: s d p pc x t h rule: length_induct)
  case (1 K)
  let ?f = "(d, p, pc, x)"
  note r = 1(2) [simplified]
  obtain pc' x' K' where rot: "rem_rot ?f = ((d, p, pc', x'), K')" by (cases "rem_rot ?f") (auto split: if_splits)
  note b = rem_rot_bal [OF rot 1(3)]
  have x: "x \<noteq> Leaf" "x' \<noteq> Leaf" using 1(3) b by auto
  then obtain xa xn xc xb where xx: "x = nd d xa (xn, xc) xb" by (cases x rule: nd_cases [where d = d]) auto
  have reads: "get_child s (\<not> d) p = Some (rid x)" "rb_get_color s (rid x) = Some (col x)"
    using rb_reads(4) [OF r] rb_reads(6) [OF rb_rep_focus_other [OF r, unfolded xx]] by (simp_all add: xx)
  from remove_rot_rep [OF r x(1) rot] obtain s1 where
    s1: "(if col x = Red then do {
         s \<leftarrow> rb_set_color s p Red;
         s \<leftarrow> rb_set_color s (rid x) Black;
         sibling \<leftarrow> get_child s d (rid x);
         (_, s) \<leftarrow> rbtree_rotate_subtree s p d;
         Some (s, sibling) }
       else Some (s, rid x)) = Some (s1, rid x')" "rb_rep s1 (zip_up (K' @ K) (nd d t (p, pc') x'))" by blast
  have "\<exists>s'. remove_round s1 p d (rid x') = Some s' \<and> rb_rep s' (rem_fix (?f # K) t)"
  proof (rule remove_round_rep [OF s1(2) x(2) _ rot])
    show "col x' = Black" "pc' = Black \<Longrightarrow> K' = []" using b by auto
    fix s e q qc y L w
    assume *: "K = (e, q, qc, y) # L" "pc' = Black" "rb_rep s (zip_up K w)"
    then have "ctx_bal ((e, q, qc, y) # L) (Suc (Suc h))" using b by auto
    then show "\<exists>s'. remove_fixup_loop s q e = Some s' \<and> rb_rep s' (rem_fix K w)"
      using 1(1) [rule_format, of L s e q qc y w "Suc h"] * by simp
  qed
  then show ?case using s1(1) reads by (subst remove_fixup_loop_round) simp
qed

lemma crep_append:
  "crep C P par root (L @ K) h \<longleftrightarrow> (\<exists>mid. crep C P par root K mid \<and> crep C P (par_of par K) mid L h)"
proof (induction L arbitrary: h)
  case (Cons f L)
  obtain d p c s where f: "f = (d, p, c, s)" by (cases f)
  have "par_of par (L @ K) = par_of (par_of par K) L"
    by (cases "(par_of par K, L)" rule: par_of.cases) auto
  then show ?case using Cons.IH by (auto simp: f)
qed auto

lemma crep_root: "crep C P par root L h \<Longrightarrow> L \<noteq> [] \<Longrightarrow> root \<in> set (ctx_ids L) \<and> root \<noteq> 0 \<and> even_addr root"
proof (induction L arbitrary: h)
  case (Cons f L)
  obtain d p c s where f: "f = (d, p, c, s)" by (cases f)
  show ?case using Cons by (cases "L = []") (auto simp: f)
qed simp

lemma crep_reparent:
  "crep C P par root L h \<Longrightarrow> L \<noteq> [] \<Longrightarrow> distinct (ctx_ids L) \<Longrightarrow> even_addr par \<Longrightarrow>
   crep C (P(root := (P root AND 1) OR par')) par' root L h"
proof (induction L arbitrary: h)
  case (Cons f L)
  obtain d p c s where f: "f = (d, p, c, s)" by (cases f)
  show ?case
  proof (cases "L = []")
    case True
    then show ?thesis
      using Cons.prems by (auto simp: f or.commute [of _ par'])
  next
    case False
    then have "root \<in> set (ctx_ids L)" using Cons.prems crep_root [of C P par root L p] by (auto simp: f)
    moreover have "par_of par L = par_of par' L" using False by (cases "(par, L)" rule: par_of.cases) auto
    moreover have "root \<noteq> p" "root \<notin> set (ids s)" using calculation(1) Cons.prems(3) by (auto simp: f)
    ultimately show ?thesis using Cons.IH [of p] Cons.prems False by (auto simp: f)
  qed
qed simp

text \<open>The part of the exchange that follows the relinking of the two nodes.\<close>

definition swap_tail :: "rb_state \<Rightarrow> addr \<Rightarrow> addr \<Rightarrow> addr \<Rightarrow> rb_state option" where
  "swap_tail s node succ succ_right = do {
     s \<leftarrow> set_child s RB_LEFT node 0;
     s \<leftarrow> set_child s RB_RIGHT node succ_right;
     s \<leftarrow> (if succ_right \<noteq> 0 then rb_set_parent s succ_right node else Some s);
     tmp \<leftarrow> rb_get_color s node;
     c \<leftarrow> rb_get_color s succ;
     s \<leftarrow> rb_set_color s node c;
     rb_set_color s succ tmp }"

lemma swap_tail_rep:
  assumes K: "crep (rb_children s) (rb_parent s) 0 (rb_root s) K x" "even_addr (par_of 0 K)"
    and x: "x \<noteq> 0" "even_addr x" "rb_parent s x = par_of 0 K OR cbit mc" "rb_children s RB_RIGHT x = mid"
      "rb_children s RB_LEFT x = rid l" "trep (rb_children s) (rb_parent s) x (rid l) l"
    and L: "crep (rb_children s) (rb_parent s) x mid L n"
    and n: "n \<noteq> 0" "even_addr n" "rb_parent s n = par_of x L OR cbit c"
    and b: "trep (rb_children s) (rb_parent s) q (rid b) b" "even_addr q"
    and dist: "distinct (ctx_ids (L @ (RB_RIGHT, x, c, l) # K))" "distinct (n # ids b)"
      "set (ctx_ids (L @ (RB_RIGHT, x, c, l) # K)) \<inter> set (n # ids b) = {}"
  shows "\<exists>s'. swap_tail s n x (rid b) = Some s' \<and>
    rb_rep s' (zip_up (L @ (RB_RIGHT, x, c, l) # K) (Node Leaf (n, mc) b))"
proof -
  let ?C = "rb_children s" and ?P = "rb_parent s"
  define P1 where "P1 = (if b = Leaf then ?P else ?P(rid b := (?P (rid b) AND 1) OR n))"
  define C1 where "C1 = upd2 (upd2 ?C RB_LEFT n 0) RB_RIGHT n (rid b)"
  define P2 where "P2 = P1(n := par_of x L OR cbit mc, x := par_of 0 K OR cbit c)"
  have rb: "trep ?C P1 n (rid b) b"
    using trep_reparent [OF b n(2)] dist(2) by (cases "b = Leaf") (auto simp: P1_def)
  have P1: "P1 a = ?P a" if "a \<notin> set (ids b)" for a
    using that rid_in [of b] by (auto simp: P1_def)
  have ev: "even_addr (par_of x L)" using crep_par_even [OF L x(2)] .
  have bl: "rid b = 0 \<longleftrightarrow> b = Leaf" by (rule rid_eq_0 [OF b(1)])
  have xn: "x \<noteq> n" "x \<notin> set (ids b)" "n \<notin> set (ids b)" using dist by auto
  have sep: "a \<notin> set (ids b)" "a \<noteq> n" "a \<noteq> x" if "a \<in> set (ctx_ids L) \<union> set (ids l) \<union> set (ctx_ids K)" for a
    using that dist by auto
  have keep: "P2 a = ?P a" "C1 d a = ?C d a" if "a \<in> set (ctx_ids L) \<union> set (ids l) \<union> set (ctx_ids K)" for a d
    using sep [OF that] P1 [of a] by (simp_all add: P2_def C1_def upd2_apply)
  have "swap_tail s n x (rid b) = do {
      tmp \<leftarrow> rb_get_color (s\<lparr>rb_children := C1, rb_parent := P1\<rparr>) n;
      c \<leftarrow> rb_get_color (s\<lparr>rb_children := C1, rb_parent := P1\<rparr>) x;
      s \<leftarrow> rb_set_color (s\<lparr>rb_children := C1, rb_parent := P1\<rparr>) n c;
      rb_set_color s x tmp }"
    using n(1) bl unfolding C1_def
    by (cases "b = Leaf") (simp_all add: swap_tail_def set_child_upd2 rb_set_parent_def P1_def)
  also have "\<dots> = Some (s\<lparr>rb_children := C1, rb_parent := P2\<rparr>)"
    using n x K(2) ev xn P1 [of n] P1 [of x] by (simp add: rb_get_color_def rb_set_color_def P2_def)
  finally have "swap_tail s n x (rid b) = Some (s\<lparr>rb_children := C1, rb_parent := P2\<rparr>)" .
  moreover have "trep C1 P2 n (rid b) b = trep ?C P1 n (rid b) b"
    using xn by (intro trep_cong) (auto simp: P2_def C1_def upd2_apply)
  moreover have "crep C1 P2 0 (rb_root s) K x"
    using K(1) keep by (subst crep_cong [where P' = ?P and C' = ?C]) auto
  moreover have "trep C1 P2 x (rid l) l"
    using x(6) keep by (subst trep_cong [where P' = ?P and C' = ?C]) auto
  moreover have "crep C1 P2 x mid L n"
    using L keep by (subst crep_cong [where P' = ?P and C' = ?C]) auto
  moreover have "C1 RB_LEFT x = rid l" "C1 RB_RIGHT x = mid" "C1 RB_LEFT n = 0" "C1 RB_RIGHT n = rid b"
    "P2 x = par_of 0 K OR cbit c" "P2 n = par_of x L OR cbit mc"
    using x xn by (auto simp: C1_def P2_def upd2_apply)
  moreover have "par_of 0 (L @ (RB_RIGHT, x, c, l) # K) = par_of x L"
    by (cases "(x, L)" rule: par_of.cases) auto
  ultimately show ?thesis using dist x n rb unfolding rb_rep_zip
    by (auto simp: crep_append)
qed

lemma descend_rep:
  "rb_rep s (zip_up K t) \<Longrightarrow> t \<noteq> Leaf \<Longrightarrow> descend s d (rid t) = Some (if d then tmax t else tmin t)"
proof (induction t arbitrary: K rule: tree.induct)
  case (Node l x r)
  obtain a c where x: "x = (a, c)" by (cases x)
  have rep: "rb_rep s (zip_up K (nd RB_LEFT l (a, c) r))" using Node.prems by (simp add: x nd_def)
  have "rid l = 0 \<longleftrightarrow> l = Leaf" "rid r = 0 \<longleftrightarrow> r = Leaf"
    using siblings_differ(2) [OF rep] siblings_differ(2) [of s K RB_RIGHT r a c l] rep by (auto simp: nd_def)
  then show ?case
    using rb_reads [OF rep] Node.IH(1) [OF rb_rep_focus [OF rep]] Node.IH(2) [OF rb_rep_focus_other [OF rep]]
    by (subst descend.simps) (auto simp: x)
qed simp

lemma rid_zero: "rb_rep s (zip_up K t) \<Longrightarrow> rid t = 0 \<longleftrightarrow> t = Leaf"
  using rid_eq_0 by (auto simp: rb_rep_zip)

lemma rbtree_minimum_rep: "rb_rep s (zip_up K t) \<Longrightarrow> rbtree_minimum s (rid t) = Some (tmin t)"
  using descend_rep [of s K t RB_LEFT] rid_zero [of s K t] by (auto simp: rbtree_minimum_def)

lemma rbtree_maximum_rep: "rb_rep s (zip_up K t) \<Longrightarrow> rbtree_maximum s (rid t) = Some (tmax t)"
  using descend_rep [of s K t RB_RIGHT] rid_zero [of s K t] by (auto simp: rbtree_maximum_def)

lemma min_path_tmin: "min_path t K = (K', m) \<Longrightarrow> rid m = tmin t"
  by (induction t K rule: min_path.induct) auto

lemma min_path_left: "min_path t K = (K', m) \<Longrightarrow> \<forall>f\<in>set K. fst f = RB_LEFT \<Longrightarrow> \<forall>f\<in>set K'. fst f = RB_LEFT"
  by (induction t K rule: min_path.induct) auto

text \<open>The part of the exchange between the relinking of the upper position and the tail.\<close>

definition swap_lower :: "rb_state \<Rightarrow> addr \<Rightarrow> addr \<Rightarrow> addr \<Rightarrow> rb_state option" where
  "swap_lower s node succ succ_parent = (if succ_parent = node then do {
       s \<leftarrow> set_child s RB_RIGHT succ node;
       rb_set_parent s node succ }
     else do {
       right \<leftarrow> get_child s RB_RIGHT node;
       s \<leftarrow> set_child s RB_RIGHT succ right;
       s \<leftarrow> rb_set_parent s right succ;
       s \<leftarrow> set_child s RB_LEFT succ_parent node;
       rb_set_parent s node succ_parent })"

lemma swap_successor_parts:
  "swap_successor s node = do {
     right \<leftarrow> get_child s RB_RIGHT node;
     succ \<leftarrow> rbtree_minimum s right;
     succ_parent \<leftarrow> rb_get_parent s succ;
     succ_right \<leftarrow> get_child s RB_RIGHT succ;
     left \<leftarrow> get_child s RB_LEFT node;
     s \<leftarrow> set_child s RB_LEFT succ left;
     s \<leftarrow> rb_set_parent s left succ;
     node_parent \<leftarrow> rb_get_parent s node;
     s \<leftarrow> rb_set_parent s succ node_parent;
     s \<leftarrow> relink s node_parent node succ;
     s \<leftarrow> swap_lower s node succ succ_parent;
     swap_tail s node succ succ_right }"
  unfolding swap_successor_def swap_lower_def swap_tail_def relink_alt ..

lemma swap_lower_rep:
  assumes x: "x \<noteq> 0" "even_addr x" and n: "n \<noteq> 0" "even_addr n"
    and xs: "rb_parent s x = px OR cbit mc" "rb_children s RB_LEFT x = lp"
    and ns: "rb_parent s n = pn OR cbit c" "even_addr pn" "rb_children s RB_RIGHT n = rp"
    and L: "crep (rb_children s) (rb_parent s) n rp L x" "\<forall>f\<in>set L. fst f = RB_LEFT"
    and dist: "distinct (ctx_ids L)" "x \<notin> set (ctx_ids L)" "n \<notin> set (ctx_ids L)" "x \<noteq> n"
  shows "\<exists>s'. swap_lower s n x (par_of n L) = Some s' \<and>
    rb_children s' RB_RIGHT x = (if L = [] then n else rp) \<and> rb_children s' RB_LEFT x = lp \<and>
    rb_parent s' x = px OR cbit mc \<and> rb_parent s' n = par_of x L OR cbit c \<and>
    crep (rb_children s') (rb_parent s') x (if L = [] then n else rp) L n \<and> rb_root s' = rb_root s \<and>
    (\<forall>a d. a \<notin> set (ctx_ids L) \<and> a \<noteq> x \<and> a \<noteq> n \<longrightarrow>
      rb_parent s' a = rb_parent s a \<and> rb_children s' d a = rb_children s d a)"
proof (cases L)
  case Nil
  then show ?thesis
    using x n xs ns dist by (auto simp: swap_lower_def set_child_upd2 rb_set_parent_def upd2_apply or.commute)
next
  case (Cons f L')
  obtain q qc w where f: "f = (RB_LEFT, q, qc, w)" using L(2) Cons by (cases f) auto
  have rp: "rp \<in> set (ctx_ids L)" "rp \<noteq> 0" using crep_root [OF L(1)] Cons by auto
  let ?P1 = "(rb_parent s)(rp := (rb_parent s rp AND 1) OR x)"
  let ?P = "?P1(n := cbit c OR q)"
  let ?C = "upd2 (upd2 (rb_children s) RB_RIGHT x rp) RB_LEFT q n"
  have q: "q \<noteq> 0" "q \<noteq> n" "q \<noteq> x" "rp \<noteq> n" "rp \<noteq> x" using L(1) dist rp by (auto simp: Cons f)
  have "crep (rb_children s) ?P1 x rp L x"
    using crep_reparent [OF L(1) _ dist(1) n(2), of x] Cons by auto
  then have "crep ?C ?P x rp L n"
    using dist by (auto simp: Cons f upd2_apply)
  moreover have "swap_lower s n x (par_of n L) = Some (s\<lparr>rb_children := ?C, rb_parent := ?P\<rparr>)"
    using x n ns q rp by (auto simp: swap_lower_def get_child_def set_child_upd2 rb_set_parent_def
        upd2_apply Cons f)
  ultimately show ?thesis
    using Cons xs ns q dist rp by (auto simp: f upd2_apply or.commute)
qed

lemma swap_successor_rep:
  assumes r: "rb_rep s (zip_up K (Node l (n, c) r))" and lr: "l \<noteq> Leaf" "r \<noteq> Leaf"
    and m: "min_path r [] = (L, Node Leaf (x, mc) b)"
  shows "\<exists>s'. swap_successor s n = Some s' \<and>
    rb_rep s' (zip_up (L @ (RB_RIGHT, x, c, l) # K) (Node Leaf (n, mc) b))"
proof -
  let ?C = "rb_children s" and ?P = "rb_parent s" and ?p = "par_of 0 K"
  have rz: "r = zip_up L (Node Leaf (x, mc) b)" using min_path_zip [OF m] by simp
  have rf: "rb_rep s (zip_up K (nd RB_LEFT l (n, c) r))" using r by (simp add: nd_def)
  note reads = rb_reads [OF rf]
  have lp: "rid l \<noteq> 0" using siblings_differ(2) [OF rf lr(1)] .
  have z: "crep ?C ?P 0 (rb_root s) K n" "n \<noteq> 0" "even_addr n" "?P n = ?p OR cbit c"
    "?C RB_LEFT n = rid l" "?C RB_RIGHT n = rid r" "trep ?C ?P n (rid l) l" "trep ?C ?P n (rid r) r"
    using r unfolding rb_rep_zip by (auto dest!: trep_at)
  have ev: "even_addr ?p" using crep_par_even [OF z(1)] by simp
  have zr: "crep ?C ?P n (rid r) L x" "trep ?C ?P (par_of n L) x (Node Leaf (x, mc) b)"
    using z(8) by (subst (asm) (2) rz, simp add: trep_zip)+
  then have zx: "x \<noteq> 0" "even_addr x" "?P x = par_of n L OR cbit mc" "?C RB_RIGHT x = rid b"
    "trep ?C ?P x (rid b) b" by (auto dest!: trep_at)
  have evL: "even_addr (par_of n L)" using crep_par_even [OF zr(1) z(3)] .
  have idr: "set (ids r) = set (ctx_ids L) \<union> {x} \<union> set (ids b)" by (subst rz) (auto simp: ids_zip_up ctx_ids_def)
  have dr: "distinct (ctx_ids L)" "x \<notin> set (ctx_ids L)" "set (ctx_ids L) \<inter> set (ids b) = {}"
    "x \<notin> set (ids b)" "distinct (ids b)"
    using r unfolding rb_rep_zip by (subst (asm) rz, auto simp: distinct_zip)+
  have dd: "n \<notin> set (ids l)" "n \<notin> set (ids r)" "set (ids l) \<inter> set (ids r) = {}" "distinct (ids l)"
    "n \<notin> set (ctx_ids K)" "set (ctx_ids K) \<inter> set (ids l) = {}" "set (ctx_ids K) \<inter> set (ids r) = {}"
    "distinct (ctx_ids K)"
    using r unfolding rb_rep_zip by auto
  have xs: "x \<noteq> n" "x \<noteq> rid l" "rid l \<noteq> n" "x \<notin> set (ctx_ids K)" "x \<notin> set (ids l)" "rid l \<in> set (ids l)"
    "rid l \<notin> set (ctx_ids K)" "rid l \<notin> set (ids r)"
    using dd idr rid_in [OF lr(1)] by auto
  define s1 where "s1 = s\<lparr>rb_children := upd2 ?C RB_LEFT x (rid l),
    rb_parent := ?P(rid l := (?P (rid l) AND 1) OR x, x := cbit mc OR ?p)\<rparr>"
  have "crep (rb_children s1) (rb_parent s1) 0 (rb_root s1) K n"
    using z(1) xs dd by (auto simp: s1_def)
  then obtain s2 where s2: "relink s1 ?p n x = Some s2" "rb_parent s2 = rb_parent s1"
    "crep (rb_children s2) (rb_parent s1) 0 (rb_root s2) K x"
    "\<And>a d. a \<notin> set (ctx_ids K) \<Longrightarrow> rb_children s2 d a = rb_children s1 d a"
    using relink_rep [of s1 K n x] z(2) dd by blast
  have keep: "rb_parent s2 a = ?P a" "rb_children s2 d a = ?C d a"
    if "a \<notin> set (ctx_ids K)" "a \<noteq> x" "a \<noteq> rid l" for a d
    using that s2(2,4) by (auto simp: s1_def upd2_apply)
  have x2: "rb_parent s2 x = ?p OR cbit mc" "rb_children s2 RB_LEFT x = rid l"
    using s2(2,4) xs by (auto simp: s1_def upd2_apply or.commute)
  have sepr: "a \<notin> set (ctx_ids K)" "a \<noteq> x" "a \<noteq> rid l" "a \<noteq> n" if "a \<in> set (ctx_ids L) \<union> set (ids b)" for a
    using that dd dr idr xs by auto
  have L2: "crep (rb_children s2) (rb_parent s2) n (rid r) L x"
    using zr(1) by (subst crep_cong [where P' = ?P and C' = ?C]) (use sepr keep in auto)
  have n2: "rb_parent s2 n = ?p OR cbit c" "rb_children s2 RB_RIGHT n = rid r"
    using keep [of n] dd xs z by auto
  have lf: "\<forall>f\<in>set L. fst f = RB_LEFT" using min_path_left [OF m] by simp
  have dn: "n \<notin> set (ctx_ids L)" using dd idr by auto
  let ?mid = "if L = [] then n else rid r"
  obtain s3 where s3: "swap_lower s2 n x (par_of n L) = Some s3"
    "rb_children s3 RB_RIGHT x = ?mid" "rb_children s3 RB_LEFT x = rid l"
    "rb_parent s3 x = ?p OR cbit mc" "rb_parent s3 n = par_of x L OR cbit c"
    "crep (rb_children s3) (rb_parent s3) x ?mid L n" "rb_root s3 = rb_root s2"
    "\<And>a d. a \<notin> set (ctx_ids L) \<Longrightarrow> a \<noteq> x \<Longrightarrow> a \<noteq> n \<Longrightarrow>
      rb_parent s3 a = rb_parent s2 a \<and> rb_children s3 d a = rb_children s2 d a"
    using swap_lower_rep [OF zx(1,2) z(2,3) x2 n2(1) ev n2(2) L2 lf dr(1,2) dn xs(1)] by blast
  have "swap_successor s n = swap_tail s3 n x (rid b)"
  proof -
    have "rbtree_minimum s (rid r) = Some x"
      using rbtree_minimum_rep [OF rb_rep_focus_other [OF rf]] min_path_tmin [OF m] by simp
    then show ?thesis
      using s2(1) s3(1) reads zx z xs lp evL ev
      by (simp add: swap_successor_parts rb_get_parent_def get_child_def set_child_upd2 rb_set_parent_def s1_def)
  qed
  moreover have "\<exists>s'. swap_tail s3 n x (rid b) = Some s' \<and>
    rb_rep s' (zip_up (L @ (RB_RIGHT, x, c, l) # K) (Node Leaf (n, mc) b))"
  proof (rule swap_tail_rep [OF _ ev zx(1,2) s3(4,2,3) _ s3(6) z(2,3) s3(5) _ zx(2)])
    have sep: "a \<notin> set (ctx_ids L)" "a \<noteq> x" "a \<noteq> n" if "a \<in> set (ctx_ids K) \<union> set (ids l)" for a
      using that dd idr by auto
    have sepl: "a \<notin> set (ctx_ids K)" if "a \<in> set (ids l)" for a using that dd by auto
    have sepb: "a \<notin> set (ctx_ids L)" if "a \<in> set (ids b)" for a using that dr by auto
    show "crep (rb_children s3) (rb_parent s3) 0 (rb_root s3) K x"
      using s2(2,3) s3(7) by (subst crep_cong [where P' = "rb_parent s2" and C' = "rb_children s2"]) (use sep s3(8) in auto)
    have "trep ?C (?P(rid l := (?P (rid l) AND 1) OR x)) x (rid l) l"
      using trep_reparent [OF z(7,3) zx(2) dd(4) lr(1)] .
    then show "trep (rb_children s3) (rb_parent s3) x (rid l) l"
      by (subst trep_cong [where P' = "?P(rid l := (?P (rid l) AND 1) OR x)" and C' = ?C])
        (use sep sepl s3(8) s2(2,4) in \<open>auto simp: s1_def upd2_apply\<close>)
    show "trep (rb_children s3) (rb_parent s3) x (rid b) b"
      using zx(5) by (subst trep_cong [where P' = ?P and C' = ?C]) (use keep s3(8) sepr sepb in auto)
    show "distinct (ctx_ids (L @ (RB_RIGHT, x, c, l) # K))" "distinct (n # ids b)"
      "set (ctx_ids (L @ (RB_RIGHT, x, c, l) # K)) \<inter> set (n # ids b) = {}"
      using dd dr idr xs by auto
  qed
  ultimately show ?thesis by simp
qed

text \<open>Taking a node with at most one child out of the links, before any rebalancing.\<close>

definition unlink :: "rb_state \<Rightarrow> addr \<Rightarrow> addr \<Rightarrow> addr \<Rightarrow> (rb_state \<times> rbtree_direction) option" where
  "unlink s node parent replacement = do {
     s \<leftarrow> (if replacement \<noteq> 0 then rb_set_parent s replacement parent else Some s);
     if parent = 0 then Some (s\<lparr>rb_root := replacement\<rparr>, RB_LEFT)
     else do {
       dir \<leftarrow> rbtree_direction_of s node;
       s \<leftarrow> set_child s dir parent replacement;
       Some (s, dir) } }"

lemma unlink_rep:
  assumes r: "rb_rep s (zip_up K t)" and t: "t \<noteq> Leaf" "R = Leaf \<or> R = sub RB_LEFT t \<or> R = sub RB_RIGHT t"
  shows "\<exists>s'. unlink s (rid t) (par_of 0 K) (rid R) = Some (s', dir_of K) \<and> rb_rep s' (zip_up K R) \<and>
    rb_parent s' (rid t) = rb_parent s (rid t)"
proof -
  from t obtain l n c q where tt: "t = Node l (n, c) q" by (cases t rule: rid.cases) auto
  let ?C = "rb_children s" and ?P = "rb_parent s" and ?p = "par_of 0 K"
  have z: "crep ?C ?P 0 (rb_root s) K n" "n \<noteq> 0" "even_addr n" "trep ?C ?P n (rid l) l" "trep ?C ?P n (rid q) q"
    using r unfolding rb_rep_zip by (auto simp: tt dest!: trep_at)
  have ev: "even_addr ?p" using crep_par_even [OF z(1)] by simp
  have d: "distinct (ids R)" "n \<notin> set (ids R)" "set (ctx_ids K) \<inter> set (ids R) = {}" "n \<notin> set (ctx_ids K)"
    "distinct (ctx_ids K)" "trep ?C ?P n (rid R) R"
    using r t(2) z unfolding rb_rep_zip by (auto simp: tt)
  define P1 where "P1 = (if R = Leaf then ?P else ?P(rid R := (?P (rid R) AND 1) OR ?p))"
  have R: "trep ?C P1 ?p (rid R) R"
    using trep_reparent [OF d(6) z(3) ev d(1)] by (auto simp: P1_def)
  have P1: "P1 a = ?P a" if "a \<notin> set (ids R)" for a using that rid_in [of R] by (auto simp: P1_def)
  have K1: "crep ?C P1 0 (rb_root s) K n"
    using z(1) by (subst crep_cong [where P' = ?P and C' = ?C]) (use P1 d(3) in auto)
  define s1 where "s1 = s\<lparr>rb_parent := P1\<rparr>"
  have s1: "(if rid R \<noteq> 0 then rb_set_parent s (rid R) ?p else Some s) = Some s1"
    using rid_eq_0 [OF d(6)] by (auto simp: s1_def P1_def rb_set_parent_def)
  show ?thesis
  proof (cases K)
    case Nil
    then show ?thesis
      using s1 R d P1 [of n] unfolding unlink_def rb_rep_zip by (simp add: tt s1_def)
  next
    case (Cons f L)
    obtain e p pc w where f: "f = (e, p, pc, w)" by (cases f)
    have "rbtree_direction_of s1 n = rbtree_direction_of s n"
      using P1 [of n] d(2) by (simp add: rbtree_direction_of_def rb_get_parent_def get_child_def s1_def)
    then have dir: "rbtree_direction_of s1 n = Some e"
      using direction_rep [of s L e t p pc w] r t by (auto simp: Cons f tt)
    have p: "p \<noteq> 0" "p \<notin> set (ids R)" using K1 d by (auto simp: Cons f)
    show ?thesis
      using s1 dir R d p K1 P1 [of n] unfolding unlink_def rb_rep_zip
      by (simp add: tt s1_def Cons f set_child_upd2 upd2_apply)
  qed
qed

text \<open>The rebalancing after the node is out.\<close>

definition settle :: "rb_state \<Rightarrow> addr \<Rightarrow> addr \<Rightarrow> addr \<Rightarrow> rbtree_direction \<Rightarrow> color \<Rightarrow> rb_state option" where
  "settle s node parent replacement dir c = (if c = Black then do {
       rr \<leftarrow> is_red s replacement;
       if rr then rb_set_color s replacement Black
       else if replacement \<noteq> 0 then rbtree_remove_fixup s replacement dir
       else if parent \<noteq> 0 then rbtree_remove_fixup s node dir
       else Some s }
     else Some s)"

lemma rbtree_remove_parts:
  "rbtree_remove s node = do {
     left \<leftarrow> get_child s RB_LEFT node;
     right \<leftarrow> get_child s RB_RIGHT node;
     s \<leftarrow> (if left \<noteq> 0 \<and> right \<noteq> 0 then swap_successor s node else Some s);
     parent \<leftarrow> rb_get_parent s node;
     left \<leftarrow> get_child s RB_LEFT node;
     right \<leftarrow> get_child s RB_RIGHT node;
     let replacement = (if left \<noteq> 0 then left else right);
     (s, dir) \<leftarrow> unlink s node parent replacement;
     c \<leftarrow> rb_get_color s node;
     s \<leftarrow> settle s node parent replacement dir c;
     Some (replacement, s) }"
  by (simp add: rbtree_remove_def unlink_def settle_def)

lemma remove_one_rep:
  assumes r: "rb_rep s (zip_up K t)" and ok: "rb_ok (zip_up K t)" and t: "t \<noteq> Leaf"
    and one: "sub RB_LEFT t = Leaf \<or> sub RB_RIGHT t = Leaf"
    and R: "R = (if sub RB_LEFT t \<noteq> Leaf then sub RB_LEFT t else sub RB_RIGHT t)"
  shows "\<exists>s1 s2. unlink s (rid t) (par_of 0 K) (rid R) = Some (s1, dir_of K) \<and>
    rb_get_color s1 (rid t) = Some (col t) \<and>
    settle s1 (rid t) (par_of 0 K) (rid R) (dir_of K) (col t) = Some s2 \<and> rb_rep s2 (rem_one K t)"
proof -
  have "R = Leaf \<or> R = sub RB_LEFT t \<or> R = sub RB_RIGHT t" using R by simp
  from unlink_rep [OF r t this] obtain s1 where
    s1: "unlink s (rid t) (par_of 0 K) (rid R) = Some (s1, dir_of K)"
    "rb_rep s1 (zip_up K R)" "rb_parent s1 (rid t) = rb_parent s (rid t)" by blast
  from t obtain l n c q where tt: "t = nd RB_LEFT l (n, c) q" by (cases t rule: nd_cases [where d = RB_LEFT]) auto
  have "rb_get_color s1 n = rb_get_color s n" "rb_get_parent s1 n = rb_get_parent s n"
    using s1(3) by (simp_all add: rb_get_color_def rb_get_parent_def tt)
  then have n: "rb_get_color s1 n = Some c" "rb_get_parent s1 n = Some (par_of 0 K)"
    using rb_reads(5,6) [OF r [unfolded tt]] by simp_all
  obtain h where h: "ctx_bal K h" "bal h t" using rb_ok_split [OF ok] by blast
  have "\<exists>s2. settle s1 n (par_of 0 K) (rid R) (dir_of K) c = Some s2 \<and> rb_rep s2 (rem_one K t)"
  proof (cases c)
    case Red
    then show ?thesis using s1(2) R by (auto simp: settle_def rem_one_def Let_def tt)
  next
    case Black
    with h obtain i where i: "h = Suc i" "bal i l" "bal i q" by (cases h) (auto simp: tt)
    note red = is_red_read [OF s1(2)]
    show ?thesis
    proof (cases "R = Leaf")
      case True
      then have fx: "rem_one K t = rem_fix K Leaf" using R Black by (auto simp: rem_one_def tt)
      show ?thesis
      proof (cases K)
        case Nil
        then show ?thesis using red True Black s1(2) fx by (simp add: settle_def)
      next
        case (Cons f L)
        obtain e p pc w where f: "f = (e, p, pc, w)" by (cases f)
        have "p \<noteq> 0" using par_of_zero [OF s1(2)] by (auto simp: Cons f)
        moreover obtain s2 where "remove_fixup_loop s1 p e = Some s2" "rb_rep s2 (rem_fix K Leaf)"
          using remove_fixup_loop_rep [of s1 e p pc w L Leaf i] s1(2) h(1) True i by (auto simp: Cons f)
        ultimately show ?thesis
          using red True Black n fx by (simp add: settle_def rbtree_remove_fixup_def Cons f)
      qed
    next
      case False
      then have "col R = Red" using i one R by (cases R rule: col.cases; cases i) (auto simp: tt split: if_splits color.splits)
      then obtain a x b where RR: "R = nd RB_LEFT a (x, Red) b" by (rule col_Red_nd)
      show ?thesis
        using rb_set_color_rep [OF s1(2) [unfolded RR], of Black] red Black R \<open>col R = Red\<close>
        by (auto simp: settle_def RR rem_one_def Let_def tt split: if_splits)
    qed
  qed
  then show ?thesis using s1(1) n by (auto simp: tt)
qed

lemma rbtree_remove_rep:
  assumes r: "rb_rep s t" and ok: "rb_ok t" and n: "n \<in> set (ids t)"
  shows "\<exists>q s'. rbtree_remove s n = Some (q, s') \<and> rb_rep s' (rb_remove n t)"
proof -
  obtain K u where l: "rb_locate n t [] = Some (K, u)" using rb_locate_in [OF n] by blast
  note z = rb_locate_zip [OF l]
  obtain K' w where sw: "rem_swap K u = (K', w)" by fastforce
  from z obtain a c b where u: "u = nd RB_LEFT a (n, c) b" by (cases u rule: nd_cases [where d = RB_LEFT]) auto
  have ru: "rb_rep s (zip_up K (nd RB_LEFT a (n, c) b))" using r z u by simp
  have kids: "rid a = 0 \<longleftrightarrow> a = Leaf" "rid b = 0 \<longleftrightarrow> b = Leaf"
    using rid_zero [OF rb_rep_focus [OF ru]] rid_zero [OF rb_rep_focus_other [OF ru]] by auto
  have "\<exists>s1. (if rid a \<noteq> 0 \<and> rid b \<noteq> 0 then swap_successor s n else Some s) = Some s1 \<and> rb_rep s1 (zip_up K' w)"
  proof (cases "a \<noteq> Leaf \<and> b \<noteq> Leaf")
    case True
    obtain L m where m: "min_path b [] = (L, m)" by fastforce
    obtain x mc e where mm: "m = Node Leaf (x, mc) e" using min_path_min [OF m] True by metis
    have "rb_rep s (zip_up K (Node a (n, c) b))" using ru by (simp add: nd_def)
    from swap_successor_rep [OF this _ _ m [unfolded mm]] True show ?thesis
      using sw kids m mm u by (auto simp: rem_swap_def)
  next
    case False
    then show ?thesis using kids ru sw u by (auto simp: rem_swap_def)
  qed
  then obtain s1 where s1: "(if rid a \<noteq> 0 \<and> rid b \<noteq> 0 then swap_successor s n else Some s) = Some s1"
    "rb_rep s1 (zip_up K' w)" by blast
  have w: "w \<noteq> Leaf" "rid w = n" "sub RB_LEFT w = Leaf \<or> sub RB_RIGHT w = Leaf"
    using rem_swap_one_child [OF sw] z u by auto
  then obtain wa wc wb where ww: "w = nd RB_LEFT wa (n, wc) wb" by (cases w rule: nd_cases [where d = RB_LEFT]) auto
  note rw = s1(2) [unfolded ww]
  define R where "R = (if wa \<noteq> Leaf then wa else wb)"
  have R: "R = (if sub RB_LEFT w \<noteq> Leaf then sub RB_LEFT w else sub RB_RIGHT w)" by (simp add: ww R_def)
  have okw: "rb_ok (zip_up K' w)" using rb_ok_rem_swap [OF _ sw] z ok by simp
  have rr: "(if rid wa \<noteq> 0 then rid wa else rid wb) = rid R"
    using rid_zero [OF rb_rep_focus [OF rw]] by (auto simp: R_def)
  obtain s2 s3 where fin: "unlink s1 n (par_of 0 K') (rid R) = Some (s2, dir_of K')"
    "rb_get_color s2 n = Some (col w)"
    "settle s2 n (par_of 0 K') (rid R) (dir_of K') (col w) = Some s3" "rb_rep s3 (rem_one K' w)"
    using remove_one_rep [OF s1(2) okw w(1,3) R] w(2) by auto
  have "rbtree_remove s n = Some (rid R, s3)"
    using rb_reads(3,4) [OF ru] s1(1) rb_reads(3,4,5) [OF rw] fin(1-3)
    by (simp add: rbtree_remove_parts rr Let_def split del: if_split)
  moreover have "rb_remove n t = rem_one K' w" by (simp add: rb_remove_def l sw)
  ultimately show ?thesis using fin(4) by auto
qed

section \<open>Searches and traversal\<close>

lemma search_node:
  assumes "rb_rep s (zip_up K (Node l (a, c) r))"
  shows "a \<noteq> 0" "get_child s RB_LEFT a = Some (rid l)" "get_child s RB_RIGHT a = Some (rid r)"
    "rb_rep s (zip_up ((RB_LEFT, a, c, r) # K) l)" "rb_rep s (zip_up ((RB_RIGHT, a, c, l) # K) r)"
proof -
  have r: "rb_rep s (zip_up K (nd RB_LEFT l (a, c) r))" using assms by (simp add: nd_def)
  show "a \<noteq> 0" "get_child s RB_LEFT a = Some (rid l)" "get_child s RB_RIGHT a = Some (rid r)"
    using rb_reads [OF r] by auto
  show "rb_rep s (zip_up ((RB_LEFT, a, c, r) # K) l)" "rb_rep s (zip_up ((RB_RIGHT, a, c, l) # K) r)"
    using rb_rep_focus [OF r] rb_rep_focus_other [OF r] by auto
qed

lemma exact_loop_rep:
  "rb_rep s (zip_up K t) \<Longrightarrow> exact_loop von q s (rid t) = Some (search_exact von q t)"
proof (induction von q t arbitrary: K rule: search_exact.induct)
  case (2 von q l a c r)
  then show ?case
    using search_node [OF 2(3)] by (subst exact_loop.simps) (auto simp del: zip_up.simps)
qed (simp add: exact_loop.simps)

lemma nearest_loop_rep:
  "rb_rep s (zip_up K t) \<Longrightarrow> nearest_loop von q s (rid t) n b = Some (search_nearest von q t n b)"
proof (induction von q t n b arbitrary: K rule: search_nearest.induct)
  case (2 von q l a c r n b)
  note n = search_node [OF 2(3)]
  show ?case
    using n 2(1) [OF refl _ _ n(4)] 2(2) [OF refl _ _ _ n(5)]
    by (subst nearest_loop.simps) (auto simp: key_dist_def Let_def simp del: zip_up.simps)
qed (simp add: nearest_loop.simps)

lemma lesser_loop_rep:
  "rb_rep s (zip_up K t) \<Longrightarrow> lesser_loop von q eq s (rid t) cand = Some (search_lesser von q eq t cand)"
proof (induction von q eq t cand arbitrary: K rule: search_lesser.induct)
  case (2 von q eq l a c r cand)
  note n = search_node [OF 2(3)]
  show ?case
    using n 2(1) [OF _ n(5)] 2(2) [OF _ _ n(4)] rid_zero [OF n(4)] rbtree_maximum_rep [OF n(4)]
    by (subst lesser_loop.simps) (auto simp del: zip_up.simps)
qed (simp add: lesser_loop.simps)

lemma greater_loop_rep:
  "rb_rep s (zip_up K t) \<Longrightarrow> greater_loop von q eq s (rid t) cand = Some (search_greater von q eq t cand)"
proof (induction von q eq t cand arbitrary: K rule: search_greater.induct)
  case (2 von q eq l a c r cand)
  note n = search_node [OF 2(3)]
  show ?case
    using n 2(1) [OF _ n(4)] 2(2) [OF _ _ n(5)] rid_zero [OF n(5)] rbtree_minimum_rep [OF n(5)]
    by (subst greater_loop.simps) (auto simp del: zip_up.simps)
qed (simp add: greater_loop.simps)

lemma rbtree_search_rep: "rb_rep s t \<Longrightarrow> rbtree_search von s q ty = Some (rb_search von q ty t)"
  using exact_loop_rep [of s "[]" t] nearest_loop_rep [of s "[]" t] lesser_loop_rep [of s "[]" t]
    greater_loop_rep [of s "[]" t] rb_root_read [of s t]
  by (cases ty) (simp_all add: rbtree_search_exact_def rbtree_search_nearest_def
      rbtree_search_lesser_def rbtree_search_greater_def)

lemma ascend_rep:
  "rb_rep s (zip_up K t) \<Longrightarrow> t \<noteq> Leaf \<Longrightarrow>
   ascend s d (rid t) (par_of 0 K) = Some (if d then hd_or (ctx_r K) 0 else last_or (ctx_l K) 0)"
proof (induction K arbitrary: t)
  case Nil
  then show ?case by (simp add: ascend.simps)
next
  case (Cons f K)
  obtain e p c u where f: "f = (e, p, c, u)" by (cases f)
  have r: "rb_rep s (zip_up K (nd e t (p, c) u))" using Cons.prems by (simp add: f)
  have "get_child s d p = Some (if d = e then rid t else rid u)"
    using rb_reads(3,4) [OF r] by (cases d; cases e) auto
  then show ?case
    using rb_reads(1,5) [OF r] siblings_differ(1) [OF r Cons.prems(2)] Cons.IH [OF r]
    by (subst ascend.simps) (cases d; cases e; auto simp: f)
qed

text \<open>The neighbours of an element in a sequence.\<close>

fun next_in :: "addr \<Rightarrow> addr list \<Rightarrow> addr" where
  "next_in n [] = 0"
| "next_in n (x # xs) = (if x = n then hd_or xs 0 else next_in n xs)"

definition prev_in :: "addr \<Rightarrow> addr list \<Rightarrow> addr" where
  "prev_in n xs = next_in n (rev xs)"

lemma next_in_split: "n \<notin> set xs \<Longrightarrow> next_in n (xs @ n # ys) = hd_or ys 0"
  by (induction xs) auto

lemma hd_or_rev: "hd_or (rev xs) d = last_or xs d"
  by (cases xs rule: rev_cases) auto

lemma hd_or_ne: "xs \<noteq> [] \<Longrightarrow> hd_or xs d = hd xs" and last_or_ne: "xs \<noteq> [] \<Longrightarrow> last_or xs d = last xs"
  by (cases xs; simp add: last_or_def)+

lemma prev_in_split: "n \<notin> set ys \<Longrightarrow> prev_in n (xs @ n # ys) = last_or xs 0"
  by (simp add: prev_in_def next_in_split hd_or_rev)

lemma rbtree_neighbours_rep:
  assumes r: "rb_rep s t" and n: "n \<in> set (ids t)"
  shows "rbtree_successor s n = Some (next_in n (ids t)) \<and> rbtree_predecessor s n = Some (prev_in n (ids t))"
proof -
  obtain K u where l: "rb_locate n t [] = Some (K, u)" using rb_locate_in [OF n] by blast
  note z = rb_locate_zip [OF l]
  from z obtain a c b where u: "u = Node a (n, c) b" by (cases u rule: rid.cases) auto
  have ru: "rb_rep s (zip_up K (nd RB_LEFT a (n, c) b))" using r z u by (simp add: nd_def)
  note f = rb_rep_focus [OF ru] rb_rep_focus_other [OF ru]
  have ids: "ids t = (ctx_l K @ ids a) @ n # (ids b @ ctx_r K)"
    using arg_cong [OF conjunct1 [OF z], of ids] by (simp add: u ids_zip_up)
  have d: "n \<notin> set (ctx_l K @ ids a)" "n \<notin> set (ids b @ ctx_r K)"
    using r unfolding rb_rep_def ids by auto
  have up: "ascend s e n (par_of 0 K) = Some (if e then hd_or (ctx_r K) 0 else last_or (ctx_l K) 0)" for e
    using ascend_rep [OF ru] by simp
  show ?thesis
    unfolding ids next_in_split [OF d(1)] prev_in_split [OF d(2)]
    using rb_reads [OF ru] rid_zero [OF f(1)] rid_zero [OF f(2)] rbtree_minimum_rep [OF f(2)]
      rbtree_maximum_rep [OF f(1)] up tmin_hd [of b] tmax_last [of a] hd_or_ne [of "ids b"] last_or_ne [of "ids a"]
    by (auto simp: rbtree_successor_def rbtree_predecessor_def)
qed

section \<open>The tree as an abstract data type\<close>

text \<open>The interface of \<^verbatim>\<open>rbtree.h\<close> as one step function. No caller uses the replacement pointer that
  \<^verbatim>\<open>rbtree_remove\<close> returns, so the step returns the removed node.\<close>

datatype rb_op = RInsert addr | RRemove addr | RSearch u64 rbtree_search_type
  | RSuccessor addr | RPredecessor addr | RMinimum | RMaximum

fun rb_step :: "(addr \<Rightarrow> u64) \<Rightarrow> rb_op \<Rightarrow> rb_state \<Rightarrow> (addr \<times> rb_state) option" where
  "rb_step von (RInsert n) s = rbtree_insert von s n"
| "rb_step von (RRemove n) s = map_option (\<lambda>(_, s). (n, s)) (rbtree_remove s n)"
| "rb_step von (RSearch q ty) s = map_option (\<lambda>r. (r, s)) (rbtree_search von s q ty)"
| "rb_step von (RSuccessor n) s = map_option (\<lambda>r. (r, s)) (rbtree_successor s n)"
| "rb_step von (RPredecessor n) s = map_option (\<lambda>r. (r, s)) (rbtree_predecessor s n)"
| "rb_step von RMinimum s = map_option (\<lambda>r. (r, s)) (rbtree_minimum s (rb_root s))"
| "rb_step von RMaximum s = map_option (\<lambda>r. (r, s)) (rbtree_maximum s (rb_root s))"

fun rbt_step :: "(addr \<Rightarrow> u64) \<Rightarrow> rb_op \<Rightarrow> rbt \<Rightarrow> addr \<times> rbt" where
  "rbt_step v (RInsert n) t = (n, rb_insert v n t)"
| "rbt_step v (RRemove n) t = (n, rb_remove n t)"
| "rbt_step v (RSearch q ty) t = (rb_search v q ty t, t)"
| "rbt_step v (RSuccessor n) t = (next_in n (ids t), t)"
| "rbt_step v (RPredecessor n) t = (prev_in n (ids t), t)"
| "rbt_step v RMinimum t = (tmin t, t)"
| "rbt_step v RMaximum t = (tmax t, t)"

fun rbt_pre :: "rb_op \<Rightarrow> rbt \<Rightarrow> bool" where
  "rbt_pre (RInsert n) t \<longleftrightarrow> n \<notin> set (ids t) \<and> n \<noteq> 0 \<and> even_addr n"
| "rbt_pre (RRemove n) t \<longleftrightarrow> n \<in> set (ids t)"
| "rbt_pre (RSuccessor n) t \<longleftrightarrow> n \<in> set (ids t)"
| "rbt_pre (RPredecessor n) t \<longleftrightarrow> n \<in> set (ids t)"
| "rbt_pre _ t \<longleftrightarrow> True"

definition rbt_rep :: "(addr \<Rightarrow> u64) \<Rightarrow> rb_state \<Rightarrow> rbt \<Rightarrow> bool" where
  "rbt_rep v s t \<longleftrightarrow> rb_rep s t \<and> rb_inv v t"

lemma rb_step_refines:
  assumes r: "rbt_rep v s t" and p: "rbt_pre op t"
  shows "\<exists>s'. rb_step v op s = Some (fst (rbt_step v op t), s') \<and> rbt_rep v s' (snd (rbt_step v op t))"
proof -
  from r have rep: "rb_rep s t" and inv: "rb_inv v t" and ok: "rb_ok t" by (auto simp: rbt_rep_def rb_inv_def)
  show ?thesis
  proof (cases op)
    case (RInsert n)
    then show ?thesis
      using rbtree_insert_rep [OF rep, of n v] rb_inv_insert [OF inv] p by (auto simp: rbt_rep_def)
  next
    case (RRemove n)
    then show ?thesis
      using rbtree_remove_rep [OF rep ok, of n] rb_inv_remove [OF inv] p by (auto simp: rbt_rep_def)
  next
    case (RSearch q ty)
    then show ?thesis using rbtree_search_rep [OF rep] r by auto
  next
    case RMinimum
    then show ?thesis using rbtree_minimum_rep [of s "[]" t] rb_root_read [OF rep] rep r by auto
  next
    case RMaximum
    then show ?thesis using rbtree_maximum_rep [of s "[]" t] rb_root_read [OF rep] rep r by auto
  qed (use rbtree_neighbours_rep [OF rep] p r in auto)
qed

interpretation rb_trees: refines "rb_step v" "rbt_step v" rbt_pre "rbt_rep v" for v
  by unfold_locales (rule rb_step_refines)

text \<open>The specification over the ordered sequence of the nodes.\<close>

definition search_spec ::
  "(addr \<Rightarrow> u64) \<Rightarrow> u64 \<Rightarrow> rbtree_search_type \<Rightarrow> addr list \<Rightarrow> addr \<Rightarrow> bool" where
  "search_spec v q ty xs r \<longleftrightarrow> (case ty of
      RB_SEARCH_TYPE_EXACT \<Rightarrow> (r = 0 \<and> (\<forall>x\<in>set xs. v x \<noteq> q)) \<or> (r \<in> set xs \<and> v r = q)
    | RB_SEARCH_TYPE_NEAREST \<Rightarrow> near v q (set xs) 0 (- 1) r
    | RB_SEARCH_TYPE_NEAREST_LT \<Rightarrow> distinct (map v xs) \<longrightarrow> greatest_in v {x \<in> set xs. v x < q} 0 r
    | RB_SEARCH_TYPE_NEAREST_LTE \<Rightarrow> greatest_in v {x \<in> set xs. v x \<le> q} 0 r
    | RB_SEARCH_TYPE_NEAREST_GT \<Rightarrow> distinct (map v xs) \<longrightarrow> least_in v {x \<in> set xs. q < v x} 0 r
    | RB_SEARCH_TYPE_NEAREST_GTE \<Rightarrow> least_in v {x \<in> set xs. q \<le> v x} 0 r)"

fun ord_spec :: "(addr \<Rightarrow> u64) \<Rightarrow> rb_op list \<Rightarrow> addr list \<Rightarrow> addr list \<Rightarrow> addr list \<Rightarrow> bool" where
  "ord_spec v [] [] xs ys \<longleftrightarrow> xs = ys"
| "ord_spec v (RInsert n # ops) (r # rs) xs ys \<longleftrightarrow> r = n \<and> ord_spec v ops rs (ord_ins v n xs) ys"
| "ord_spec v (RRemove n # ops) (r # rs) xs ys \<longleftrightarrow> r = n \<and> ord_spec v ops rs (remove1 n xs) ys"
| "ord_spec v (RSearch q ty # ops) (r # rs) xs ys \<longleftrightarrow> search_spec v q ty xs r \<and> ord_spec v ops rs xs ys"
| "ord_spec v (RSuccessor n # ops) (r # rs) xs ys \<longleftrightarrow> r = next_in n xs \<and> ord_spec v ops rs xs ys"
| "ord_spec v (RPredecessor n # ops) (r # rs) xs ys \<longleftrightarrow> r = prev_in n xs \<and> ord_spec v ops rs xs ys"
| "ord_spec v (RMinimum # ops) (r # rs) xs ys \<longleftrightarrow> r = hd_or xs 0 \<and> ord_spec v ops rs xs ys"
| "ord_spec v (RMaximum # ops) (r # rs) xs ys \<longleftrightarrow> r = last_or xs 0 \<and> ord_spec v ops rs xs ys"
| "ord_spec v _ _ xs ys \<longleftrightarrow> False"

lemma rb_search_spec: "rb_inv v t \<Longrightarrow> search_spec v q ty (ids t) (rb_search v q ty t)"
proof -
  assume "rb_inv v t"
  then have s: "sorted (map v (ids t))" by (simp add: rb_inv_def)
  have le: "{x \<in> set (ids t). v x \<le> q} = at_most v q True t" "{x \<in> set (ids t). q \<le> v x} = at_least v q True t"
    "{x \<in> set (ids t). v x < q} = at_most v q False t" "{x \<in> set (ids t). q < v x} = at_least v q False t"
    by (auto simp: at_most_def at_least_def)
  show ?thesis
  proof (cases ty)
    case RB_SEARCH_TYPE_EXACT
    then show ?thesis using search_exact_correct [OF s, of q] by (simp add: search_spec_def)
  next
    case RB_SEARCH_TYPE_NEAREST
    moreover have "(0::u64) < - 1" by (simp flip: word_neq_0_conv)
    ultimately show ?thesis using search_nearest_correct [OF s, of "- 1" q 0] by (simp add: search_spec_def)
  next
    case RB_SEARCH_TYPE_NEAREST_LT
    then show ?thesis using search_lesser_correct [OF s, of False q 0] by (simp add: search_spec_def le)
  next
    case RB_SEARCH_TYPE_NEAREST_LTE
    then show ?thesis using search_lesser_correct [OF s, of True q 0] by (simp add: search_spec_def le)
  next
    case RB_SEARCH_TYPE_NEAREST_GT
    then show ?thesis using search_greater_correct [OF s, of False q 0] by (simp add: search_spec_def le)
  next
    case RB_SEARCH_TYPE_NEAREST_GTE
    then show ?thesis using search_greater_correct [OF s, of True q 0] by (simp add: search_spec_def le)
  qed
qed

lemma tmin_or: "tmin t = hd_or (ids t) 0" and tmax_or: "tmax t = last_or (ids t) 0"
  by (cases "t = Leaf"; simp add: tmin_hd tmax_last hd_or_ne last_or_ne)+

lemma ord_spec_trees:
  "rb_inv v t \<Longrightarrow> admissible rbt_pre (rbt_step v) ops t \<Longrightarrow>
   ord_spec v ops (fst (arun (rbt_step v) ops t)) (ids t) (ids (snd (arun (rbt_step v) ops t)))"
proof (induction ops arbitrary: t)
  case (Cons op ops)
  have ids: "sorted (map v (ids t))" "distinct (ids t)" using Cons.prems(1) by (auto simp: rb_inv_def)
  have "rb_inv v (snd (rbt_step v op t))"
    using Cons.prems by (cases op) (auto intro: rb_inv_insert rb_inv_remove)
  with Cons.IH [of "snd (rbt_step v op t)"] Cons.prems show ?case
    by (cases op) (auto simp: Let_def split_def ids_rb_insert ids_rb_remove ids rb_search_spec tmin_or tmax_or)
qed simp

definition RBTREE_INIT :: "rb_state \<Rightarrow> rb_state" where
  "RBTREE_INIT s = s\<lparr>rb_root := 0\<rparr>"

lemma rbt_rep_init: "rbt_rep v (RBTREE_INIT s) Leaf"
  by (simp add: rbt_rep_def rb_rep_def rb_inv_def RBTREE_INIT_def)

lemma rb_run:
  assumes "admissible rbt_pre (rbt_step v) ops Leaf"
  shows "\<exists>s'. crun (rb_step v) ops (RBTREE_INIT s) = Some (fst (arun (rbt_step v) ops Leaf), s') \<and>
    rb_rep s' (snd (arun (rbt_step v) ops Leaf)) \<and> rb_ok (snd (arun (rbt_step v) ops Leaf))"
  using rb_trees.run [OF rbt_rep_init assms] by (auto simp: rbt_rep_def rb_inv_def)



text \<open>
  C2. The pointer code keeps the tree balanced. After any admissible sequence of operations the
  represented tree has a black root, no red node has a red child, every path has the same number of
  black nodes, and so its height is at most twice the binary logarithm of its size: a search visits
  at most \<open>2 * log\<^sub>2 (n + 1)\<close> nodes.
\<close>

theorem rbtree_stays_balanced:
  assumes "admissible rbt_pre (rbt_step v) ops Leaf"
  shows "\<exists>rs s' t. crun (rb_step v) ops (RBTREE_INIT s) = Some (rs, s') \<and> rb_rep s' t \<and>
    col t = Black \<and> (\<exists>h. bal h t) \<and> 2 ^ height t \<le> (size t + 1) ^ 2"
  using rb_run [OF assms, of s] rb_ok_height [of "snd (arun (rbt_step v) ops Leaf)"]
  by (auto simp: rb_ok_def)

theorem rbtree_stays_balanced_witness:
  "\<exists>rs s' t. crun (rb_step (\<lambda>n. n)) [RInsert 2, RInsert 4, RInsert 6, RRemove 2]
      (RBTREE_INIT \<lparr>rb_root = 4, rb_parent = (\<lambda>_. 0), rb_children = (\<lambda>_ _. 0)\<rparr>) = Some (rs, s') \<and>
    rb_rep s' t \<and> col t = Black \<and> (\<exists>h. bal h t) \<and> 2 ^ height t \<le> (size t + 1) ^ 2"
proof (rule rbtree_stays_balanced)
  show "admissible rbt_pre (rbt_step (\<lambda>n. n)) [RInsert 2, RInsert 4, RInsert 6, RRemove 2] Leaf"
    by code_simp
qed

end
