(* ===== verification/Buddy.thy ===== *)
theory Buddy
  imports LibMath Llist
begin

text \<open>
  The physical page allocator: the page frame database of \<^verbatim>\<open>mem/pfndb.h\<close> and the buddy allocator
  of \<^verbatim>\<open>mem/buddy.c\<close>. The free lists are the sequences that \<open>Llist\<close> shows the intrusive lists to
  implement; a list node is the direct-map address of the first byte of a free block. The lock only
  serialises the operations and has no part in their results. Reading or writing \<^verbatim>\<open>orders\<close> out of
  range and unlinking a node that is not linked are error values. The theory shows that the
  operations partition the memory given to the allocator into free and allocated blocks.
\<close>

section \<open>The page frame database\<close>

datatype pagetype = PFNDB_PAGE_INVALID | PFNDB_PAGE_FREE | PFNDB_PAGE_ALLOCATED | PFNDB_PAGE_PTABLE

record page =
  pg_type :: pagetype
  pg_order :: u8
  pg_flags :: u16
  pg_ref_count :: u32

abbreviation (input) PAGE_SIZE_SHIFT :: nat where "PAGE_SIZE_SHIFT \<equiv> 12"

abbreviation (input) PAGE_SIZE :: u64 where "PAGE_SIZE \<equiv> 0x1000"

abbreviation (input) MAX_ORDER :: nat where "MAX_ORDER \<equiv> 14"

record buddy =
  pfndb :: "u64 \<Rightarrow> page"
  orders :: "nat \<Rightarrow> addr list"

definition pfndb_get_entry :: "buddy \<Rightarrow> u64 \<Rightarrow> page" where
  "pfndb_get_entry s paddr = pfndb s (drop_bit PAGE_SIZE_SHIFT paddr)"

definition pfndb_set_entry :: "buddy \<Rightarrow> u64 \<Rightarrow> (page \<Rightarrow> page) \<Rightarrow> buddy" where
  "pfndb_set_entry s paddr g = (let i = drop_bit PAGE_SIZE_SHIFT paddr
     in s\<lparr>pfndb := (pfndb s)(i := g (pfndb s i))\<rparr>)"

section \<open>The allocator\<close>

definition GET_ORDER_SIZE :: "nat \<Rightarrow> u64" where
  "GET_ORDER_SIZE ord = push_bit (PAGE_SIZE_SHIFT + ord) 1"

definition GET_ORDER :: "u64 \<Rightarrow> int" where
  "GET_ORDER a = int (ctzll a) - int PAGE_SIZE_SHIFT"

definition SET_MAX_ORDER :: "u8 \<Rightarrow> nat \<Rightarrow> u8" where
  "SET_MAX_ORDER ord val = (ord AND 0x0f) OR push_bit 4 (word_of_nat val)"

definition SET_CUR_ORDER :: "u8 \<Rightarrow> nat \<Rightarrow> u8" where
  "SET_CUR_ORDER ord val = (ord AND 0xf0) OR word_of_nat val"

definition GET_MAX_ORDER :: "u8 \<Rightarrow> nat" where
  "GET_MAX_ORDER ord = unat (drop_bit 4 ord AND 0xf)"

definition GET_CUR_ORDER :: "u8 \<Rightarrow> nat" where
  "GET_CUR_ORDER ord = unat (ord AND 0xf)"

definition push_order :: "nat \<Rightarrow> addr \<Rightarrow> buddy \<Rightarrow> buddy result" where
  "push_order ord node s = (if ord \<le> MAX_ORDER
     then Inr (s\<lparr>orders := (orders s)(ord := node # orders s ord)\<rparr>) else Inl OutOfBounds)"

definition pop_order :: "nat \<Rightarrow> buddy \<Rightarrow> (addr option \<times> buddy) result" where
  "pop_order ord s = (if ord \<le> MAX_ORDER
     then Inr (case orders s ord of [] \<Rightarrow> (None, s)
       | node # rest \<Rightarrow> (Some node, s\<lparr>orders := (orders s)(ord := rest)\<rparr>))
     else Inl OutOfBounds)"

definition delete_order :: "nat \<Rightarrow> addr \<Rightarrow> buddy \<Rightarrow> buddy result" where
  "delete_order ord node s = (if \<not> ord \<le> MAX_ORDER then Inl OutOfBounds
     else if node \<notin> set (orders s ord) then Inl Undefined
     else Inr (s\<lparr>orders := (orders s)(ord := remove1 node (orders s ord))\<rparr>))"

definition buddy_add_block :: "u64 \<Rightarrow> u64 \<Rightarrow> nat \<Rightarrow> buddy \<Rightarrow> buddy result" where
  "buddy_add_block hhdm paddr order s =
     push_order order (TO_HHDM hhdm paddr)
       (pfndb_set_entry s paddr (\<lambda>e. e\<lparr>pg_type := PFNDB_PAGE_FREE,
          pg_order := SET_CUR_ORDER (SET_MAX_ORDER (pg_order e) order) order\<rparr>))"

text \<open>The loop of \<^verbatim>\<open>buddy_add_range_nlock\<close>. Its debug assertion and the conditions under which the
  shift counts of the source are defined are explicit.\<close>

function add_range_loop :: "u64 \<Rightarrow> u64 \<Rightarrow> u64 \<Rightarrow> buddy \<Rightarrow> buddy result" where
  "add_range_loop hhdm end addr s =
    (if addr < end then
       let pages = drop_bit PAGE_SIZE_SHIFT (end - addr);
           max_fit = log2ull pages;
           align = GET_ORDER addr;
           order = min MAX_ORDER (min max_fit (nat align))
       in if addr = 0 then Inl AssertFailed
          else if pages = 0 \<or> align < 0 then Inl Undefined
          else ebind (buddy_add_block hhdm addr order s)
            (\<lambda>s. add_range_loop hhdm end (addr + GET_ORDER_SIZE order) s)
     else Inr s)"
  by pat_completeness auto

lemma order_fits:
  assumes "pages = drop_bit 12 (d :: u64)" "pages \<noteq> 0" "ord \<le> log2ull pages"
  shows "2 ^ (12 + ord) \<le> unat d"
proof -
  have p: "unat pages = unat d div 2 ^ 12" using assms(1) by (simp add: drop_bit_eq_div unat_div)
  have "2 ^ ord \<le> (2 ^ log2ull pages :: nat)" using assms(3) by (simp add: power_increasing)
  also have "\<dots> \<le> unat pages" using log2ull_bounds assms(2) by auto
  finally have "2 ^ ord * 2 ^ 12 \<le> unat d div 2 ^ 12 * (2 ^ 12 :: nat)" using p by simp
  also have "\<dots> \<le> unat d" by simp
  finally show ?thesis by (simp add: power_add mult.commute)
qed

lemma unat_GET_ORDER_SIZE: "ord \<le> 14 \<Longrightarrow> unat (GET_ORDER_SIZE ord) = 2 ^ (12 + ord)"
  by (simp add: GET_ORDER_SIZE_def push_bit_eq_mult flip: power_add)

termination add_range_loop
proof (relation "measure (\<lambda>(h, end, addr, s). unat (end - addr))", simp)
  fix hhdm "end" addr :: u64 and s pages max_fit align ord s'
  assume *: "addr < end" "pages = drop_bit 12 (end - addr)" "max_fit = log2ull pages"
    "align = GET_ORDER addr" "ord = min 14 (min max_fit (nat align))" "\<not> (pages = 0 \<or> align < 0)"
  then have sz: "2 ^ (12 + ord) \<le> unat (end - addr)" by (intro order_fits [of pages]) auto
  have "unat (GET_ORDER_SIZE ord) = 2 ^ (12 + ord)" using * by (intro unat_GET_ORDER_SIZE) simp
  then have "unat (end - addr - GET_ORDER_SIZE ord) = unat (end - addr) - 2 ^ (12 + ord)"
    using sz by (simp add: unat_sub word_le_nat_alt)
  moreover have "(0::nat) < 2 ^ (12 + ord)" by simp
  ultimately have "unat (end - addr - GET_ORDER_SIZE ord) < unat (end - addr)" using sz by linarith
  then show "((hhdm, end, addr + GET_ORDER_SIZE ord, s'), hhdm, end, addr, s)
      \<in> measure (\<lambda>(h, end, addr, s). unat (end - addr))"
    by (simp add: diff_diff_eq)
qed

declare add_range_loop.simps [simp del]

definition buddy_add_range_nlock :: "u64 \<Rightarrow> u64 \<Rightarrow> u64 \<Rightarrow> buddy \<Rightarrow> buddy result" where
  "buddy_add_range_nlock hhdm start len s =
     (let end = ALIGN_DOWN (start + len) PAGE_SIZE;
          start = ALIGN_UP start PAGE_SIZE
      in if end \<le> start then Inr s else add_range_loop hhdm end start s)"

text \<open>The search for the next larger order with a block.\<close>

function find_larger :: "nat \<Rightarrow> buddy \<Rightarrow> (addr option \<times> nat \<times> buddy) result" where
  "find_larger corder s = (if corder \<le> MAX_ORDER then
      ebind (pop_order corder s) (\<lambda>(node, s).
        case node of Some n \<Rightarrow> Inr (Some n, corder, s) | None \<Rightarrow> find_larger (corder + 1) s)
    else Inr (None, corder, s))"
  by pat_completeness auto
termination
  by (relation "measure (\<lambda>(c, s). 15 - c)") auto

text \<open>The loop that splits a block of order \<open>corder\<close> down to \<open>order\<close>.\<close>

function split_down :: "u64 \<Rightarrow> addr \<Rightarrow> nat \<Rightarrow> nat \<Rightarrow> nat \<Rightarrow> buddy \<Rightarrow> (nat \<times> buddy) result" where
  "split_down hhdm addr max_order order corder s = (if corder > order then
      let corder = corder - 1;
          buddy = addr + GET_ORDER_SIZE corder;
          s = pfndb_set_entry s (FROM_HHDM hhdm buddy) (\<lambda>e. e\<lparr>pg_type := PFNDB_PAGE_FREE,
            pg_order := SET_CUR_ORDER (SET_MAX_ORDER (pg_order e) max_order) corder\<rparr>)
      in ebind (push_order corder buddy s) (split_down hhdm addr max_order order corder)
    else Inr (corder, s))"
  by pat_completeness auto
termination
  by (relation "measure (\<lambda>(h, a, m, ord, c, s). c)") auto

declare find_larger.simps [simp del] split_down.simps [simp del]

definition ALLOC_FLAG_NOFAIL :: u64 where
  "ALLOC_FLAG_NOFAIL = 1"

definition buddy_allocate :: "u64 \<Rightarrow> nat \<Rightarrow> u64 \<Rightarrow> buddy \<Rightarrow> (u64 \<times> buddy) result" where
  "buddy_allocate hhdm order flags s =
     ebind (pop_order order s) (\<lambda>(node, s). case node of
       Some n \<Rightarrow> Inr (FROM_HHDM hhdm n,
         pfndb_set_entry s (FROM_HHDM hhdm n) (\<lambda>e. e\<lparr>pg_type := PFNDB_PAGE_ALLOCATED\<rparr>))
     | None \<Rightarrow> ebind (find_larger (order + 1) s) (\<lambda>(node, corder, s). case node of
         None \<Rightarrow> if flags AND ALLOC_FLAG_NOFAIL \<noteq> 0 then Inl Panicked else Inr (0, s)
       | Some addr \<Rightarrow>
           let max_order = GET_MAX_ORDER (pg_order (pfndb_get_entry s (FROM_HHDM hhdm addr)))
           in ebind (split_down hhdm addr max_order order corder s) (\<lambda>(corder, s).
             kassert (pg_type (pfndb_get_entry s (FROM_HHDM hhdm addr)) = PFNDB_PAGE_FREE)
               (Inr (FROM_HHDM hhdm addr, pfndb_set_entry s (FROM_HHDM hhdm addr)
                  (\<lambda>e. e\<lparr>pg_type := PFNDB_PAGE_ALLOCATED,
                     pg_order := SET_CUR_ORDER (pg_order e) corder\<rparr>))))))"

text \<open>The coalescing loop of \<^verbatim>\<open>buddy_free\<close>; \<^verbatim>\<open>entry\<close> and \<^verbatim>\<open>addr\<close> of the source always belong to
  \<^verbatim>\<open>paddr\<close>.\<close>

lemma GET_MAX_ORDER_less: "GET_MAX_ORDER ord < 16"
proof -
  have "unat (drop_bit 4 ord AND 0xf) \<le> unat (0xf :: u8)"
    by (metis word_and_le2 word_le_nat_alt and.commute)
  then show ?thesis by (simp add: GET_MAX_ORDER_def)
qed

function coalesce :: "u64 \<Rightarrow> u64 \<Rightarrow> nat \<Rightarrow> buddy \<Rightarrow> (u64 \<times> nat \<times> buddy) result" where
  "coalesce hhdm paddr corder s =
    (if corder < GET_MAX_ORDER (pg_order (pfndb_get_entry s paddr)) then
       let buddy_paddr = paddr XOR GET_ORDER_SIZE corder;
           buddy_entry = pfndb_get_entry s buddy_paddr
       in if pg_type buddy_entry \<noteq> PFNDB_PAGE_FREE then Inr (paddr, corder, s)
          else if GET_CUR_ORDER (pg_order buddy_entry) \<noteq> corder then Inr (paddr, corder, s)
          else ebind (delete_order corder (TO_HHDM hhdm buddy_paddr) s) (\<lambda>s.
            coalesce hhdm (if buddy_paddr < paddr then buddy_paddr else paddr) (corder + 1)
              (pfndb_set_entry s buddy_paddr (\<lambda>e. e\<lparr>pg_type := PFNDB_PAGE_ALLOCATED\<rparr>)))
     else Inr (paddr, corder, s))"
  by pat_completeness auto
termination
proof (relation "measure (\<lambda>(h, p, c, s). 16 - c)", simp, goal_cases)
  case (1 hhdm paddr corder s)
  then show ?case using GET_MAX_ORDER_less [of "pg_order (pfndb_get_entry s paddr)"] by auto
qed

declare coalesce.simps [simp del]

definition buddy_free :: "u64 \<Rightarrow> u64 \<Rightarrow> nat \<Rightarrow> buddy \<Rightarrow> buddy result" where
  "buddy_free hhdm paddr order s =
     ebind (coalesce hhdm paddr order s) (\<lambda>(paddr, corder, s).
       push_order corder (TO_HHDM hhdm paddr)
         (pfndb_set_entry s paddr (\<lambda>e. e\<lparr>pg_type := PFNDB_PAGE_FREE,
            pg_order := SET_CUR_ORDER (pg_order e) corder\<rparr>)))"

section \<open>Order bytes and frame addresses\<close>

lemma nibble_masks: "(0x0f :: u8) = mask 4" "(0xf0 :: u8) = push_bit 4 (mask 4)"
  by (simp_all add: mask_eq_exp_minus_1 push_bit_eq_mult)

lemma bit_le_nat: "bit (n :: nat) k \<Longrightarrow> 2 ^ k \<le> n"
  by (metis bit_iff_odd div_less even_zero not_le)

lemma small_bits_less:
  fixes val :: nat
  assumes "val < 16" "bit val k"
  shows "k < 4"
proof (rule ccontr)
  assume "\<not> k < 4"
  then have "(2::nat) ^ 4 \<le> 2 ^ k" by (intro power_increasing) auto
  with bit_le_nat [OF assms(2)] assms(1) show False by simp
qed

lemma small_bits: "val < 16 \<Longrightarrow> bit (word_of_nat val :: u8) k \<longleftrightarrow> bit val k"
  using small_bits_less [of val k] by (auto simp: bit_simps)

lemma order_byte [simp]:
  assumes "val < 16"
  shows "GET_MAX_ORDER (SET_MAX_ORDER ord val) = val"
    "GET_CUR_ORDER (SET_CUR_ORDER ord val) = val"
    "GET_MAX_ORDER (SET_CUR_ORDER ord val) = GET_MAX_ORDER ord"
proof -
  have v: "unat (word_of_nat val :: u8) = val" using assms by (simp add: unat_of_nat)
  have "drop_bit 4 (SET_MAX_ORDER ord val) AND 0xf = word_of_nat val"
    unfolding SET_MAX_ORDER_def nibble_masks
    by (auto simp: bit_eq_iff bit_simps small_bits [OF assms] dest: small_bits_less [OF assms])
  then show "GET_MAX_ORDER (SET_MAX_ORDER ord val) = val" by (simp add: GET_MAX_ORDER_def v)
  have "SET_CUR_ORDER ord val AND 0xf = word_of_nat val"
    unfolding SET_CUR_ORDER_def nibble_masks
    by (auto simp: bit_eq_iff bit_simps small_bits [OF assms] dest: small_bits_less [OF assms])
  then show "GET_CUR_ORDER (SET_CUR_ORDER ord val) = val" by (simp add: GET_CUR_ORDER_def v)
  have "drop_bit 4 (SET_CUR_ORDER ord val) AND 0xf = drop_bit 4 ord AND 0xf"
    unfolding SET_CUR_ORDER_def nibble_masks
    by (auto simp: bit_eq_iff bit_simps small_bits [OF assms] dest: small_bits_less [OF assms])
  then show "GET_MAX_ORDER (SET_CUR_ORDER ord val) = GET_MAX_ORDER ord" by (simp add: GET_MAX_ORDER_def)
qed

text \<open>Frame \<open>f\<close> starts at the physical address \<open>pa f\<close>.\<close>

definition pa :: "nat \<Rightarrow> u64" where
  "pa f = word_of_nat (f * 4096)"

lemma unat_pa: "f < 2 ^ 52 \<Longrightarrow> unat (pa f) = f * 4096"
  unfolding pa_def by (subst unat_of_nat) simp

lemma pa_inj: "f < 2 ^ 52 \<Longrightarrow> g < 2 ^ 52 \<Longrightarrow> pa f = pa g \<longleftrightarrow> f = g"
  by (metis mult_cancel2 unat_pa zero_neq_numeral)

lemma pa_pfn: "f < 2 ^ 52 \<Longrightarrow> drop_bit 12 (pa f) = word_of_nat f"
  by (rule word_eq_unatI) (simp add: drop_bit_eq_div unat_div unat_pa unat_of_nat)

lemma pa_add: "pa f + GET_ORDER_SIZE ord = pa (f + 2 ^ ord)"
  by (simp add: pa_def GET_ORDER_SIZE_def push_bit_eq_mult power_add algebra_simps)

lemma pfn_inj: "f < 2 ^ 52 \<Longrightarrow> g < 2 ^ 52 \<Longrightarrow> (word_of_nat f :: u64) = word_of_nat g \<longleftrightarrow> f = g"
  using word_unat_eq_iff [of "word_of_nat f :: u64" "word_of_nat g"] by (simp add: unat_of_nat)

definition buddy_of :: "nat \<Rightarrow> nat \<Rightarrow> nat" where
  "buddy_of f ord = (if bit f ord then f - 2 ^ ord else f + 2 ^ ord)"

lemma pa_xor:
  assumes "f < 2 ^ 52" "ord \<le> 14"
  shows "pa f XOR GET_ORDER_SIZE ord = pa (buddy_of f ord)"
proof -
  have b: "bit (pa f) (12 + ord) = bit f ord"
  proof -
    have "pa f = push_bit 12 (word_of_nat f)" by (simp add: pa_def push_bit_eq_mult mult.commute)
    then show ?thesis using assms(2) by (simp add: bit_simps)
  qed
  have s: "GET_ORDER_SIZE ord = 2 ^ (12 + ord)" by (simp add: GET_ORDER_SIZE_def push_bit_eq_mult)
  have "pa f - GET_ORDER_SIZE ord = pa (f - 2 ^ ord)" if "bit f ord"
    using pa_add [of "f - 2 ^ ord" ord] bit_le_nat [OF that] by (simp add: algebra_simps)
  then show ?thesis
    using b pa_add [of f ord] by (simp add: s xor_exp_eq buddy_of_def del: power_add)
qed

section \<open>Blocks\<close>

text \<open>A block is its first frame and its order. \<open>geo R B\<close>: the blocks \<open>B\<close> partition the memory of the
  blocks \<open>R\<close> that were handed to the allocator, and each lies in one of them.\<close>

type_synonym block = "nat \<times> nat"

fun fr :: "block \<Rightarrow> nat set" where
  "fr (f, ord) = {f ..< f + 2 ^ ord}"

fun blk_ok :: "block \<Rightarrow> bool" where
  "blk_ok (f, ord) \<longleftrightarrow> ord \<le> 14 \<and> 2 ^ ord dvd f \<and> f + 2 ^ ord \<le> 2 ^ 52"

definition sep :: "block set \<Rightarrow> bool" where
  "sep B \<longleftrightarrow> (\<forall>b\<in>B. \<forall>c\<in>B. b \<noteq> c \<longrightarrow> fr b \<inter> fr c = {})"

definition inside :: "block set \<Rightarrow> block \<Rightarrow> bool" where
  "inside R b \<longleftrightarrow> blk_ok b \<and> (\<exists>r\<in>R. fr b \<subseteq> fr r \<and> snd b \<le> snd r)"

definition geo :: "block set \<Rightarrow> block set \<Rightarrow> bool" where
  "geo R B \<longleftrightarrow> (\<forall>r\<in>R. blk_ok r) \<and> sep R \<and> (\<forall>b\<in>B. inside R b) \<and> sep B \<and> \<Union> (fr ` B) = \<Union> (fr ` R)"

lemma fst_in_fr [simp]: "fst b \<in> fr b"
  by (cases b) simp

lemma fr_nonempty [simp]: "fr b \<noteq> {}"
  using fst_in_fr by blast

lemma blk_ok_frame: "blk_ok (f, c) \<Longrightarrow> c \<le> 14 \<and> f < 2 ^ 52"
proof -
  assume a: "blk_ok (f, c)"
  have "(0::nat) < 2 ^ c" by simp
  moreover have "f + 2 ^ c \<le> 2 ^ 52" "c \<le> 14" using a by auto
  ultimately show ?thesis by linarith
qed

lemma sepD: "sep B \<Longrightarrow> b \<in> B \<Longrightarrow> c \<in> B \<Longrightarrow> x \<in> fr b \<Longrightarrow> x \<in> fr c \<Longrightarrow> b = c"
  unfolding sep_def by blast

lemma sep_insert: "sep B \<Longrightarrow> (\<And>x. x \<in> B \<Longrightarrow> fr b \<inter> fr x = {}) \<Longrightarrow> sep (insert b B)"
  unfolding sep_def by (metis Int_commute insert_iff)

lemma inside_mono: "inside R b \<Longrightarrow> R \<subseteq> Q \<Longrightarrow> inside Q b"
  unfolding inside_def by blast

lemma geo_replace:
  assumes g: "geo R (X \<union> B)" and X: "X \<inter> B = {}"
    and Y: "\<Union> (fr ` Y) = \<Union> (fr ` X)" "sep Y" "\<And>y. y \<in> Y \<Longrightarrow> inside R y"
  shows "geo R (Y \<union> B) \<and> Y \<inter> B = {}"
proof -
  have s: "sep (X \<union> B)" using g by (simp add: geo_def)
  have d: "fr y \<inter> fr b = {}" if "y \<in> Y" "b \<in> B" for y b
  proof (rule ccontr)
    assume "fr y \<inter> fr b \<noteq> {}"
    then obtain z where z: "z \<in> fr y" "z \<in> fr b" by auto
    then have "z \<in> \<Union> (fr ` Y)" using that(1) by auto
    then have "z \<in> \<Union> (fr ` X)" by (simp only: Y(1))
    then obtain x where "x \<in> X" "z \<in> fr x" by auto
    then show False using sepD [OF s, of x b z] z(2) that(2) X by auto
  qed
  have "sep (Y \<union> B)" using d Y(2) s unfolding sep_def by blast
  moreover have "\<Union> (fr ` (Y \<union> B)) = \<Union> (fr ` (X \<union> B))" using Y(1) by auto
  moreover have "Y \<inter> B = {}" using d fr_nonempty by fastforce
  ultimately show ?thesis using g Y(3) unfolding geo_def by auto
qed

lemma fr_halves: "fr (f, Suc c) = fr (f, c) \<union> fr (f + 2 ^ c, c)" "fr (f, c) \<inter> fr (f + 2 ^ c, c) = {}"
  by auto

lemma blk_ok_halves: "blk_ok (f, Suc c) \<Longrightarrow> blk_ok (f, c) \<and> blk_ok (f + 2 ^ c, c)"
  using power_le_dvd [of 2 "Suc c" f c] by (simp add: dvd_add)

lemma geo_split:
  assumes g: "geo R (insert (f, Suc c) B)" and n: "(f, Suc c) \<notin> B"
  shows "geo R (insert (f, c) (insert (f + 2 ^ c, c) B))" "(f, c) \<notin> B" "(f + 2 ^ c, c) \<notin> B"
proof -
  have i: "inside R (f, Suc c)" using g by (simp add: geo_def)
  have "geo R ({(f, c), (f + 2 ^ c, c)} \<union> B) \<and> {(f, c), (f + 2 ^ c, c)} \<inter> B = {}"
  proof (rule geo_replace [where X = "{(f, Suc c)}"])
    show "geo R ({(f, Suc c)} \<union> B)" "{(f, Suc c)} \<inter> B = {}" using g n by auto
    show "\<Union> (fr ` {(f, c), (f + 2 ^ c, c)}) = \<Union> (fr ` {(f, Suc c)})" by (simp add: fr_halves(1) del: fr.simps)
    show "sep {(f, c), (f + 2 ^ c, c)}" using fr_halves(2) [of f c] unfolding sep_def by (auto simp del: fr.simps)
    show "inside R y" if "y \<in> {(f, c), (f + 2 ^ c, c)}" for y
      using that i blk_ok_halves [of f c] fr_halves(1) [of f c]
      unfolding inside_def by (auto simp del: fr.simps blk_ok.simps)
  qed
  then show "geo R (insert (f, c) (insert (f + 2 ^ c, c) B))" "(f, c) \<notin> B" "(f + 2 ^ c, c) \<notin> B"
    by auto
qed

text \<open>The buddy of an aligned frame, and the block the two form.\<close>

lemma buddy_mult: "buddy_of (2 ^ c * k) c = 2 ^ c * (if even k then k + 1 else k - 1)"
  by (simp add: buddy_of_def bit_iff_odd algebra_simps)

lemma buddy_cases:
  assumes "2 ^ c dvd f"
  shows "(2 ^ Suc c dvd f \<and> buddy_of f c = f + 2 ^ c) \<or>
    (\<exists>g. f = g + 2 ^ c \<and> 2 ^ Suc c dvd g \<and> buddy_of f c = g)"
proof -
  obtain k where k: "f = 2 ^ c * k" using assms by (elim dvdE)
  show ?thesis
  proof (cases "even k")
    case True
    then obtain j where "k = 2 * j" by (elim evenE)
    then show ?thesis by (simp add: k buddy_mult)
  next
    case False
    then obtain j where j: "k = 2 * j + 1" by (elim oddE)
    have "buddy_of f c = 2 ^ c * (2 * j)" using buddy_mult [of c k] by (simp add: k j)
    moreover have "f = 2 ^ c * (2 * j) + 2 ^ c" by (simp add: k j)
    ultimately show ?thesis by (intro disjI2 exI [of _ "2 ^ c * (2 * j)"]) auto
  qed
qed

lemma buddy_low:
  assumes "2 ^ Suc c dvd f"
  shows "buddy_of f c = f + 2 ^ c" "buddy_of (f + 2 ^ c) c = f"
proof -
  obtain j where j: "f = 2 ^ c * (2 * j)" using assms by (auto elim: dvdE)
  show "buddy_of f c = f + 2 ^ c" using buddy_mult [of c "2 * j"] by (simp add: j)
  show "buddy_of (f + 2 ^ c) c = f" using buddy_mult [of c "2 * j + 1"] by (simp add: j algebra_simps)
qed

lemma buddy_pair:
  assumes "2 ^ c dvd f"
  shows "fr (min f (buddy_of f c), Suc c) = fr (f, c) \<union> fr (buddy_of f c, c)"
    "fr (f, c) \<inter> fr (buddy_of f c, c) = {}" "2 ^ Suc c dvd min f (buddy_of f c)"
    "2 ^ c dvd buddy_of f c" "buddy_of (buddy_of f c) c = f" "buddy_of f c \<noteq> f"
proof -
  obtain g where g: "2 ^ Suc c dvd g" "(f = g \<and> buddy_of f c = g + 2 ^ c) \<or> (f = g + 2 ^ c \<and> buddy_of f c = g)"
    using buddy_cases [OF assms] by auto
  then have m: "min f (buddy_of f c) = g" by auto
  show "fr (min f (buddy_of f c), Suc c) = fr (f, c) \<union> fr (buddy_of f c, c)" "fr (f, c) \<inter> fr (buddy_of f c, c) = {}"
    using g(2) fr_halves [of g c] m by (auto simp del: fr.simps)
  show "2 ^ Suc c dvd min f (buddy_of f c)" using g(1) m by simp
  have gc: "2 ^ c dvd g" using g(1) power_le_dvd [of 2 "Suc c" g c] by simp
  then show d: "2 ^ c dvd buddy_of f c" using g(2) by auto
  show "buddy_of f c \<noteq> f" using g(2) by auto
  obtain k where "f = 2 ^ c * k" using assms by (elim dvdE)
  then show "buddy_of (buddy_of f c) c = f"
    using buddy_mult [of c k] buddy_mult [of c "if even k then k + 1 else k - 1"] by (auto elim: oddE)
qed

lemma aligned_inside:
  fixes m f q :: nat
  assumes "2 ^ k dvd m" "m \<le> f" "f < m + 2 ^ k" "k \<le> n" "2 ^ n dvd q" "q \<le> f" "f < q + 2 ^ n"
  shows "q \<le> m \<and> m + 2 ^ k \<le> q + 2 ^ n"
proof -
  obtain a where a: "m = 2 ^ k * a" using assms(1) by (elim dvdE)
  obtain e where e: "(2::nat) ^ n = 2 ^ k * e" using assms(4) by (metis le_imp_power_dvd dvdE)
  obtain b where b: "q = 2 ^ k * b" using assms(4,5) by (metis power_le_dvd dvdE)
  have "2 ^ k * b < 2 ^ k * (a + 1)" using assms(3,6) by (simp add: a b)
  then have 1: "b \<le> a" by (simp only: mult_less_cancel1) simp
  have "2 ^ k * a < 2 ^ k * (b + e)" using assms(2,7) by (simp add: a b e algebra_simps)
  then have 2: "a + 1 \<le> b + e" by (simp only: mult_less_cancel1) simp
  have "2 ^ k * (a + 1) \<le> 2 ^ k * (b + e)" using 2 by (intro mult_le_mono2)
  with 1 show ?thesis by (simp add: a b e algebra_simps)
qed

lemma merged_inside:
  assumes "blk_ok (f, c)" "r \<in> R" "blk_ok r" "f \<in> fr r" "c < snd r"
  shows "inside R (min f (buddy_of f c), Suc c)" "fr (min f (buddy_of f c), Suc c) \<subseteq> fr r"
proof -
  obtain q n where r: "r = (q, n)" by (cases r)
  let ?m = "min f (buddy_of f c)"
  have p: "2 ^ Suc c dvd ?m" "fr (?m, Suc c) = fr (f, c) \<union> fr (buddy_of f c, c)"
    using buddy_pair [of c f] assms(1) by (simp_all del: fr.simps)
  have "f \<in> fr (?m, Suc c)" unfolding p(2) by simp
  then have "?m \<le> f" "f < ?m + 2 ^ Suc c" by simp_all
  then have q: "q \<le> ?m" "?m + 2 ^ Suc c \<le> q + 2 ^ n"
    using aligned_inside [OF p(1), of f n q] assms by (simp_all add: r del: power_Suc)
  then show s: "fr (?m, Suc c) \<subseteq> fr r" by (auto simp: r simp del: power_Suc)
  have "blk_ok (?m, Suc c)" using q p(1) assms by (simp add: r del: power_Suc)
  then show "inside R (?m, Suc c)" using s assms unfolding inside_def by (auto simp: r simp del: fr.simps blk_ok.simps)
qed

lemma geo_merge:
  assumes g: "geo R (insert (f, c) (insert (buddy_of f c, c) B))"
    and n: "(f, c) \<notin> B" "(buddy_of f c, c) \<notin> B" and r: "r \<in> R" "f \<in> fr r" "c < snd r"
  shows "geo R (insert (min f (buddy_of f c), Suc c) B)" "(min f (buddy_of f c), Suc c) \<notin> B"
proof -
  have ok: "blk_ok (f, c)" "blk_ok r" using g r(1) by (auto simp: geo_def inside_def)
  then have u: "fr (min f (buddy_of f c), Suc c) = fr (f, c) \<union> fr (buddy_of f c, c)"
    using buddy_pair(1) [of c f] by simp
  have "geo R ({(min f (buddy_of f c), Suc c)} \<union> B) \<and> {(min f (buddy_of f c), Suc c)} \<inter> B = {}"
  proof (rule geo_replace [where X = "{(f, c), (buddy_of f c, c)}"])
    show "geo R ({(f, c), (buddy_of f c, c)} \<union> B)" "{(f, c), (buddy_of f c, c)} \<inter> B = {}" using g n by auto
    show "\<Union> (fr ` {(min f (buddy_of f c), Suc c)}) = \<Union> (fr ` {(f, c), (buddy_of f c, c)})"
      using u by (simp del: fr.simps)
    show "sep {(min f (buddy_of f c), Suc c)}" by (simp add: sep_def)
    show "inside R y" if "y \<in> {(min f (buddy_of f c), Suc c)}" for y
      using that merged_inside(1) [OF ok(1) r(1) ok(2) r(2,3)] by simp
  qed
  then show "geo R (insert (min f (buddy_of f c), Suc c) B)" "(min f (buddy_of f c), Suc c) \<notin> B" by auto
qed

section \<open>The allocator invariant\<close>

text \<open>\<open>R\<close> are the blocks handed to the allocator, \<open>A\<close> the allocated blocks, \<open>L\<close> the frames on the free
  lists and \<open>E\<close> the frames whose entry is still marked free while their block is being taken. The
  free blocks and \<open>A\<close> partition the memory of \<open>R\<close>; the entry of a free block carries its order and the
  order of the block of \<open>R\<close> it came from; only first frames of free blocks are marked free; and
  free blocks are coalesced: the buddy of a free block is not free.\<close>

definition page_at :: "buddy \<Rightarrow> nat \<Rightarrow> page" where
  "page_at s f = pfndb s (word_of_nat f)"

abbreviation ptype :: "buddy \<Rightarrow> nat \<Rightarrow> pagetype" where
  "ptype s f \<equiv> pg_type (page_at s f)"

abbreviation pmax :: "buddy \<Rightarrow> nat \<Rightarrow> nat" where
  "pmax s f \<equiv> GET_MAX_ORDER (pg_order (page_at s f))"

abbreviation pcur :: "buddy \<Rightarrow> nat \<Rightarrow> nat" where
  "pcur s f \<equiv> GET_CUR_ORDER (pg_order (page_at s f))"

definition node_of :: "u64 \<Rightarrow> nat \<Rightarrow> addr" where
  "node_of hhdm f = TO_HHDM hhdm (pa f)"

definition free_blocks :: "(nat \<Rightarrow> nat list) \<Rightarrow> block set" where
  "free_blocks L = {(f, ord). ord \<le> MAX_ORDER \<and> f \<in> set (L ord)}"

definition lists_ok :: "u64 \<Rightarrow> (nat \<Rightarrow> nat list) \<Rightarrow> buddy \<Rightarrow> bool" where
  "lists_ok hhdm L s \<longleftrightarrow> (\<forall>ord\<le>MAX_ORDER. orders s ord = map (node_of hhdm) (L ord) \<and> distinct (L ord))"

definition meta_ok :: "block set \<Rightarrow> block set \<Rightarrow> block set \<Rightarrow> nat set \<Rightarrow> buddy \<Rightarrow> bool" where
  "meta_ok R F A E s \<longleftrightarrow>
    (\<forall>f ord. (f, ord) \<in> F \<longrightarrow> ptype s f = PFNDB_PAGE_FREE \<and> pcur s f = ord) \<and>
    (\<forall>f ord r. (f, ord) \<in> F \<union> A \<longrightarrow> r \<in> R \<longrightarrow> f \<in> fr r \<longrightarrow> pmax s f = snd r) \<and>
    (\<forall>f. f < 2 ^ 52 \<longrightarrow> f \<notin> E \<longrightarrow> ptype s f = PFNDB_PAGE_FREE \<longrightarrow> (\<exists>ord. (f, ord) \<in> F))"

lemma meta_okD:
  assumes "meta_ok R F A E s"
  shows "(f, ord) \<in> F \<Longrightarrow> ptype s f = PFNDB_PAGE_FREE" "(f, ord) \<in> F \<Longrightarrow> pcur s f = ord"
    "(f, ord) \<in> F \<union> A \<Longrightarrow> r \<in> R \<Longrightarrow> f \<in> fr r \<Longrightarrow> pmax s f = snd r"
    "f < 2 ^ 52 \<Longrightarrow> f \<notin> E \<Longrightarrow> ptype s f = PFNDB_PAGE_FREE \<Longrightarrow> \<exists>ord. (f, ord) \<in> F"
  using assms unfolding meta_ok_def by blast+

lemma meta_okI:
  assumes "\<And>f ord. (f, ord) \<in> F \<Longrightarrow> ptype s f = PFNDB_PAGE_FREE \<and> pcur s f = ord"
    "\<And>f ord r. (f, ord) \<in> F \<union> A \<Longrightarrow> r \<in> R \<Longrightarrow> f \<in> fr r \<Longrightarrow> pmax s f = snd r"
    "\<And>f. f < 2 ^ 52 \<Longrightarrow> f \<notin> E \<Longrightarrow> ptype s f = PFNDB_PAGE_FREE \<Longrightarrow> \<exists>ord. (f, ord) \<in> F"
  shows "meta_ok R F A E s"
  using assms unfolding meta_ok_def by blast

definition coalesced :: "block set \<Rightarrow> block set \<Rightarrow> bool" where
  "coalesced R F \<longleftrightarrow> (\<forall>f ord r. (f, ord) \<in> F \<longrightarrow> r \<in> R \<longrightarrow> f \<in> fr r \<longrightarrow> ord < snd r \<longrightarrow> (buddy_of f ord, ord) \<notin> F)"

definition binv ::
  "u64 \<Rightarrow> block set \<Rightarrow> block set \<Rightarrow> nat set \<Rightarrow> (nat \<Rightarrow> nat list) \<Rightarrow> buddy \<Rightarrow> bool" where
  "binv hhdm R A E L s \<longleftrightarrow> lists_ok hhdm L s \<and> geo R (free_blocks L \<union> A) \<and> free_blocks L \<inter> A = {} \<and>
    meta_ok R (free_blocks L) A E s \<and> coalesced R (free_blocks L)"

lemma entry_pa [simp]: "f < 2 ^ 52 \<Longrightarrow> pfndb_get_entry s (pa f) = page_at s f"
  by (simp add: pfndb_get_entry_def pa_pfn page_at_def)

lemma set_entry_pa: "f < 2 ^ 52 \<Longrightarrow> g < 2 ^ 52 \<Longrightarrow>
   page_at (pfndb_set_entry s (pa f) h) g = (if g = f then h (page_at s f) else page_at s g)"
  by (simp add: pfndb_set_entry_def pa_pfn page_at_def pfn_inj Let_def)

lemma set_entry_orders [simp]: "orders (pfndb_set_entry s p h) = orders s"
  by (simp add: pfndb_set_entry_def Let_def)

lemma page_at_orders [simp]: "page_at (s\<lparr>orders := x\<rparr>) = page_at s"
  by (rule ext) (simp add: page_at_def)

lemma node_of_inj: "f < 2 ^ 52 \<Longrightarrow> g < 2 ^ 52 \<Longrightarrow> node_of h f = node_of h g \<longleftrightarrow> f = g"
  by (simp add: node_of_def pa_inj)

lemma from_node [simp]: "FROM_HHDM h (node_of h f) = pa f"
  by (simp add: node_of_def)

lemma geo_frame:
  assumes "geo R B" "(f, c) \<in> B"
  shows "f + 2 ^ c \<le> 2 ^ 52" "c \<le> 14" "2 ^ c dvd f" "f < 2 ^ 52"
proof -
  show *: "f + 2 ^ c \<le> 2 ^ 52" "c \<le> 14" "2 ^ c dvd f" using assms by (auto simp: geo_def inside_def)
  have "(0::nat) < 2 ^ c" by simp
  with *(1) show "f < 2 ^ 52" by linarith
qed

lemma geo_blk_ok: "geo R B \<Longrightarrow> b \<in> B \<Longrightarrow> blk_ok b" and geo_root_ok: "geo R B \<Longrightarrow> r \<in> R \<Longrightarrow> blk_ok r"
  by (auto simp: geo_def inside_def)

lemma geo_root: "geo R B \<Longrightarrow> b \<in> B \<Longrightarrow> \<exists>r\<in>R. blk_ok r \<and> fr b \<subseteq> fr r \<and> snd b \<le> snd r"
  by (auto simp: geo_def inside_def)

lemma binvD:
  assumes "binv h R A E L s"
  shows "lists_ok h L s" "geo R (free_blocks L \<union> A)" "free_blocks L \<inter> A = {}"
    "meta_ok R (free_blocks L) A E s" "coalesced R (free_blocks L)" "sep R" "sep (free_blocks L \<union> A)"
  using assms by (auto simp: binv_def geo_def)

lemma head_unique: "binv h R A E L s \<Longrightarrow> (f, c) \<in> A \<Longrightarrow> (f, ord) \<notin> free_blocks L"
  using sepD [of "free_blocks L \<union> A" "(f, c)" "(f, ord)" f] binvD(3,7) [of h R A E L s] by auto

lemma free_blocks_upd: "ord \<le> 14 \<Longrightarrow>
   free_blocks (L(ord := xs)) = {(f, c). c \<noteq> ord \<and> (f, c) \<in> free_blocks L} \<union> (\<lambda>f. (f, ord)) ` set xs"
  by (auto simp: free_blocks_def split: if_splits)

lemma free_blocks_push: "ord \<le> 14 \<Longrightarrow> free_blocks (L(ord := f # L ord)) = insert (f, ord) (free_blocks L)"
  by (auto simp: free_blocks_def split: if_splits)

lemma free_blocks_remove:
  "ord \<le> 14 \<Longrightarrow> distinct (L ord) \<Longrightarrow> free_blocks (L(ord := remove1 f (L ord))) = free_blocks L - {(f, ord)}"
  by (auto simp: free_blocks_def split: if_splits)

lemma pop_order_rep:
  assumes b: "binv h R A E L s" and L: "L ord = f # fs" "ord \<le> 14"
  shows "\<exists>s'. pop_order ord s = Inr (Some (node_of h f), s') \<and> page_at s' = page_at s \<and>
    binv h R (insert (f, ord) A) (insert f E) (L(ord := fs)) s' \<and> (f, ord) \<notin> A \<and>
    ptype s f = PFNDB_PAGE_FREE \<and> f < 2 ^ 52"
proof -
  note d = binvD [OF b]
  have o: "orders s ord = node_of h f # map (node_of h) fs" "distinct (f # fs)" using d(1) L by (auto simp: lists_ok_def)
  have F: "free_blocks (L(ord := fs)) = free_blocks L - {(f, ord)}"
    using free_blocks_remove [of ord L f] L o(2) by simp
  have fF: "(f, ord) \<in> free_blocks L" using L by (simp add: free_blocks_def)
  let ?s = "s\<lparr>orders := (orders s)(ord := map (node_of h) fs)\<rparr>"
  have "binv h R (insert (f, ord) A) (insert f E) (L(ord := fs)) ?s"
    unfolding binv_def F
  proof (intro conjI)
    show "lists_ok h (L(ord := fs)) ?s" using d(1) o(2) by (auto simp: lists_ok_def)
    have "free_blocks L - {(f, ord)} \<union> insert (f, ord) A = free_blocks L \<union> A" using fF by auto
    then show "geo R (free_blocks L - {(f, ord)} \<union> insert (f, ord) A)" using d(2) by simp
    show "(free_blocks L - {(f, ord)}) \<inter> insert (f, ord) A = {}" using d(3) by auto
    show "meta_ok R (free_blocks L - {(f, ord)}) (insert (f, ord) A) (insert f E) ?s"
      using d(4) fF unfolding meta_ok_def by (auto split: prod.splits)
    show "coalesced R (free_blocks L - {(f, ord)})" using d(5) by (auto simp: coalesced_def)
  qed
  moreover have "ptype s f = PFNDB_PAGE_FREE" "f < 2 ^ 52" "(f, ord) \<notin> A"
    using d(3,4) fF geo_frame(4) [OF d(2)] unfolding meta_ok_def by auto
  ultimately show ?thesis using o L by (auto simp: pop_order_def)
qed

lemma pop_order_empty: "binv h R A E L s \<Longrightarrow> L ord = [] \<Longrightarrow> ord \<le> 14 \<Longrightarrow> pop_order ord s = Inr (None, s)"
  by (auto simp: binv_def lists_ok_def pop_order_def)

lemma push_lists_ok:
  assumes "lists_ok h L s" "ord \<le> 14" "f \<notin> set (L ord)"
  shows "\<exists>s'. push_order ord (node_of h f) s = Inr s' \<and> page_at s' = page_at s \<and> lists_ok h (L(ord := f # L ord)) s'"
  using assms by (auto simp: push_order_def lists_ok_def)

lemma set_entry_lists [simp]: "lists_ok h L (pfndb_set_entry s p g) = lists_ok h L s"
  by (simp add: lists_ok_def)

text \<open>One round of the splitting loop.\<close>

lemma split_step:
  assumes b: "binv h R (insert (f, Suc c) A) E L s" and n: "(f, Suc c) \<notin> A" and E: "f \<in> E"
  defines "s1 \<equiv> pfndb_set_entry s (pa (f + 2 ^ c)) (\<lambda>e. e\<lparr>pg_type := PFNDB_PAGE_FREE,
      pg_order := SET_CUR_ORDER (SET_MAX_ORDER (pg_order e) (pmax s f)) c\<rparr>)"
  shows "\<exists>s2. push_order c (node_of h (f + 2 ^ c)) s1 = Inr s2 \<and> page_at s2 f = page_at s f \<and>
    binv h R (insert (f, c) A) E (L(c := (f + 2 ^ c) # L c)) s2 \<and> (f, c) \<notin> A"
proof -
  note d = binvD [OF b]
  let ?F = "free_blocks L" and ?u = "f + 2 ^ c"
  have g: "geo R (insert (f, Suc c) (?F \<union> A))" using d(2) by simp
  have nB: "(f, Suc c) \<notin> ?F \<union> A" using n d(3) by auto
  note sp = geo_split [OF g nB]
  have ok: "Suc c \<le> 14" "2 ^ Suc c dvd f" "f + 2 ^ Suc c \<le> 2 ^ 52" using geo_frame [OF g, of f "Suc c"] by auto
  have "(0::nat) < 2 ^ c" by simp
  with ok(1,3) have uu: "?u < 2 ^ 52" "f < 2 ^ 52" "c \<le> 14" unfolding power_Suc by linarith+
  have F': "free_blocks (L(c := ?u # L c)) = insert (?u, c) ?F" using uu(3) by (rule free_blocks_push)
  obtain r where r: "r \<in> R" "fr (f, Suc c) \<subseteq> fr r" using geo_root [OF g, of "(f, Suc c)"] by auto
  have fu: "f \<in> fr (f, Suc c)" "?u \<in> fr (f, Suc c)" by auto
  have mx: "pmax s f = snd r" using d(4) r fu(1) unfolding meta_ok_def by blast
  have "blk_ok r" using g r by (auto simp: geo_def)
  then have "snd r < 16" by (cases r) auto
  have uniq: "q = r" if "q \<in> R" "?u \<in> fr q" for q using sepD [OF d(6)] that r fu(2) by blast
  have pg: "page_at s1 x = (if x = ?u then (page_at s ?u)\<lparr>pg_type := PFNDB_PAGE_FREE,
      pg_order := SET_CUR_ORDER (SET_MAX_ORDER (pg_order (page_at s ?u)) (snd r)) c\<rparr> else page_at s x)"
    if "x < 2 ^ 52" for x using that uu by (simp add: s1_def set_entry_pa mx)
  have nl: "?u \<notin> set (L c)" using sp(3) uu by (auto simp: free_blocks_def)
  obtain s2 where s2: "push_order c (node_of h ?u) s1 = Inr s2" "page_at s2 = page_at s1"
    "lists_ok h (L(c := ?u # L c)) s2"
    using push_lists_ok [of h L s1 c ?u] d(1) uu nl by (auto simp: s1_def)
  have "binv h R (insert (f, c) A) E (L(c := ?u # L c)) s2"
    unfolding binv_def F'
  proof (intro conjI)
    have eq: "insert (?u, c) ?F \<union> insert (f, c) A = insert (f, c) (insert (?u, c) (?F \<union> A))" by auto
    show g2: "geo R (insert (?u, c) ?F \<union> insert (f, c) A)" unfolding eq by (rule sp(1))
    show "insert (?u, c) ?F \<inter> insert (f, c) A = {}" using sp(2,3) d(3) by auto
    have bb: "x < 2 ^ 52 \<and> x \<noteq> ?u" if "(x, k) \<in> ?F \<union> A" for x k
    proof -
      have "x < 2 ^ 52" using geo_frame(4) [OF d(2), of x k] that by auto
      moreover have "x \<noteq> ?u"
        using sepD [OF d(7), of "(x, k)" "(f, Suc c)" x] fu(2) that nB by auto
      ultimately show ?thesis by simp
    qed
    show "meta_ok R (insert (?u, c) ?F) (insert (f, c) A) E s2"
    proof (rule meta_okI, unfold s2(2))
      fix x k assume "(x, k) \<in> insert (?u, c) ?F"
      then show "ptype s1 x = PFNDB_PAGE_FREE \<and> pcur s1 x = k"
        using bb [of x k] pg [of x] meta_okD(1,2) [OF d(4), of x k] uu by auto
    next
      fix x k q assume "(x, k) \<in> insert (?u, c) ?F \<union> insert (f, c) A" "q \<in> R" "x \<in> fr q"
      then show "pmax s1 x = snd q"
        using bb [of x k] pg [of x] meta_okD(3) [OF d(4), of x k q] meta_okD(3) [OF d(4), of f "Suc c" q]
          uu uniq [of q] \<open>snd r < 16\<close> by auto
    next
      fix x assume "x < 2 ^ 52" "x \<notin> E" "ptype s1 x = PFNDB_PAGE_FREE"
      then show "\<exists>ord. (x, ord) \<in> insert (?u, c) ?F"
        using pg [of x] meta_okD(4) [OF d(4), of x] by (cases "x = ?u") auto
    qed
    show "coalesced R (insert (?u, c) ?F)"
      unfolding coalesced_def
    proof (intro allI impI)
      fix x k q
      assume *: "(x, k) \<in> insert (?u, c) ?F" "q \<in> R" "x \<in> fr q" "k < snd q"
      note bu = buddy_low [OF ok(2)]
      have "(buddy_of x k, k) \<noteq> (?u, c)" if "(x, k) \<in> ?F"
      proof
        assume eq: "(buddy_of x k, k) = (?u, c)"
        then have "buddy_of (buddy_of x c) c = x" using geo_frame(3) [OF d(2), of x k] that buddy_pair(5) by auto
        with eq bu(2) that sp(2) show False by auto
      qed
      moreover have "(buddy_of x k, k) \<notin> ?F" if "(x, k) \<in> ?F"
        using d(5) * that unfolding coalesced_def by blast
      ultimately show "(buddy_of x k, k) \<notin> insert (?u, c) ?F" using * bu(2) sp(2) by auto
    qed
  qed (use s2 in auto)
  then show ?thesis using s2 pg uu(2) sp(2) by auto
qed

text \<open>Taking the held block: the entry of its first frame is marked allocated.\<close>

lemma root_frame: "geo R B \<Longrightarrow> q \<in> R \<Longrightarrow> x \<in> fr q \<Longrightarrow> x < 2 ^ 52"
  by (cases q) (fastforce simp: geo_def)

lemma take_block:
  assumes b: "binv h R A E L s" and f: "(f, c) \<in> A"
    and g: "\<And>e. pg_type (g e) = PFNDB_PAGE_ALLOCATED \<and> GET_MAX_ORDER (pg_order (g e)) = GET_MAX_ORDER (pg_order e)"
  shows "binv h R A (E - {f}) L (pfndb_set_entry s (pa f) g)"
proof -
  note d = binvD [OF b]
  let ?F = "free_blocks L" and ?s = "pfndb_set_entry s (pa f) g"
  have fl: "f < 2 ^ 52" using geo_frame(4) [OF d(2), of f c] f by auto
  have pg: "page_at ?s x = (if x = f then g (page_at s f) else page_at s x)" if "x < 2 ^ 52" for x
    using that fl by (simp add: set_entry_pa)
  have bl: "x < 2 ^ 52" if "(x, k) \<in> ?F \<union> A" for x k using geo_frame(4) [OF d(2)] that by auto
  have "meta_ok R ?F A (E - {f}) ?s"
  proof (rule meta_okI)
    fix x k assume x: "(x, k) \<in> ?F"
    then have "x \<noteq> f" using head_unique [OF b f] by auto
    then show "ptype ?s x = PFNDB_PAGE_FREE \<and> pcur ?s x = k"
      using x pg [of x] bl [of x k] meta_okD(1,2) [OF d(4) x] by auto
  next
    fix x k q assume "(x, k) \<in> ?F \<union> A" "q \<in> R" "x \<in> fr q"
    then show "pmax ?s x = snd q" using pg [of x] bl [of x k] g meta_okD(3) [OF d(4), of x k q] by auto
  next
    fix x assume "x < 2 ^ 52" "x \<notin> E - {f}" "ptype ?s x = PFNDB_PAGE_FREE"
    then show "\<exists>ord. (x, ord) \<in> ?F"
      using pg [of x] g meta_okD(4) [OF d(4), of x] by (auto split: if_splits)
  qed
  then show ?thesis using d by (simp add: binv_def)
qed

lemma remove1_map_inj: "inj_on g (insert x (set xs)) \<Longrightarrow> remove1 (g x) (map g xs) = map g (remove1 x xs)"
  by (induction xs) (auto simp: inj_on_def)

text \<open>One round of the coalescing loop.\<close>

lemma merge_step:
  assumes b: "binv h R (insert (f, c) A) {} L s" and n: "(f, c) \<notin> A"
    and r: "c < pmax s f" and bu: "(buddy_of f c, c) \<in> free_blocks L"
  shows "\<exists>s1. delete_order c (node_of h (buddy_of f c)) s = Inr s1 \<and> page_at s1 = page_at s \<and>
    binv h R (insert (min f (buddy_of f c), Suc c) A) {} (L(c := remove1 (buddy_of f c) (L c)))
      (pfndb_set_entry s1 (pa (buddy_of f c)) (\<lambda>e. e\<lparr>pg_type := PFNDB_PAGE_ALLOCATED\<rparr>)) \<and>
    (min f (buddy_of f c), Suc c) \<notin> A"
proof -
  note d = binvD [OF b]
  let ?F = "free_blocks L" and ?u = "buddy_of f c" and ?m = "min f (buddy_of f c)"
  have fc: "c \<le> 14" "2 ^ c dvd f" "f < 2 ^ 52" using geo_frame [OF d(2), of f c] by auto
  have ul: "?u < 2 ^ 52" using geo_frame(4) [OF d(2), of ?u c] bu by auto
  obtain q where q: "q \<in> R" "blk_ok q" "fr (f, c) \<subseteq> fr q" using geo_root [OF d(2), of "(f, c)"] by auto
  have fq: "f \<in> fr q" using q(3) by auto
  have cq: "c < snd q" using meta_okD(3) [OF d(4), of f c q] q(1) fq r by auto
  have fF: "(f, c) \<notin> ?F" using d(3) by auto
  have eq: "insert (f, c) (insert (?u, c) ((?F - {(?u, c)}) \<union> A)) = ?F \<union> insert (f, c) A" using bu by auto
  have g: "geo R (insert (f, c) (insert (?u, c) ((?F - {(?u, c)}) \<union> A)))" using d(2) eq by simp
  have uA: "(?u, c) \<notin> A" using d(3) bu by auto
  note m = geo_merge [OF g _ _ q(1) fq cq]
  have m: "geo R (insert (?m, Suc c) ((?F - {(?u, c)}) \<union> A))" "(?m, Suc c) \<notin> (?F - {(?u, c)}) \<union> A"
    using m n uA fF by auto
  have lst: "orders s c = map (node_of h) (L c)" "distinct (L c)" "?u \<in> set (L c)"
    using d(1) fc(1) bu by (auto simp: lists_ok_def free_blocks_def)
  have inj: "inj_on (node_of h) (set (L c))"
  proof (rule inj_onI)
    fix x y assume "x \<in> set (L c)" "y \<in> set (L c)" "node_of h x = node_of h y"
    moreover have "z < 2 ^ 52" if "z \<in> set (L c)" for z
      using geo_frame(4) [OF d(2), of z c] that fc(1) by (auto simp: free_blocks_def)
    ultimately show "x = y" using node_of_inj by blast
  qed
  define s1 where "s1 = s\<lparr>orders := (orders s)(c := remove1 (node_of h ?u) (orders s c))\<rparr>"
  have rm: "remove1 (node_of h ?u) (map (node_of h) (L c)) = map (node_of h) (remove1 ?u (L c))"
    using remove1_map_inj [of "node_of h" ?u "L c"] inj lst(3) by (simp add: insert_absorb)
  have del: "delete_order c (node_of h ?u) s = Inr s1" using fc(1) lst by (simp add: delete_order_def s1_def)
  have ls: "lists_ok h (L(c := remove1 ?u (L c))) s1" using d(1) lst rm by (auto simp: lists_ok_def s1_def)
  have pg1: "page_at s1 = page_at s" by (simp add: s1_def)
  let ?s = "pfndb_set_entry s1 (pa ?u) (\<lambda>e. e\<lparr>pg_type := PFNDB_PAGE_ALLOCATED\<rparr>)"
  have pg: "page_at ?s x = (if x = ?u then (page_at s ?u)\<lparr>pg_type := PFNDB_PAGE_ALLOCATED\<rparr> else page_at s x)"
    if "x < 2 ^ 52" for x using that ul by (simp add: set_entry_pa pg1)
  have bl: "x < 2 ^ 52" if "(x, k) \<in> ?F \<union> insert (f, c) A" for x k using geo_frame(4) [OF d(2)] that by blast
  have ml: "?m = f \<or> ?m = ?u" by (auto simp: min_def)
  have uh: "k = c" if "(?u, k) \<in> ?F" for k using sepD [OF d(7), of "(?u, k)" "(?u, c)" ?u] that bu by auto
  have F': "free_blocks (L(c := remove1 ?u (L c))) = ?F - {(?u, c)}" using fc(1) lst(2) by (rule free_blocks_remove)
  have "binv h R (insert (?m, Suc c) A) {} (L(c := remove1 ?u (L c))) ?s"
    unfolding binv_def F'
  proof (intro conjI)
    show "geo R (?F - {(?u, c)} \<union> insert (?m, Suc c) A)" using m(1) by simp
    show "(?F - {(?u, c)}) \<inter> insert (?m, Suc c) A = {}" using m(2) d(3) by auto
    show "coalesced R (?F - {(?u, c)})" using d(5) unfolding coalesced_def by blast
    show "meta_ok R (?F - {(?u, c)}) (insert (?m, Suc c) A) {} ?s"
    proof (rule meta_okI)
      fix x k assume x: "(x, k) \<in> ?F - {(?u, c)}"
      then have "x \<noteq> ?u" using uh by auto
      then show "ptype ?s x = PFNDB_PAGE_FREE \<and> pcur ?s x = k"
        using x pg [of x] bl [of x k] meta_okD(1,2) [OF d(4), of x k] by auto
    next
      fix x k p assume x: "(x, k) \<in> ?F - {(?u, c)} \<union> insert (?m, Suc c) A" "p \<in> R" "x \<in> fr p"
      then have "x = f \<or> x = ?u \<or> (x, k) \<in> ?F \<union> A" using ml by auto
      then obtain j where "(x, j) \<in> ?F \<union> insert (f, c) A" using bu by blast
      then show "pmax ?s x = snd p"
        using x pg [of x] bl [of x j] meta_okD(3) [OF d(4), of x j p] by auto
    next
      fix x assume "x < 2 ^ 52" "x \<notin> {}" "ptype ?s x = PFNDB_PAGE_FREE"
      then show "\<exists>ord. (x, ord) \<in> ?F - {(?u, c)}"
        using pg [of x] meta_okD(4) [OF d(4), of x] by (auto split: if_splits)
    qed
  qed (use ls in simp)
  then show ?thesis using del pg1 m(2) by auto
qed

text \<open>Putting the held block on its free list.\<close>

lemma release_block:
  assumes b: "binv h R (insert (f, c) A) {} L s" and n: "(f, c) \<notin> A"
    and c: "\<And>r. r \<in> R \<Longrightarrow> f \<in> fr r \<Longrightarrow> c < snd r \<Longrightarrow> (buddy_of f c, c) \<notin> free_blocks L"
  defines "s1 \<equiv> pfndb_set_entry s (pa f) (\<lambda>e. e\<lparr>pg_type := PFNDB_PAGE_FREE, pg_order := SET_CUR_ORDER (pg_order e) c\<rparr>)"
  shows "\<exists>s2. push_order c (node_of h f) s1 = Inr s2 \<and> binv h R A {} (L(c := f # L c)) s2"
proof -
  note d = binvD [OF b]
  let ?F = "free_blocks L"
  have fc: "c \<le> 14" "2 ^ c dvd f" "f < 2 ^ 52" using geo_frame [OF d(2), of f c] by auto
  have fF: "(f, k) \<notin> ?F" for k using head_unique [OF b] by auto
  have F': "free_blocks (L(c := f # L c)) = insert (f, c) ?F" using fc(1) by (rule free_blocks_push)
  have nl: "f \<notin> set (L c)" using fF fc(1) by (auto simp: free_blocks_def)
  have pg: "page_at s1 x = (if x = f then (page_at s f)\<lparr>pg_type := PFNDB_PAGE_FREE,
      pg_order := SET_CUR_ORDER (pg_order (page_at s f)) c\<rparr> else page_at s x)" if "x < 2 ^ 52" for x
    using that fc by (simp add: s1_def set_entry_pa)
  obtain s2 where s2: "push_order c (node_of h f) s1 = Inr s2" "page_at s2 = page_at s1"
    "lists_ok h (L(c := f # L c)) s2"
    using push_lists_ok [of h L s1 c f] d(1) fc(1) nl by (auto simp: s1_def)
  have bl: "x < 2 ^ 52" if "(x, k) \<in> ?F \<union> insert (f, c) A" for x k using geo_frame(4) [OF d(2)] that by blast
  have "binv h R A {} (L(c := f # L c)) s2"
    unfolding binv_def F'
  proof (intro conjI)
    show "geo R (insert (f, c) ?F \<union> A)" using d(2) by simp
    show "insert (f, c) ?F \<inter> A = {}" using n d(3) by auto
    show "meta_ok R (insert (f, c) ?F) A {} s2"
    proof (rule meta_okI, unfold s2(2))
      fix x k assume "(x, k) \<in> insert (f, c) ?F"
      then show "ptype s1 x = PFNDB_PAGE_FREE \<and> pcur s1 x = k"
        using pg [of x] bl [of x k] fF meta_okD(1,2) [OF d(4), of x k] fc by auto
    next
      fix x k p assume x: "(x, k) \<in> insert (f, c) ?F \<union> A" "p \<in> R" "x \<in> fr p"
      then have "pmax s x = snd p" using meta_okD(3) [OF d(4), of x k p] by auto
      then show "pmax s1 x = snd p" using pg [of x] bl [of x k] x fc(1) by auto
    next
      fix x assume "x < 2 ^ 52" "x \<notin> {}" "ptype s1 x = PFNDB_PAGE_FREE"
      then show "\<exists>ord. (x, ord) \<in> insert (f, c) ?F"
        using pg [of x] meta_okD(4) [OF d(4), of x] by (cases "x = f") auto
    qed
    show "coalesced R (insert (f, c) ?F)"
      unfolding coalesced_def
    proof (intro allI impI)
      fix x k q
      assume *: "(x, k) \<in> insert (f, c) ?F" "q \<in> R" "x \<in> fr q" "k < snd q"
      show "(buddy_of x k, k) \<notin> insert (f, c) ?F"
      proof (cases "(x, k) = (f, c)")
        case True
        then show ?thesis using c * buddy_pair(6) [OF fc(2)] by auto
      next
        case False
        then have x: "(x, k) \<in> ?F" using * by auto
        have "(buddy_of x k, k) \<noteq> (f, c)"
        proof
          assume eq: "(buddy_of x k, k) = (f, c)"
          have kx: "2 ^ k dvd x" using geo_frame(3) [OF d(2), of x k] x by auto
          have xb: "x = buddy_of f c" using buddy_pair(5) [OF kx] eq by auto
          have "blk_ok (x, k)" "blk_ok q" using geo_blk_ok [OF d(2)] geo_root_ok [OF d(2)] x *(2) by blast+
          then have "fr (min x (buddy_of x k), Suc k) \<subseteq> fr q" using merged_inside(2) * by blast
          moreover have "f \<in> fr (min x (buddy_of x k), Suc k)"
            unfolding buddy_pair(1) [OF kx] using eq by auto
          ultimately have "f \<in> fr q" by blast
          then show False using c * eq x xb by auto
        qed
        moreover have "(buddy_of x k, k) \<notin> ?F" using d(5) * x unfolding coalesced_def by blast
        ultimately show ?thesis by auto
      qed
    qed
  qed (use s2 in auto)
  then show ?thesis using s2 by auto
qed

section \<open>Allocation and release\<close>

lemma pa_less: "f < 2 ^ 52 \<Longrightarrow> g < 2 ^ 52 \<Longrightarrow> pa f < pa g \<longleftrightarrow> f < g"
  by (simp add: word_less_nat_alt unat_pa)

lemma coalesce_rep:
  "binv h R (insert (f, c) A) {} L s \<Longrightarrow> (f, c) \<notin> A \<Longrightarrow>
   \<exists>f' c' s' L'. coalesce h (pa f) c s = Inr (pa f', c', s') \<and> binv h R (insert (f', c') A) {} L' s' \<and>
     (f', c') \<notin> A \<and> f' < 2 ^ 52 \<and>
     (\<forall>r\<in>R. f' \<in> fr r \<longrightarrow> c' < snd r \<longrightarrow> (buddy_of f' c', c') \<notin> free_blocks L')"
proof (induction "16 - c" arbitrary: f c L s rule: less_induct)
  case less
  note b = less.prems(1)
  note d = binvD [OF b]
  let ?u = "buddy_of f c"
  have fc: "c \<le> 14" "2 ^ c dvd f" "f < 2 ^ 52" using geo_frame [OF d(2), of f c] by auto
  obtain q where q: "q \<in> R" "blk_ok q" "fr (f, c) \<subseteq> fr q" using geo_root [OF d(2), of "(f, c)"] by auto
  have fq: "f \<in> fr q" using q(3) by auto
  have mx: "pmax s f = snd q" using meta_okD(3) [OF d(4), of f c q] q(1) fq by auto
  have uniq: "r = q" if "r \<in> R" "f \<in> fr r" for r using sepD [OF d(6)] that q(1) fq by blast
  show ?case
  proof (cases "c < snd q")
    case False
    then show ?thesis
      using b less.prems(2) fc mx uniq by (subst coalesce.simps) (auto intro!: exI [of _ f] exI [of _ L])
  next
    case True
    have uq: "?u \<in> fr q"
      using merged_inside(2) [of f c q R] geo_blk_ok [OF d(2), of "(f, c)"] q fq True
        buddy_pair(1) [OF fc(2)] fst_in_fr [of "(?u, c)"] by auto
    then have ul: "?u < 2 ^ 52" using root_frame [OF d(2) q(1)] by simp
    have x: "pa f XOR GET_ORDER_SIZE c = pa ?u" using pa_xor fc by blast
    show ?thesis
    proof (cases "ptype s ?u = PFNDB_PAGE_FREE \<and> pcur s ?u = c")
      case False
      have "(?u, c) \<notin> free_blocks L" using False meta_okD(1,2) [OF d(4), of ?u c] by auto
      moreover have "coalesce h (pa f) c s = Inr (pa f, c, s)"
        using False fc ul x by (subst coalesce.simps) (auto simp: Let_def)
      ultimately show ?thesis using b less.prems(2) fc uniq by (auto intro!: exI [of _ f] exI [of _ L])
    next
      case free: True
      then obtain k where "(?u, k) \<in> free_blocks L" using meta_okD(4) [OF d(4) ul] by auto
      then have bu: "(?u, c) \<in> free_blocks L" using meta_okD(2) [OF d(4)] free by auto
      obtain s1 where s1: "delete_order c (node_of h ?u) s = Inr s1"
        "binv h R (insert (min f ?u, Suc c) A) {} (L(c := remove1 ?u (L c)))
          (pfndb_set_entry s1 (pa ?u) (\<lambda>e. e\<lparr>pg_type := PFNDB_PAGE_ALLOCATED\<rparr>))"
        "(min f ?u, Suc c) \<notin> A"
        using merge_step [OF b less.prems(2) _ bu] True mx by auto
      have "coalesce h (pa f) c s = coalesce h (pa (min f ?u)) (Suc c)
          (pfndb_set_entry s1 (pa ?u) (\<lambda>e. e\<lparr>pg_type := PFNDB_PAGE_ALLOCATED\<rparr>))"
        using fc ul x mx True free s1(1) pa_less [OF ul fc(3)]
        by (subst coalesce.simps) (auto simp: Let_def node_of_def min_def)
      moreover have "16 - Suc c < 16 - c" using fc(1) by simp
      ultimately show ?thesis using less.hyps [OF _ s1(2,3)] by simp
    qed
  qed
qed

lemma buddy_free_rep:
  assumes b: "binv h R (insert (f, c) A) {} L s" and n: "(f, c) \<notin> A"
  shows "\<exists>s' L'. buddy_free h (pa f) c s = Inr s' \<and> binv h R A {} L' s'"
proof -
  obtain f' c' s1 L1 where c: "coalesce h (pa f) c s = Inr (pa f', c', s1)"
    "binv h R (insert (f', c') A) {} L1 s1" "(f', c') \<notin> A"
    "\<And>r. r \<in> R \<Longrightarrow> f' \<in> fr r \<Longrightarrow> c' < snd r \<Longrightarrow> (buddy_of f' c', c') \<notin> free_blocks L1"
    using coalesce_rep [OF b n] by blast
  obtain s2 where s2: "push_order c' (node_of h f') (pfndb_set_entry s1 (pa f')
      (\<lambda>e. e\<lparr>pg_type := PFNDB_PAGE_FREE, pg_order := SET_CUR_ORDER (pg_order e) c'\<rparr>)) = Inr s2"
    "binv h R A {} (L1(c' := f' # L1 c')) s2"
    using release_block [OF c(2,3)] c(4) by blast
  then show ?thesis using c(1) by (auto simp: buddy_free_def node_of_def)
qed

lemma find_larger_rep:
  assumes "binv h R A E L s"
  shows "(\<exists>k f fs. corder \<le> k \<and> k \<le> 14 \<and> L k = f # fs \<and>
      find_larger corder s = map_sum id (\<lambda>(n, s). (n, k, s)) (pop_order k s)) \<or>
    ((\<forall>j. corder \<le> j \<longrightarrow> j \<le> 14 \<longrightarrow> L j = []) \<and> (\<exists>k. find_larger corder s = Inr (None, k, s)))"
proof (induction "15 - corder" arbitrary: corder)
  case 0
  then show ?case by (simp add: find_larger.simps)
next
  case (Suc n)
  then have c: "corder \<le> 14" "n = 15 - (corder + 1)" by auto
  show ?case
  proof (cases "L corder")
    case Nil
    then have eq: "find_larger corder s = find_larger (corder + 1) s"
      using pop_order_empty [OF assms Nil c(1)] c(1) by (subst find_larger.simps) simp
    have "L j = []" if "corder \<le> j" "j \<le> 14" "\<forall>j. corder + 1 \<le> j \<longrightarrow> j \<le> 14 \<longrightarrow> L j = []" for j
      using that Nil by (cases "j = corder") auto
    then show ?thesis using Suc.hyps(1) [OF c(2)] eq by (auto intro: exI [of _ "_ :: nat"] dest: Suc_leD)
  next
    case (Cons f fs)
    obtain s' where "pop_order corder s = Inr (Some (node_of h f), s')"
      using pop_order_rep [OF assms Cons c(1)] by blast
    then have "find_larger corder s = map_sum id (\<lambda>(n, s). (n, corder, s)) (pop_order corder s)"
      using c(1) by (simp add: find_larger.simps)
    then show ?thesis using Cons c(1) by blast
  qed
qed

lemma split_down_rep:
  "binv h R (insert (f, c) A) E L s \<Longrightarrow> (f, c) \<notin> A \<Longrightarrow> f \<in> E \<Longrightarrow> ord \<le> c \<Longrightarrow>
   \<exists>s' L'. split_down h (node_of h f) (pmax s f) ord c s = Inr (ord, s') \<and>
     binv h R (insert (f, ord) A) E L' s' \<and> (f, ord) \<notin> A \<and> page_at s' f = page_at s f"
proof (induction c arbitrary: L s)
  case 0
  then show ?case by (auto simp: split_down.simps)
next
  case (Suc c)
  show ?case
  proof (cases "ord = Suc c")
    case True
    then show ?thesis using Suc.prems by (auto simp: split_down.simps)
  next
    case False
    let ?s1 = "pfndb_set_entry s (pa (f + 2 ^ c)) (\<lambda>e. e\<lparr>pg_type := PFNDB_PAGE_FREE,
      pg_order := SET_CUR_ORDER (SET_MAX_ORDER (pg_order e) (pmax s f)) c\<rparr>)"
    obtain s2 where s2: "push_order c (node_of h (f + 2 ^ c)) ?s1 = Inr s2" "page_at s2 f = page_at s f"
      "binv h R (insert (f, c) A) E (L(c := (f + 2 ^ c) # L c)) s2" "(f, c) \<notin> A"
      using split_step [OF Suc.prems(1-3)] by blast
    have "node_of h f + GET_ORDER_SIZE c = node_of h (f + 2 ^ c)"
      using pa_add [of f c] by (simp add: node_of_def TO_HHDM_def algebra_simps)
    then have "split_down h (node_of h f) (pmax s f) ord (Suc c) s = split_down h (node_of h f) (pmax s2 f) ord c s2"
      using s2(1,2) Suc.prems(4) False by (subst split_down.simps) (simp add: Let_def)
    then show ?thesis using Suc.IH [OF s2(3,4) Suc.prems(3)] Suc.prems(4) False s2(2) by simp
  qed
qed

lemma buddy_allocate_rep:
  assumes b: "binv h R A {} L s" and ord: "ord \<le> 14"
  shows "(\<exists>f s' L'. buddy_allocate h ord flags s = Inr (pa f, s') \<and>
      binv h R (insert (f, ord) A) {} L' s' \<and> (f, ord) \<notin> A) \<or>
    ((\<forall>j. ord \<le> j \<longrightarrow> j \<le> 14 \<longrightarrow> L j = []) \<and>
      buddy_allocate h ord flags s = (if flags AND ALLOC_FLAG_NOFAIL \<noteq> 0 then Inl Panicked else Inr (0, s)))"
proof (cases "L ord")
  case (Cons f fs)
  obtain s1 where s1: "pop_order ord s = Inr (Some (node_of h f), s1)"
    "binv h R (insert (f, ord) A) {f} (L(ord := fs)) s1" "(f, ord) \<notin> A"
    using pop_order_rep [OF b Cons ord] by auto
  have "binv h R (insert (f, ord) A) {} (L(ord := fs)) (pfndb_set_entry s1 (pa f) (\<lambda>e. e\<lparr>pg_type := PFNDB_PAGE_ALLOCATED\<rparr>))"
    using take_block [OF s1(2), of f ord "\<lambda>e. e\<lparr>pg_type := PFNDB_PAGE_ALLOCATED\<rparr>"] by simp
  then show ?thesis using s1 by (intro disjI1) (auto simp: buddy_allocate_def)
next
  case Nil
  note p0 = pop_order_empty [OF b Nil ord]
  from find_larger_rep [OF b, of "ord + 1"] consider
    k f fs where "ord + 1 \<le> k" "k \<le> 14" "L k = f # fs"
      "find_larger (ord + 1) s = map_sum id (\<lambda>(n, s). (n, k, s)) (pop_order k s)"
    | k where "\<forall>j. ord + 1 \<le> j \<longrightarrow> j \<le> 14 \<longrightarrow> L j = []" "find_larger (ord + 1) s = Inr (None, k, s)" by auto
  then show ?thesis
  proof cases
    case 1
    obtain s1 where s1: "pop_order k s = Inr (Some (node_of h f), s1)" "page_at s1 = page_at s"
      "binv h R (insert (f, k) A) {f} (L(k := fs)) s1" "(f, k) \<notin> A" "ptype s f = PFNDB_PAGE_FREE" "f < 2 ^ 52"
      using pop_order_rep [OF b 1(3,2)] by auto
    obtain s2 L2 where s2: "split_down h (node_of h f) (pmax s1 f) ord k s1 = Inr (ord, s2)"
      "binv h R (insert (f, ord) A) {f} L2 s2" "(f, ord) \<notin> A" "page_at s2 f = page_at s1 f"
      using split_down_rep [OF s1(3,4), of ord] 1(1) by auto
    let ?g = "\<lambda>e. e\<lparr>pg_type := PFNDB_PAGE_ALLOCATED, pg_order := SET_CUR_ORDER (pg_order e) ord\<rparr>"
    have "binv h R (insert (f, ord) A) {} L2 (pfndb_set_entry s2 (pa f) ?g)"
      using take_block [OF s2(2), of f ord ?g] ord by simp
    moreover have "buddy_allocate h ord flags s = Inr (pa f, pfndb_set_entry s2 (pa f) ?g)"
      using p0 1(4) s1 s2 by (simp add: buddy_allocate_def)
    ultimately show ?thesis using s2(3) by blast
  next
    case 2
    have "L j = []" if "ord \<le> j" "j \<le> 14" for j using that 2(1) Nil by (cases "j = ord") auto
    moreover have "buddy_allocate h ord flags s = (if flags AND ALLOC_FLAG_NOFAIL \<noteq> 0 then Inl Panicked else Inr (0, s))"
      using p0 2(2) by (simp add: buddy_allocate_def)
    ultimately show ?thesis by blast
  qed
qed

section \<open>Completeness of coalescing\<close>

lemma fr_subset_order:
  assumes "fr (g, k) \<subseteq> fr (f, c)"
  shows "k \<le> c" "k = c \<Longrightarrow> f = g"
proof -
  have s: "f \<le> g" "g + 2 ^ k \<le> f + 2 ^ c"
    using assms atLeastLessThan_subset_iff [of g "g + 2 ^ k" f "f + 2 ^ c"] by simp_all
  then have "(2::nat) ^ k \<le> 2 ^ c" by linarith
  then show "k \<le> c" by simp
  show "k = c \<Longrightarrow> f = g" using s by simp
qed

lemma same_order: "\<not> Suc k \<le> snd c \<Longrightarrow> fr (g, k) \<subseteq> fr c \<Longrightarrow> c = (g, k)"
proof -
  assume a: "\<not> Suc k \<le> snd c" "fr (g, k) \<subseteq> fr c"
  obtain f j where c: "c = (f, j)" by (cases c)
  have "k = j" using fr_subset_order(1) [of g k f j] a by (simp add: c)
  then show "c = (g, k)" using fr_subset_order(2) [of g k f j] a(2) by (simp add: c)
qed

lemma larger_contains:
  assumes "blk_ok (f, c)" "blk_ok (g, k)" "k \<le> c" "x \<in> fr (g, k)" "x \<in> fr (f, c)"
  shows "fr (g, k) \<subseteq> fr (f, c)"
  using aligned_inside [of k g x c f] assms by auto

text \<open>A block-shaped part of the memory in which nothing is allocated lies in one free block.\<close>

lemma free_region:
  assumes b: "binv h R A {} L s"
  shows "blk_ok (g, k) \<Longrightarrow> r \<in> R \<Longrightarrow> fr (g, k) \<subseteq> fr r \<Longrightarrow> k \<le> snd r \<Longrightarrow>
    (\<And>a. a \<in> A \<Longrightarrow> fr a \<inter> fr (g, k) = {}) \<Longrightarrow> \<exists>c\<in>free_blocks L. fr (g, k) \<subseteq> fr c"
proof (induction k arbitrary: g)
  case 0
  note d = binvD [OF b]
  have "g \<in> \<Union> (fr ` R)" using 0 by auto
  moreover have "\<Union> (fr ` (free_blocks L \<union> A)) = \<Union> (fr ` R)" using d(2) by (simp add: geo_def)
  ultimately have "g \<in> \<Union> (fr ` (free_blocks L \<union> A))" by simp
  then obtain c where c: "c \<in> free_blocks L \<union> A" "g \<in> fr c" by blast
  then have "c \<in> free_blocks L" using 0(5) [of c] by auto
  then show ?case using c(2) by (intro bexI [of _ c]) auto
next
  case (Suc k)
  note d = binvD [OF b]
  let ?u = "g + 2 ^ k"
  have ok: "blk_ok (g, k)" "blk_ok (?u, k)" using blk_ok_halves [OF Suc.prems(1)] by auto
  note h = fr_halves(1) [of g k]
  have sub: "fr (g, k) \<subseteq> fr r" "fr (?u, k) \<subseteq> fr r" "k \<le> snd r" using Suc.prems(3,4) h by auto
  have dA: "fr a \<inter> fr (g, k) = {}" "fr a \<inter> fr (?u, k) = {}" if "a \<in> A" for a using Suc.prems(5) [OF that] h by blast+
  obtain c1 where c1: "c1 \<in> free_blocks L" "fr (g, k) \<subseteq> fr c1"
    using Suc.IH [OF ok(1) Suc.prems(2) sub(1,3) dA(1)] by blast
  obtain c2 where c2: "c2 \<in> free_blocks L" "fr (?u, k) \<subseteq> fr c2"
    using Suc.IH [OF ok(2) Suc.prems(2) sub(2,3) dA(2)] by blast
  have big: "fr (g, Suc k) \<subseteq> fr c" if "c \<in> free_blocks L" "x \<in> fr (g, Suc k)" "x \<in> fr c" "Suc k \<le> snd c" for c x
    using larger_contains [of "fst c" "snd c" g "Suc k" x] that Suc.prems(1) geo_blk_ok [OF d(2), of c]
    by (simp del: fr.simps blk_ok.simps)
  show ?case
  proof (rule ccontr)
    assume no: "\<not> ?case"
    have g: "g \<in> fr c1" "?u \<in> fr c2" "g \<in> fr (g, Suc k)" "?u \<in> fr (g, Suc k)"
      using c1(2) c2(2) fst_in_fr [of "(g, k)"] fst_in_fr [of "(?u, k)"] by auto
    have "\<not> Suc k \<le> snd c1" using big [OF c1(1) g(3,1)] no c1(1) by blast
    then have "c1 = (g, k)" using c1(2) by (rule same_order)
    moreover have "\<not> Suc k \<le> snd c2" using big [OF c2(1) g(4,2)] no c2(1) by blast
    then have "c2 = (?u, k)" using c2(2) by (rule same_order)
    ultimately have "(g, k) \<in> free_blocks L" "(buddy_of g k, k) \<in> free_blocks L"
      using c1(1) c2(1) buddy_low(1) [of k g] Suc.prems(1) by auto
    moreover have "g \<in> fr r" "k < snd r" using Suc.prems(3,4) by (auto simp del: power_Suc)
    ultimately show False using d(5) Suc.prems(2) unfolding coalesced_def by blast
  qed
qed

lemma all_free:
  assumes b: "binv h R {} {} L s"
  shows "free_blocks L = R"
proof -
  note d = binvD [OF b]
  have "r \<in> free_blocks L" if r: "r \<in> R" for r
  proof -
    obtain c where c: "c \<in> free_blocks L" "fr r \<subseteq> fr c"
      using free_region [OF b, of "fst r" "snd r" r] geo_root_ok [OF d(2) r] r by auto
    obtain q where q: "q \<in> R" "fr c \<subseteq> fr q" "snd c \<le> snd q" using geo_root [OF d(2), of c] c(1) by auto
    have "q = r" using sepD [OF d(6) q(1) r, of "fst r"] c(2) q(2) fst_in_fr [of r] by blast
    then have "c = r" using same_order [of "snd r" c "fst r"] c(2) q(3) by simp
    then show ?thesis using c(1) by simp
  qed
  then have sub: "R \<subseteq> free_blocks L" by auto
  have "c \<in> R" if c: "c \<in> free_blocks L" for c
  proof -
    obtain q where q: "q \<in> R" "fr c \<subseteq> fr q" using geo_root [OF d(2), of c] c by auto
    then have "c = q" using sepD [OF d(7), of c q "fst c"] c q sub fst_in_fr [of c] by blast
    then show ?thesis using q(1) by simp
  qed
  then show ?thesis using sub by auto
qed

section \<open>Handing memory to the allocator\<close>

lemma add_block_rep:
  assumes b: "binv h R A {} L s" and ok: "blk_ok (f, c)" and new: "fr (f, c) \<inter> \<Union> (fr ` R) = {}"
  shows "\<exists>s'. buddy_add_block h (pa f) c s = Inr s' \<and> binv h (insert (f, c) R) A {} (L(c := f # L c)) s'"
proof -
  note d = binvD [OF b]
  let ?F = "free_blocks L"
  let ?g = "\<lambda>e. e\<lparr>pg_type := PFNDB_PAGE_FREE, pg_order := SET_CUR_ORDER (SET_MAX_ORDER (pg_order e) c) c\<rparr>"
  have fc: "c \<le> 14" "f < 2 ^ 52" using blk_ok_frame [OF ok] by auto
  have un: "\<Union> (fr ` (?F \<union> A)) = \<Union> (fr ` R)" using d(2) by (simp add: geo_def)
  have dj: "fr (f, c) \<inter> fr x = {}" if "x \<in> ?F \<union> A \<union> R" for x using that new un by blast
  have nh: "x \<noteq> f" if "(x, k) \<in> ?F \<union> A" for x k using dj [of "(x, k)"] that by auto
  have fF: "(f, c) \<notin> ?F \<union> A" using nh by auto
  have fR: "f \<notin> fr p" if "p \<in> R" for p
    using dj [of p] that fst_in_fr [of "(f, c)"] by (metis UnI2 disjoint_iff fst_conv)
  have hx: "x \<notin> fr (f, c)" if "(x, k) \<in> ?F \<union> A" for x k
    using dj [of "(x, k)"] that fst_in_fr [of "(x, k)"] by (metis UnI1 disjoint_iff fst_conv)
  define s1 where "s1 = pfndb_set_entry s (pa f) ?g"
  have pg: "page_at s1 x = (if x = f then ?g (page_at s f) else page_at s x)" if "x < 2 ^ 52" for x
    using that fc by (simp add: s1_def set_entry_pa)
  have nl: "f \<notin> set (L c)" using fF(1) fc(1) by (auto simp: free_blocks_def)
  obtain s2 where s2: "push_order c (node_of h f) s1 = Inr s2" "page_at s2 = page_at s1"
    "lists_ok h (L(c := f # L c)) s2"
    using push_lists_ok [of h L s1 c f] d(1) fc(1) nl by (auto simp: s1_def)
  have F': "free_blocks (L(c := f # L c)) = insert (f, c) ?F" using fc(1) by (rule free_blocks_push)
  have bl: "x < 2 ^ 52" if "(x, k) \<in> ?F \<union> A" for x k using geo_frame(4) [OF d(2)] that by blast
  have "inside (insert (f, c) R) b" if "b \<in> ?F \<union> A" for b using d(2) that inside_mono [of R b "insert (f, c) R"] by (auto simp: geo_def)
  moreover have "inside (insert (f, c) R) (f, c)" using ok unfolding inside_def by (auto simp del: fr.simps blk_ok.simps)
  moreover have "sep (insert (f, c) R)" "sep (insert (f, c) (?F \<union> A))"
    by (rule sep_insert [OF d(6)], rule dj, simp, rule sep_insert [OF d(7)], rule dj, simp)
  ultimately have g2: "geo (insert (f, c) R) (insert (f, c) ?F \<union> A)"
    using un ok geo_root_ok [OF d(2)] unfolding geo_def by (auto simp del: fr.simps blk_ok.simps)
  have "binv h (insert (f, c) R) A {} (L(c := f # L c)) s2"
    unfolding binv_def F'
  proof (intro conjI)
    show "geo (insert (f, c) R) (insert (f, c) ?F \<union> A)" by (rule g2)
    show "insert (f, c) ?F \<inter> A = {}" using d(3) fF(1) by auto
    show "meta_ok (insert (f, c) R) (insert (f, c) ?F) A {} s2"
    proof (rule meta_okI, unfold s2(2))
      fix x k assume "(x, k) \<in> insert (f, c) ?F"
      then show "ptype s1 x = PFNDB_PAGE_FREE \<and> pcur s1 x = k"
        using pg [of x] bl [of x k] nh [of x k] meta_okD(1,2) [OF d(4), of x k] fc by auto
    next
      fix x k p assume x: "(x, k) \<in> insert (f, c) ?F \<union> A" "p \<in> insert (f, c) R" "x \<in> fr p"
      show "pmax s1 x = snd p"
      proof (cases "(x, k) = (f, c)")
        case True
        then have "p = (f, c)" using x fR [of p] by auto
        then show ?thesis using True pg [of f] fc by simp
      next
        case False
        then have xk: "(x, k) \<in> ?F \<union> A" using x(1) by auto
        then have "p \<noteq> (f, c)" using hx x(3) by blast
        then show ?thesis
          using meta_okD(3) [OF d(4) xk, of p] x(2,3) pg [of x] bl [OF xk] nh [OF xk] by auto
      qed
    next
      fix x assume "x < 2 ^ 52" "x \<notin> {}" "ptype s1 x = PFNDB_PAGE_FREE"
      then show "\<exists>ord. (x, ord) \<in> insert (f, c) ?F"
        using pg [of x] meta_okD(4) [OF d(4), of x] by (cases "x = f") auto
    qed
    show "coalesced (insert (f, c) R) (insert (f, c) ?F)"
      unfolding coalesced_def
    proof (intro allI impI)
      fix x k q
      assume *: "(x, k) \<in> insert (f, c) ?F" "q \<in> insert (f, c) R" "x \<in> fr q" "k < snd q"
      have "(x, k) \<noteq> (f, c)" using * fR [of q] by auto
      then have xk: "(x, k) \<in> ?F" using * by auto
      then have "q \<noteq> (f, c)" using hx *(3) by blast
      then have qR: "q \<in> R" using * by auto
      have "blk_ok (x, k)" "2 ^ k dvd x" using geo_blk_ok [OF d(2), of "(x, k)"] xk by auto
      then have "buddy_of x k \<in> fr q"
        using merged_inside(2) [of x k q R] geo_root_ok [OF d(2) qR] qR * buddy_pair(1) [of k x]
          fst_in_fr [of "(buddy_of x k, k)"] by auto
      then have "(buddy_of x k, k) \<noteq> (f, c)" using fR [OF qR] by auto
      moreover have "(buddy_of x k, k) \<notin> ?F" using d(5) * xk qR unfolding coalesced_def by blast
      ultimately show "(buddy_of x k, k) \<notin> insert (f, c) ?F" by auto
    qed
  qed (use s2 in auto)
  then show ?thesis using s2 pg by (auto simp: buddy_add_block_def node_of_def s1_def)
qed

lemma pa_diff: "a \<le> e \<Longrightarrow> pa e - pa a = pa (e - a)"
  by (simp add: pa_def diff_mult_distrib of_nat_diff)

lemma bit_pa: "bit (pa a) i \<longleftrightarrow> 12 \<le> i \<and> i < 64 \<and> bit a (i - 12)"
proof -
  have "pa a = push_bit 12 (word_of_nat a)" by (simp add: pa_def push_bit_eq_mult mult.commute)
  then show ?thesis by (auto simp: bit_simps)
qed

lemma GET_ORDER_pa:
  assumes "a \<noteq> 0" "a < 2 ^ 52"
  shows "0 \<le> GET_ORDER (pa a)" "2 ^ nat (GET_ORDER (pa a)) dvd a"
proof -
  have "unat (pa a) \<noteq> 0" using assms unat_pa by simp
  then have nz: "pa a \<noteq> 0" by auto
  note t = ctzll_bit [OF nz]
  then show g: "0 \<le> GET_ORDER (pa a)" by (auto simp: GET_ORDER_def bit_pa)
  have "\<not> bit a j" if "j < ctzll (pa a) - 12" for j
    using t(3) [of "j + 12"] that t(1) by (auto simp: bit_pa)
  then have "take_bit (nat (GET_ORDER (pa a))) a = 0"
    by (intro bit_eqI) (auto simp: bit_simps GET_ORDER_def)
  then show "2 ^ nat (GET_ORDER (pa a)) dvd a" by (simp add: take_bit_eq_0_iff)
qed

lemma add_range_loop_rep:
  "binv h R A {} L s \<Longrightarrow> a \<noteq> 0 \<Longrightarrow> a \<le> e \<Longrightarrow> e < 2 ^ 52 \<Longrightarrow> {a..<e} \<inter> \<Union> (fr ` R) = {} \<Longrightarrow>
   \<exists>s' L' N. add_range_loop h (pa e) (pa a) s = Inr s' \<and> binv h (R \<union> N) A {} L' s' \<and> \<Union> (fr ` N) = {a..<e}"
proof (induction "e - a" arbitrary: a R L s rule: less_induct)
  case less
  note b = less.prems(1)
  show ?case
  proof (cases "a = e")
    case True
    then show ?thesis using b by (intro exI [of _ s] exI [of _ L] exI [of _ "{}"]) (simp add: add_range_loop.simps)
  next
    case False
    then have ae: "a < e" "a < 2 ^ 52" using less.prems(3,4) by auto
    let ?p = "drop_bit 12 (pa e - pa a)"
    define c where "c = min 14 (min (log2ull ?p) (nat (GET_ORDER (pa a))))"
    have p: "?p = word_of_nat (e - a)" using pa_diff [of a e] pa_pfn [of "e - a"] ae less.prems(4) by simp
    have up: "unat ?p = e - a" using ae less.prems(4) unfolding p by (subst unat_of_nat) simp
    then have p0: "?p \<noteq> 0" using ae by auto
    note g = GET_ORDER_pa [OF less.prems(2) ae(2)]
    have "2 ^ c dvd a" using power_le_dvd [OF g(2)] by (simp add: c_def)
    moreover have "(2::nat) ^ c \<le> 2 ^ log2ull ?p" by (simp add: c_def)
    then have ce: "2 ^ c \<le> e - a" using log2ull_bounds(1) [OF p0] up by linarith
    ultimately have ok: "blk_ok (a, c)" using less.prems(4) ae by (simp add: c_def)
    have sub: "fr (a, c) \<subseteq> {a..<e}" using ce ae by auto
    obtain s1 where s1: "buddy_add_block h (pa a) c s = Inr s1"
      "binv h (insert (a, c) R) A {} (L(c := a # L c)) s1"
      using add_block_rep [OF b ok] sub less.prems(5) by blast
    let ?a = "a + 2 ^ c"
    have "(0::nat) < 2 ^ c" by simp
    then have a': "?a \<noteq> 0" "?a \<le> e" "e - ?a < e - a" using ce ae by linarith+
    have split: "{a..<e} = fr (a, c) \<union> {?a..<e}" using a'(2) by auto
    have "pa a < pa e" using pa_less [OF ae(2) less.prems(4)] ae(1) by simp
    moreover have "pa a \<noteq> 0" using unat_pa [OF ae(2)] less.prems(2) by auto
    ultimately have run: "add_range_loop h (pa e) (pa a) s = add_range_loop h (pa e) (pa ?a) s1"
      using p0 g(1) s1(1) pa_add [of a c] by (subst add_range_loop.simps) (simp add: Let_def c_def)
    have "\<exists>s' L' N. add_range_loop h (pa e) (pa ?a) s1 = Inr s' \<and> binv h (insert (a, c) R \<union> N) A {} L' s' \<and>
        \<Union> (fr ` N) = {?a..<e}"
    proof (rule less.hyps [OF a'(3) s1(2) a'(1,2) less.prems(4)])
      have "{?a..<e} \<inter> fr (a, c) = {}" by auto
      moreover have "{?a..<e} \<inter> \<Union> (fr ` R) = {}" using less.prems(5) split by blast
      ultimately show "{?a..<e} \<inter> \<Union> (fr ` insert (a, c) R) = {}" by auto
    qed
    then obtain s2 L2 N where f: "add_range_loop h (pa e) (pa ?a) s1 = Inr s2" "binv h (insert (a, c) R \<union> N) A {} L2 s2"
      "\<Union> (fr ` N) = {?a..<e}" by blast
    have "\<Union> (fr ` insert (a, c) N) = {a..<e}" using f(3) split by simp
    moreover have "binv h (R \<union> insert (a, c) N) A {} L2 s2" using f(2) by simp
    ultimately show ?thesis using run f(1) by (intro exI [of _ s2] exI [of _ L2] exI [of _ "insert (a, c) N"]) simp
  qed
qed


lemma frame_of_align:
  assumes "unat x < 2 ^ 64 - 4096"
  shows "ALIGN_DOWN x PAGE_SIZE = pa (unat x div 4096)" "ALIGN_UP x PAGE_SIZE = pa ((unat x + 4095) div 4096)"
proof -
  have d: "unat (ALIGN_DOWN x PAGE_SIZE) = unat x div 4096 * 4096"
    using unat_ALIGN_DOWN [of 12 x] by simp
  have u: "unat (ALIGN_UP x PAGE_SIZE) = (unat x + 4095) div 4096 * 4096"
    using unat_ALIGN_UP [of 12 x] assms by simp
  have f: "unat x div 4096 < 2 ^ 52" "(unat x + 4095) div 4096 < 2 ^ 52" using assms by auto
  show "ALIGN_DOWN x PAGE_SIZE = pa (unat x div 4096)"
    by (rule word_eq_unatI) (simp only: d unat_pa [OF f(1)])
  show "ALIGN_UP x PAGE_SIZE = pa ((unat x + 4095) div 4096)"
    by (rule word_eq_unatI) (simp only: u unat_pa [OF f(2)])
qed

text \<open>The whole frames of an address range.\<close>

definition frames :: "u64 \<Rightarrow> u64 \<Rightarrow> nat set" where
  "frames start len = {(unat start + 4095) div 4096 ..< (unat start + unat len) div 4096}"

lemma buddy_add_range_rep:
  assumes b: "binv h R A {} L s" and len: "unat start + unat len < 2 ^ 64 - 4096" and st: "start \<noteq> 0"
    and dis: "frames start len \<inter> \<Union> (fr ` R) = {}"
  shows "\<exists>s' L' N. buddy_add_range_nlock h start len s = Inr s' \<and> binv h (R \<union> N) A {} L' s' \<and>
    \<Union> (fr ` N) = frames start len"
proof -
  let ?a = "(unat start + 4095) div 4096" and ?e = "(unat start + unat len) div 4096"
  have e: "unat (start + len) = unat start + unat len" using len by (intro unat_add_no_wrap) simp
  have al: "ALIGN_DOWN (start + len) PAGE_SIZE = pa ?e" "ALIGN_UP start PAGE_SIZE = pa ?a"
    using frame_of_align(1) [of "start + len"] frame_of_align(2) [of start] len e by simp_all
  have f: "?e < 2 ^ 52" "?a < 2 ^ 52" using len by auto
  have "unat start > 0" using st by (simp add: unat_gt_0)
  then have a0: "?a \<noteq> 0" by (simp add: div_eq_0_iff)
  show ?thesis
  proof (cases "?e \<le> ?a")
    case True
    then have "buddy_add_range_nlock h start len s = Inr s" "frames start len = {}"
      using pa_less [OF f(2) f(1)] by (auto simp: buddy_add_range_nlock_def al frames_def not_less [symmetric])
    then show ?thesis using b by (intro exI [of _ s] exI [of _ L] exI [of _ "{}"]) simp
  next
    case False
    then have "\<not> pa ?e \<le> pa ?a" using pa_less [OF f(2) f(1)] by (simp add: not_le)
    then have "buddy_add_range_nlock h start len s = add_range_loop h (pa ?e) (pa ?a) s"
      by (simp only: buddy_add_range_nlock_def al Let_def if_False)
    then show ?thesis
      using add_range_loop_rep [OF b a0 _ f(1)] False dis by (auto simp: frames_def)
  qed
qed

section \<open>The allocator in use\<close>

text \<open>The states that the operations reach from the state before \<^verbatim>\<open>buddy_init\<close>, when callers add ranges
  of memory the allocator does not have yet, free blocks that are allocated, with the order they
  were allocated with, and use the entries of their blocks for purposes of their own. \<open>M\<close> is the set of frames handed to the allocator and \<open>A\<close> the set of blocks that
  are allocated.\<close>

inductive buddy_reach :: "u64 \<Rightarrow> nat set \<Rightarrow> block set \<Rightarrow> buddy \<Rightarrow> bool" for h :: u64 where
  init: "\<forall>i. pg_type (pfndb s i) \<noteq> PFNDB_PAGE_FREE \<Longrightarrow> \<forall>ord. orders s ord = [] \<Longrightarrow> buddy_reach h {} {} s"
| range: "buddy_reach h M A s \<Longrightarrow> start \<noteq> 0 \<Longrightarrow> unat start + unat len < 2 ^ 64 - 4096 \<Longrightarrow>
    frames start len \<inter> M = {} \<Longrightarrow> buddy_add_range_nlock h start len s = Inr s' \<Longrightarrow>
    buddy_reach h (M \<union> frames start len) A s'"
| alloc: "buddy_reach h M A s \<Longrightarrow> ord \<le> MAX_ORDER \<Longrightarrow> buddy_allocate h ord flags s = Inr (p, s') \<Longrightarrow> p \<noteq> 0 \<Longrightarrow>
    buddy_reach h M (insert (unat p div 4096, ord) A) s'"
| alloc_fail: "buddy_reach h M A s \<Longrightarrow> ord \<le> MAX_ORDER \<Longrightarrow> buddy_allocate h ord flags s = Inr (0, s') \<Longrightarrow>
    buddy_reach h M A s'"
| free: "buddy_reach h M A s \<Longrightarrow> (f, ord) \<in> A \<Longrightarrow> buddy_free h (pa f) ord s = Inr s' \<Longrightarrow>
    buddy_reach h M (A - {(f, ord)}) s'"
| mark: "buddy_reach h M A s \<Longrightarrow> (f, ord) \<in> A \<Longrightarrow>
    \<forall>e. pg_order (g e) = pg_order e \<and> (pg_type (g e) = PFNDB_PAGE_FREE \<longrightarrow> pg_type e = PFNDB_PAGE_FREE) \<Longrightarrow>
    buddy_reach h M A (pfndb_set_entry s (pa f) g)"

lemma binv_init: "\<forall>i. pg_type (pfndb s i) \<noteq> PFNDB_PAGE_FREE \<Longrightarrow> \<forall>ord. orders s ord = [] \<Longrightarrow> binv h {} {} {} (\<lambda>_. []) s"
  by (auto simp: binv_def lists_ok_def geo_def free_blocks_def sep_def meta_ok_def coalesced_def page_at_def)

lemma binv_mark:
  assumes b: "binv h R A {} L s" and f: "(f, ord) \<in> A"
    and g: "\<forall>e. pg_order (g e) = pg_order e \<and> (pg_type (g e) = PFNDB_PAGE_FREE \<longrightarrow> pg_type e = PFNDB_PAGE_FREE)"
  shows "binv h R A {} L (pfndb_set_entry s (pa f) g)"
proof -
  note d = binvD [OF b]
  let ?s = "pfndb_set_entry s (pa f) g"
  have e: "page_at ?s k = (if k = f then g (page_at s f) else page_at s k)" if "k < 2 ^ 52" for k
    using set_entry_pa [OF _ that, of f] geo_frame(4) [OF d(2), of f ord] f by simp
  have l: "k < 2 ^ 52" if "(k, c) \<in> free_blocks L \<union> A" for k c using geo_frame(4) [OF d(2) that] .
  have "meta_ok R (free_blocks L) A {} ?s"
  proof (rule meta_okI, goal_cases)
    case (1 k c)
    then have "k \<noteq> f" using head_unique [OF b f] by blast
    then have "page_at ?s k = page_at s k" using e [of k] l [of k c] 1 by simp
    then show ?case using meta_okD(1,2) [OF d(4) 1] by simp
  next
    case (2 k c r)
    have "pg_order (page_at ?s k) = pg_order (page_at s k)" using e [OF l [OF 2(1)]] g by simp
    then show ?case using meta_okD(3) [OF d(4) 2] by simp
  next
    case (3 k)
    then have "ptype s k = PFNDB_PAGE_FREE" using e g by (auto split: if_splits)
    then show ?case using meta_okD(4) [OF d(4)] 3 by blast
  qed
  then show ?thesis using b by (simp add: binv_def lists_ok_def)
qed

text \<open>Frame 0 is never handed out, since address 0 is what a failed allocation returns.\<close>

lemma frames_pos: "start \<noteq> 0 \<Longrightarrow> 0 \<notin> frames start len"
proof -
  assume "start \<noteq> 0"
  then have "unat start > 0" by (simp add: unat_gt_0)
  then show ?thesis by (simp add: frames_def div_eq_0_iff)
qed

lemma binv_frame: "binv h R (insert (f, ord) A) E L s \<Longrightarrow> f \<in> \<Union> (fr ` R) \<and> f < 2 ^ 52 \<and> fr (f, ord) \<subseteq> \<Union> (fr ` R)"
proof -
  assume "binv h R (insert (f, ord) A) E L s"
  note g = binvD(2) [OF this]
  have "fr (f, ord) \<subseteq> \<Union> (fr ` R)" using g unfolding geo_def by (auto simp del: fr.simps)
  moreover from this have "f \<in> \<Union> (fr ` R)" using fst_in_fr [of "(f, ord)"] by (auto simp del: fr.simps)
  ultimately show ?thesis using geo_frame(4) [OF g, of f ord] by blast
qed

lemma reach_binv: "buddy_reach h M A s \<Longrightarrow> \<exists>R L. binv h R A {} L s \<and> \<Union> (fr ` R) = M \<and> 0 \<notin> M"
proof (induction rule: buddy_reach.induct)
  case (init s)
  then have "binv h {} {} {} (\<lambda>_. []) s" by (rule binv_init)
  then show ?case by (intro exI [of _ "{}"]) auto
next
  case (range M A s start len s')
  then obtain R L where b: "binv h R A {} L s" "\<Union> (fr ` R) = M" "0 \<notin> M" by blast
  with range buddy_add_range_rep [OF b(1), of start len] obtain L' N where
    "binv h (R \<union> N) A {} L' s'" "\<Union> (fr ` N) = frames start len" by auto
  then show ?case using b frames_pos [OF range(2), of len] by (intro exI [of _ "R \<union> N"] exI [of _ L']) auto
next
  case (alloc M A s ord flags p s')
  then obtain R L where b: "binv h R A {} L s" "\<Union> (fr ` R) = M" "0 \<notin> M" by blast
  from buddy_allocate_rep [OF b(1) alloc(2), of flags] alloc(3,4) obtain f L' where
    f: "p = pa f" "binv h R (insert (f, ord) A) {} L' s'" by (auto split: if_splits)
  then have "unat p div 4096 = f" using binv_frame [OF f(2)] by (simp add: unat_pa)
  then show ?case using f b by auto
next
  case (alloc_fail M A s ord flags s')
  then obtain R L where b: "binv h R A {} L s" "\<Union> (fr ` R) = M" "0 \<notin> M" by blast
  have "pa f \<noteq> 0" if "binv h R (insert (f, ord) A) {} L' s'" for f L'
    using binv_frame [OF that] b pa_inj [of f 0] by (auto simp: pa_def)
  then have "s' = s" using buddy_allocate_rep [OF b(1) alloc_fail(2), of flags] alloc_fail(3) by (auto split: if_splits)
  then show ?case using b by blast
next
  case (free M A s f ord s')
  then obtain R L where b: "binv h R A {} L s" "\<Union> (fr ` R) = M" "0 \<notin> M" by blast
  then have "binv h R (insert (f, ord) (A - {(f, ord)})) {} L s" using free(2) by (simp add: insert_absorb)
  from buddy_free_rep [OF this] free(3) show ?case using b by auto
next
  case (mark M A s f ord g)
  then obtain R L where b: "binv h R A {} L s" "\<Union> (fr ` R) = M" "0 \<notin> M" by blast
  then show ?case using binv_mark [OF b(1) mark(2,3)] by blast
qed


text \<open>The blocks on the free lists of a state.\<close>

definition free_of :: "u64 \<Rightarrow> buddy \<Rightarrow> block set" where
  "free_of h s = {(f, ord). ord \<le> MAX_ORDER \<and> f < 2 ^ 52 \<and> node_of h f \<in> set (orders s ord)}"

lemma free_of_binv:
  assumes b: "binv h R A {} L s"
  shows "free_of h s = free_blocks L"
proof -
  note d = binvD [OF b]
  have l: "f < 2 ^ 52" if "ord \<le> 14" "f \<in> set (L ord)" for f ord
    using geo_frame(4) [OF d(2), of f ord] that by (simp add: free_blocks_def)
  have "node_of h f \<in> set (orders s ord) \<longleftrightarrow> f \<in> set (L ord)" if "ord \<le> 14" "f < 2 ^ 52" for f ord
    using d(1) that l [OF that(1)] node_of_inj [of f _ h] by (auto simp: lists_ok_def)
  then show ?thesis using l by (auto simp: free_of_def free_blocks_def)
qed

lemma rest_of_union: "X \<inter> Y = {} \<Longrightarrow> Z = X \<union> Y \<Longrightarrow> X = Z - Y" for X :: "'a set"
  by blast

lemma diff_of_union: "Y \<subseteq> X \<Longrightarrow> Z \<inter> X = {} \<Longrightarrow> (X \<union> Z) - Y = (X - Y) \<union> Z" for X :: "'a set"
  by blast

lemma free_of_frames:
  assumes b: "binv h R A {} L s"
  shows "\<Union> (fr ` free_of h s) = \<Union> (fr ` R) - \<Union> (fr ` A)"
proof -
  note d = binvD [OF b] and e = free_of_binv [OF b]
  have "fr b \<inter> fr a = {}" if "b \<in> free_of h s" "a \<in> A" for a b
    using sepD [OF d(7), of b a] that d(3) unfolding e by blast
  then have "\<Union> (fr ` free_of h s) \<inter> \<Union> (fr ` A) = {}" by blast
  moreover have "\<Union> (fr ` R) = \<Union> (fr ` free_of h s) \<union> \<Union> (fr ` A)" using d(2) by (simp add: geo_def e)
  ultimately show ?thesis by (rule rest_of_union)
qed

text \<open>The free blocks are determined by the memory handed over and the allocated blocks: allocating
  and freeing in any order leaves no fragmentation behind.\<close>

lemma fr_inj:
  assumes "fr b \<subseteq> fr c" "fr c \<subseteq> fr b"
  shows "b = c"
proof -
  obtain f k g j where p: "b = (f, k)" "c = (g, j)" by (cases b, cases c)
  have "k = j" using fr_subset_order(1) [of f k g j] fr_subset_order(1) [of g j f k] assms unfolding p by linarith
  then show ?thesis using fr_subset_order(2) [of f k g j] assms(1) unfolding p by blast
qed

lemma free_blocks_subset:
  assumes b: "binv h R A {} L s" and b': "binv h R A {} L' s'"
  shows "free_blocks L \<subseteq> free_blocks L'"
proof
  fix c assume c: "c \<in> free_blocks L"
  note d = binvD [OF b] and d' = binvD [OF b']
  have cover: "\<exists>y\<in>free_blocks K'. fr x \<subseteq> fr y" if x: "x \<in> free_blocks K"
    and k: "binv h R A {} K t" "binv h R A {} K' t'" for x K K' t t'
  proof -
    note e = binvD [OF k(1)]
    obtain r where r: "r \<in> R" "fr x \<subseteq> fr r" "snd x \<le> snd r" using geo_root [OF e(2), of x] x by auto
    have dis: "fr a \<inter> fr x = {}" if "a \<in> A" for a using sepD [OF e(7), of a x] that x e(3) by blast
    have ok: "blk_ok x" using geo_blk_ok [OF e(2), of x] x by blast
    obtain g c where gc: "x = (g, c)" by (cases x)
    show ?thesis using free_region [OF k(2) ok [unfolded gc] r(1)] r(2,3) dis unfolding gc by (simp del: fr.simps)
  qed
  obtain c' where c': "c' \<in> free_blocks L'" "fr c \<subseteq> fr c'" using cover [OF c b b'] by blast
  obtain c'' where c'': "c'' \<in> free_blocks L" "fr c' \<subseteq> fr c''" using cover [OF c'(1) b' b] by blast
  have "c = c''" using sepD [OF d(7), of c c'' "fst c"] c c'' c'(2) fst_in_fr [of c] by blast
  then have "c = c'" using c'(2) c''(2) by (intro fr_inj) simp_all
  then show "c \<in> free_blocks L'" using c'(1) by simp
qed

lemma free_of_canonical: "binv h R A {} L s \<Longrightarrow> binv h R A {} L' s' \<Longrightarrow> free_of h s = free_of h s'"
  using free_blocks_subset [of h R A L s L' s'] free_blocks_subset [of h R A L' s' L s] by (simp add: free_of_binv)

text \<open>What the clients of the allocator rely on.\<close>

lemma allocate_reach:
  assumes "buddy_reach h M A s" "ord \<le> MAX_ORDER"
  shows "(\<exists>f s'. buddy_allocate h ord flags s = Inr (pa f, s') \<and> pa f \<noteq> 0 \<and> unat (pa f) = f * 4096 \<and> 2 ^ ord dvd f \<and>
        fr (f, ord) \<subseteq> M \<and> (\<forall>a\<in>A. fr (f, ord) \<inter> fr a = {}) \<and> buddy_reach h M (insert (f, ord) A) s') \<or>
    ((\<forall>j. ord \<le> j \<longrightarrow> j \<le> MAX_ORDER \<longrightarrow> orders s j = []) \<and>
      buddy_allocate h ord flags s = (if flags AND ALLOC_FLAG_NOFAIL \<noteq> 0 then Inl Panicked else Inr (0, s)))"
proof -
  obtain R L where b: "binv h R A {} L s" "\<Union> (fr ` R) = M" "0 \<notin> M" using reach_binv [OF assms(1)] by blast
  from buddy_allocate_rep [OF b(1) assms(2), of flags] show ?thesis
  proof (elim disjE exE conjE, goal_cases)
    case (1 f s' L')
    note g = binvD(2) [OF 1(2)] and fm = binv_frame [OF 1(2)]
    have u: "unat (pa f) = f * 4096" using fm by (simp add: unat_pa)
    have sub: "f \<in> M" "fr (f, ord) \<subseteq> M" using fm by (simp_all only: b(2))
    then have "f \<noteq> 0" using b(3) by metis
    then have nz: "pa f \<noteq> 0" using u by auto
    have "fr (f, ord) \<inter> fr a = {}" if "a \<in> A" for a
      using sepD [OF binvD(7) [OF 1(2)], of "(f, ord)" a] that 1(3) by blast
    moreover have "buddy_reach h M (insert (f, ord) A) s'"
      using buddy_reach.alloc [OF assms 1(1) nz] by (simp add: u)
    moreover have "2 ^ ord dvd f" using geo_frame(3) [OF g, of f ord] by blast
    ultimately show ?thesis using 1(1) nz u sub(2) by (intro disjI1 exI [of _ f] exI [of _ s'] conjI ballI)
  next
    case 2
    then show ?thesis using binvD(1) [OF b(1)] by (auto simp: lists_ok_def)
  qed
qed

lemma free_reach:
  assumes "buddy_reach h M A s" "(f, ord) \<in> A"
  shows "\<exists>s'. buddy_free h (pa f) ord s = Inr s' \<and> buddy_reach h M (A - {(f, ord)}) s'"
proof -
  obtain R L where b: "binv h R A {} L s" using reach_binv [OF assms(1)] by blast
  then have "binv h R (insert (f, ord) (A - {(f, ord)})) {} L s" using assms(2) by (simp add: insert_absorb)
  from buddy_free_rep [OF this] obtain s' where "buddy_free h (pa f) ord s = Inr s'" by auto
  then show ?thesis using buddy_reach.free [OF assms] by blast
qed

section \<open>A concrete run\<close>

definition buddy0 :: buddy where
  "buddy0 = \<lparr>pfndb = \<lambda>_. \<lparr>pg_type = PFNDB_PAGE_INVALID, pg_order = 0, pg_flags = 0, pg_ref_count = 0\<rparr>, orders = \<lambda>_. []\<rparr>"

definition buddy1 :: buddy where
  "buddy1 = (case buddy_add_range_nlock 0 0x100000 0x4000 buddy0 of Inr s \<Rightarrow> s | Inl _ \<Rightarrow> buddy0)"

definition buddy2 :: buddy where
  "buddy2 = (case buddy_allocate 0 0 0 buddy1 of Inr (p, s) \<Rightarrow> s | Inl _ \<Rightarrow> buddy0)"

lemma frames_example: "frames 0x100000 0x4000 = {256..<260}"
  by (simp add: frames_def)

lemma reach0: "buddy_reach 0 {} {} buddy0"
  by (rule buddy_reach.init) (simp_all add: buddy0_def)

lemma run1: "buddy_add_range_nlock 0 0x100000 0x4000 buddy0 = Inr buddy1"
proof -
  have "\<not> isl (buddy_add_range_nlock 0 0x100000 0x4000 buddy0)" by code_simp
  then show ?thesis by (cases "buddy_add_range_nlock 0 0x100000 0x4000 buddy0") (simp_all add: buddy1_def)
qed

lemma reach1: "buddy_reach 0 {256..<260} {} buddy1"
  using buddy_reach.range [OF reach0 _ _ _ run1] by (simp add: frames_example)

lemma run2: "buddy_allocate 0 0 0 buddy1 = Inr (0x100000, buddy2)"
proof -
  have "(case buddy_allocate 0 0 0 buddy1 of Inr (p, s) \<Rightarrow> p = 0x100000 | Inl _ \<Rightarrow> False)" by code_simp
  then show ?thesis by (cases "buddy_allocate 0 0 0 buddy1") (auto simp: buddy2_def)
qed

lemma reach2: "buddy_reach 0 {256..<260} {(256, 0)} buddy2"
  using buddy_reach.alloc [OF reach1 _ run2] by simp

section \<open>Properties\<close>

text \<open>C3. In every reachable state the blocks on the free lists and the allocated blocks are pairwise
  disjoint and together make up exactly the memory handed to the allocator, no block is on a free
  list twice and none is both free and allocated.\<close>

theorem buddy_partition:
  assumes "buddy_reach h M A s"
  shows "(\<forall>b\<in>free_of h s \<union> A. \<forall>c\<in>free_of h s \<union> A. b \<noteq> c \<longrightarrow> fr b \<inter> fr c = {}) \<and>
    \<Union> (fr ` (free_of h s \<union> A)) = M \<and> free_of h s \<inter> A = {} \<and> (\<forall>ord\<le>MAX_ORDER. distinct (orders s ord))"
proof -
  obtain R L where b: "binv h R A {} L s" "\<Union> (fr ` R) = M" using reach_binv [OF assms] by blast
  note d = binvD [OF b(1)]
  have "distinct (orders s ord)" if o: "ord \<le> 14" for ord
  proof -
    have "orders s ord = map (node_of h) (L ord)" "distinct (L ord)" using d(1) o by (auto simp: lists_ok_def)
    moreover have "inj_on (node_of h) (set (L ord))"
      using geo_frame(4) [OF d(2), of _ ord] o by (intro inj_onI) (simp add: free_blocks_def node_of_inj)
    ultimately show ?thesis by (simp add: distinct_map)
  qed
  then show ?thesis using d(2,3,7) b(2) unfolding free_of_binv [OF b(1)] sep_def geo_def by blast
qed

theorem buddy_partition_witness:
  "buddy_reach 0 {256..<260} {(256, 0)} buddy2 \<and> \<Union> (fr ` (free_of 0 buddy2 \<union> {(256, 0)})) = {256..<260}"
  using reach2 buddy_partition [OF reach2] by blast

text \<open>C4. An allocation never fails an assertion. It returns the address of a block of the requested
  order that is aligned to its size, lies in the memory of the allocator and is disjoint from every
  allocated block; or no free list has a block of that order or a larger one, and then it returns 0
  (or panics, when the caller passed the flag for that) and leaves the state as it was.\<close>

theorem buddy_allocate_safe:
  assumes "buddy_reach h M A s" "ord \<le> MAX_ORDER"
  shows "(\<exists>f s'. buddy_allocate h ord flags s = Inr (pa f, s') \<and> pa f \<noteq> 0 \<and> unat (pa f) = f * 4096 \<and> 2 ^ ord dvd f \<and>
        fr (f, ord) \<subseteq> M \<and> (\<forall>a\<in>A. fr (f, ord) \<inter> fr a = {}) \<and> buddy_reach h M (insert (f, ord) A) s') \<or>
    ((\<forall>j. ord \<le> j \<longrightarrow> j \<le> MAX_ORDER \<longrightarrow> orders s j = []) \<and>
      buddy_allocate h ord flags s = (if flags AND ALLOC_FLAG_NOFAIL \<noteq> 0 then Inl Panicked else Inr (0, s)))"
  using assms by (rule allocate_reach)

theorem buddy_allocate_safe_witness:
  "buddy_reach 0 {256..<260} {(256, 0)} buddy2 \<and>
   (\<exists>f s'. buddy_allocate 0 1 0 buddy2 = Inr (pa f, s') \<and> fr (f, 1) \<subseteq> {256..<260} \<and> fr (f, 1) \<inter> fr (256, 0) = {})"
proof -
  have "orders buddy2 1 \<noteq> []" by code_simp
  then show ?thesis using reach2 buddy_allocate_safe [OF reach2, where ord = 1 and flags = 0] by (auto simp del: fr.simps)
qed

text \<open>C5. Freeing an allocated block with its order succeeds, and a block that is allocated and freed
  again leaves every free list with the blocks it had before: the splits of the allocation are
  undone by the coalescing of the free.\<close>

theorem buddy_free_undoes_allocate:
  assumes "buddy_reach h M A s" "ord \<le> MAX_ORDER" "buddy_allocate h ord flags s = Inr (p, s1)" "p \<noteq> 0"
  shows "\<exists>s2. buddy_free h p ord s1 = Inr s2 \<and> buddy_reach h M A s2 \<and> free_of h s2 = free_of h s"
proof -
  obtain R L where b: "binv h R A {} L s" "\<Union> (fr ` R) = M" "0 \<notin> M" using reach_binv [OF assms(1)] by blast
  obtain f L1 where f: "p = pa f" "binv h R (insert (f, ord) A) {} L1 s1" "(f, ord) \<notin> A"
    using buddy_allocate_rep [OF b(1) assms(2), of flags] assms(3,4) by (auto split: if_splits)
  obtain s2 L2 where s2: "buddy_free h (pa f) ord s1 = Inr s2" "binv h R A {} L2 s2"
    using buddy_free_rep [OF f(2,3)] by blast
  have "unat p div 4096 = f" using binv_frame [OF f(2)] f(1) by (simp add: unat_pa)
  then have "buddy_reach h M (insert (f, ord) A) s1" using buddy_reach.alloc [OF assms] by simp
  from buddy_reach.free [OF this _ s2(1)] have "buddy_reach h M A s2" using f(3) by simp
  then show ?thesis using s2 f(1) free_of_canonical [OF s2(2) b(1)] by auto
qed

theorem buddy_free_undoes_allocate_witness:
  "buddy_allocate 0 0 0 buddy1 = Inr (0x100000, buddy2) \<and>
   (\<exists>s2. buddy_free 0 0x100000 0 buddy2 = Inr s2 \<and> free_of 0 s2 = free_of 0 buddy1)"
  using run2 buddy_free_undoes_allocate [OF reach1 _ run2] by auto

text \<open>C6. Freeing any allocated block with its order succeeds: no assertion fails and the buddies that
  are merged are found on the free lists.\<close>

theorem buddy_free_succeeds:
  assumes "buddy_reach h M A s" "(f, ord) \<in> A"
  shows "\<exists>s'. buddy_free h (pa f) ord s = Inr s' \<and> buddy_reach h M (A - {(f, ord)}) s'"
  using assms by (rule free_reach)

theorem buddy_free_succeeds_witness:
  "buddy_reach 0 {256..<260} {(256, 0)} buddy2 \<and>
   (\<exists>s'. buddy_free 0 (pa 256) 0 buddy2 = Inr s' \<and> buddy_reach 0 {256..<260} {} s')"
  using reach2 buddy_free_succeeds [OF reach2, where f = 256 and ord = 0] by simp

text \<open>C7. Handing over a range of memory that the allocator does not have yet succeeds and adds exactly
  the whole frames of the range.\<close>

theorem buddy_add_range_adds_frames:
  assumes "buddy_reach h M A s" "start \<noteq> 0" "unat start + unat len < 2 ^ 64 - 4096" "frames start len \<inter> M = {}"
  shows "\<exists>s'. buddy_add_range_nlock h start len s = Inr s' \<and> buddy_reach h (M \<union> frames start len) A s' \<and>
    \<Union> (fr ` free_of h s') = \<Union> (fr ` free_of h s) \<union> frames start len"
proof -
  obtain R L where b: "binv h R A {} L s" "\<Union> (fr ` R) = M" using reach_binv [OF assms(1)] by blast
  obtain s' L' N where s': "buddy_add_range_nlock h start len s = Inr s'" "binv h (R \<union> N) A {} L' s'"
    "\<Union> (fr ` N) = frames start len"
    using buddy_add_range_rep [OF b(1) assms(3,2)] assms(4) b(2) by blast
  have "\<Union> (fr ` A) \<subseteq> M" using binvD(2) [OF b(1)] b(2) by (auto simp: geo_def)
  moreover have "\<Union> (fr ` free_of h s') = \<Union> (fr ` (R \<union> N)) - \<Union> (fr ` A)"
    by (rule free_of_frames [OF s'(2)])
  moreover have "\<Union> (fr ` free_of h s) = M - \<Union> (fr ` A)"
    using free_of_frames [OF b(1)] b(2) by simp
  moreover have "\<Union> (fr ` (R \<union> N)) = M \<union> frames start len" using b(2) s'(3) by simp
  ultimately have "\<Union> (fr ` free_of h s') = \<Union> (fr ` free_of h s) \<union> frames start len"
    using diff_of_union [OF _ assms(4)] by simp
  then show ?thesis using s'(1) buddy_reach.range [OF assms s'(1)] by blast
qed

theorem buddy_add_range_adds_frames_witness:
  "\<exists>s'. buddy_add_range_nlock 0 0x200000 0x3000 buddy2 = Inr s' \<and>
     buddy_reach 0 ({256..<260} \<union> {512..<515}) {(256, 0)} s'"
  using buddy_add_range_adds_frames [OF reach2, where start = "0x200000" and len = "0x3000"] by (auto simp: frames_def)

end
