(* ===== verification/Memory.thy ===== *)
theory Memory
  imports LibMath
begin

unbundle bit_operations_syntax

text \<open>
  Byte-addressed memory and the accesses the kernel sources make to it. All target architectures
  are little endian: a multi-byte access at \<open>a\<close> has its least significant byte at \<open>a\<close>. Addresses are
  64-bit words, so address arithmetic wraps as it does on the machine.
\<close>

type_synonym mem = "u64 \<Rightarrow> u8"

section \<open>Little endian words\<close>

fun le_word :: "u8 list \<Rightarrow> 'a::len word" where
  "le_word [] = 0"
| "le_word (b # bs) = ucast b + 256 * le_word bs"

definition rd :: "nat \<Rightarrow> mem \<Rightarrow> addr \<Rightarrow> 'a::len word" where
  "rd n m a = le_word (map (\<lambda>i. m (a + word_of_nat i)) [0..<n])"

definition wr :: "nat \<Rightarrow> mem \<Rightarrow> addr \<Rightarrow> 'a::len word \<Rightarrow> mem" where
  "wr n m a w = (\<lambda>x. if unat (x - a) < n then ucast (drop_bit (8 * unat (x - a)) w) else m x)"

abbreviation rd16 :: "mem \<Rightarrow> addr \<Rightarrow> u16" where "rd16 \<equiv> rd 2"
abbreviation rd32 :: "mem \<Rightarrow> addr \<Rightarrow> u32" where "rd32 \<equiv> rd 4"
abbreviation rd64 :: "mem \<Rightarrow> addr \<Rightarrow> u64" where "rd64 \<equiv> rd 8"
abbreviation wr16 :: "mem \<Rightarrow> addr \<Rightarrow> u16 \<Rightarrow> mem" where "wr16 \<equiv> wr 2"
abbreviation wr32 :: "mem \<Rightarrow> addr \<Rightarrow> u32 \<Rightarrow> mem" where "wr32 \<equiv> wr 4"
abbreviation wr64 :: "mem \<Rightarrow> addr \<Rightarrow> u64 \<Rightarrow> mem" where "wr64 \<equiv> wr 8"

lemma ucast_plus_shift:
  fixes w :: "'a::len word"
  assumes "8 \<le> LENGTH('a)"
  shows "ucast (b :: u8) + 256 * w = ucast b OR push_bit 8 w"
proof -
  have "ucast b + push_bit 8 w = ucast b OR push_bit 8 w"
    by (rule disjunctive_add) (use assms in \<open>auto simp: bit_simps dest: bit_imp_le_length\<close>)
  then show ?thesis by (simp add: push_bit_eq_mult mult.commute)
qed

lemma bit_le_word:
  assumes "8 \<le> LENGTH('a)"
  shows "bit (le_word bs :: 'a::len word) k \<longleftrightarrow>
    k < LENGTH('a) \<and> k div 8 < length bs \<and> bit (bs ! (k div 8)) (k mod 8)"
proof (induction bs arbitrary: k)
  case (Cons b bs)
  show ?case
  proof (cases "k < 8")
    case True
    then show ?thesis using assms by (auto simp: ucast_plus_shift bit_simps)
  next
    case False
    then have "k div 8 = Suc ((k - 8) div 8)" "k mod 8 = (k - 8) mod 8"
      by (simp_all add: div_if mod_if)
    moreover have "\<not> bit b k" using False by (auto dest: bit_imp_le_length)
    ultimately show ?thesis using False assms Cons.IH [of "k - 8"] by (auto simp: ucast_plus_shift bit_simps)
  qed
qed simp

lemma map_upt_nth: "j < n \<Longrightarrow> map f [0..<n] ! j = f j"
  by simp

lemma bit_rd:
  assumes "8 \<le> LENGTH('a)"
  shows "bit (rd n m a :: 'a::len word) k \<longleftrightarrow>
    k < LENGTH('a) \<and> k div 8 < n \<and> bit (m (a + word_of_nat (k div 8))) (k mod 8)"
proof -
  have "length (map (\<lambda>i. m (a + word_of_nat i)) [0..<n]) = n" by simp
  then show ?thesis unfolding rd_def by (subst bit_le_word [OF assms]) (metis map_upt_nth)
qed

text \<open>Writing what was read copies the bytes; reading back what was written returns it.\<close>

lemma byte_rd:
  assumes "8 * n \<le> LENGTH('a)" "i < n"
  shows "ucast (drop_bit (8 * i) (rd n m a :: 'a::len word)) = m (a + word_of_nat i)"
proof (rule bit_word_eqI)
  fix k assume "k < LENGTH(8)"
  then have k: "k < 8" by simp
  have "8 * i + k < LENGTH('a)" using assms k by simp
  moreover have "(8 * i + k) div 8 = i" "(8 * i + k) mod 8 = k" using k by simp_all
  moreover have "8 \<le> LENGTH('a)" using assms by simp
  ultimately show "bit (ucast (drop_bit (8 * i) (rd n m a :: 'a word)) :: u8) k = bit (m (a + word_of_nat i)) k"
    using k assms by (simp add: bit_simps bit_rd)
qed

lemma wr_rd:
  assumes "8 * n \<le> LENGTH('a)"
  shows "wr n m d (rd n m' s :: 'a::len word) = (\<lambda>x. if unat (x - d) < n then m' (s + (x - d)) else m x)"
  by (rule ext) (simp add: wr_def byte_rd [OF assms])

lemma rd_wr:
  fixes w :: "'a::len word"
  assumes "8 * n = LENGTH('a)" "n < 2 ^ 64"
  shows "rd n (wr n m a w) a = w"
proof (rule bit_word_eqI)
  fix k assume k: "k < LENGTH('a)"
  have n: "0 < n" using assms(1) by (cases n) auto
  then have l: "8 \<le> LENGTH('a)" using assms(1) by linarith
  have d: "k div 8 < n" using k assms(1) by (simp add: less_mult_imp_div_less mult.commute)
  then have "unat (word_of_nat (k div 8) :: u64) = k div 8" using assms(2) by (simp add: unat_of_nat)
  then show "bit (rd n (wr n m a w) a :: 'a word) k = bit w k"
    using k n d unfolding bit_rd [OF l] by (simp add: wr_def bit_simps)
qed

text \<open>Writing elsewhere leaves a read alone.\<close>

lemma rd_wr_other:
  assumes "\<And>i. i < n \<Longrightarrow> \<not> unat (a + word_of_nat i - b) < k"
  shows "rd n (wr k m b w) a = rd n m a"
  unfolding rd_def by (rule arg_cong [where f = le_word]) (use assms in \<open>auto simp: wr_def\<close>)

section \<open>Byte ranges\<close>

definition copied :: "nat \<Rightarrow> addr \<Rightarrow> addr \<Rightarrow> mem \<Rightarrow> mem" where
  "copied n d s m = (\<lambda>x. if unat (x - d) < n then m (s + (x - d)) else m x)"

definition filled :: "nat \<Rightarrow> addr \<Rightarrow> u8 \<Rightarrow> mem \<Rightarrow> mem" where
  "filled n d c m = (\<lambda>x. if unat (x - d) < n then c else m x)"

definition in_range :: "nat \<Rightarrow> addr \<Rightarrow> addr \<Rightarrow> bool" where
  "in_range n a x \<longleftrightarrow> unat (x - a) < n"

lemma unat_diff_shift:
  fixes x d :: u64
  assumes "k < 2 ^ 64" "n + k \<le> 2 ^ 64"
  shows "unat (x - d) < n + k \<longleftrightarrow> unat (x - d) < k \<or> unat (x - (d + word_of_nat k)) < n"
proof -
  let ?y = "x - d"
  have k: "unat (word_of_nat k :: u64) = k" using assms(1) by (simp add: unat_of_nat)
  have e: "x - (d + word_of_nat k) = ?y - word_of_nat k" by (simp add: algebra_simps)
  show ?thesis
  proof (cases "unat ?y < k")
    case True
    then show ?thesis by simp
  next
    case False
    then have "unat (?y - word_of_nat k) = unat ?y - k" using k by (subst unat_sub_no_wrap) (simp_all add: word_le_nat_alt)
    then show ?thesis using False unfolding e by auto
  qed
qed

lemma copied_0 [simp]: "copied 0 d s m = m"
  by (simp add: copied_def)

lemma filled_0 [simp]: "filled 0 d c m = m"
  by (simp add: filled_def)

definition apart :: "nat \<Rightarrow> addr \<Rightarrow> addr \<Rightarrow> bool" where
  "apart n d s \<longleftrightarrow> (\<forall>x. \<not> (unat (x - d) < n \<and> unat (x - s) < n))"

lemma apart_mono: "apart n d s \<Longrightarrow> k \<le> n \<Longrightarrow> apart k d s"
  unfolding apart_def by (meson order_less_le_trans)

lemma apart_shift:
  assumes "apart (n + k) d s" "k < 2 ^ 64" "n + k \<le> 2 ^ 64"
  shows "apart n (d + word_of_nat k) (s + word_of_nat k)"
  using assms(1) unat_diff_shift [OF assms(2,3), of _ d] unat_diff_shift [OF assms(2,3), of _ s]
  by (auto simp: apart_def)

lemma copied_copied:
  assumes a: "apart (n + k) d s" and k: "k < 2 ^ 64" "n + k \<le> 2 ^ 64"
  shows "copied n (d + word_of_nat k) (s + word_of_nat k) (copied k d s m) = copied (n + k) d s m"
proof
  fix x
  let ?d = "d + word_of_nat k" and ?s = "s + word_of_nat k"
  have y: "?s + (x - ?d) = s + (x - d)" by simp
  have "\<not> unat (s + (x - d) - d) < k" if "unat (x - d) < n + k"
    using a [unfolded apart_def, rule_format, of "s + (x - d)"] that by simp
  then show "copied n ?d ?s (copied k d s m) x = copied (n + k) d s m x"
    using unat_diff_shift [OF k, of x d] unfolding copied_def y by auto
qed

lemma filled_filled:
  assumes "k < 2 ^ 64" "n + k \<le> 2 ^ 64"
  shows "filled n (d + word_of_nat k) c (filled k d c m) = filled (n + k) d c m"
  using unat_diff_shift [OF assms, of _ d] by (auto simp: filled_def fun_eq_iff)

end
