(* ===== verification/StringLib.thy ===== *)
theory StringLib
  imports Memory "HOL-Library.Monad_Syntax"
begin

unbundle bit_operations_syntax

text \<open>
  The memory and string functions of \<^verbatim>\<open>libc/string.c\<close>. \<^verbatim>\<open>memcpy\<close> and \<^verbatim>\<open>memset\<close> use string instructions on
  x86 and otherwise move whole words between aligned addresses; the theory shows that they have the
  effect of the byte loop they optimise. The functions on zero-terminated strings do not return on
  memory without a terminator, so they are partial.
\<close>

section \<open>Blocks of memory\<close>

text \<open>The byte loops of the sources, also the effect of \<^verbatim>\<open>rep movsb\<close> and \<^verbatim>\<open>rep stosb\<close>.\<close>

fun copy_bytes :: "nat \<Rightarrow> addr \<Rightarrow> addr \<Rightarrow> mem \<Rightarrow> mem" where
  "copy_bytes 0 pdest psrc m = m"
| "copy_bytes (Suc n) pdest psrc m = copy_bytes n (pdest + 1) (psrc + 1) (m(pdest := m psrc))"

fun set_bytes :: "nat \<Rightarrow> addr \<Rightarrow> u8 \<Rightarrow> mem \<Rightarrow> mem" where
  "set_bytes 0 pdest c m = m"
| "set_bytes (Suc n) pdest c m = set_bytes n (pdest + 1) c (m(pdest := c))"

lemma misaligned_step: "\<not> IS_ALIGNED d 8 \<Longrightarrow> (8 - unat (d + 1) mod 8) mod 8 < (8 - unat d mod 8) mod 8"
proof -
  assume "\<not> IS_ALIGNED d 8"
  then have a: "unat d mod 8 \<noteq> 0" using IS_ALIGNED_dvd [of d 3] by (simp add: dvd_eq_mod_eq_0)
  have "unat (d + 1) mod 8 = (unat d + 1) mod 8"
    by (simp add: unat_word_ariths mod_mod_cancel)
  then have s: "unat (d + 1) mod 8 = (unat d mod 8 + 1) mod 8" by (simp add: mod_Suc_eq)
  have "unat d mod 8 < 8" by simp
  then consider "unat d mod 8 = 1" | "unat d mod 8 = 2" | "unat d mod 8 = 3" | "unat d mod 8 = 4"
    | "unat d mod 8 = 5" | "unat d mod 8 = 6" | "unat d mod 8 = 7" using a by linarith
  then show ?thesis using s by cases simp_all
qed

function align_copy :: "nat \<Rightarrow> addr \<Rightarrow> addr \<Rightarrow> mem \<Rightarrow> nat \<times> addr \<times> addr \<times> mem" where
  "align_copy n pdest psrc m = (if \<not> IS_ALIGNED pdest 8
     then align_copy (n - 1) (pdest + 1) (psrc + 1) (m(pdest := m psrc)) else (n, pdest, psrc, m))"
  by pat_completeness auto
termination
  by (relation "measure (\<lambda>(n, d, s, m). (8 - unat d mod 8) mod 8)") (auto simp: misaligned_step)

definition copy_word :: "addr \<Rightarrow> addr \<Rightarrow> mem \<Rightarrow> mem" where
  "copy_word wdest wsrc m = wr64 m wdest (rd64 m wsrc)"

fun copy_8_words :: "addr \<Rightarrow> addr \<Rightarrow> mem \<Rightarrow> mem" where
  "copy_8_words wdest wsrc m =
     (let m = copy_word wdest wsrc m;
          m = copy_word (wdest + 8) (wsrc + 8) m;
          m = copy_word (wdest + 16) (wsrc + 16) m;
          m = copy_word (wdest + 24) (wsrc + 24) m;
          m = copy_word (wdest + 32) (wsrc + 32) m;
          m = copy_word (wdest + 40) (wsrc + 40) m;
          m = copy_word (wdest + 48) (wsrc + 48) m;
          m = copy_word (wdest + 56) (wsrc + 56) m in m)"

fun copy_bulk :: "nat \<Rightarrow> addr \<Rightarrow> addr \<Rightarrow> mem \<Rightarrow> nat \<times> addr \<times> addr \<times> mem" where
  "copy_bulk n wdest wsrc m = (if n \<ge> 64
     then copy_bulk (n - 64) (wdest + 64) (wsrc + 64) (copy_8_words wdest wsrc m) else (n, wdest, wsrc, m))"

fun copy_words :: "nat \<Rightarrow> addr \<Rightarrow> addr \<Rightarrow> mem \<Rightarrow> nat \<times> addr \<times> addr \<times> mem" where
  "copy_words n wdest wsrc m = (if n \<ge> 8
     then copy_words (n - 8) (wdest + 8) (wsrc + 8) (copy_word wdest wsrc m) else (n, wdest, wsrc, m))"

declare align_copy.simps [simp del] copy_bulk.simps [simp del] copy_words.simps [simp del]

text \<open>\<open>x86\<close> says whether the code is compiled for x86, where large blocks are moved by one instruction.\<close>

definition memcpy :: "bool \<Rightarrow> mem \<Rightarrow> addr \<Rightarrow> addr \<Rightarrow> u64 \<Rightarrow> mem" where
  "memcpy x86 m dest src n =
    (if x86 \<and> n \<ge> 2048 then copy_bytes (unat n) dest src m
     else if n < 8 then copy_bytes (unat n) dest src m
     else if MISALIGNMENT dest 8 = MISALIGNMENT src 8 then
       (let (n, pdest, psrc, m) = align_copy (unat n) dest src m;
            (n, wdest, wsrc, m) = copy_bulk n pdest psrc m;
            (n, wdest, wsrc, m) = copy_words n wdest wsrc m
        in copy_bytes n wdest wsrc m)
     else copy_bytes (unat n) dest src m)"

function align_set :: "nat \<Rightarrow> addr \<Rightarrow> u8 \<Rightarrow> mem \<Rightarrow> nat \<times> addr \<times> mem" where
  "align_set n pdest c m = (if \<not> IS_ALIGNED pdest 8
     then align_set (n - 1) (pdest + 1) c (m(pdest := c)) else (n, pdest, m))"
  by pat_completeness auto
termination
  by (relation "measure (\<lambda>(n, d, c, m). (8 - unat d mod 8) mod 8)") (auto simp: misaligned_step)

fun set_8_words :: "addr \<Rightarrow> u64 \<Rightarrow> mem \<Rightarrow> mem" where
  "set_8_words wdest pattern m =
     (let m = wr64 m wdest pattern;
          m = wr64 m (wdest + 8) pattern;
          m = wr64 m (wdest + 16) pattern;
          m = wr64 m (wdest + 24) pattern;
          m = wr64 m (wdest + 32) pattern;
          m = wr64 m (wdest + 40) pattern;
          m = wr64 m (wdest + 48) pattern;
          m = wr64 m (wdest + 56) pattern in m)"

fun set_bulk :: "nat \<Rightarrow> addr \<Rightarrow> u64 \<Rightarrow> mem \<Rightarrow> nat \<times> addr \<times> mem" where
  "set_bulk n wdest pattern m = (if n \<ge> 64
     then set_bulk (n - 64) (wdest + 64) pattern (set_8_words wdest pattern m) else (n, wdest, m))"

fun set_words :: "nat \<Rightarrow> addr \<Rightarrow> u64 \<Rightarrow> mem \<Rightarrow> nat \<times> addr \<times> mem" where
  "set_words n wdest pattern m = (if n \<ge> 8
     then set_words (n - 8) (wdest + 8) pattern (wr64 m wdest pattern) else (n, wdest, m))"

declare align_set.simps [simp del] set_bulk.simps [simp del] set_words.simps [simp del]

definition memset :: "bool \<Rightarrow> mem \<Rightarrow> addr \<Rightarrow> u32 \<Rightarrow> u64 \<Rightarrow> mem" where
  "memset x86 m dest c n =
    (if x86 \<and> n \<ge> 2048 then set_bytes (unat n) dest (ucast c) m
     else if n < 8 then set_bytes (unat n) dest (ucast c) m
     else
       (let (n, pdest, m) = align_set (unat n) dest (ucast c) m;
            pattern = ucast (ucast c :: u8) * ((- 1) div 0xFF);
            (n, wdest, m) = set_bulk n pdest pattern m;
            (n, wdest, m) = set_words n wdest pattern m
        in set_bytes n wdest (ucast c) m))"

fun copy_bytes_down :: "nat \<Rightarrow> addr \<Rightarrow> addr \<Rightarrow> mem \<Rightarrow> mem" where
  "copy_bytes_down 0 pdest psrc m = m"
| "copy_bytes_down (Suc i) pdest psrc m =
     copy_bytes_down i pdest psrc (m(pdest + word_of_nat i := m (psrc + word_of_nat i)))"

definition memmove :: "mem \<Rightarrow> addr \<Rightarrow> addr \<Rightarrow> u64 \<Rightarrow> mem" where
  "memmove m dest src n =
    (if src > dest then copy_bytes (unat n) dest src m
     else if src < dest then copy_bytes_down (unat n) dest src m
     else m)"

fun memcmp_loop :: "mem \<Rightarrow> addr \<Rightarrow> addr \<Rightarrow> nat \<Rightarrow> int" where
  "memcmp_loop m p1 p2 0 = 0"
| "memcmp_loop m p1 p2 (Suc n) = (if m p1 \<noteq> m p2 then (if m p1 < m p2 then - 1 else 1)
     else memcmp_loop m (p1 + 1) (p2 + 1) n)"

definition memcmp :: "mem \<Rightarrow> addr \<Rightarrow> addr \<Rightarrow> u64 \<Rightarrow> int" where
  "memcmp m s1 s2 n = memcmp_loop m s1 s2 (unat n)"

fun memchr_loop :: "mem \<Rightarrow> addr \<Rightarrow> u8 \<Rightarrow> nat \<Rightarrow> addr" where
  "memchr_loop m p c 0 = 0"
| "memchr_loop m p c (Suc num) = (if m p = c then p else memchr_loop m (p + 1) c num)"

definition memchr :: "mem \<Rightarrow> addr \<Rightarrow> u32 \<Rightarrow> u64 \<Rightarrow> addr" where
  "memchr m ptr value num = memchr_loop m ptr (ucast value) (unat num)"

section \<open>Strings\<close>

partial_function (option) strlen_loop :: "mem \<Rightarrow> addr \<Rightarrow> addr option" where
  "strlen_loop m s = (if m s \<noteq> 0 then strlen_loop m (s + 1) else Some s)"

definition strlen :: "mem \<Rightarrow> addr \<Rightarrow> u64 option" where
  "strlen m str = do { s \<leftarrow> strlen_loop m str; Some (s - str) }"

fun strnlen_loop :: "mem \<Rightarrow> addr \<Rightarrow> nat \<Rightarrow> addr" where
  "strnlen_loop m s 0 = s"
| "strnlen_loop m s (Suc maxlen) = (if m s \<noteq> 0 then strnlen_loop m (s + 1) maxlen else s)"

definition strnlen :: "mem \<Rightarrow> addr \<Rightarrow> u64 \<Rightarrow> u64" where
  "strnlen m str maxlen = strnlen_loop m str (unat maxlen) - str"

text \<open>Plain \<^verbatim>\<open>char\<close> is signed on x86 and LoongArch and unsigned on RISC-V.\<close>

definition char_val :: "bool \<Rightarrow> u8 \<Rightarrow> int" where
  "char_val sc c = (if sc then sint c else uint c)"

partial_function (option) strcmp :: "bool \<Rightarrow> mem \<Rightarrow> addr \<Rightarrow> addr \<Rightarrow> int option" where
  "strcmp sc m s1 s2 = (if m s1 \<noteq> 0 \<and> m s1 = m s2 then strcmp sc m (s1 + 1) (s2 + 1)
     else Some (char_val sc (m s1) - char_val sc (m s2)))"

fun strncmp_loop :: "bool \<Rightarrow> mem \<Rightarrow> addr \<Rightarrow> addr \<Rightarrow> nat \<Rightarrow> int" where
  "strncmp_loop sc m s1 s2 0 = 0"
| "strncmp_loop sc m s1 s2 (Suc n) = (if m s1 \<noteq> 0 \<and> m s1 = m s2 then strncmp_loop sc m (s1 + 1) (s2 + 1) n
     else char_val sc (m s1) - char_val sc (m s2))"

definition strncmp :: "bool \<Rightarrow> mem \<Rightarrow> addr \<Rightarrow> addr \<Rightarrow> u64 \<Rightarrow> int" where
  "strncmp sc m s1 s2 n = strncmp_loop sc m s1 s2 (unat n)"

partial_function (option) strcpy :: "mem \<Rightarrow> addr \<Rightarrow> addr \<Rightarrow> mem option" where
  "strcpy m dest src = (let c = m src; m = m(dest := c) in
     if c \<noteq> 0 then strcpy m (dest + 1) (src + 1) else Some m)"

partial_function (option) strchr :: "mem \<Rightarrow> addr \<Rightarrow> u32 \<Rightarrow> addr option" where
  "strchr m s c = (if m s = ucast c then Some s else if m s = 0 then Some 0 else strchr m (s + 1) c)"

partial_function (option) strrchr_loop :: "mem \<Rightarrow> addr \<Rightarrow> u32 \<Rightarrow> addr \<Rightarrow> addr option" where
  "strrchr_loop m s c p = (let p = (if m s = ucast c then s else p) in
     if m s = 0 then Some p else strrchr_loop m (s + 1) c p)"

definition strrchr :: "mem \<Rightarrow> addr \<Rightarrow> u32 \<Rightarrow> addr option" where
  "strrchr m s c = strrchr_loop m s c 0"

section \<open>Block operations\<close>

lemma copied_1: "m(d := m s) = copied 1 d s m"
  by (auto simp: copied_def fun_eq_iff unat_eq_0)

lemma filled_1: "m(d := c) = filled 1 d c m"
  by (auto simp: filled_def fun_eq_iff unat_eq_0)

lemma copy_bytes_copied: "apart n d s \<Longrightarrow> n \<le> 2 ^ 64 \<Longrightarrow> copy_bytes n d s m = copied n d s m"
proof (induction n arbitrary: d s m)
  case (Suc n)
  have "apart n (d + 1) (s + 1)" using apart_shift [of n 1 d s] Suc.prems by simp
  then have "copy_bytes (Suc n) d s m = copied n (d + 1) (s + 1) (copied 1 d s m)"
    using Suc by (simp add: copied_1)
  then show ?case using copied_copied [of n 1 d s m] Suc.prems by simp
qed simp

lemma set_bytes_filled: "n \<le> 2 ^ 64 \<Longrightarrow> set_bytes n d c m = filled n d c m"
proof (induction n arbitrary: d m)
  case (Suc n)
  then show ?case using filled_filled [of 1 n d c m] by (simp add: filled_1)
qed simp

text \<open>A loop that has moved \<open>k\<close> of the \<open>n\<close> bytes.\<close>

definition moved :: "nat \<Rightarrow> addr \<Rightarrow> addr \<Rightarrow> mem \<Rightarrow> nat \<times> addr \<times> addr \<times> mem \<Rightarrow> bool" where
  "moved n d s m r \<longleftrightarrow> (\<exists>k\<le>n. k < 2 ^ 64 \<and> r = (n - k, d + word_of_nat k, s + word_of_nat k, copied k d s m))"

lemma moved_refl: "moved n d s m (n, d, s, m)"
  unfolding moved_def by (rule exI [of _ 0]) simp

lemma moved_step:
  assumes "moved (n - k) (d + word_of_nat k) (s + word_of_nat k) (copied k d s m) r"
    "apart n d s" "n < 2 ^ 64" "k \<le> n"
  shows "moved n d s m r"
proof -
  obtain j where j: "j \<le> n - k" "r = (n - k - j, d + word_of_nat k + word_of_nat j, s + word_of_nat k + word_of_nat j,
      copied j (d + word_of_nat k) (s + word_of_nat k) (copied k d s m))" using assms(1) by (auto simp: moved_def)
  have "apart (j + k) d s" using apart_mono [OF assms(2)] j(1) assms(4) by simp
  then have "copied j (d + word_of_nat k) (s + word_of_nat k) (copied k d s m) = copied (j + k) d s m"
    using copied_copied [of j k d s m] j(1) assms(3,4) by simp
  moreover have "j + k \<le> n" "j + k < 2 ^ 64" using j(1) assms(3,4) by linarith+
  ultimately show ?thesis using j unfolding moved_def by (intro exI [of _ "j + k"]) (simp add: ac_simps)
qed

lemma moved_trans:
  assumes "moved n d s m (n1, d1, s1, m1)" "moved n1 d1 s1 m1 r" "apart n d s" "n < 2 ^ 64"
  shows "moved n d s m r"
proof -
  obtain k where "k \<le> n" "n1 = n - k" "d1 = d + word_of_nat k" "s1 = s + word_of_nat k" "m1 = copied k d s m"
    using assms(1) by (auto simp: moved_def)
  then show ?thesis using moved_step [of n k d s m r] assms by simp
qed

lemma moved_apart:
  assumes "moved n d s m (n1, d1, s1, m1)" "apart n d s" "n < 2 ^ 64"
  shows "apart n1 d1 s1" "n1 < 2 ^ 64" "copied n1 d1 s1 m1 = copied n d s m"
proof -
  obtain k where k: "k \<le> n" "n1 = n - k" "d1 = d + word_of_nat k" "s1 = s + word_of_nat k" "m1 = copied k d s m"
    using assms(1) by (auto simp: moved_def)
  then show "apart n1 d1 s1" "n1 < 2 ^ 64" "copied n1 d1 s1 m1 = copied n d s m"
    using apart_shift [of "n - k" k d s] copied_copied [of "n - k" k d s m] assms(2,3) by simp_all
qed

lemma align_copy_moved:
  "apart n d s \<Longrightarrow> n < 2 ^ 64 \<Longrightarrow> (8 - unat d mod 8) mod 8 \<le> n \<Longrightarrow> moved n d s m (align_copy n d s m)"
proof (induction n d s m rule: align_copy.induct)
  case (1 n d s m)
  show ?case
  proof (cases "IS_ALIGNED d 8")
    case True
    then show ?thesis by (simp add: align_copy.simps moved_refl)
  next
    case False
    have lt: "(8 - unat (d + 1) mod 8) mod 8 \<le> n - 1" "1 \<le> n" using misaligned_step [OF False] "1.prems"(3) by linarith+
    have "apart (n - 1) (d + 1) (s + 1)" using apart_shift [of "n - 1" 1 d s] "1.prems" lt(2) by simp
    then have "moved (n - 1) (d + 1) (s + 1) (copied 1 d s m) (align_copy n d s m)"
      using "1.IH" [OF False] "1.prems" lt False by (subst align_copy.simps) (simp add: copied_1)
    then show ?thesis using moved_step [of n 1 d s m] "1.prems" lt(2) by simp
  qed
qed

lemma copy_word_copied: "apart 8 d s \<Longrightarrow> copy_word d s m = copied 8 d s m"
  by (simp add: copy_word_def wr_rd copied_def)

lemma copy_next_word:
  assumes "apart (8 + k) d s" "k + 8 < 2 ^ 64"
  shows "copy_word (d + word_of_nat k) (s + word_of_nat k) (copied k d s m) = copied (8 + k) d s m"
  using copy_word_copied [OF apart_shift [OF assms(1)]] copied_copied [OF assms(1)] assms(2) by simp

lemma copy_8_words_copied:
  assumes "apart 64 d s"
  shows "copy_8_words d s m = copied 64 d s m"
proof -
  have a: "apart k d s" if "k \<le> 64" for k using apart_mono [OF assms that] .
  show ?thesis
    using copy_word_copied [OF a, of m] copy_next_word [OF a, of 8 m] copy_next_word [OF a, of 16 m]
      copy_next_word [OF a, of 24 m] copy_next_word [OF a, of 32 m] copy_next_word [OF a, of 40 m]
      copy_next_word [OF a, of 48 m] copy_next_word [OF a, of 56 m] by simp
qed

lemma copy_bulk_moved: "apart n d s \<Longrightarrow> n < 2 ^ 64 \<Longrightarrow> moved n d s m (copy_bulk n d s m)"
proof (induction n d s m rule: copy_bulk.induct)
  case (1 n d s m)
  show ?case
  proof (cases "64 \<le> n")
    case True
    have a: "apart (n - 64) (d + 64) (s + 64)" "apart 64 d s"
      using apart_shift [of "n - 64" 64 d s] apart_mono [of n d s 64] "1.prems" True by simp_all
    have "moved (n - 64) (d + 64) (s + 64) (copied 64 d s m) (copy_bulk n d s m)"
      using "1.IH" [OF True a(1)] "1.prems" True copy_8_words_copied [OF a(2), of m]
      by (subst copy_bulk.simps) simp
    then show ?thesis using moved_step [of n 64 d s m] "1.prems" True by simp
  qed (simp add: copy_bulk.simps moved_refl)
qed

lemma copy_words_moved: "apart n d s \<Longrightarrow> n < 2 ^ 64 \<Longrightarrow> moved n d s m (copy_words n d s m)"
proof (induction n d s m rule: copy_words.induct)
  case (1 n d s m)
  show ?case
  proof (cases "8 \<le> n")
    case True
    have a: "apart (n - 8) (d + 8) (s + 8)" "apart 8 d s"
      using apart_shift [of "n - 8" 8 d s] apart_mono [of n d s 8] "1.prems" True by simp_all
    have "moved (n - 8) (d + 8) (s + 8) (copied 8 d s m) (copy_words n d s m)"
      using "1.IH" [OF True a(1)] "1.prems" True copy_word_copied [OF a(2), of m]
      by (subst copy_words.simps) simp
    then show ?thesis using moved_step [of n 8 d s m] "1.prems" True by simp
  qed (simp add: copy_words.simps moved_refl)
qed

lemma pad_le: "\<not> n < 8 \<Longrightarrow> (8 - unat d mod 8) mod 8 \<le> unat n" for n d :: u64
proof -
  assume "\<not> n < 8"
  then have "8 \<le> unat n" by (simp add: word_less_nat_alt not_less)
  moreover have "(8 - unat d mod 8) mod 8 < 8" by simp
  ultimately show ?thesis by linarith
qed

lemma memcpy_copied:
  assumes a: "apart (unat n) dest src"
  shows "memcpy x86 m dest src n = copied (unat n) dest src m"
proof (cases "(x86 \<and> n \<ge> 2048) \<or> n < 8 \<or> MISALIGNMENT dest 8 \<noteq> MISALIGNMENT src 8")
  case True
  then show ?thesis
    using copy_bytes_copied [OF a, of m] unat_lt64 [of n] by (auto simp: memcpy_def)
next
  case False
  let ?n = "unat n"
  have n: "?n < 2 ^ 64" "(8 - unat dest mod 8) mod 8 \<le> ?n" using False unat_lt64 [of n] by (simp_all add: pad_le)
  obtain n1 d1 s1 m1 where 1: "align_copy ?n dest src m = (n1, d1, s1, m1)" by (metis prod_cases4)
  obtain n2 d2 s2 m2 where 2: "copy_bulk n1 d1 s1 m1 = (n2, d2, s2, m2)" by (metis prod_cases4)
  obtain n3 d3 s3 m3 where 3: "copy_words n2 d2 s2 m2 = (n3, d3, s3, m3)" by (metis prod_cases4)
  note m1 = moved_apart [OF align_copy_moved [OF a n, of m, unfolded 1] a n(1)]
  note m2 = moved_apart [OF copy_bulk_moved [OF m1(1,2), of m1, unfolded 2] m1(1,2)]
  note m3 = moved_apart [OF copy_words_moved [OF m2(1,2), of m2, unfolded 3] m2(1,2)]
  have "memcpy x86 m dest src n = copy_bytes n3 d3 s3 m3" using False 1 2 3 by (auto simp: memcpy_def)
  also have "\<dots> = copied ?n dest src m" using copy_bytes_copied [OF m3(1), of m3] m1 m2 m3 by simp
  finally show ?thesis .
qed

definition filling :: "nat \<Rightarrow> addr \<Rightarrow> u8 \<Rightarrow> mem \<Rightarrow> nat \<times> addr \<times> mem \<Rightarrow> bool" where
  "filling n d c m r \<longleftrightarrow> (\<exists>k\<le>n. k < 2 ^ 64 \<and> r = (n - k, d + word_of_nat k, filled k d c m))"

lemma filling_refl: "filling n d c m (n, d, m)"
  unfolding filling_def by (rule exI [of _ 0]) simp

lemma filling_step:
  assumes "filling (n - k) (d + word_of_nat k) c (filled k d c m) r" "n < 2 ^ 64" "k \<le> n"
  shows "filling n d c m r"
proof -
  obtain j where j: "j \<le> n - k" "r = (n - k - j, d + word_of_nat k + word_of_nat j,
      filled j (d + word_of_nat k) c (filled k d c m))" using assms(1) by (auto simp: filling_def)
  have b: "j + k \<le> n" "j + k < 2 ^ 64" using j(1) assms(2,3) by linarith+
  then show ?thesis using j filled_filled [of k j d c m] unfolding filling_def
    by (intro exI [of _ "j + k"]) (simp add: ac_simps)
qed

lemma filling_filled:
  assumes "filling n d c m (n1, d1, m1)" "n < 2 ^ 64"
  shows "n1 < 2 ^ 64" "filled n1 d1 c m1 = filled n d c m"
proof -
  obtain k where k: "k \<le> n" "n1 = n - k" "d1 = d + word_of_nat k" "m1 = filled k d c m"
    using assms(1) by (auto simp: filling_def)
  then show "n1 < 2 ^ 64" "filled n1 d1 c m1 = filled n d c m"
    using filled_filled [of k "n - k" d c m] assms(2) by simp_all
qed

lemma align_set_filling:
  "n < 2 ^ 64 \<Longrightarrow> (8 - unat d mod 8) mod 8 \<le> n \<Longrightarrow> filling n d c m (align_set n d c m)"
proof (induction n d c m rule: align_set.induct)
  case (1 n d c m)
  show ?case
  proof (cases "IS_ALIGNED d 8")
    case True
    then show ?thesis by (simp add: align_set.simps filling_refl)
  next
    case False
    have lt: "(8 - unat (d + 1) mod 8) mod 8 \<le> n - 1" "1 \<le> n" using misaligned_step [OF False] "1.prems"(2) by linarith+
    have "filling (n - 1) (d + 1) c (filled 1 d c m) (align_set n d c m)"
      using "1.IH" [OF False] "1.prems" lt False by (subst align_set.simps) (simp add: filled_1)
    then show ?thesis using filling_step [of n 1 d c m] "1.prems" lt(2) by simp
  qed
qed

definition pattern_of :: "u8 \<Rightarrow> u64" where
  "pattern_of c = ucast c * ((- 1) div 0xFF)"

lemma pattern_bytes: "pattern_of c = le_word (replicate 8 c)"
proof -
  have "((- 1) div 0xFF :: u64) = 0x0101010101010101" by simp
  then show ?thesis by (simp add: pattern_of_def numeral_eq_Suc algebra_simps)
qed

lemma wr_pattern: "wr64 m d (pattern_of c) = filled 8 d c m"
proof
  fix x
  have "ucast (drop_bit (8 * i) (pattern_of c)) = c" if i: "i < 8" for i
  proof (rule bit_word_eqI)
    fix k assume "k < LENGTH(8)"
    then have k: "k < 8" "(8 * i + k) div 8 = i" "(8 * i + k) mod 8 = k" by simp_all
    then show "bit (ucast (drop_bit (8 * i) (pattern_of c)) :: u8) k = bit c k"
      using i by (simp add: pattern_bytes bit_simps bit_le_word)
  qed
  then show "wr64 m d (pattern_of c) x = filled 8 d c m x" by (simp add: wr_def filled_def)
qed

lemma set_8_words_filled: "set_8_words d (pattern_of c) m = filled 64 d c m"
proof -
  have s: "wr64 (filled k d c m) (d + word_of_nat k) (pattern_of c) = filled (8 + k) d c m" if "k < 64" for k
    using filled_filled [of k 8 d c m] that by (simp add: wr_pattern)
  show ?thesis using wr_pattern [of m d c] s [of 8] s [of 16] s [of 24] s [of 32] s [of 40] s [of 48] s [of 56] by simp
qed

lemma set_bulk_filling: "n < 2 ^ 64 \<Longrightarrow> filling n d c m (set_bulk n d (pattern_of c) m)"
proof (induction n d "pattern_of c" m rule: set_bulk.induct)
  case (1 n d m)
  show ?case
  proof (cases "64 \<le> n")
    case True
    have "filling (n - 64) (d + 64) c (filled 64 d c m) (set_bulk n d (pattern_of c) m)"
      using "1.hyps" [OF True] "1.prems" True set_8_words_filled [of d c m] by (subst set_bulk.simps) simp
    then show ?thesis using filling_step [of n 64 d c m] "1.prems" True by simp
  qed (simp add: set_bulk.simps filling_refl)
qed

lemma set_words_filling: "n < 2 ^ 64 \<Longrightarrow> filling n d c m (set_words n d (pattern_of c) m)"
proof (induction n d "pattern_of c" m rule: set_words.induct)
  case (1 n d m)
  show ?case
  proof (cases "8 \<le> n")
    case True
    have "filling (n - 8) (d + 8) c (filled 8 d c m) (set_words n d (pattern_of c) m)"
      using "1.hyps" [OF True] "1.prems" True wr_pattern [of m d c] by (subst set_words.simps) simp
    then show ?thesis using filling_step [of n 8 d c m] "1.prems" True by simp
  qed (simp add: set_words.simps filling_refl)
qed

lemma memset_filled: "memset x86 m dest c n = filled (unat n) dest (ucast c) m"
proof (cases "(x86 \<and> n \<ge> 2048) \<or> n < 8")
  case True
  then show ?thesis using set_bytes_filled [of "unat n" dest "ucast c" m] unat_lt64 [of n] by (auto simp: memset_def)
next
  case False
  let ?n = "unat n" and ?c = "ucast c :: u8"
  have n: "?n < 2 ^ 64" "(8 - unat dest mod 8) mod 8 \<le> ?n" using False unat_lt64 [of n] by (simp_all add: pad_le)
  obtain n1 d1 m1 where 1: "align_set ?n dest ?c m = (n1, d1, m1)" by (metis prod_cases3)
  obtain n2 d2 m2 where 2: "set_bulk n1 d1 (pattern_of ?c) m1 = (n2, d2, m2)" by (metis prod_cases3)
  obtain n3 d3 m3 where 3: "set_words n2 d2 (pattern_of ?c) m2 = (n3, d3, m3)" by (metis prod_cases3)
  note m1 = filling_filled [OF align_set_filling [OF n, of ?c m, unfolded 1] n(1)]
  note m2 = filling_filled [OF set_bulk_filling [OF m1(1), of d1 ?c m1, unfolded 2] m1(1)]
  note m3 = filling_filled [OF set_words_filling [OF m2(1), of d2 ?c m2, unfolded 3] m2(1)]
  have "memset x86 m dest c n = set_bytes n3 d3 ?c m3"
    using False 1 2 3 by (auto simp: memset_def pattern_of_def)
  also have "\<dots> = filled ?n dest ?c m" using set_bytes_filled [of n3 d3 ?c m3] m1 m2 m3 by simp
  finally show ?thesis .
qed

lemma unat_add_small: "unat (a :: u64) + k < 2 ^ 64 \<Longrightarrow> unat (a + word_of_nat k) = unat a + k"
  by (subst unat_add_no_wrap) (simp_all add: unat_of_nat)

lemma apartI:
  assumes "unat d + n \<le> unat s" "unat s + n \<le> 2 ^ 64"
  shows "apart n d s"
proof -
  have "\<not> unat (x - s) < n" if "unat (x - d) < n" for x
  proof
    assume s: "unat (x - s) < n"
    have "unat (d + word_of_nat (unat (x - d))) = unat d + unat (x - d)"
      using assms that by (intro unat_add_small) linarith
    moreover have "unat (s + word_of_nat (unat (x - s))) = unat s + unat (x - s)"
      using assms s by (intro unat_add_small) linarith
    ultimately show False using assms that s by simp
  qed
  then show ?thesis by (auto simp: apart_def)
qed

lemma copy_bytes_up:
  "d < s \<Longrightarrow> unat s + n \<le> 2 ^ 64 \<Longrightarrow> copy_bytes n d s m = copied n d s m"
proof (induction n arbitrary: d s m)
  case (Suc n)
  show ?case
  proof (cases "n = 0")
    case False
    have us: "unat (s + 1) = unat s + 1" "unat (d + 1) = unat d + 1"
      using Suc.prems False unat_add_small [of s 1] unat_add_small [of d 1] by (simp_all add: word_less_nat_alt)
    then have "d + 1 < s + 1" "unat (s + 1) + n \<le> 2 ^ 64" using Suc.prems by (simp_all add: word_less_nat_alt)
    then have "copy_bytes (Suc n) d s m = copied n (d + 1) (s + 1) (m(d := m s))"
      by (simp only: copy_bytes.simps Suc.IH)
    also have "\<dots> = copied (Suc n) d s m"
    proof
      fix x
      have t: "s + (x - d) \<noteq> d" if "unat (x - d) < Suc n"
      proof
        assume "s + (x - d) = d"
        from arg_cong [OF this, of unat] show False
          using unat_add_small [of s "unat (x - d)"] Suc.prems that by (simp add: word_less_nat_alt)
      qed
      have "unat (x - d) < Suc n \<longleftrightarrow> x = d \<or> unat (x - (d + 1)) < n"
        using unat_diff_shift [of 1 n x d] Suc.prems by (simp add: unat_eq_0)
      then show "copied n (d + 1) (s + 1) (m(d := m s)) x = copied (Suc n) d s m x"
        using t by (auto simp: copied_def unat_eq_0)
    qed
    finally show ?thesis .
  qed (use copied_1 [of m d s] in simp)
qed simp

lemma copy_bytes_down_copied:
  "s < d \<Longrightarrow> unat d + n \<le> 2 ^ 64 \<Longrightarrow> copy_bytes_down n d s m = copied n d s m"
proof (induction n arbitrary: m)
  case (Suc n)
  let ?m = "m(d + word_of_nat n := m (s + word_of_nat n))"
  have n: "unat (word_of_nat n :: u64) = n" "unat (d + word_of_nat n) = unat d + n"
    using Suc.prems by (simp_all add: unat_of_nat unat_add_small)
  have "copied n d s ?m x = copied (Suc n) d s m x" for x
  proof -
    have t: "s + (x - d) \<noteq> d + word_of_nat n" if "unat (x - d) < n"
    proof
      assume "s + (x - d) = d + word_of_nat n"
      from arg_cong [OF this, of unat] show False
        using unat_add_small [of s "unat (x - d)"] Suc.prems that n by (simp add: word_less_nat_alt)
    qed
    have "unat (x - d) = n \<longleftrightarrow> x = d + word_of_nat n"
      using n(1) word_unat_eq_iff [of "x - d" "word_of_nat n"] by (auto simp: algebra_simps)
    then show ?thesis using t by (auto simp: copied_def less_Suc_eq)
  qed
  then show ?case using Suc by (simp add: fun_eq_iff)
qed simp

lemma memmove_copied:
  assumes "unat dest + unat n \<le> 2 ^ 64" "unat src + unat n \<le> 2 ^ 64"
  shows "memmove m dest src n = copied (unat n) dest src m"
proof -
  have "copied k d d m = m" for k d by (auto simp: copied_def fun_eq_iff)
  then show ?thesis
    using assms copy_bytes_up [of dest src "unat n" m] copy_bytes_down_copied [of src dest "unat n" m]
    by (cases src dest rule: linorder_cases) (auto simp: memmove_def)
qed

lemma memcmp_loop_cases:
  "((\<forall>i<n. m (p + word_of_nat i) = m (q + word_of_nat i)) \<and> memcmp_loop m p q n = 0) \<or>
   (\<exists>i<n. (\<forall>j<i. m (p + word_of_nat j) = m (q + word_of_nat j)) \<and> m (p + word_of_nat i) \<noteq> m (q + word_of_nat i) \<and>
      memcmp_loop m p q n = (if m (p + word_of_nat i) < m (q + word_of_nat i) then - 1 else 1))"
proof (induction n arbitrary: p q)
  case (Suc n)
  have sh: "(\<forall>j<Suc i. P j) \<longleftrightarrow> P 0 \<and> (\<forall>j<i. P (Suc j))" for P i by (auto simp: less_Suc_eq_0_disj)
  show ?case
  proof (cases "m p = m q")
    case True
    from Suc [of "p + 1" "q + 1"] show ?thesis
    proof (elim disjE exE conjE, goal_cases)
      case 1
      then show ?thesis using True by (intro disjI1) (simp add: sh ac_simps)
    next
      case (2 i)
      then show ?thesis using True by (intro disjI2 exI [of _ "Suc i"]) (simp add: sh ac_simps)
    qed
  next
    case False
    then show ?thesis by (intro disjI2 exI [of _ 0]) simp
  qed
qed simp

lemma memcmp_0: "memcmp m p q n = 0 \<longleftrightarrow> (\<forall>i<unat n. m (p + word_of_nat i) = m (q + word_of_nat i))"
  using memcmp_loop_cases [of "unat n" m p q] by (auto simp: memcmp_def split: if_splits)

section \<open>Zero-terminated strings\<close>

definition cstr :: "mem \<Rightarrow> addr \<Rightarrow> nat \<Rightarrow> bool" where
  "cstr m a n \<longleftrightarrow> (\<forall>i<n. m (a + word_of_nat i) \<noteq> 0) \<and> m (a + word_of_nat n) = 0 \<and> n < 2 ^ 64"

lemma cstr_0 [simp]: "cstr m a 0 \<longleftrightarrow> m a = 0"
  by (simp add: cstr_def)

lemma cstr_Suc: "cstr m a (Suc n) \<longleftrightarrow> m a \<noteq> 0 \<and> cstr m (a + 1) n \<and> Suc n < 2 ^ 64"
proof -
  have "(\<forall>j<Suc n. P j) \<longleftrightarrow> P 0 \<and> (\<forall>j<n. P (Suc j))" for P by (auto simp: less_Suc_eq_0_disj)
  then show ?thesis by (auto simp: cstr_def ac_simps)
qed

lemma strlen_loop_cstr: "cstr m a n \<Longrightarrow> strlen_loop m a = Some (a + word_of_nat n)"
proof (induction n arbitrary: a)
  case (Suc n)
  then show ?case by (subst strlen_loop.simps) (simp add: cstr_Suc ac_simps)
qed (simp add: strlen_loop.simps)

lemma strnlen_loop_cstr: "cstr m a n \<Longrightarrow> strnlen_loop m a k = a + word_of_nat (min n k)"
  by (induction n arbitrary: a k) (case_tac k; simp add: cstr_Suc ac_simps)+

lemma char_val_eq: "char_val sc a - char_val sc b = 0 \<longleftrightarrow> a = b"
  by (auto simp: char_val_def dest: signed_word_eqI unsigned_word_eqI)

lemma strcmp_cstr:
  "cstr m a n \<Longrightarrow> cstr m b k \<Longrightarrow>
   \<exists>r. strcmp sc m a b = Some r \<and> (r = 0 \<longleftrightarrow> n = k \<and> (\<forall>i<n. m (a + word_of_nat i) = m (b + word_of_nat i)))"
proof (induction n arbitrary: a b k)
  case 0
  then have "strcmp sc m a b = Some (char_val sc (m a) - char_val sc (m b))" by (simp add: strcmp.simps)
  then show ?case using 0 char_val_eq [of sc "m a" "m b"] by (cases k) (auto simp: cstr_Suc)
next
  case (Suc n)
  have sh: "(\<forall>j<Suc i. P j) \<longleftrightarrow> P 0 \<and> (\<forall>j<i. P (Suc j))" for P i by (auto simp: less_Suc_eq_0_disj)
  show ?case
  proof (cases "m a = m b")
    case True
    then obtain k' where k: "k = Suc k'" using Suc.prems by (cases k) (auto simp: cstr_Suc)
    then show ?thesis
      using Suc.IH [of "a + 1" "b + 1" k'] Suc.prems True
      by (subst strcmp.simps) (simp add: cstr_Suc sh ac_simps)
  next
    case False
    then have "strcmp sc m a b = Some (char_val sc (m a) - char_val sc (m b))" by (simp add: strcmp.simps)
    then show ?thesis using False char_val_eq [of sc "m a" "m b"] by (auto simp: sh)
  qed
qed

lemma strcpy_cstr: "cstr m src n \<Longrightarrow> apart (Suc n) dest src \<Longrightarrow> strcpy m dest src = Some (copied (Suc n) dest src m)"
proof (induction n arbitrary: m dest src)
  case 0
  then show ?case using copied_1 [of m dest src] by (subst strcpy.simps) (simp add: Let_def)
next
  case (Suc n)
  let ?m = "m(dest := m src)"
  have small: "Suc (Suc n) \<le> 2 ^ 64" using Suc.prems(1) by (simp add: cstr_def)
  have a: "apart (Suc n) (dest + 1) (src + 1)" using apart_shift [of "Suc n" 1 dest src] Suc.prems(2) small by simp
  have ne: "src + word_of_nat i \<noteq> dest" if "i < Suc (Suc n)" for i
  proof
    assume e: "src + word_of_nat i = dest"
    have "unat (dest - src) < Suc (Suc n)" using that small by (simp add: e [symmetric] unat_of_nat)
    then show False using Suc.prems(2) unfolding apart_def by (metis diff_self unat_0 zero_less_Suc)
  qed
  then have "src + 1 + word_of_nat i \<noteq> dest" if "i < Suc n" for i using ne [of "Suc i"] that by (simp add: ac_simps)
  then have "cstr ?m (src + 1) n" using Suc.prems(1) [unfolded cstr_Suc] unfolding cstr_def by auto
  then have "strcpy m dest src = Some (copied (Suc n) (dest + 1) (src + 1) (copied 1 dest src m))"
    using Suc.IH [OF _ a, of ?m] Suc.prems(1) by (subst strcpy.simps) (simp add: Let_def cstr_Suc copied_1)
  then show ?case using copied_copied [of "Suc n" 1 dest src m] Suc.prems(2) small by simp
qed

text \<open>The first and the last place of a byte in a string, its terminator included.\<close>

lemma strchr_cstr:
  "cstr m a n \<Longrightarrow> i \<le> n \<Longrightarrow> m (a + word_of_nat i) = ucast c \<Longrightarrow> (\<And>j. j < i \<Longrightarrow> m (a + word_of_nat j) \<noteq> ucast c) \<Longrightarrow>
   strchr m a c = Some (a + word_of_nat i)"
proof (induction i arbitrary: a n)
  case 0
  then show ?case by (simp add: strchr.simps)
next
  case (Suc i)
  then obtain n' where n: "n = Suc n'" by (cases n) auto
  have "m (a + 1 + word_of_nat j) \<noteq> ucast c" if "j < i" for j using Suc.prems(4) [of "Suc j"] that by (simp add: ac_simps)
  then show ?case
    using Suc.IH [of "a + 1" n'] Suc.prems(1-3) Suc.prems(4) [of 0] by (subst strchr.simps) (simp add: n cstr_Suc ac_simps)
qed

lemma strchr_none:
  "cstr m a n \<Longrightarrow> (\<And>j. j \<le> n \<Longrightarrow> m (a + word_of_nat j) \<noteq> ucast c) \<Longrightarrow> strchr m a c = Some 0"
proof (induction n arbitrary: a)
  case 0
  then show ?case using 0(2) [of 0] by (simp add: strchr.simps)
next
  case (Suc n)
  have "m (a + 1 + word_of_nat j) \<noteq> ucast c" if "j \<le> n" for j using Suc.prems(2) [of "Suc j"] that by (simp add: ac_simps)
  then show ?case
    using Suc.IH [of "a + 1"] Suc.prems(1) Suc.prems(2) [of 0] by (subst strchr.simps) (simp add: cstr_Suc)
qed

lemma strrchr_loop_none:
  "cstr m a n \<Longrightarrow> (\<And>j. j \<le> n \<Longrightarrow> m (a + word_of_nat j) \<noteq> ucast c) \<Longrightarrow> strrchr_loop m a c p = Some p"
proof (induction n arbitrary: a)
  case 0
  then show ?case using 0(2) [of 0] by (simp add: strrchr_loop.simps)
next
  case (Suc n)
  have "m (a + 1 + word_of_nat j) \<noteq> ucast c" if "j \<le> n" for j using Suc.prems(2) [of "Suc j"] that by (simp add: ac_simps)
  then show ?case
    using Suc.IH [of "a + 1"] Suc.prems(1) Suc.prems(2) [of 0] by (subst strrchr_loop.simps) (simp add: cstr_Suc)
qed

lemma strrchr_loop_cstr:
  "cstr m a n \<Longrightarrow> i \<le> n \<Longrightarrow> m (a + word_of_nat i) = ucast c \<Longrightarrow>
   (\<And>j. i < j \<Longrightarrow> j \<le> n \<Longrightarrow> m (a + word_of_nat j) \<noteq> ucast c) \<Longrightarrow> strrchr_loop m a c p = Some (a + word_of_nat i)"
proof (induction n arbitrary: a i p)
  case 0
  then show ?case by (simp add: strrchr_loop.simps)
next
  case (Suc n)
  have step: "strrchr_loop m a c p = strrchr_loop m (a + 1) c (if m a = ucast c then a else p)"
    using Suc.prems(1) by (subst strrchr_loop.simps) (simp add: cstr_Suc Let_def)
  show ?case
  proof (cases i)
    case 0
    have "m (a + 1 + word_of_nat j) \<noteq> ucast c" if "j \<le> n" for j using Suc.prems(4) [of "Suc j"] that 0 by (simp add: ac_simps)
    then show ?thesis using strrchr_loop_none [of m "a + 1" n c] Suc.prems(1,3) 0 by (simp add: step cstr_Suc)
  next
    case (Suc i')
    have "m (a + 1 + word_of_nat j) \<noteq> ucast c" if "i' < j" "j \<le> n" for j
      using Suc.prems(4) [of "Suc j"] that Suc by (simp add: ac_simps)
    then show ?thesis using Suc.IH [of "a + 1" i'] Suc.prems(1-3) Suc by (simp add: step cstr_Suc ac_simps)
  qed
qed

section \<open>Properties\<close>

text \<open>C12. \<^verbatim>\<open>memcpy\<close> on blocks that do not overlap sets each byte of the destination to the byte of the
  source at the same offset and changes nothing else, whichever of its paths it takes.\<close>

theorem memcpy_copies:
  assumes "apart (unat n) dest src"
  shows "(\<forall>i<unat n. memcpy x86 m dest src n (dest + word_of_nat i) = m (src + word_of_nat i)) \<and>
    (\<forall>x. \<not> in_range (unat n) dest x \<longrightarrow> memcpy x86 m dest src n x = m x)"
proof -
  have "unat (word_of_nat i :: u64) = i" if "i < unat n" for i
    using that unat_lt64 [of n] by (simp add: unat_of_nat)
  then show ?thesis unfolding memcpy_copied [OF assms] by (simp add: copied_def in_range_def)
qed

theorem memcpy_copies_witness:
  "apart (unat (16 :: u64)) 0x1000 0x2000 \<and> memcpy False (\<lambda>x. ucast x) 0x1000 0x2000 16 (0x1000 + word_of_nat 3) = 3"
proof -
  have a: "apart (unat (16 :: u64)) 0x1000 0x2000" by (rule apartI) simp_all
  then show ?thesis using conjunct1 [OF memcpy_copies [OF a], rule_format, of 3 False "\<lambda>x. ucast x"] by simp
qed

text \<open>\<^verbatim>\<open>memset\<close> sets exactly the bytes of the block to the low byte of its argument, whichever of its
  paths it takes.\<close>

lemma memset_fills:
  "memset x86 m dest c n = (\<lambda>x. if in_range (unat n) dest x then ucast c else m x)"
  by (simp add: memset_filled filled_def in_range_def)

text \<open>C13. \<^verbatim>\<open>memmove\<close> copies correctly also when the blocks overlap: each byte of the destination becomes the
  byte that the source had before the call.\<close>

theorem memmove_copies:
  assumes "unat dest + unat n \<le> 2 ^ 64" "unat src + unat n \<le> 2 ^ 64"
  shows "(\<forall>i<unat n. memmove m dest src n (dest + word_of_nat i) = m (src + word_of_nat i)) \<and>
    (\<forall>x. \<not> in_range (unat n) dest x \<longrightarrow> memmove m dest src n x = m x)"
proof -
  have "unat (word_of_nat i :: u64) = i" if "i < unat n" for i
    using that unat_lt64 [of n] by (simp add: unat_of_nat)
  then show ?thesis unfolding memmove_copied [OF assms] by (simp add: copied_def in_range_def)
qed

theorem memmove_copies_witness:
  "unat (0x1001 :: u64) + unat (5 :: u64) \<le> 2 ^ 64 \<and> memmove (\<lambda>x. ucast x) 0x1001 0x1000 5 (0x1001 + word_of_nat 2) = 2"
  using conjunct1 [OF memmove_copies [of "0x1001" 5 "0x1000"], rule_format, of 2 "\<lambda>x. ucast x"] by simp



end
