(* ===== verification/Dwarf.thy ===== *)
theory Dwarf
  imports Memory
begin

unbundle bit_operations_syntax

text \<open>
  The readers of DWARF data of \<^verbatim>\<open>loader/dwarf/helpers.h\<close> and the search of a frame description entry
  in a \<^verbatim>\<open>.debug_frame\<close> section, \<^verbatim>\<open>loader/dwarf/fde.c\<close>. A section is the list of its bytes and a pointer
  into it is an offset; reading outside the section is the error \<open>OutOfBounds\<close> and a routine that
  returns false is \<open>Rejected\<close>. The theory shows that no input makes the code read outside the section.
\<close>

type_synonym bytes = "u8 list"

definition byte_at :: "bytes \<Rightarrow> nat \<Rightarrow> u8 result" where
  "byte_at bs p = (if p < length bs then Inr (bs ! p) else Inl OutOfBounds)"

text \<open>A field of \<open>n\<close> bytes of a packed structure.\<close>

definition field :: "nat \<Rightarrow> bytes \<Rightarrow> nat \<Rightarrow> 'a::len word result" where
  "field n bs p = (if p + n \<le> length bs then Inr (le_word (take n (drop p bs))) else Inl OutOfBounds)"

text \<open>The difference of two pointers as an unsigned number, which is huge when the first is the smaller one.\<close>

definition ptr_diff :: "nat \<Rightarrow> nat \<Rightarrow> nat" where
  "ptr_diff end p = (if p \<le> end then end - p else 2 ^ 64 - (p - end))"

section \<open>LEB128 numbers\<close>

function dwarf_read_uleb_impl :: "bytes \<Rightarrow> nat \<Rightarrow> nat \<Rightarrow> u64 \<Rightarrow> nat \<Rightarrow> (u64 \<times> nat \<times> nat) result" where
  "dwarf_read_uleb_impl bs p end res shift =
    (if p \<ge> end then Inl Rejected
     else if shift \<ge> 64 then Inl Rejected
     else ebind (byte_at bs p) (\<lambda>b.
       let res = res OR push_bit shift (ucast (b AND 0x7f)); shift = shift + 7
       in if b AND 0x80 = 0 then Inr (res, shift, p + 1)
          else dwarf_read_uleb_impl bs (p + 1) end res shift))"
  by pat_completeness auto
termination
  by (relation "measure (\<lambda>(bs, p, end, res, shift). 64 - shift)") auto

declare dwarf_read_uleb_impl.simps [simp del]

definition dwarf_read_uleb :: "bytes \<Rightarrow> nat \<Rightarrow> nat \<Rightarrow> (u64 \<times> nat) result" where
  "dwarf_read_uleb bs p end = ebind (dwarf_read_uleb_impl bs p end 0 0) (\<lambda>(v, shift, p). Inr (v, p))"

definition dwarf_read_sleb :: "bytes \<Rightarrow> nat \<Rightarrow> nat \<Rightarrow> (u64 \<times> nat) result" where
  "dwarf_read_sleb bs p end = ebind (dwarf_read_uleb_impl bs p end 0 0) (\<lambda>(v, shift, p).
     Inr (if shift < 64 \<and> bit v (shift - 1) then v OR push_bit shift (NOT 0) else v, p))"

definition dwarf_read_bytes :: "bytes \<Rightarrow> nat \<Rightarrow> nat \<Rightarrow> nat \<Rightarrow> (u64 \<times> nat) result" where
  "dwarf_read_bytes bs p end n = (if ptr_diff end p < n then Inl Rejected
     else ebind (field n bs p) (\<lambda>v. Inr (v, p + n)))"

section \<open>Frame description entries\<close>

record dwarf_cie =
  cie_valid :: bool
  cie_is_signal_frame :: bool
  cie_offset :: u64
  cie_code_align :: u64
  cie_data_align :: u64
  cie_ra_col :: u64
  cie_addr_size :: u8
  cie_seg_size :: u8
  cie_opcodes_start :: nat
  cie_opcodes_end :: nat

record dwarf_fde =
  fde_initial_location :: u64
  fde_opcodes_start :: nat
  fde_opcodes_end :: nat

definition dwarf_get_cie :: "bytes \<Rightarrow> u64 \<Rightarrow> nat result" where
  "dwarf_get_cie bs cie_pointer =
    (let c = unat cie_pointer in
     if c + 8 > length bs then Inl Rejected
     else ebind (field 4 bs (c + 4)) (\<lambda>eid :: u32.
       if eid \<noteq> - 1 then Inl Rejected
       else ebind (field 4 bs c) (\<lambda>len :: u32.
         if c + 4 + unat len > length bs then Inl Rejected else Inr c)))"

definition cie_augmentation :: "bytes \<Rightarrow> nat \<Rightarrow> nat \<Rightarrow> (bool \<times> nat) result" where
  "cie_augmentation bs p end =
    ebind (if p < end then ebind (byte_at bs p) (\<lambda>c. Inr (c = 0x53)) else Inr False) (\<lambda>sig.
      let p = (if sig then p + 1 else p) in
      if p \<ge> end then Inl Rejected
      else ebind (byte_at bs p) (\<lambda>c. if c \<noteq> 0 then Inl Rejected else Inr (sig, p + 1)))"

definition cie_sizes :: "bytes \<Rightarrow> nat \<Rightarrow> nat \<Rightarrow> (u8 \<times> u8 \<times> nat) result" where
  "cie_sizes bs p end =
    (if p + 2 > end then Inl Rejected
     else ebind (byte_at bs p) (\<lambda>addr_size. ebind (byte_at bs (p + 1)) (\<lambda>seg_size.
       if addr_size = 0 \<or> addr_size > 8 then Inl Rejected else Inr (addr_size, seg_size, p + 2))))"

definition dwarf_decode_cie :: "bytes \<Rightarrow> nat \<Rightarrow> dwarf_cie \<Rightarrow> dwarf_cie result" where
  "dwarf_decode_cie bs c out =
    ebind (field 4 bs c) (\<lambda>len :: u32. if len < 5 then Inl Rejected else
    ebind (byte_at bs (c + 8)) (\<lambda>version. if version \<noteq> 4 then Inl Rejected else
    let end = c + 4 + unat len in
    ebind (cie_augmentation bs (c + 9) end) (\<lambda>(sig, p).
    ebind (cie_sizes bs p end) (\<lambda>(addr_size, seg_size, p).
    ebind (dwarf_read_uleb bs p end) (\<lambda>(code_align, p).
    ebind (dwarf_read_sleb bs p end) (\<lambda>(data_align, p).
    ebind (dwarf_read_uleb bs p end) (\<lambda>(ra_col, p).
      if code_align = 0 then Inl Rejected else
      Inr (out\<lparr>cie_is_signal_frame := sig, cie_code_align := code_align, cie_data_align := data_align,
        cie_ra_col := ra_col, cie_addr_size := addr_size, cie_seg_size := seg_size,
        cie_opcodes_start := p, cie_opcodes_end := end, cie_valid := True\<rparr>))))))))"

text \<open>The part of an iteration of \<^verbatim>\<open>dwarf_get_fde\<close> that handles one entry at \<open>p\<close>: the entry that was
  looked for, or \<open>None\<close> with the decoded common information.\<close>

definition fde_entry :: "bytes \<Rightarrow> u64 \<Rightarrow> nat \<Rightarrow> u32 \<Rightarrow> u32 \<Rightarrow> dwarf_cie \<Rightarrow> (dwarf_fde option \<times> dwarf_cie) result" where
  "fde_entry bs pc p len eid cie =
    ebind (if \<not> cie_valid cie \<or> cie_offset cie \<noteq> ucast eid
           then ebind (dwarf_get_cie bs (ucast eid)) (\<lambda>packet.
                ebind (dwarf_decode_cie bs packet cie) (\<lambda>cie. Inr (cie\<lparr>cie_offset := ucast eid\<rparr>)))
           else Inr cie) (\<lambda>cie.
      let asz = unat (cie_addr_size cie); ssz = unat (cie_seg_size cie) in
      if 4 + ssz + 2 * asz > unat len then Inl Rejected else
      let cursor = (if ssz \<noteq> 0 then p + 8 + ssz else p + 8) in
      ebind (field asz bs cursor) (\<lambda>initial_location :: u64.
      ebind (field asz bs (cursor + asz)) (\<lambda>address_range :: u64.
        Inr (if initial_location \<le> pc \<and> initial_location \<noteq> 0 \<and> pc - initial_location < address_range
             then Some \<lparr>fde_initial_location = initial_location,
               fde_opcodes_start = cursor + 2 * asz, fde_opcodes_end = p + 4 + unat len\<rparr>
             else None, cie))))"

function get_fde_loop :: "bytes \<Rightarrow> u64 \<Rightarrow> nat \<Rightarrow> dwarf_cie \<Rightarrow> (dwarf_fde \<times> dwarf_cie) result" where
  "get_fde_loop bs pc p cie =
    (if p + 8 \<le> length bs then
       ebind (field 4 bs p) (\<lambda>len :: u32.
         if len = - 1 then Inl Rejected
         else if len < 4 then Inl Rejected
         else if unat len > length bs - p - 4 then Inl Rejected
         else ebind (field 4 bs (p + 4)) (\<lambda>eid :: u32.
         if eid \<noteq> - 1 then
           ebind (fde_entry bs pc p len eid cie) (\<lambda>(fde, cie). case fde of
             Some f \<Rightarrow> Inr (f, cie)
           | None \<Rightarrow> get_fde_loop bs pc (p + 4 + unat len) cie)
         else get_fde_loop bs pc (p + 4 + unat len) cie))
     else Inl Rejected)"
  by pat_completeness auto
termination
  by (relation "measure (\<lambda>(bs, pc, p, cie). length bs - p)") auto

declare get_fde_loop.simps [simp del]

definition dwarf_get_fde :: "bytes \<Rightarrow> u64 \<Rightarrow> dwarf_cie \<Rightarrow> (dwarf_fde \<times> dwarf_cie) result" where
  "dwarf_get_fde bs pc cie = get_fde_loop bs pc 0 (cie\<lparr>cie_valid := False\<rparr>)"

section \<open>Memory safety\<close>

lemma byte_at_post [intro!]: "p < length bs \<Longrightarrow> rpost (\<lambda>c. c = bs ! p) (byte_at bs p)"
  by (simp add: byte_at_def)

lemma field_post [intro!]: "p + n \<le> length bs \<Longrightarrow> rpost (\<lambda>w. w = le_word (take n (drop p bs))) (field n bs p)"
  by (simp add: field_def)

lemma uleb_impl_post:
  "end \<le> length bs \<Longrightarrow>
   rpost (\<lambda>(v, sh, q). p < q \<and> q \<le> end \<and> shift < sh) (dwarf_read_uleb_impl bs p end res shift)"
proof (induction bs p "end" res shift rule: dwarf_read_uleb_impl.induct)
  case (1 bs p "end" res shift)
  show ?case
  proof (cases "p \<ge> end \<or> shift \<ge> 64")
    case False
    then have g: "\<not> p \<ge> end" "\<not> shift \<ge> 64" "p < length bs" using "1.prems" by auto
    then have b: "byte_at bs p = Inr (bs ! p)" by (simp add: byte_at_def)
    show ?thesis
      by (subst dwarf_read_uleb_impl.simps, simp only: g b if_False Let_def ebind_simps, rule rpost_if)
        (use g in simp, rule rpost_mono [OF "1.IH" [OF g(1,2) b refl refl _ "1.prems"]], auto)
  qed (auto simp: dwarf_read_uleb_impl.simps)
qed

lemma uleb_impl_progress:
  "dwarf_read_uleb_impl bs p end res shift = Inr (v, sh, q) \<Longrightarrow> p < q \<and> q \<le> end"
proof (induction bs p "end" res shift rule: dwarf_read_uleb_impl.induct)
  case (1 bs p "end" res shift)
  show ?case
    using "1.prems" "1.IH" [OF _ _ _ refl refl]
    by (subst (asm) dwarf_read_uleb_impl.simps) (fastforce simp: Let_def ebind_Inr_iff split: if_splits)
qed

lemma uleb_progress: "dwarf_read_uleb bs p end = Inr (v, q) \<Longrightarrow> p < q \<and> q \<le> end"
  "dwarf_read_sleb bs p end = Inr (v, q) \<Longrightarrow> p < q \<and> q \<le> end"
  using uleb_impl_progress [of bs p "end" 0 0]
  by (auto simp: dwarf_read_uleb_def dwarf_read_sleb_def ebind_Inr_iff split: if_splits)

lemma uleb_post: "end \<le> length bs \<Longrightarrow> rpost (\<lambda>(v, q). p < q \<and> q \<le> end) (dwarf_read_uleb bs p end)"
  unfolding dwarf_read_uleb_def by (rule rpost_ebind3 [OF uleb_impl_post]) auto

lemma sleb_post: "end \<le> length bs \<Longrightarrow> rpost (\<lambda>(v, q). p < q \<and> q \<le> end) (dwarf_read_sleb bs p end)"
  unfolding dwarf_read_sleb_def by (rule rpost_ebind3 [OF uleb_impl_post]) auto

lemma read_bytes_post:
  assumes "end \<le> length bs" "p \<le> end"
  shows "rpost (\<lambda>(v, q). q = p + n \<and> q \<le> end) (dwarf_read_bytes bs p end n)"
proof (cases "end - p < n")
  case False
  then have "p + n \<le> length bs" using assms by linarith
  then show ?thesis using False assms by (auto simp: dwarf_read_bytes_def field_def ptr_diff_def)
qed (use assms in \<open>simp add: dwarf_read_bytes_def ptr_diff_def\<close>)

definition cie_ok :: "bytes \<Rightarrow> dwarf_cie \<Rightarrow> bool" where
  "cie_ok bs cie \<longleftrightarrow> cie_opcodes_start cie \<le> cie_opcodes_end cie \<and> cie_opcodes_end cie \<le> length bs \<and>
     cie_addr_size cie \<le> 8"

lemma get_cie_post: "rpost (\<lambda>c. c + 8 \<le> length bs \<and>
   c + 4 + unat (le_word (take 4 (drop c bs)) :: u32) \<le> length bs) (dwarf_get_cie bs cp)"
  by (auto simp: dwarf_get_cie_def Let_def field_def)

lemma augmentation_post:
  "end \<le> length bs \<Longrightarrow> rpost (\<lambda>(sig, q). p < q \<and> q \<le> end) (cie_augmentation bs p end)"
  by (auto simp: cie_augmentation_def Let_def byte_at_def)

lemma sizes_post:
  "end \<le> length bs \<Longrightarrow> rpost (\<lambda>(a, sg, q). q = p + 2 \<and> q \<le> end \<and> a \<noteq> 0 \<and> a \<le> 8) (cie_sizes bs p end)"
  by (auto simp: cie_sizes_def Let_def byte_at_def not_less)

lemma decode_cie_post:
  assumes c: "c + 8 \<le> length bs" "c + 4 + unat (le_word (take 4 (drop c bs)) :: u32) \<le> length bs"
  shows "rpost (\<lambda>out'. cie_ok bs out' \<and> cie_valid out') (dwarf_decode_cie bs c out)"
proof -
  define len :: u32 where "len = le_word (take 4 (drop c bs))"
  have e: "c + 4 + unat len \<le> length bs" using c(2) by (simp add: len_def)
  show ?thesis
    unfolding dwarf_decode_cie_def
  proof (rule rpost_ebind [OF field_post], goal_cases)
    case (2 l)
    then have l: "l = len" by (simp add: len_def)
    show ?case
    proof (rule rpost_if, simp, rule rpost_ebind [OF byte_at_post], goal_cases)
      case 1
      then have "5 \<le> unat len" by (simp add: l word_less_nat_alt)
      then show ?case using e by linarith
    next
      case (2 v)
      show ?case
        unfolding Let_def l
        by (rule rpost_if, simp, rule rpost_ebind2 [OF augmentation_post [OF e]],
            rule rpost_ebind3 [OF sizes_post [OF e]], rule rpost_ebind2 [OF uleb_post [OF e]],
            rule rpost_ebind2 [OF sleb_post [OF e]], rule rpost_ebind2 [OF uleb_post [OF e]],
            rule rpost_if) (use e in \<open>auto simp: cie_ok_def\<close>)
    qed
  qed (use c in simp)
qed

definition fde_ok :: "bytes \<Rightarrow> u64 \<Rightarrow> dwarf_fde \<Rightarrow> bool" where
  "fde_ok bs pc f \<longleftrightarrow> fde_opcodes_start f \<le> fde_opcodes_end f \<and> fde_opcodes_end f \<le> length bs \<and>
     fde_initial_location f \<le> pc \<and> fde_initial_location f \<noteq> 0"

lemma fde_entry_post:
  assumes p: "p + 4 + unat len \<le> length bs" and cie: "cie_valid cie \<longrightarrow> cie_ok bs cie"
  shows "rpost (\<lambda>(f, c). cie_ok bs c \<and> cie_valid c \<and> (\<forall>fde. f = Some fde \<longrightarrow> fde_ok bs pc fde))
    (fde_entry bs pc p len eid cie)"
  unfolding fde_entry_def
proof (rule rpost_ebind [where P = "\<lambda>c. cie_ok bs c \<and> cie_valid c"], goal_cases)
  case 1
  show ?case
    using cie by (auto intro!: rpost_if rpost_ebind [OF get_cie_post] rpost_ebind [OF decode_cie_post] simp: cie_ok_def)
next
  case (2 c)
  show ?case unfolding Let_def
  proof (rule rpost_if, goal_cases)
    case 2
    define asz where "asz = unat (cie_addr_size c)"
    define cursor where "cursor = (if unat (cie_seg_size c) \<noteq> 0 then p + 8 + unat (cie_seg_size c) else p + 8)"
    have "cursor + 2 * asz \<le> p + 4 + unat len" using 2 by (auto simp: cursor_def asz_def)
    then have b: "cursor + 2 * asz \<le> p + 4 + unat len" "cursor + asz \<le> length bs" "cursor + asz + asz \<le> length bs"
      using p by linarith+
    show ?case
      unfolding asz_def [symmetric] cursor_def [symmetric]
      by (rule rpost_ebind [OF field_post], use b in simp, rule rpost_ebind [OF field_post], use b in simp)
        (use \<open>cie_ok bs c \<and> cie_valid c\<close> b p in \<open>auto simp: fde_ok_def\<close>)
  qed simp
qed

lemma get_fde_loop_post:
  "(cie_valid cie \<longrightarrow> cie_ok bs cie) \<Longrightarrow>
   rpost (\<lambda>(f, c). cie_ok bs c \<and> fde_ok bs pc f) (get_fde_loop bs pc p cie)"
proof (induction bs pc p cie rule: get_fde_loop.induct)
  case (1 bs pc p cie)
  show ?case
  proof (cases "p + 8 \<le> length bs")
    case False
    then show ?thesis by (simp add: get_fde_loop.simps)
  next
    case True
    define len :: u32 where "len = le_word (take 4 (drop p bs))"
    define eid :: u32 where "eid = le_word (take 4 (drop (p + 4) bs))"
    have f: "field 4 bs p = Inr len" "field 4 bs (p + 4) = Inr eid"
      using True by (simp_all add: field_def len_def eid_def)
    show ?thesis
    proof (cases "len = - 1 \<or> len < 4 \<or> unat len > length bs - p - 4")
      case True
      then show ?thesis using \<open>p + 8 \<le> length bs\<close> f by (subst get_fde_loop.simps) auto
    next
      case False
      then have g: "\<not> len = - 1" "\<not> len < 4" "\<not> unat len > length bs - p - 4" by auto
      then have p: "p + 4 + unat len \<le> length bs" using True by linarith
      show ?thesis
      proof (cases "eid = - 1")
        case eid: True
        then have "get_fde_loop bs pc p cie = get_fde_loop bs pc (p + 4 + unat len) cie"
          using True f g by (subst get_fde_loop.simps) simp
        then show ?thesis using "1.IH"(2) [OF True f(1) g f(2)] eid "1.prems" by simp
      next
        case eid: False
        have "get_fde_loop bs pc p cie = ebind (fde_entry bs pc p len eid cie) (\<lambda>(fde, cie). case fde of
             Some f \<Rightarrow> Inr (f, cie) | None \<Rightarrow> get_fde_loop bs pc (p + 4 + unat len) cie)"
          using True f g eid by (subst get_fde_loop.simps) simp
        moreover have "rpost (\<lambda>(f, c). cie_ok bs c \<and> fde_ok bs pc f) \<dots>"
          using fde_entry_post [OF p "1.prems", of pc eid] "1.IH"(1) [OF True f(1) g f(2) eid]
          by (cases "fde_entry bs pc p len eid cie") (auto split: option.splits)
        ultimately show ?thesis by simp
      qed
    qed
  qed
qed

section \<open>What the LEB128 readers compute\<close>

text \<open>A LEB128 number is a list of base-128 digits, least significant first; every byte but the last
  has its top bit set.\<close>

fun leb_bytes :: "nat list \<Rightarrow> bytes" where
  "leb_bytes [] = []"
| "leb_bytes [d] = [word_of_nat d]"
| "leb_bytes (d # e # ds) = word_of_nat (d + 128) # leb_bytes (e # ds)"

fun leb_val :: "nat list \<Rightarrow> nat" where
  "leb_val [] = 0"
| "leb_val (d # ds) = d + 128 * leb_val ds"

fun uleb_digits :: "nat \<Rightarrow> nat list" where
  "uleb_digits n = (if n < 128 then [n] else n mod 128 # uleb_digits (n div 128))"

declare uleb_digits.simps [simp del]

function sleb_digits :: "int \<Rightarrow> nat list" where
  "sleb_digits i = (let b = i mod 128; r = i div 128 in
     if (r = 0 \<and> b < 64) \<or> (r = - 1 \<and> b \<ge> 64) then [nat b] else nat b # sleb_digits r)"
  by pat_completeness auto
termination
proof (relation "measure (\<lambda>i. nat \<bar>i\<bar>)", simp, goal_cases)
  case (1 i b r)
  then have "i \<noteq> 0" "i \<noteq> - 1" by auto
  then show ?case using 1 by (auto simp: abs_if)
qed

declare sleb_digits.simps [simp del]

definition sleb_val :: "nat list \<Rightarrow> int" where
  "sleb_val ds = (if last ds \<ge> 64 then int (leb_val ds) - 128 ^ length ds else int (leb_val ds))"

lemma leb_bytes_length [simp]: "length (leb_bytes ds) = length ds"
  by (induction ds rule: leb_bytes.induct) simp_all

lemma low_byte:
  assumes "d < 128"
  shows "(word_of_nat d :: u8) AND 0x7f = word_of_nat d" "(word_of_nat d :: u8) AND 0x80 = 0"
    "(word_of_nat (d + 128) :: u8) AND 0x7f = word_of_nat d" "(word_of_nat (d + 128) :: u8) AND 0x80 \<noteq> 0"
    "ucast (word_of_nat d :: u8) = (word_of_nat d :: u64)"
proof -
  have u: "unat (word_of_nat d :: u8) = d" "unat (word_of_nat (d + 128) :: u8) = d + 128"
    using assms by (simp_all only: unat_of_nat) simp_all
  show "ucast (word_of_nat d :: u8) = (word_of_nat d :: u64)"
    using assms by (intro word_eq_unatI) (simp add: unsigned_ucast_eq u(1) unat_of_nat take_bit_nat_eq_self)
  have m: "(0x7f :: u8) = mask 7" by (simp add: mask_eq_exp_minus_1)
  have t: "unat (w AND 0x7f) = unat w mod 128" for w :: u8
    unfolding m by (simp flip: take_bit_eq_mask add: take_bit_eq_mod unat_mod)
  show "(word_of_nat d :: u8) AND 0x7f = word_of_nat d"
    by (rule word_eq_unatI) (simp only: t u mod_less [OF assms])
  have "unat ((word_of_nat (d + 128) :: u8) AND 0x7f) = d"
    by (simp only: t u mod_add_self2 mod_less [OF assms])
  then show "(word_of_nat (d + 128) :: u8) AND 0x7f = word_of_nat d"
    by (intro word_eq_unatI) (simp only: u)
  have b: "w AND 0x80 = 0 \<longleftrightarrow> \<not> bit w 7" for w :: u8
    using and_exp_eq_0_iff_not_bit [of w 7] by simp
  have "bit w 7 \<longleftrightarrow> 128 \<le> unat w" for w :: u8
  proof -
    have "bit w 7 \<longleftrightarrow> bit (unat w) 7" by (simp add: bit_unsigned_iff)
    then have "bit w 7 \<longleftrightarrow> odd (unat w div 128)" by (simp add: bit_iff_odd)
    moreover have "unat w < 256" using unsigned_less [of w] by simp
    moreover from this have "unat w div 128 = (if 128 \<le> unat w then 1 else 0)" by auto
    ultimately show ?thesis by simp
  qed
  then show "(word_of_nat d :: u8) AND 0x80 = 0" "(word_of_nat (d + 128) :: u8) AND 0x80 \<noteq> 0"
    using u assms by (simp_all only: b)
qed

lemma or_digit:
  assumes "d < 128"
  shows "push_bit s (word_of_nat d) OR push_bit (s + 7) (word_of_nat n) = push_bit s (word_of_nat (d + 128 * n) :: u64)"
proof -
  have "(word_of_nat d :: u64) + push_bit 7 (word_of_nat n) = word_of_nat d OR push_bit 7 (word_of_nat n)"
  proof (rule disjunctive_add)
    have "\<not> bit d k" if "7 \<le> k" for k
      using assms power_increasing [OF that, of "2 :: nat"] by (simp add: bit_iff_odd div_less)
    then show "\<not> bit (word_of_nat d :: u64) k \<or> \<not> bit (push_bit 7 (word_of_nat n) :: u64) k" for k
      by (auto simp: bit_simps)
  qed
  then have "(word_of_nat (d + 128 * n) :: u64) = word_of_nat d OR push_bit 7 (word_of_nat n)"
    by (simp add: push_bit_eq_mult mult.commute)
  then show ?thesis by (simp add: push_bit_or add.commute)
qed

lemma uleb_impl_digits:
  "ds \<noteq> [] \<Longrightarrow> (\<forall>d\<in>set ds. d < 128) \<Longrightarrow> shift + 7 * (length ds - 1) < 64 \<Longrightarrow> length pre + length ds \<le> end \<Longrightarrow>
   dwarf_read_uleb_impl (pre @ leb_bytes ds @ post) (length pre) end res shift =
     Inr (res OR push_bit shift (word_of_nat (leb_val ds)), shift + 7 * length ds, length pre + length ds)"
proof (induction ds arbitrary: pre res shift rule: leb_bytes.induct)
  case (2 d)
  then show ?case using low_byte [of d] by (subst dwarf_read_uleb_impl.simps) (simp add: byte_at_def)
next
  case (3 d e ds)
  let ?b = "word_of_nat (d + 128) :: u8"
  have d: "d < 128" using "3.prems" by simp
  let ?n = "leb_val (e # ds)"
  have "dwarf_read_uleb_impl (pre @ leb_bytes (d # e # ds) @ post) (length pre) end res shift =
    dwarf_read_uleb_impl ((pre @ [?b]) @ leb_bytes (e # ds) @ post) (length (pre @ [?b])) end
      (res OR push_bit shift (word_of_nat d)) (shift + 7)"
    using "3.prems" low_byte [OF d] by (subst dwarf_read_uleb_impl.simps) (simp add: byte_at_def)
  also have "\<dots> = Inr ((res OR push_bit shift (word_of_nat d)) OR push_bit (shift + 7) (word_of_nat ?n),
      shift + 7 + 7 * length (e # ds), length (pre @ [?b]) + length (e # ds))"
    by (rule "3.IH") (use "3.prems" in auto)
  finally show ?case using or_digit [OF d, of shift ?n] by (simp add: or.assoc)
qed simp

lemma uleb_digits_props: "uleb_digits n \<noteq> []" "\<forall>d\<in>set (uleb_digits n). d < 128" "leb_val (uleb_digits n) = n"
proof -
  have "uleb_digits n \<noteq> [] \<and> (\<forall>d\<in>set (uleb_digits n). d < 128) \<and> leb_val (uleb_digits n) = n"
  proof (induction n rule: uleb_digits.induct)
    case (1 n)
    then show ?case by (subst (1 2 3) uleb_digits.simps) auto
  qed
  then show "uleb_digits n \<noteq> []" "\<forall>d\<in>set (uleb_digits n). d < 128" "leb_val (uleb_digits n) = n" by auto
qed

lemma uleb_digits_length: "n < 2 ^ (7 * k) \<Longrightarrow> 0 < k \<Longrightarrow> length (uleb_digits n) \<le> k"
proof (induction n arbitrary: k rule: uleb_digits.induct)
  case (1 n)
  show ?case
  proof (cases "n < 128")
    case False
    then have k: "1 < k" using 1(2,3) by (cases "k = 1") auto
    have "(2::nat) ^ (7 * k) = 128 * 2 ^ (7 * (k - 1))" using k by (cases k) (simp_all add: power_add)
    then have "n div 128 < 2 ^ (7 * (k - 1))" using 1(2) by (simp add: less_mult_imp_div_less mult.commute)
    then have "length (uleb_digits (n div 128)) \<le> k - 1" using 1(1) [OF False] k by simp
    then show ?thesis using False k by (subst uleb_digits.simps) simp
  qed (use 1(3) in \<open>simp add: uleb_digits.simps\<close>)
qed

lemma sleb_digits_props:
  "sleb_digits i \<noteq> [] \<and> (\<forall>d\<in>set (sleb_digits i). d < 128) \<and> sleb_val (sleb_digits i) = i"
proof (induction i rule: sleb_digits.induct)
  case (1 i)
  let ?b = "i mod 128" and ?r = "i div 128"
  have b: "0 \<le> ?b" "?b < 128" "i = 128 * ?r + ?b" by simp_all
  show ?case
  proof (cases "(?r = 0 \<and> ?b < 64) \<or> (?r = - 1 \<and> ?b \<ge> 64)")
    case True
    then have s: "sleb_digits i = [nat ?b]" by (subst sleb_digits.simps) (auto simp: Let_def)
    have "sleb_val [nat ?b] = i"
      using True
    proof (elim disjE conjE)
      assume "?r = 0" "?b < 64"
      then show ?thesis using b by (simp add: sleb_val_def)
    next
      assume "?r = - 1" "?b \<ge> 64"
      then show ?thesis using b(1) b(3) by (simp add: sleb_val_def nat_le_iff) linarith
    qed
    then show ?thesis using b unfolding s by simp
  next
    case False
    then have s: "sleb_digits i = nat ?b # sleb_digits ?r" by (subst sleb_digits.simps) (simp only: Let_def if_False)
    have IH: "sleb_digits ?r \<noteq> []" "\<forall>d\<in>set (sleb_digits ?r). d < 128" "sleb_val (sleb_digits ?r) = ?r"
      using "1.IH" [OF refl refl False] by auto
    have "sleb_val (sleb_digits i) = ?b + 128 * sleb_val (sleb_digits ?r)"
      using IH(1) b by (simp add: s sleb_val_def algebra_simps)
    then show ?thesis using IH b by (simp add: s)
  qed
qed

lemma sleb_digits_length:
  "- (2 ^ (7 * k - 1)) \<le> i \<Longrightarrow> i < 2 ^ (7 * k - 1) \<Longrightarrow> 0 < k \<Longrightarrow> length (sleb_digits i) \<le> k"
proof (induction i arbitrary: k rule: sleb_digits.induct)
  case (1 i)
  let ?b = "i mod 128" and ?r = "i div 128"
  show ?case
  proof (cases "(?r = 0 \<and> ?b < 64) \<or> (?r = - 1 \<and> ?b \<ge> 64)")
    case True
    then show ?thesis using "1.prems"(3) by (subst sleb_digits.simps) (auto simp: Let_def)
  next
    case False
    have k: "1 < k"
    proof (rule ccontr)
      assume "\<not> 1 < k"
      then have "k = 1" using "1.prems"(3) by simp
      then have "- 64 \<le> i" "i < 64" using "1.prems"(1,2) by simp_all
      then show False using False by presburger
    qed
    then have e: "7 * k - 1 = 7 + (7 * (k - 1) - 1)" by simp
    have "(2::int) ^ (7 * k - 1) = 128 * 2 ^ (7 * (k - 1) - 1)" unfolding e power_add by simp
    then have "- (2 ^ (7 * (k - 1) - 1)) \<le> ?r" "?r < 2 ^ (7 * (k - 1) - 1)" using "1.prems"(1,2) by linarith+
    then have "length (sleb_digits ?r) \<le> k - 1" using "1.IH" [OF refl refl False] k by simp
    moreover have "sleb_digits i = nat ?b # sleb_digits ?r"
      using False by (subst sleb_digits.simps) (simp only: Let_def if_False)
    ultimately show ?thesis using k by simp
  qed
qed

lemma leb_val_less: "\<forall>d\<in>set ds. d < 128 \<Longrightarrow> leb_val ds < 128 ^ length ds"
proof (induction ds)
  case (Cons d ds)
  then have "leb_val ds + 1 \<le> 128 ^ length ds" "d < 128" by auto
  then have "128 * (leb_val ds + 1) \<le> 128 * 128 ^ length ds" by (intro mult_le_mono2)
  then show ?case using \<open>d < 128\<close> by simp
qed simp

lemma leb_val_last:
  "ds \<noteq> [] \<Longrightarrow> \<forall>d\<in>set ds. d < 128 \<Longrightarrow> leb_val ds div 128 ^ (length ds - 1) = last ds"
proof (induction ds)
  case (Cons d ds)
  show ?case
  proof (cases ds)
    case (Cons e es)
    then have "(128::nat) ^ length ds = 128 * 128 ^ (length ds - 1)" by simp
    then have "leb_val (d # ds) div 128 ^ length ds = (d + 128 * leb_val ds) div 128 div 128 ^ (length ds - 1)"
      by (simp add: div_mult2_eq)
    also have "(d + 128 * leb_val ds) div 128 = leb_val ds" using Cons.prems by simp
    finally show ?thesis using Cons.IH Cons.prems Cons by simp
  qed simp
qed simp

lemma sleb_extend:
  assumes ds: "ds \<noteq> []" "\<forall>d\<in>set ds. d < 128" "7 * (length ds - 1) < 64"
  shows "(let v = word_of_nat (leb_val ds); shift = 7 * length ds in
    if shift < 64 \<and> bit v (shift - 1) then v OR push_bit shift (NOT 0) else v) = (word_of_int (sleb_val ds) :: u64)"
proof -
  let ?v = "leb_val ds" and ?w = "word_of_nat (leb_val ds) :: u64" and ?s = "7 * length ds"
  have pw: "(128::nat) ^ length ds = 2 ^ ?s" by (simp add: power_mult)
  have lt: "?v < 2 ^ ?s" using leb_val_less [OF ds(2)] pw by simp
  have len: "1 \<le> length ds" using ds(1) by (cases ds) auto
  show ?thesis
  proof (cases "?s < 64")
    case True
    have s1: "?s - 1 = 7 * (length ds - 1) + 6" using len by simp
    have "bit ?v (?s - 1) \<longleftrightarrow> odd (?v div 2 ^ (7 * (length ds - 1)) div 64)"
      unfolding bit_iff_odd s1 power_add by (simp add: div_mult2_eq)
    also have "?v div 2 ^ (7 * (length ds - 1)) = last ds" using leb_val_last [OF ds(1,2)] by (simp add: power_mult)
    also have "odd (last ds div 64) \<longleftrightarrow> 64 \<le> last ds"
    proof -
      have "last ds < 128" using ds(1,2) by simp
      then have "last ds div 64 = (if 64 \<le> last ds then 1 else 0)" by auto
      then show ?thesis by simp
    qed
    finally have b: "bit ?w (?s - 1) \<longleftrightarrow> 64 \<le> last ds" using True by (auto simp: bit_simps)
    have "?w OR push_bit ?s (NOT 0) = ?w + push_bit ?s (NOT 0)"
    proof (rule disjunctive_add [symmetric])
      have "\<not> bit ?v k" if "?s \<le> k" for k
        using order_less_le_trans [OF lt power_increasing [OF that, of "2 :: nat"]] by (simp add: bit_iff_odd)
      then have "k < ?s" if "bit ?v k" for k using that by (meson not_le)
      then show "\<not> bit ?w k \<or> \<not> bit (push_bit ?s (NOT 0) :: u64) k" for k by (auto simp: bit_simps)
    qed
    also have "\<dots> = word_of_int (int ?v - 128 ^ length ds)"
      by (simp add: push_bit_eq_mult power_mult)
    finally show ?thesis using True b by (simp add: sleb_val_def)
  next
    case False
    have "(word_of_int (128 ^ length ds) :: u64) = 2 ^ ?s" by (simp add: power_mult)
    also have "(2 ^ ?s :: u64) = 0" using False by (simp add: exp_eq_zero_iff)
    finally show ?thesis using False by (simp add: sleb_val_def)
  qed
qed

section \<open>Properties\<close>

text \<open>C15. Reading back an unsigned LEB128 number returns the number that was written and moves the
  cursor behind it, whatever surrounds it in the section.\<close>

theorem uleb_roundtrip:
  assumes "n < 2 ^ 64" "bs = pre @ leb_bytes (uleb_digits n) @ post" "length pre + length (uleb_digits n) \<le> end"
  shows "dwarf_read_uleb bs (length pre) end = Inr (word_of_nat n, length pre + length (uleb_digits n))"
proof -
  have "n < 2 ^ (7 * 10)" using assms(1) by simp
  then have "length (uleb_digits n) \<le> 10" using uleb_digits_length [of n 10] by simp
  then show ?thesis
    using uleb_impl_digits [of "uleb_digits n" 0 pre "end" post 0] uleb_digits_props [of n] assms
    by (simp add: dwarf_read_uleb_def)
qed

theorem uleb_roundtrip_witness:
  "leb_bytes (uleb_digits 624485) = [0xE5, 0x8E, 0x26] \<and> dwarf_read_uleb [7, 0xE5, 0x8E, 0x26, 1] 1 5 = Inr (624485, 4)"
proof -
  have l: "leb_bytes (uleb_digits 624485) = [0xE5, 0x8E, 0x26]" by (simp add: uleb_digits.simps)
  then have "length (uleb_digits 624485) = 3" by (metis leb_bytes_length length_Cons list.size(3) numeral_3_eq_3)
  then show ?thesis
    using l uleb_roundtrip [of 624485 "[7, 0xE5, 0x8E, 0x26, 1]" "[7]" "[1]" 5] by simp
qed

text \<open>C16. Reading back a signed LEB128 number returns the number that was written, sign extended to 64
  bits.\<close>

theorem sleb_roundtrip:
  assumes "- (2 ^ 63) \<le> i" "i < 2 ^ 63" "bs = pre @ leb_bytes (sleb_digits i) @ post"
    "length pre + length (sleb_digits i) \<le> end"
  shows "dwarf_read_sleb bs (length pre) end = Inr (word_of_int i, length pre + length (sleb_digits i))"
proof -
  note d = sleb_digits_props [of i]
  have "- (2 ^ (7 * 10 - 1)) \<le> i" "i < 2 ^ (7 * 10 - 1)" using assms(1,2) by simp_all
  then have l: "7 * (length (sleb_digits i) - 1) < 64" using sleb_digits_length [of 10 i] by simp
  show ?thesis
    using uleb_impl_digits [of "sleb_digits i" 0 pre "end" post 0] sleb_extend [of "sleb_digits i"] d l assms(3,4)
    by (simp add: dwarf_read_sleb_def Let_def split: if_splits)
qed

theorem sleb_roundtrip_witness:
  "leb_bytes (sleb_digits (- 128)) = [0x80, 0x7F] \<and> dwarf_read_sleb [0x80, 0x7F, 3] 0 3 = Inr (- 128, 2)"
proof -
  have l: "leb_bytes (sleb_digits (- 128)) = [0x80, 0x7F]" by (simp add: sleb_digits.simps)
  then have "length (sleb_digits (- 128)) = 2" by (metis leb_bytes_length length_Cons list.size(3) numeral_2_eq_2)
  then show ?thesis using l sleb_roundtrip [of "- 128" "[0x80, 0x7F, 3]" "[]" "[3]" 3] by simp
qed

text \<open>C17. Whatever bytes the section holds, the search for the frame description entry of a program
  counter returns, never reads outside the section, and the instruction ranges of what it finds lie
  inside the section.\<close>

theorem dwarf_get_fde_safe:
  "case dwarf_get_fde bs pc cie of Inl e \<Rightarrow> e = Rejected
   | Inr (fde, cie') \<Rightarrow> fde_opcodes_start fde \<le> fde_opcodes_end fde \<and> fde_opcodes_end fde \<le> length bs \<and>
       cie_opcodes_start cie' \<le> cie_opcodes_end cie' \<and> cie_opcodes_end cie' \<le> length bs \<and>
       fde_initial_location fde \<le> pc"
  using get_fde_loop_post [of "cie\<lparr>cie_valid := False\<rparr>" bs pc 0]
  by (auto simp: dwarf_get_fde_def rpost_def cie_ok_def fde_ok_def split: sum.splits)

end
