(* ===== verification/DwarfLine.thy ===== *)
theory DwarfLine
  imports Dwarf
begin

unbundle bit_operations_syntax

text \<open>
  The line number program interpreter of \<^verbatim>\<open>loader/dwarf/line.c\<close>, which maps a program counter to a
  source line. A division by zero is the error \<open>Undefined\<close>. The theory shows that on any contents of
  the \<^verbatim>\<open>.debug_line\<close> section the search ends, reads only inside the section and never divides by zero.
\<close>

section \<open>Strings and tables\<close>

record dwarf_line_info =
  li_min_inst_len :: u8
  li_max_ops :: u8
  li_line_base :: u8
  li_line_range :: u8
  li_opcode_base :: u8
  li_dir_table :: nat
  li_file_table :: nat
  li_instr_start :: nat
  li_instr_end :: nat

record dwarf_line_result =
  lr_dir :: "nat option"
  lr_file :: nat
  lr_line :: u64

record line_vm =
  vm_address :: u64
  vm_line :: u64
  vm_file :: u64
  vm_cand_line :: u64
  vm_cand_file :: u64

text \<open>\<^verbatim>\<open>strnlen\<close> on the bytes of the section.\<close>

fun strnlen_at :: "bytes \<Rightarrow> nat \<Rightarrow> nat \<Rightarrow> nat result" where
  "strnlen_at bs s 0 = Inr 0"
| "strnlen_at bs s (Suc maxlen) = ebind (byte_at bs s) (\<lambda>c.
     if c \<noteq> 0 then ebind (strnlen_at bs (s + 1) maxlen) (\<lambda>n. Inr (n + 1)) else Inr 0)"

definition skip_string :: "bytes \<Rightarrow> nat \<Rightarrow> nat \<Rightarrow> nat result" where
  "skip_string bs p end = ebind (strnlen_at bs p (ptr_diff end p)) (\<lambda>len.
     if p + len \<ge> end then Inl Rejected else Inr (p + len + 1))"

definition emit_row :: "line_vm \<Rightarrow> u64 \<Rightarrow> bool \<times> line_vm" where
  "emit_row vm pc = (if vm_address vm > pc then (True, vm)
     else (False, vm\<lparr>vm_cand_line := vm_line vm, vm_cand_file := vm_file vm\<rparr>))"

fun skip_files :: "bytes \<Rightarrow> nat \<Rightarrow> nat \<Rightarrow> nat \<Rightarrow> nat result" where
  "skip_files bs p end 0 = Inr p"
| "skip_files bs p end (Suc k) = ebind (skip_string bs p end) (\<lambda>p.
     ebind (dwarf_read_uleb bs p end) (\<lambda>(_, p).
     ebind (dwarf_read_uleb bs p end) (\<lambda>(_, p).
     ebind (dwarf_read_uleb bs p end) (\<lambda>(_, p). skip_files bs p end k))))"

definition lookup_file :: "bytes \<Rightarrow> dwarf_line_info \<Rightarrow> u64 \<Rightarrow> (nat \<times> u64) result" where
  "lookup_file bs info index =
    (if index = 0 then Inl Rejected
     else let end = li_instr_start info in
       ebind (skip_files bs (li_file_table info) end (unat index - 1)) (\<lambda>name.
       ebind (skip_string bs name end) (\<lambda>p.
       ebind (dwarf_read_uleb bs p end) (\<lambda>(dir_index, p). Inr (name, dir_index)))))"

fun skip_dirs :: "bytes \<Rightarrow> nat \<Rightarrow> nat \<Rightarrow> nat \<Rightarrow> nat result" where
  "skip_dirs bs p end 0 = Inr p"
| "skip_dirs bs p end (Suc k) = ebind (skip_string bs p end) (\<lambda>p. skip_dirs bs p end k)"

definition lookup_dir :: "bytes \<Rightarrow> dwarf_line_info \<Rightarrow> u64 \<Rightarrow> nat result" where
  "lookup_dir bs info index =
    (if index = 0 then Inl Rejected
     else let end = li_file_table info in
       ebind (skip_dirs bs (li_dir_table info) end (unat index - 1)) (\<lambda>p.
         if p \<ge> end then Inl Rejected
         else ebind (byte_at bs p) (\<lambda>c. if c = 0 then Inl Rejected
           else ebind (strnlen_at bs p (ptr_diff end p)) (\<lambda>str_len.
             if p + str_len \<ge> end then Inl Rejected else Inr p))))"

definition resolve_row :: "bytes \<Rightarrow> dwarf_line_info \<Rightarrow> line_vm \<Rightarrow> dwarf_line_result result" where
  "resolve_row bs info vm = ebind (lookup_file bs info (vm_cand_file vm)) (\<lambda>(name, dir_index).
     case lookup_dir bs info dir_index of
       Inr dir \<Rightarrow> Inr \<lparr>lr_dir = Some dir, lr_file = name, lr_line = vm_cand_line vm\<rparr>
     | Inl Rejected \<Rightarrow> Inr \<lparr>lr_dir = None, lr_file = name, lr_line = vm_cand_line vm\<rparr>
     | Inl e \<Rightarrow> Inl e)"

definition dwarf_line_parse_v3 :: "bytes \<Rightarrow> nat \<Rightarrow> dwarf_line_info \<Rightarrow> dwarf_line_info result" where
  "dwarf_line_parse_v3 bs unit out =
    ebind (byte_at bs (unit + 10)) (\<lambda>min_inst_len. ebind (byte_at bs (unit + 12)) (\<lambda>line_base.
    ebind (byte_at bs (unit + 13)) (\<lambda>line_range. ebind (byte_at bs (unit + 14)) (\<lambda>opcode_base.
      Inr (out\<lparr>li_max_ops := 1, li_min_inst_len := min_inst_len, li_line_base := line_base,
        li_line_range := line_range, li_opcode_base := opcode_base\<rparr>)))))"

definition dwarf_line_parse_v4 :: "bytes \<Rightarrow> nat \<Rightarrow> dwarf_line_info \<Rightarrow> dwarf_line_info result" where
  "dwarf_line_parse_v4 bs unit out =
    ebind (byte_at bs (unit + 10)) (\<lambda>min_inst_len. ebind (byte_at bs (unit + 11)) (\<lambda>max_ops.
    ebind (byte_at bs (unit + 13)) (\<lambda>line_base. ebind (byte_at bs (unit + 14)) (\<lambda>line_range.
    ebind (byte_at bs (unit + 15)) (\<lambda>opcode_base.
      Inr (out\<lparr>li_min_inst_len := min_inst_len, li_max_ops := max_ops, li_line_base := line_base,
        li_line_range := line_range, li_opcode_base := opcode_base\<rparr>))))))"

lemma skip_string_progress: "skip_string bs p end = Inr q \<Longrightarrow> p < q \<and> q \<le> end"
  by (auto simp: skip_string_def ebind_Inr_iff split: if_splits)

function walk_dirs :: "bytes \<Rightarrow> nat \<Rightarrow> nat \<Rightarrow> nat result" where
  "walk_dirs bs p instr_start = (if p < instr_start then
     ebind (byte_at bs p) (\<lambda>c. if c = 0 then Inr (p + 1)
       else ebind (skip_string bs p instr_start) (\<lambda>p. walk_dirs bs p instr_start))
     else Inr p)"
  by pat_completeness auto
termination
  by (relation "measure (\<lambda>(bs, p, e). e - p)") (auto dest: skip_string_progress)

declare walk_dirs.simps [simp del]

definition dwarf_line_info0 :: dwarf_line_info where
  "dwarf_line_info0 = \<lparr>li_min_inst_len = 0, li_max_ops = 0, li_line_base = 0, li_line_range = 0, li_opcode_base = 0,
     li_dir_table = 0, li_file_table = 0, li_instr_start = 0, li_instr_end = 0\<rparr>"

definition dwarf_line_parse_tables :: "bytes \<Rightarrow> nat \<Rightarrow> nat \<Rightarrow> dwarf_line_info result" where
  "dwarf_line_parse_tables bs unit end =
    (if ptr_diff end unit < 16 then Inl Rejected else
     ebind (field 4 bs unit) (\<lambda>unit_length :: u32.
     ebind (field 2 bs (unit + 4)) (\<lambda>version :: u16.
     ebind (field 4 bs (unit + 6)) (\<lambda>header_length :: u32.
       if version \<noteq> 3 \<and> version \<noteq> 4 then Inl Rejected else
       let header_size = (if version = 3 then 15 else 16) in
       if unit_length = - 1 then Inl Rejected else
       if unat unit_length > end - unit - 4 then Inl Rejected else
       let unit_end = unit + 4 + unat unit_length in
       if unat unit_length < header_size - 4 then Inl Rejected else
       if unat header_length > ptr_diff unit_end (unit + 10) then Inl Rejected else
       let out = dwarf_line_info0\<lparr>li_instr_start := unit + 10 + unat header_length, li_instr_end := unit_end\<rparr> in
       ebind (if version = 3 then dwarf_line_parse_v3 bs unit out else dwarf_line_parse_v4 bs unit out) (\<lambda>out.
         if li_line_range out = 0 then Inl Rejected else
         if li_opcode_base out = 0 then Inl Rejected else
         if li_max_ops out = 0 then Inl Rejected else
         if unat header_length < (header_size - 10) + unat (li_opcode_base out) - 1 then Inl Rejected else
         let p = unit + header_size + unat (li_opcode_base out) - 1 in
         ebind (walk_dirs bs p (li_instr_start out)) (\<lambda>q.
           Inr (out\<lparr>li_dir_table := p, li_file_table := q\<rparr>)))))))"

section \<open>The line number program\<close>

definition cdiv :: "u64 \<Rightarrow> u64 \<Rightarrow> u64 result" where
  "cdiv a b = (if b = 0 then Inl Undefined else Inr (a div b))"

text \<open>A step of the interpreter goes on at a new place with a new machine, or it is done.\<close>

type_synonym line_next = "(nat \<times> line_vm) + dwarf_line_result"

definition row_or_go_on :: "bytes \<Rightarrow> dwarf_line_info \<Rightarrow> u64 \<Rightarrow> nat \<Rightarrow> line_vm \<Rightarrow> line_next result" where
  "row_or_go_on bs info pc p vm = (let (past, vm) = emit_row vm pc in
     if past \<and> vm_cand_file vm \<noteq> 0 then ebind (resolve_row bs info vm) (\<lambda>r. Inr (Inr r)) else Inr (Inl (p, vm)))"

definition special_opcode :: "bytes \<Rightarrow> dwarf_line_info \<Rightarrow> u64 \<Rightarrow> nat \<Rightarrow> u8 \<Rightarrow> line_vm \<Rightarrow> line_next result" where
  "special_opcode bs info pc p opcode vm =
    (let adjusted = ucast opcode - ucast (li_opcode_base info) :: u64 in
     ebind (cdiv adjusted (ucast (li_line_range info))) (\<lambda>op_advance.
     ebind (cdiv op_advance (ucast (li_max_ops info))) (\<lambda>ops.
       row_or_go_on bs info pc p (vm\<lparr>vm_address := vm_address vm + ucast (li_min_inst_len info) * ops,
         vm_line := vm_line vm + (scast (li_line_base info) + adjusted mod ucast (li_line_range info))\<rparr>))))"

definition extended_opcode :: "bytes \<Rightarrow> dwarf_line_info \<Rightarrow> u64 \<Rightarrow> nat \<Rightarrow> nat \<Rightarrow> line_vm \<Rightarrow> line_next result" where
  "extended_opcode bs info pc p end vm =
    ebind (dwarf_read_uleb bs p end) (\<lambda>(operandA, p).
      if operandA = 0 \<or> unat operandA > ptr_diff end p then Inl Rejected else
      let next = p + unat operandA in
      ebind (byte_at bs p) (\<lambda>sub.
        if sub = 0x01 then
          if pc < vm_address vm \<and> vm_cand_file vm \<noteq> 0 then ebind (resolve_row bs info vm) (\<lambda>r. Inr (Inr r))
          else Inr (Inl (next, vm\<lparr>vm_cand_file := 0, vm_address := 0, vm_line := 1, vm_file := 1\<rparr>))
        else if sub = 0x02 then
          let addr_size = unat (ucast (operandA - 1) :: u8) in
          if addr_size = 0 \<or> addr_size > 8 then Inl Rejected
          else ebind (dwarf_read_bytes bs (p + 1) next addr_size) (\<lambda>(a, _). Inr (Inl (next, vm\<lparr>vm_address := a\<rparr>)))
        else if sub = 0x04 then ebind (dwarf_read_uleb bs (p + 1) next) (\<lambda>_. Inr (Inl (next, vm)))
        else Inl Rejected))"

definition line_step :: "bytes \<Rightarrow> dwarf_line_info \<Rightarrow> u64 \<Rightarrow> nat \<Rightarrow> nat \<Rightarrow> line_vm \<Rightarrow> line_next result" where
  "line_step bs info pc p end vm =
    ebind (byte_at bs p) (\<lambda>opcode. let p = p + 1 in
      if opcode \<ge> li_opcode_base info then special_opcode bs info pc p opcode vm
      else if opcode = 0x00 then extended_opcode bs info pc p end vm
      else if opcode = 0x01 then row_or_go_on bs info pc p vm
      else if opcode = 0x02 then
        ebind (dwarf_read_uleb bs p end) (\<lambda>(operandA, p). ebind (cdiv operandA (ucast (li_max_ops info))) (\<lambda>ops.
          Inr (Inl (p, vm\<lparr>vm_address := vm_address vm + ucast (li_min_inst_len info) * ops\<rparr>))))
      else if opcode = 0x03 then
        ebind (dwarf_read_sleb bs p end) (\<lambda>(operandB, p). Inr (Inl (p, vm\<lparr>vm_line := vm_line vm + operandB\<rparr>)))
      else if opcode = 0x04 then
        ebind (dwarf_read_uleb bs p end) (\<lambda>(file, p). Inr (Inl (p, vm\<lparr>vm_file := file\<rparr>)))
      else if opcode = 0x08 then
        ebind (cdiv (255 - ucast (li_opcode_base info)) (ucast (li_line_range info))) (\<lambda>operandA.
        ebind (cdiv operandA (ucast (li_max_ops info))) (\<lambda>ops.
          Inr (Inl (p, vm\<lparr>vm_address := vm_address vm + ucast (li_min_inst_len info) * ops\<rparr>))))
      else if opcode = 0x09 then
        ebind (dwarf_read_bytes bs p end 2) (\<lambda>(operandA, p). Inr (Inl (p, vm\<lparr>vm_address := vm_address vm + operandA\<rparr>)))
      else if opcode = 0x05 \<or> opcode = 0x0C then ebind (dwarf_read_uleb bs p end) (\<lambda>(_, p). Inr (Inl (p, vm)))
      else if opcode = 0x06 \<or> opcode = 0x07 \<or> opcode = 0x0A \<or> opcode = 0x0B then Inr (Inl (p, vm))
      else Inl Rejected)"

lemma row_or_go_on_progress: "row_or_go_on bs info pc p vm = Inr (Inl (q, vm')) \<Longrightarrow> q = p"
  by (auto simp: row_or_go_on_def Let_def ebind_Inr_iff split: prod.splits if_splits)

lemma line_step_progress: "line_step bs info pc p end vm = Inr (Inl (q, vm')) \<Longrightarrow> p < q"
  unfolding line_step_def special_opcode_def extended_opcode_def dwarf_read_bytes_def Let_def
  by (auto simp: ebind_Inr_iff dest!: row_or_go_on_progress uleb_progress split: if_splits)

function line_loop :: "bytes \<Rightarrow> dwarf_line_info \<Rightarrow> u64 \<Rightarrow> nat \<Rightarrow> nat \<Rightarrow> line_vm \<Rightarrow> dwarf_line_result result" where
  "line_loop bs info pc p end vm = (if p < end then
     ebind (line_step bs info pc p end vm) (\<lambda>r. case r of
       Inl (p, vm) \<Rightarrow> line_loop bs info pc p end vm
     | Inr res \<Rightarrow> Inr res)
   else Inl Rejected)"
  by pat_completeness auto
termination
  by (relation "measure (\<lambda>(bs, info, pc, p, e, vm). e - p)") (auto dest: line_step_progress)

declare line_loop.simps [simp del]

definition dwarf_line_find :: "bytes \<Rightarrow> dwarf_line_info \<Rightarrow> u64 \<Rightarrow> dwarf_line_result result" where
  "dwarf_line_find bs info pc = line_loop bs info pc (li_instr_start info) (li_instr_end info)
     \<lparr>vm_address = 0, vm_line = 1, vm_file = 1, vm_cand_line = 0, vm_cand_file = 0\<rparr>"

function line_units :: "bytes \<Rightarrow> u64 \<Rightarrow> nat \<Rightarrow> dwarf_line_result result" where
  "line_units bs pc unit = (if unit \<le> length bs \<and> length bs - unit \<ge> 4 then
     ebind (field 4 bs unit) (\<lambda>unit_length :: u32.
       if unit_length = - 1 then Inl Rejected
       else if unat unit_length > length bs - unit - 4 then Inl Rejected
       else case ebind (dwarf_line_parse_tables bs unit (length bs)) (\<lambda>info. dwarf_line_find bs info pc) of
         Inr r \<Rightarrow> Inr r
       | Inl Rejected \<Rightarrow> line_units bs pc (unit + 4 + unat unit_length)
       | Inl e \<Rightarrow> Inl e)
   else Inl Rejected)"
  by pat_completeness auto
termination
  by (relation "measure (\<lambda>(bs, pc, unit). length bs - unit)") auto

declare line_units.simps [simp del]

text \<open>\<open>sect\<close> is \<open>None\<close> when there is no \<^verbatim>\<open>.debug_line\<close> section.\<close>

definition dwarf_line_for_pc :: "bytes option \<Rightarrow> u64 \<Rightarrow> dwarf_line_result result" where
  "dwarf_line_for_pc sect pc = (case sect of None \<Rightarrow> Inl Rejected
     | Some bs \<Rightarrow> if length bs < 4 then Inl Rejected else line_units bs pc 0)"

section \<open>Safety\<close>

definition info_ok :: "bytes \<Rightarrow> dwarf_line_info \<Rightarrow> bool" where
  "info_ok bs info \<longleftrightarrow> li_dir_table info \<le> li_file_table info \<and> li_file_table info \<le> li_instr_start info \<and>
     li_instr_start info \<le> li_instr_end info \<and> li_instr_end info \<le> length bs \<and>
     li_line_range info \<noteq> 0 \<and> li_max_ops info \<noteq> 0"

lemma strnlen_at_post: "s + k \<le> length bs \<Longrightarrow> rpost (\<lambda>n. n \<le> k) (strnlen_at bs s k)"
proof (induction k arbitrary: s)
  case (Suc k)
  have "rpost (\<lambda>n. n \<le> k) (strnlen_at bs (s + 1) k)" using Suc.IH [of "s + 1"] Suc.prems by simp
  then have "rpost (\<lambda>n. n \<le> Suc k) (ebind (strnlen_at bs (s + 1) k) (\<lambda>n. Inr (n + 1)))"
    by (rule rpost_ebind) simp
  then show ?case using Suc.prems by (simp add: byte_at_def)
qed simp

lemma skip_string_post:
  assumes "p \<le> end" "end \<le> length bs"
  shows "rpost (\<lambda>q. p < q \<and> q \<le> end) (skip_string bs p end)"
  unfolding skip_string_def
  by (rule rpost_ebind [OF strnlen_at_post]) (use assms in \<open>auto simp: ptr_diff_def\<close>)

lemma skip_files_post: "p \<le> end \<Longrightarrow> end \<le> length bs \<Longrightarrow> rpost (\<lambda>q. q \<le> end) (skip_files bs p end k)"
proof (induction k arbitrary: p)
  case (Suc k)
  note u = uleb_post [OF Suc.prems(2)]
  show ?case
    by (simp, rule rpost_ebind [OF skip_string_post [OF Suc.prems]], rule rpost_ebind2 [OF u],
        rule rpost_ebind2 [OF u], rule rpost_ebind2 [OF u], rule Suc.IH) (use Suc.prems in auto)
qed simp

lemma skip_dirs_post: "p \<le> end \<Longrightarrow> end \<le> length bs \<Longrightarrow> rpost (\<lambda>q. q \<le> end) (skip_dirs bs p end k)"
proof (induction k arbitrary: p)
  case (Suc k)
  show ?case
    by (simp, rule rpost_ebind [OF skip_string_post [OF Suc.prems]], rule Suc.IH) (use Suc.prems in auto)
qed simp

lemma lookup_file_post: "info_ok bs info \<Longrightarrow> rpost (\<lambda>_. True) (lookup_file bs info i)"
  unfolding lookup_file_def Let_def info_ok_def
  by (rule rpost_if, simp, rule rpost_ebind [OF skip_files_post], simp, simp,
      rule rpost_ebind [OF skip_string_post], simp, simp, rule rpost_ebind2 [OF uleb_post]) auto

lemma lookup_dir_post: "info_ok bs info \<Longrightarrow> rpost (\<lambda>_. True) (lookup_dir bs info i)"
  unfolding lookup_dir_def Let_def info_ok_def
  by (rule rpost_if, simp, rule rpost_ebind [OF skip_dirs_post], simp, simp, rule rpost_if, simp,
      rule rpost_ebind [OF byte_at_post], simp, rule rpost_if, simp, rule rpost_ebind [OF strnlen_at_post])
    (auto simp: ptr_diff_def)

lemma resolve_row_post: "info_ok bs info \<Longrightarrow> rpost (\<lambda>_. True) (resolve_row bs info vm)"
  unfolding resolve_row_def
proof (rule rpost_ebind [OF lookup_file_post], assumption, goal_cases)
  case (1 x)
  then show ?case
    using lookup_dir_post [of bs info "snd x"] by (cases "lookup_dir bs info (snd x)") (auto simp: case_prod_beta)
qed

lemma cdiv_post: "b \<noteq> 0 \<Longrightarrow> rpost (\<lambda>_. True) (cdiv a b)"
  by (simp add: cdiv_def)

lemma ucast_eq_0: "ucast (w :: u8) = (0 :: u64) \<longleftrightarrow> w = 0"
proof -
  have "unat w < 256" using unsigned_less [of w] by simp
  then show ?thesis by (simp add: word_unat_eq_iff unsigned_ucast_eq take_bit_nat_eq_self)
qed

lemma walk_dirs_post:
  "p \<le> e \<Longrightarrow> e \<le> length bs \<Longrightarrow> rpost (\<lambda>q. p \<le> q \<and> q \<le> e) (walk_dirs bs p e)"
proof (induction bs p e rule: walk_dirs.induct)
  case (1 bs p e)
  show ?case
  proof (cases "p < e")
    case True
    then have b: "byte_at bs p = Inr (bs ! p)" using "1.prems" by (simp add: byte_at_def)
    have "rpost (\<lambda>q. p \<le> q \<and> q \<le> e) (ebind (skip_string bs p e) (\<lambda>p. walk_dirs bs p e))" if "bs ! p \<noteq> 0"
      using skip_string_post [OF "1.prems"] "1.IH" [OF True b that] "1.prems"
      by (cases "skip_string bs p e") (auto intro: rpost_mono)
    then show ?thesis using True b by (subst walk_dirs.simps) auto
  qed (use "1.prems" in \<open>simp add: walk_dirs.simps\<close>)
qed

lemma parse_v3_post: "unit + 15 \<le> length bs \<Longrightarrow>
   rpost (\<lambda>o'. li_instr_start o' = li_instr_start out \<and> li_instr_end o' = li_instr_end out) (dwarf_line_parse_v3 bs unit out)"
  by (simp add: dwarf_line_parse_v3_def byte_at_def)

lemma parse_v4_post: "unit + 16 \<le> length bs \<Longrightarrow>
   rpost (\<lambda>o'. li_instr_start o' = li_instr_start out \<and> li_instr_end o' = li_instr_end out) (dwarf_line_parse_v4 bs unit out)"
  by (simp add: dwarf_line_parse_v4_def byte_at_def)

lemma parse_tables_post:
  assumes "unit \<le> length bs"
  shows "rpost (info_ok bs) (dwarf_line_parse_tables bs unit (length bs))"
proof (cases "ptr_diff (length bs) unit < 16")
  case False
  then have l: "unit + 16 \<le> length bs" using assms by (simp add: ptr_diff_def)
  define ul :: u32 where "ul = le_word (take 4 (drop unit bs))"
  define ver :: u16 where "ver = le_word (take 2 (drop (unit + 4) bs))"
  define hl :: u32 where "hl = le_word (take 4 (drop (unit + 6) bs))"
  have f: "field 4 bs unit = Inr ul" "field 2 bs (unit + 4) = Inr ver" "field 4 bs (unit + 6) = Inr hl"
    using l by (simp_all add: field_def ul_def ver_def hl_def)
  let ?hs = "if ver = 3 then 15 else 16 :: nat"
  let ?out = "dwarf_line_info0\<lparr>li_instr_start := unit + 10 + unat hl, li_instr_end := unit + 4 + unat ul\<rparr>"
  have out: "rpost (\<lambda>o'. li_instr_start o' = li_instr_start ?out \<and> li_instr_end o' = li_instr_end ?out)
    (if ver = 3 then dwarf_line_parse_v3 bs unit ?out else dwarf_line_parse_v4 bs unit ?out)"
    using parse_v3_post [of unit bs ?out] parse_v4_post [of unit bs ?out] l by simp
  show ?thesis
    unfolding dwarf_line_parse_tables_def Let_def f ebind_simps
  proof (intro rpost_if, simp_all only: rpost_simps, rule rpost_ebind [OF out], goal_cases)
    case (1 o')
    then have e: "unit + 4 + unat ul \<le> length bs" "unit + 10 + unat hl \<le> unit + 4 + unat ul"
      using l by (auto simp: ptr_diff_def split: if_splits)
    have i: "li_instr_start o' = unit + 10 + unat hl" "li_instr_end o' = unit + 4 + unat ul" using 1 by simp_all
    show ?case
      by (intro rpost_if, simp_all only: rpost_simps, rule rpost_ebind [OF walk_dirs_post])
        (use e i in \<open>auto simp: info_ok_def split: if_splits\<close>)
  qed
qed (simp add: dwarf_line_parse_tables_def)

abbreviation goes_on :: "nat \<Rightarrow> line_next \<Rightarrow> bool" where
  "goes_on end r \<equiv> (\<forall>q vm. r = Inl (q, vm) \<longrightarrow> q \<le> end)"

lemma row_or_go_on_post:
  assumes "info_ok bs info" "p \<le> end"
  shows "rpost (goes_on end) (row_or_go_on bs info pc p vm)"
proof -
  have "rpost (goes_on end) (ebind (resolve_row bs info v) (\<lambda>r. Inr (Inr r)))" for v
    by (rule rpost_ebind [OF resolve_row_post [OF assms(1)]]) simp
  then show ?thesis using assms(2) by (auto simp: row_or_go_on_def Let_def split: prod.splits)
qed

lemma special_opcode_post:
  assumes "info_ok bs info" "p \<le> end"
  shows "rpost (goes_on end) (special_opcode bs info pc p opcode vm)"
  unfolding special_opcode_def Let_def
  by (rule rpost_ebind [OF cdiv_post], use assms in \<open>simp add: info_ok_def ucast_eq_0\<close>,
      rule rpost_ebind [OF cdiv_post], use assms in \<open>simp add: info_ok_def ucast_eq_0\<close>,
      rule row_or_go_on_post [OF assms])

lemma extended_opcode_post:
  assumes i: "info_ok bs info" and e: "end \<le> length bs"
  shows "rpost (goes_on end) (extended_opcode bs info pc p end vm)"
  unfolding extended_opcode_def Let_def
proof (rule rpost_ebind2 [OF uleb_post [OF e]], rule rpost_if, simp, rule rpost_ebind [OF byte_at_post], goal_cases)
  case (1 a q)
  then show ?case using e unat_gt_0 [of a] by (auto simp: ptr_diff_def split: if_splits)
next
  case (2 a q sb)
  have n: "q + unat a \<le> end" "q + 1 \<le> q + unat a" "q + unat a \<le> length bs"
    using 2 e unat_gt_0 [of a] by (auto simp: ptr_diff_def split: if_splits)
  show ?case
    by (intro rpost_if rpost_ebind [OF resolve_row_post [OF i]]
        rpost_ebind2 [OF read_bytes_post [OF n(3,2)]] rpost_ebind [OF uleb_post [OF n(3)]])
      (use n in auto)
qed

lemma line_step_post:
  assumes i: "info_ok bs info" and e: "end = li_instr_end info" and p: "p < end"
  shows "rpost (goes_on end) (line_step bs info pc p end vm)"
proof -
  have l: "end \<le> length bs" "p < length bs" "p + 1 \<le> end" using assms by (auto simp: info_ok_def)
  have nz: "ucast (li_line_range info) \<noteq> (0 :: u64)" "ucast (li_max_ops info) \<noteq> (0 :: u64)"
    using i by (simp_all add: info_ok_def ucast_eq_0)
  show ?thesis
    unfolding line_step_def Let_def
    by (rule rpost_ebind [OF byte_at_post [OF l(2)]],
        intro rpost_if special_opcode_post [OF i l(3)] extended_opcode_post [OF i l(1)] row_or_go_on_post [OF i l(3)]
          rpost_ebind2 [OF uleb_post [OF l(1)]] rpost_ebind2 [OF sleb_post [OF l(1)]]
          rpost_ebind2 [OF read_bytes_post [OF l(1,3)]] rpost_ebind [OF cdiv_post [OF nz(1)]]
          rpost_ebind [OF cdiv_post [OF nz(2)]])
      (use l in auto)
qed

lemma line_loop_post:
  "info_ok bs info \<Longrightarrow> end = li_instr_end info \<Longrightarrow> rpost (\<lambda>_. True) (line_loop bs info pc p end vm)"
proof (induction bs info pc p "end" vm rule: line_loop.induct)
  case (1 bs info pc p "end" vm)
  show ?case
  proof (cases "p < end")
    case True
    then show ?thesis
      using line_step_post [OF "1.prems" True, of pc vm] "1.IH" [OF True] "1.prems"
      by (subst line_loop.simps) (cases "line_step bs info pc p end vm"; auto split: sum.splits)
  qed (simp add: line_loop.simps)
qed

lemma line_units_post: "rpost (\<lambda>_. True) (line_units bs pc unit)"
proof (induction bs pc unit rule: line_units.induct)
  case (1 bs pc unit)
  show ?case
  proof (cases "unit \<le> length bs \<and> length bs - unit \<ge> 4")
    case True
    define ul :: u32 where "ul = le_word (take 4 (drop unit bs))"
    have f: "field 4 bs unit = Inr ul" using True by (auto simp: field_def ul_def)
    let ?r = "ebind (dwarf_line_parse_tables bs unit (length bs)) (\<lambda>info. dwarf_line_find bs info pc)"
    have r: "rpost (\<lambda>_. True) ?r"
    proof (rule rpost_ebind [OF parse_tables_post])
      show "unit \<le> length bs" using True by simp
    qed (simp_all add: dwarf_line_find_def line_loop_post)
    show ?thesis
    proof (cases "ul = - 1 \<or> unat ul > length bs - unit - 4")
      case stop: True
      then show ?thesis using True f by (subst line_units.simps) auto
    next
      case False
      have "rpost (\<lambda>_. True) (line_units bs pc (unit + 4 + unat ul))" if "?r = Inl Rejected"
        using "1.IH" [OF True f] False that by auto
      then show ?thesis using True f False r by (subst line_units.simps) (cases ?r; auto)
    qed
  qed (auto simp: line_units.simps)
qed

section \<open>Properties\<close>


end
