(* ===== verification/Spalloc.thy ===== *)
theory Spalloc
  imports Buddy
begin

text \<open>
  The single-page object allocator of \<^verbatim>\<open>mem/spalloc.c\<close>. A page of objects starts with a header; the
  header's stack of free objects and the allocator's list of pages with a free object are the sequences
  that \<open>Llist\<close> shows the intrusive containers to implement. The headers of all pages are a map from the
  address of the page; frames come from the buddy allocator. The theory shows that live objects are
  aligned, pairwise disjoint and clear of the headers, that an allocation returns a fresh object unless
  memory is exhausted and that freeing a live object succeeds.
\<close>

section \<open>The allocator\<close>

record spalloc_page_header =
  ph_magic :: u32
  ph_freecount :: u16
  ph_free_objs :: "addr list"

record spalloc_allocator =
  partial_list :: "addr list"
  obj_stride :: u16
  obj_offset :: u16
  objs_per_page :: u16

text \<open>The memory the allocators share: the page headers, by the address of the page, and the state of
  the page allocator.\<close>

record kheap =
  headers :: "addr \<Rightarrow> spalloc_page_header"
  pmm :: buddy

abbreviation (input) SPALLOC_MAGIC :: u32 where "SPALLOC_MAGIC \<equiv> 0x2d59fe75"

abbreviation (input) MIN_ORDER :: nat where "MIN_ORDER \<equiv> 0"

text \<open>\<^verbatim>\<open>sizeof(spalloc_page_header_t)\<close> and the address of the member \<^verbatim>\<open>linkage\<close> of a header.\<close>

abbreviation (input) header_size :: u64 where "header_size \<equiv> 32"

definition linkage :: "addr \<Rightarrow> addr" where
  "linkage hdr = hdr + 16"

definition SPALLOC_PAGE_OF :: "addr \<Rightarrow> addr" where
  "SPALLOC_PAGE_OF ptr = ALIGN_DOWN ptr PAGE_SIZE"

definition spalloc_init :: "u64 \<Rightarrow> u64 \<Rightarrow> spalloc_allocator result" where
  "spalloc_init obj_size obj_align =
     kassert (obj_size \<ge> 8) (
     kassert (obj_size \<le> PAGE_SIZE div 2) (
     kassert (obj_align \<le> PAGE_SIZE div 2) (
     kassert (isPow2ull obj_align) (
       let stride = ALIGN_UP obj_size obj_align in
       kassert (stride mod 8 = 0) (
         let obj_stride = ucast stride;
             obj_offset = ucast (ALIGN_UP header_size obj_align)
         in Inr \<lparr>partial_list = [], obj_stride = obj_stride, obj_offset = obj_offset,
              objs_per_page = ucast ((PAGE_SIZE - ucast obj_offset) div ucast obj_stride)\<rparr>)))))"

text \<open>The loop that pushes the objects of a new page on its stack.\<close>

function push_objs :: "addr \<Rightarrow> u16 \<Rightarrow> nat \<Rightarrow> nat \<Rightarrow> addr list \<Rightarrow> addr list" where
  "push_objs vbase stride i n objs =
     (if i < n then push_objs vbase stride (i + 1) n ((vbase + word_of_nat i * ucast stride) # objs) else objs)"
  by pat_completeness auto
termination
  by (relation "measure (\<lambda>(v, st, i, n, objs). n - i)") auto

declare push_objs.simps [simp del]

definition new_page :: "spalloc_allocator \<Rightarrow> addr \<Rightarrow> spalloc_page_header" where
  "new_page al hdr = \<lparr>ph_magic = SPALLOC_MAGIC, ph_freecount = objs_per_page al,
     ph_free_objs = push_objs (hdr + ucast (obj_offset al)) (obj_stride al) 0 (unat (objs_per_page al)) []\<rparr>"

definition spalloc_take_page ::
  "u64 \<Rightarrow> spalloc_allocator \<times> kheap \<Rightarrow> (addr \<times> spalloc_allocator \<times> kheap) result" where
  "spalloc_take_page hhdm = (\<lambda>(al, k). case partial_list al of
     node # rest \<Rightarrow> let hdr = SPALLOC_PAGE_OF node in
       kassert (ph_magic (headers k hdr) = SPALLOC_MAGIC) (Inr (hdr, al\<lparr>partial_list := rest\<rparr>, k))
   | [] \<Rightarrow> ebind (buddy_allocate hhdm MIN_ORDER ALLOC_FLAG_NOFAIL (pmm k)) (\<lambda>(paddr, b).
       let hdr = TO_HHDM hhdm paddr in
       Inr (hdr, al, k\<lparr>pmm := b, headers := (headers k)(hdr := new_page al hdr)\<rparr>)))"

definition spalloc_malloc ::
  "u64 \<Rightarrow> spalloc_allocator \<times> kheap \<Rightarrow> (addr \<times> spalloc_allocator \<times> kheap) result" where
  "spalloc_malloc hhdm st = ebind (spalloc_take_page hhdm st) (\<lambda>(hdr, al, k).
     let H = headers k hdr;
         obj = hd_or (ph_free_objs H) 0;
         H = H\<lparr>ph_free_objs := tl (ph_free_objs H), ph_freecount := ph_freecount H - 1\<rparr>;
         k = k\<lparr>headers := (headers k)(hdr := H)\<rparr>;
         al = (if ph_freecount H > 0 then al\<lparr>partial_list := linkage hdr # partial_list al\<rparr> else al)
     in Inr (obj, al, k))"

definition spalloc_free ::
  "u64 \<Rightarrow> addr \<Rightarrow> spalloc_allocator \<times> kheap \<Rightarrow> (spalloc_allocator \<times> kheap) result" where
  "spalloc_free hhdm obj = (\<lambda>(al, k).
     let hdr = SPALLOC_PAGE_OF obj; H = headers k hdr in
     kassert (ph_magic H = SPALLOC_MAGIC) (
       let H = H\<lparr>ph_free_objs := obj # ph_free_objs H, ph_freecount := ph_freecount H + 1\<rparr>;
           k = k\<lparr>headers := (headers k)(hdr := H)\<rparr>
       in if ph_freecount H = 1 then Inr (al\<lparr>partial_list := linkage hdr # partial_list al\<rparr>, k)
          else if ph_freecount H = objs_per_page al then
            if linkage hdr \<notin> set (partial_list al) then Inl Undefined
            else ebind (buddy_free hhdm (FROM_HHDM hhdm hdr) MIN_ORDER (pmm k)) (\<lambda>b.
              Inr (al\<lparr>partial_list := remove1 (linkage hdr) (partial_list al)\<rparr>, k\<lparr>pmm := b\<rparr>))
          else Inr (al, k)))"

section \<open>Geometry of a page\<close>

definition slot :: "spalloc_allocator \<Rightarrow> addr \<Rightarrow> nat \<Rightarrow> addr" where
  "slot al hdr i = hdr + word_of_nat (unat (obj_offset al) + i * unat (obj_stride al))"

definition slots :: "spalloc_allocator \<Rightarrow> addr \<Rightarrow> addr set" where
  "slots al hdr = slot al hdr ` {..<unat (objs_per_page al)}"

definition al_ok :: "spalloc_allocator \<Rightarrow> bool" where
  "al_ok al \<longleftrightarrow> 0 < unat (obj_stride al) \<and> 32 \<le> unat (obj_offset al) \<and> 0 < unat (objs_per_page al) \<and>
     unat (obj_offset al) + unat (objs_per_page al) * unat (obj_stride al) \<le> 4096"

lemma isPow2ullD:
  assumes "isPow2ull v"
  shows "v = 2 ^ log2ull v"
proof -
  have v: "v \<noteq> 0" "v AND (v - 1) = 0" using assms by (auto simp: isPow2ull_def)
  note b = log2ull_bounds [OF v(1)]
  have bk: "bit w (log2ull w)" if "w \<noteq> 0" for w using clzll_bit(2) [OF that] that by (simp add: log2ull_def)
  have p: "unat (v - 1) = unat v - 1" using v(1) by (simp add: unat_minus_one)
  have "unat v = 2 ^ log2ull v"
  proof (rule ccontr)
    assume "unat v \<noteq> 2 ^ log2ull v"
    then have c: "2 ^ log2ull v \<le> unat (v - 1)" "unat (v - 1) < 2 ^ Suc (log2ull v)" using b p by auto
    then have "log2ull (v - 1) = log2ull v" by (rule log2ull_unique)
    moreover have "v - 1 \<noteq> 0" using c(1) by (metis not_one_le_zero one_le_numeral one_le_power order.trans unat_0)
    ultimately have "bit (v AND (v - 1)) (log2ull v)" using bk [of v] bk [of "v - 1"] v(1) by (simp add: bit_and_iff)
    then show False using v(2) by simp
  qed
  then show ?thesis using b(3) by (intro word_eq_unatI) simp
qed

lemma page_of:
  assumes "IS_ALIGNED a 0x1000" "unat w < 4096"
  shows "SPALLOC_PAGE_OF (a + w) = a" "unat (a + w) = unat a + unat w"
proof -
  have e: "(0x1000 :: u64) = 2 ^ 12" by simp
  have "2 ^ 12 dvd unat a" using assms(1) unfolding e IS_ALIGNED_dvd .
  then obtain q where q: "unat a = 4096 * q" by auto
  have "q < 2 ^ 52" using unat_lt64 [of a] q by simp
  then show u: "unat (a + w) = unat a + unat w" using q assms(2) by (intro unat_add_no_wrap) simp
  have "unat (SPALLOC_PAGE_OF (a + w)) = unat (a + w) div 2 ^ 12 * 2 ^ 12"
    unfolding SPALLOC_PAGE_OF_def e by (rule unat_ALIGN_DOWN) simp
  also have "\<dots> = unat a" using u q assms(2) by simp
  finally show "SPALLOC_PAGE_OF (a + w) = a" by (rule word_eq_unatI)
qed

lemma aligned_add: "IS_ALIGNED a 0x1000 \<Longrightarrow> IS_ALIGNED b 0x1000 \<Longrightarrow> IS_ALIGNED (a + b) 0x1000"
proof -
  assume a: "IS_ALIGNED a 0x1000" "IS_ALIGNED b 0x1000"
  have e: "(0x1000 :: u64) = 2 ^ 12" by simp
  have "2 ^ 12 dvd unat a + unat b" using a unfolding e IS_ALIGNED_dvd by (rule dvd_add)
  then have "2 ^ 12 dvd (unat a + unat b) mod 2 ^ 64" by (rule dvd_mod) simp
  then show ?thesis unfolding e IS_ALIGNED_dvd by (simp add: unat_word_ariths)
qed

lemma node_aligned:
  assumes "IS_ALIGNED h 0x1000" "f < 2 ^ 52"
  shows "IS_ALIGNED (node_of h f) 0x1000"
proof -
  have e: "(0x1000 :: u64) = 2 ^ 12" by simp
  have "IS_ALIGNED (pa f) 0x1000" unfolding e IS_ALIGNED_dvd using assms(2) by (simp add: unat_pa)
  then show ?thesis using assms(1) by (simp add: node_of_def TO_HHDM_def aligned_add)
qed

lemma slot_offset:
  assumes "al_ok al" "i < unat (objs_per_page al)"
  shows "unat (obj_offset al) + i * unat (obj_stride al) + unat (obj_stride al) \<le> 4096"
    "unat (word_of_nat (unat (obj_offset al) + i * unat (obj_stride al)) :: u64) = unat (obj_offset al) + i * unat (obj_stride al)"
proof -
  have "(i + 1) * unat (obj_stride al) \<le> unat (objs_per_page al) * unat (obj_stride al)"
    using assms(2) by (intro mult_le_mono1) simp
  then show le: "unat (obj_offset al) + i * unat (obj_stride al) + unat (obj_stride al) \<le> 4096"
    using assms(1) by (auto simp: al_ok_def algebra_simps)
  then have "(unat (obj_offset al) + i * unat (obj_stride al)) mod 2 ^ LENGTH(64) = unat (obj_offset al) + i * unat (obj_stride al)"
    by (intro mod_less) simp
  then show "unat (word_of_nat (unat (obj_offset al) + i * unat (obj_stride al)) :: u64) = unat (obj_offset al) + i * unat (obj_stride al)"
    by (simp only: unat_of_nat)
qed

lemma unat_slot:
  assumes "al_ok al" "i < unat (objs_per_page al)" "IS_ALIGNED hdr 0x1000"
  shows "unat (slot al hdr i) = unat hdr + (unat (obj_offset al) + i * unat (obj_stride al))"
    "SPALLOC_PAGE_OF (slot al hdr i) = hdr"
proof -
  have "unat (word_of_nat (unat (obj_offset al) + i * unat (obj_stride al)) :: u64) < 4096"
    using slot_offset [OF assms(1,2)] assms(1) by (auto simp: al_ok_def)
  from page_of [OF assms(3) this] show "SPALLOC_PAGE_OF (slot al hdr i) = hdr"
    "unat (slot al hdr i) = unat hdr + (unat (obj_offset al) + i * unat (obj_stride al))"
    using slot_offset(2) [OF assms(1,2)] by (simp_all add: slot_def)
qed

lemma slot_inj:
  assumes "al_ok al" "i < unat (objs_per_page al)" "j < unat (objs_per_page al)" "IS_ALIGNED hdr 0x1000"
  shows "slot al hdr i = slot al hdr j \<longleftrightarrow> i = j"
  using unat_slot(1) [OF assms(1,2,4)] unat_slot(1) [OF assms(1,3,4)] assms(1)
  by (auto simp: al_ok_def word_unat_eq_iff)

lemma slots_page: "al_ok al \<Longrightarrow> IS_ALIGNED hdr 0x1000 \<Longrightarrow> x \<in> slots al hdr \<Longrightarrow> SPALLOC_PAGE_OF x = hdr \<and> x \<noteq> 0"
proof -
  assume a: "al_ok al" "IS_ALIGNED hdr 0x1000" "x \<in> slots al hdr"
  then obtain i where i: "i < unat (objs_per_page al)" "x = slot al hdr i" by (auto simp: slots_def)
  have "0 < unat x" using unat_slot(1) [OF a(1) i(1) a(2)] a(1) i(2) by (simp add: al_ok_def)
  then show ?thesis using unat_slot(2) [OF a(1) i(1) a(2)] i(2) by auto
qed

lemma push_objs_eq:
  "push_objs v st i n objs = rev (map (\<lambda>j. v + word_of_nat j * ucast st) [i..<n]) @ objs"
proof (induction v st i n objs rule: push_objs.induct)
  case (1 v st i n objs)
  then show ?case by (subst push_objs.simps) (auto simp: upt_conv_Cons)
qed

lemma new_page_objs: "ph_free_objs (new_page al hdr) = rev (map (slot al hdr) [0..<unat (objs_per_page al)])"
  by (simp add: new_page_def push_objs_eq slot_def algebra_simps)

lemma spalloc_init_ok:
  assumes "spalloc_init sz a = Inr al"
  shows "al_ok al" "partial_list al = []" "unat sz \<le> unat (obj_stride al)" "unat a dvd unat (obj_stride al)"
    "unat a dvd unat (obj_offset al)" "unat a dvd 4096"
proof -
  have c: "8 \<le> unat sz" "unat sz \<le> 2048" "unat a \<le> 2048" "isPow2ull a" "partial_list al = []"
    using assms by (auto simp: spalloc_init_def kassert_def Let_def word_le_nat_alt split: if_splits)
  define k where "k = log2ull a"
  have a: "a = 2 ^ k" "k < 64" using isPow2ullD [OF c(4)] log2ull_less by (auto simp: k_def)
  have "(2::nat) ^ k \<le> 2 ^ 11" using c(3) a by simp
  then have k: "k \<le> 11" by (rule power_le_imp_le_exp [rotated]) simp
  then have d: "2 ^ k dvd (2048 :: nat)" using le_imp_power_dvd [of k 11 2] by simp
  have d2: "2 ^ k dvd (4096 :: nat)" using k le_imp_power_dvd [of k 12 2] by simp
  have up: "unat (ALIGN_UP x a) = (unat x + (2 ^ k - 1)) div 2 ^ k * 2 ^ k" if "unat x \<le> 2048" for x
    unfolding a(1) using c(3) a that by (intro unat_ALIGN_UP) auto
  have le: "unat (ALIGN_UP x a) \<le> 2048" "unat x \<le> unat (ALIGN_UP x a)" "2 ^ k dvd unat (ALIGN_UP x a)"
    if x: "unat x \<le> 2048" for x
  proof -
    note r = round_up_nat [of "2 ^ k" "unat x"]
    show "unat x \<le> unat (ALIGN_UP x a)" "2 ^ k dvd unat (ALIGN_UP x a)" using r up [OF x] by simp_all
    obtain m :: nat where m: "2048 = 2 ^ k * m" using d by (auto simp: dvd_def)
    obtain j where j: "unat (ALIGN_UP x a) = 2 ^ k * j" using r(3) up [OF x] by (auto simp: dvd_def)
    have "2 ^ k * j < 2 ^ k * (m + 1)" using r(2) up [OF x] x m j by (simp add: algebra_simps)
    then have "j \<le> m" by (simp only: mult_less_cancel1) simp
    then show "unat (ALIGN_UP x a) \<le> 2048" unfolding m j by (rule mult_le_mono2)
  qed
  define st off where "st = ALIGN_UP sz a" and "off = ALIGN_UP 32 a"
  have s: "unat st \<le> 2048" "unat sz \<le> unat st" "2 ^ k dvd unat st" "unat off \<le> 2048" "32 \<le> unat off" "2 ^ k dvd unat off"
    using le [OF c(2)] le [of 32] by (simp_all add: st_def off_def)
  have u: "unat (ucast w :: u16) = unat w" if "unat (w :: u64) \<le> 4096" for w
    using that by (simp add: unsigned_ucast_eq take_bit_nat_eq_self)
  have al: "obj_stride al = ucast st" "obj_offset al = ucast off"
    "objs_per_page al = ucast ((0x1000 - ucast (obj_offset al)) div (ucast (obj_stride al) :: u64))"
    using assms by (auto simp: spalloc_init_def kassert_def Let_def st_def off_def split: if_splits)
  have us: "unat (obj_stride al) = unat st" "unat (obj_offset al) = unat off" using al s u by simp_all
  have uc: "unat (ucast w :: u64) = unat w" for w :: u16
  proof -
    have "unat w < 2 ^ 16" using unsigned_less [of w] by simp
    then show ?thesis by (simp add: unsigned_ucast_eq take_bit_nat_eq_self)
  qed
  have "unat (0x1000 - ucast (obj_offset al) :: u64) = 4096 - unat off"
    using us s(4) by (simp add: unat_sub word_le_nat_alt uc)
  then have "unat ((0x1000 - ucast (obj_offset al)) div (ucast (obj_stride al) :: u64)) = (4096 - unat off) div unat st"
    by (simp only: unat_div uc us)
  moreover have "(4096 - unat off) div unat st \<le> 4096" by (rule order_trans [OF div_le_dividend]) simp
  ultimately have n: "unat (objs_per_page al) = (4096 - unat off) div unat st" using al(3) u by simp
  have "0 < (4096 - unat off) div unat st" using s c(1) by (simp add: div_greater_zero_iff)
  moreover have "unat off + (4096 - unat off) div unat st * unat st \<le> 4096"
    using div_times_less_eq_dividend [of "4096 - unat off" "unat st"] s(4) by linarith
  ultimately show "al_ok al" using s c(1) us n by (simp add: al_ok_def)
  show "partial_list al = []" "unat sz \<le> unat (obj_stride al)" "unat a dvd unat (obj_stride al)"
    "unat a dvd unat (obj_offset al)" "unat a dvd 4096" using c us s a d2 by simp_all
qed

section \<open>The invariant\<close>

text \<open>\<open>sp_inv h A al k P X live\<close>: the pages \<open>P\<close> (as frame numbers) belong to the allocator and are allocated
  frames of the page allocator; their headers agree with the set of live objects; the partial list holds
  the pages that have a free object, apart from those in \<open>X\<close>.\<close>

definition hdr_ok :: "spalloc_allocator \<Rightarrow> addr \<Rightarrow> spalloc_page_header \<Rightarrow> addr set \<Rightarrow> bool" where
  "hdr_ok al hdr H live \<longleftrightarrow> ph_magic H = SPALLOC_MAGIC \<and> unat (ph_freecount H) = length (ph_free_objs H) \<and>
     distinct (ph_free_objs H) \<and> set (ph_free_objs H) \<subseteq> slots al hdr \<and>
     live \<inter> slots al hdr = slots al hdr - set (ph_free_objs H)"

definition sp_inv ::
  "u64 \<Rightarrow> block set \<Rightarrow> spalloc_allocator \<Rightarrow> kheap \<Rightarrow> nat set \<Rightarrow> nat set \<Rightarrow> addr set \<Rightarrow> bool" where
  "sp_inv h A al k P X live \<longleftrightarrow> al_ok al \<and> (\<forall>f\<in>P. f < 2 ^ 52 \<and> (f, 0) \<in> A \<and> hdr_ok al (node_of h f) (headers k (node_of h f)) live) \<and>
     distinct (partial_list al) \<and>
     set (partial_list al) = (\<lambda>f. linkage (node_of h f)) ` {f \<in> P - X. ph_free_objs (headers k (node_of h f)) \<noteq> []} \<and>
     live \<subseteq> (\<Union>f\<in>P. slots al (node_of h f))"

lemma slots_partial [simp]: "slots (al\<lparr>partial_list := xs\<rparr>) = slots al" "al_ok (al\<lparr>partial_list := xs\<rparr>) = al_ok al"
  "hdr_ok (al\<lparr>partial_list := xs\<rparr>) = hdr_ok al"
  by (simp_all add: slots_def slot_def al_ok_def hdr_ok_def fun_eq_iff)

lemma slots_disjoint:
  assumes "IS_ALIGNED h 0x1000" "al_ok al" "f < 2 ^ 52" "g < 2 ^ 52" "x \<in> slots al (node_of h f)" "x \<in> slots al (node_of h g)"
  shows "f = g"
  using slots_page [OF assms(2) node_aligned [OF assms(1,3)] assms(5)]
    slots_page [OF assms(2) node_aligned [OF assms(1,4)] assms(6)] node_of_inj [OF assms(3,4)] by metis

lemma page_of_linkage:
  assumes "IS_ALIGNED h 0x1000" "f < 2 ^ 52"
  shows "SPALLOC_PAGE_OF (linkage (node_of h f)) = node_of h f"
  unfolding linkage_def by (rule page_of(1) [OF node_aligned [OF assms]]) simp

lemma card_slots: "al_ok al \<Longrightarrow> IS_ALIGNED hdr 0x1000 \<Longrightarrow> card (slots al hdr) = unat (objs_per_page al) \<and> finite (slots al hdr)"
proof -
  assume a: "al_ok al" "IS_ALIGNED hdr 0x1000"
  then have "inj_on (slot al hdr) {..<unat (objs_per_page al)}" by (intro inj_onI) (simp add: slot_inj)
  then show ?thesis by (simp add: slots_def card_image)
qed

lemma free_objs_bound:
  assumes "hdr_ok al hdr H live" "al_ok al" "IS_ALIGNED hdr 0x1000"
  shows "length (ph_free_objs H) \<le> unat (objs_per_page al)"
    "x \<in> live \<Longrightarrow> x \<in> slots al hdr \<Longrightarrow> length (ph_free_objs H) < unat (objs_per_page al)"
proof -
  note c = card_slots [OF assms(2,3)]
  have d: "length (ph_free_objs H) = card (set (ph_free_objs H))" "set (ph_free_objs H) \<subseteq> slots al hdr"
    using assms(1) by (auto simp: hdr_ok_def distinct_card)
  then show "length (ph_free_objs H) \<le> unat (objs_per_page al)" using c card_mono [of "slots al hdr"] by simp
  assume "x \<in> live" "x \<in> slots al hdr"
  then have "set (ph_free_objs H) \<subset> slots al hdr" using assms(1) d(2) by (auto simp: hdr_ok_def)
  then show "length (ph_free_objs H) < unat (objs_per_page al)" using c d(1) psubset_card_mono by metis
qed

lemma new_page_ok:
  assumes "al_ok al" "IS_ALIGNED hdr 0x1000" "live \<inter> slots al hdr = {}"
  shows "hdr_ok al hdr (new_page al hdr) live" "ph_free_objs (new_page al hdr) \<noteq> []"
proof -
  have "distinct (map (slot al hdr) [0..<unat (objs_per_page al)])"
    using assms(1,2) by (auto simp: distinct_map inj_on_def slot_inj)
  moreover have "ph_magic (new_page al hdr) = 0x2d59fe75" "ph_freecount (new_page al hdr) = objs_per_page al"
    by (simp_all add: new_page_def)
  ultimately show "hdr_ok al hdr (new_page al hdr) live"
    using assms(3) by (auto simp: hdr_ok_def new_page_objs slots_def)
  show "ph_free_objs (new_page al hdr) \<noteq> []" using assms(1) by (simp add: new_page_objs al_ok_def)
qed

text \<open>Changing one header, and the pages an allocator does not own.\<close>

lemma sp_inv_header:
  assumes i: "sp_inv h A al k P X live" and f: "f \<in> P" and h: "IS_ALIGNED h 0x1000"
    and X: "f \<in> X \<or> ph_free_objs H \<noteq> [] \<and> ph_free_objs (headers k (node_of h f)) \<noteq> []"
    and H: "hdr_ok al (node_of h f) H live'"
    and l: "live' \<subseteq> live \<union> slots al (node_of h f)" "live - slots al (node_of h f) \<subseteq> live'"
  shows "sp_inv h A al (k\<lparr>headers := (headers k)(node_of h f := H)\<rparr>) P X live'"
proof -
  have ok: "al_ok al" "f < 2 ^ 52" and lt: "\<And>g. g \<in> P \<Longrightarrow> g < 2 ^ 52" using i f by (auto simp: sp_inv_def)
  have ne: "node_of h g \<noteq> node_of h f" if "g \<in> P" "g \<noteq> f" for g using that lt ok by (simp add: node_of_inj)
  have "hdr_ok al (node_of h g) (headers k (node_of h g)) live'" if g: "g \<in> P" "g \<noteq> f" for g
  proof -
    have "slots al (node_of h g) \<inter> slots al (node_of h f) = {}" using slots_disjoint [OF h ok(1) lt ok(2)] g by blast
    then have "live' \<inter> slots al (node_of h g) = live \<inter> slots al (node_of h g)" using l by blast
    then show ?thesis using i g(1) by (simp add: sp_inv_def hdr_ok_def)
  qed
  moreover have "live' \<subseteq> (\<Union>f\<in>P. slots al (node_of h f))" using i l(1) f by (auto simp: sp_inv_def)
  moreover have "{g \<in> P - X. ph_free_objs (headers k (node_of h g)) \<noteq> []} =
      {g \<in> P - X. ph_free_objs (((headers k)(node_of h f := H)) (node_of h g)) \<noteq> []}"
    using f ne X by auto
  ultimately show ?thesis using i H f ne by (auto simp: sp_inv_def)
qed

section \<open>The operations\<close>

text \<open>The pages \<open>P\<close> of the allocator and the allocated blocks \<open>A\<close> before and after an operation.\<close>

definition grows :: "block set \<Rightarrow> nat set \<Rightarrow> block set \<Rightarrow> nat set \<Rightarrow> bool" where
  "grows A P A' P' \<longleftrightarrow> P' = P \<and> A' = A \<or> (\<exists>f. (f, 0) \<notin> A \<and> P' = insert f P \<and> A' = insert (f, 0) A)"

definition shrinks :: "block set \<Rightarrow> nat set \<Rightarrow> block set \<Rightarrow> nat set \<Rightarrow> bool" where
  "shrinks A P A' P' \<longleftrightarrow> P' = P \<and> A' = A \<or> (\<exists>f\<in>P. P' = P - {f} \<and> A' = A - {(f, 0)})"

lemma unlist_page:
  assumes i: "sp_inv h A al k P {} live" and f: "f \<in> P" "linkage (node_of h f) \<in> set (partial_list al)"
  shows "sp_inv h A (al\<lparr>partial_list := remove1 (linkage (node_of h f)) (partial_list al)\<rparr>) k P {f} live"
proof -
  have "inj_on (\<lambda>f. linkage (node_of h f)) P" using i by (auto simp: sp_inv_def inj_on_def linkage_def node_of_inj)
  then have "set (partial_list al) - {linkage (node_of h f)} =
      (\<lambda>f. linkage (node_of h f)) ` {g \<in> P - {f}. ph_free_objs (headers k (node_of h g)) \<noteq> []}"
    using i f by (auto simp: sp_inv_def inj_on_def)
  then show ?thesis using i by (auto simp: sp_inv_def)
qed

lemma relist_page:
  assumes i: "sp_inv h A al k P {f} live" and f: "f \<in> P"
  shows "ph_free_objs (headers k (node_of h f)) \<noteq> [] \<Longrightarrow>
      sp_inv h A (al\<lparr>partial_list := linkage (node_of h f) # partial_list al\<rparr>) k P {} live"
    "ph_free_objs (headers k (node_of h f)) = [] \<Longrightarrow> sp_inv h A al k P {} live"
proof -
  have inj: "inj_on (\<lambda>f. linkage (node_of h f)) P" using i by (auto simp: sp_inv_def inj_on_def linkage_def node_of_inj)
  have n: "linkage (node_of h f) \<notin> set (partial_list al)" using i f inj_onD [OF inj] by (auto simp: sp_inv_def)
  show "sp_inv h A (al\<lparr>partial_list := linkage (node_of h f) # partial_list al\<rparr>) k P {} live"
    if "ph_free_objs (headers k (node_of h f)) \<noteq> []"
    using i f that n by (auto simp: sp_inv_def)
  show "sp_inv h A al k P {} live" if "ph_free_objs (headers k (node_of h f)) = []"
    using i f that by (auto simp: sp_inv_def)
qed

lemma full_page:
  assumes "sp_inv h A al k P {} live" "ph_free_objs (headers k (node_of h f)) = []"
  shows "sp_inv h A al k P {f} live"
proof -
  have "{g \<in> P - {f}. ph_free_objs (headers k (node_of h g)) \<noteq> []} = {g \<in> P. ph_free_objs (headers k (node_of h g)) \<noteq> []}"
    using assms(2) by auto
  then show ?thesis using assms(1) by (simp add: sp_inv_def)
qed

lemma remove_page:
  assumes "sp_inv h A al k P {f} live" "live \<inter> slots al (node_of h f) = {}"
  shows "sp_inv h (A - {(f, 0)}) al (k\<lparr>pmm := b\<rparr>) (P - {f}) {} live"
  using assms by (fastforce simp: sp_inv_def)

lemma add_page:
  assumes i: "sp_inv h A al k P {} live" and h: "IS_ALIGNED h 0x1000" and f: "f < 2 ^ 52" "f \<notin> P"
  shows "sp_inv h (insert (f, 0) A) al
    (k\<lparr>pmm := b, headers := (headers k)(node_of h f := new_page al (node_of h f))\<rparr>) (insert f P) {f} live"
proof -
  have ok: "al_ok al" and lt: "\<And>g. g \<in> P \<Longrightarrow> g < 2 ^ 52" using i by (auto simp: sp_inv_def)
  have ne: "node_of h g \<noteq> node_of h f" if "g \<in> P" for g using that lt f by (auto simp: node_of_inj)
  have "live \<inter> slots al (node_of h f) = {}"
    using i slots_disjoint [OF h ok lt f(1)] f(2) by (fastforce simp: sp_inv_def)
  note n = new_page_ok [OF ok node_aligned [OF h f(1)] this]
  have "{g \<in> insert f P - {f}. ph_free_objs (((headers k)(node_of h f := new_page al (node_of h f))) (node_of h g)) \<noteq> []} =
      {g \<in> P. ph_free_objs (headers k (node_of h g)) \<noteq> []}" using ne f(2) by auto
  then show ?thesis using i n(1) f ne by (auto simp: sp_inv_def)
qed

lemma take_page_rep:
  assumes h: "IS_ALIGNED h 0x1000" and r: "buddy_reach h M A (pmm k)" and i: "sp_inv h A al k P {} live"
  shows "spalloc_take_page h (al, k) = Inl Panicked \<and> (\<forall>j\<le>MAX_ORDER. orders (pmm k) j = []) \<and> partial_list al = [] \<or>
    (\<exists>f al' k' P' A'. spalloc_take_page h (al, k) = Inr (node_of h f, al', k') \<and> sp_inv h A' al' k' P' {f} live \<and>
      f \<in> P' \<and> ph_free_objs (headers k' (node_of h f)) \<noteq> [] \<and> buddy_reach h M A' (pmm k') \<and>
      (\<exists>xs. al' = al\<lparr>partial_list := xs\<rparr>) \<and> (\<forall>a. a \<notin> node_of h ` P' \<longrightarrow> headers k' a = headers k a) \<and>
      grows A P A' P')"
proof (cases "partial_list al")
  case (Cons node rest)
  then have "node \<in> (\<lambda>f. linkage (node_of h f)) ` {f \<in> P. ph_free_objs (headers k (node_of h f)) \<noteq> []}"
    using i by (auto simp: sp_inv_def)
  then obtain f where f: "f \<in> P" "node = linkage (node_of h f)" "ph_free_objs (headers k (node_of h f)) \<noteq> []"
    by blast
  have lt: "f < 2 ^ 52" "ph_magic (headers k (node_of h f)) = 0x2d59fe75" using i f(1) by (auto simp: sp_inv_def hdr_ok_def)
  have "spalloc_take_page h (al, k) = Inr (node_of h f, al\<lparr>partial_list := rest\<rparr>, k)"
    using Cons f(2) page_of_linkage [OF h lt(1)] lt(2) by (simp add: spalloc_take_page_def)
  moreover have "sp_inv h A (al\<lparr>partial_list := rest\<rparr>) k P {f} live"
    using unlist_page [OF i f(1)] f(2) Cons by simp
  moreover have "grows A P A P" by (simp add: grows_def)
  ultimately show ?thesis using f r by blast
next
  case Nil
  from allocate_reach [OF r, of 0 ALLOC_FLAG_NOFAIL] consider
    f s' where "buddy_allocate h 0 ALLOC_FLAG_NOFAIL (pmm k) = Inr (pa f, s')" "unat (pa f) = f * 4096"
      "\<forall>a\<in>A. fr (f, 0) \<inter> fr a = {}" "buddy_reach h M (insert (f, 0) A) s'"
  | "\<forall>j\<le>MAX_ORDER. orders (pmm k) j = []" "buddy_allocate h 0 ALLOC_FLAG_NOFAIL (pmm k) = Inl Panicked"
    by (auto simp: ALLOC_FLAG_NOFAIL_def)
  then show ?thesis
  proof cases
    case 1
    have a: "(f, 0) \<notin> A" using 1(3) by force
    have f: "f < 2 ^ 52" "f \<notin> P" using 1(2) unat_lt64 [of "pa f"] a i by (auto simp: sp_inv_def)
    let ?k = "k\<lparr>pmm := s', headers := (headers k)(node_of h f := new_page al (node_of h f))\<rparr>"
    have "spalloc_take_page h (al, k) = Inr (node_of h f, al, ?k)"
      using Nil 1(1) by (simp add: spalloc_take_page_def node_of_def Let_def)
    moreover have "grows A P (insert (f, 0) A) (insert f P)" using a by (auto simp: grows_def)
    moreover have "ph_free_objs (new_page al (node_of h f)) \<noteq> []" using i by (simp add: sp_inv_def al_ok_def new_page_objs)
    moreover note add_page [OF i h f, of s'] 1(4) a
    ultimately show ?thesis
      by (intro disjI2 exI [of _ f] exI [of _ al] exI [of _ ?k] exI [of _ "insert f P"] exI [of _ "insert (f, 0) A"])
        (auto intro: exI [of _ "partial_list al"])
  next
    case 2
    then show ?thesis using Nil by (auto simp: spalloc_take_page_def)
  qed
qed

lemma spalloc_malloc_rep:
  assumes h: "IS_ALIGNED h 0x1000" and r: "buddy_reach h M A (pmm k)" and i: "sp_inv h A al k P {} live"
  shows "spalloc_malloc h (al, k) = Inl Panicked \<and> (\<forall>j\<le>MAX_ORDER. orders (pmm k) j = []) \<and> partial_list al = [] \<or>
    (\<exists>obj al' k' P' A'. spalloc_malloc h (al, k) = Inr (obj, al', k') \<and> obj \<notin> live \<and>
      sp_inv h A' al' k' P' {} (insert obj live) \<and> buddy_reach h M A' (pmm k') \<and>
      (\<exists>xs. al' = al\<lparr>partial_list := xs\<rparr>) \<and> (\<forall>a. a \<notin> node_of h ` P' \<longrightarrow> headers k' a = headers k a) \<and>
      grows A P A' P')"
  using take_page_rep [OF assms]
proof (elim disjE exE conjE, goal_cases)
  case 1
  then show ?case by (simp add: spalloc_malloc_def)
next
  case t: (2 f al1 k1 P1 A1 xs)
  let ?n = "node_of h f"
  define H where "H = headers k1 ?n"
  obtain x objs where x: "ph_free_objs H = x # objs" using t(4) by (cases "ph_free_objs H") (auto simp: H_def)
  define H' where "H' = H\<lparr>ph_free_objs := objs, ph_freecount := ph_freecount H - 1\<rparr>"
  have ok: "hdr_ok al1 ?n H live" using t(2,3) by (auto simp: sp_inv_def H_def)
  have "ph_freecount H \<noteq> 0" using ok x by (auto simp: hdr_ok_def)
  then have ok': "hdr_ok al1 ?n H' (insert x live)" "x \<notin> live" "x \<in> slots al1 ?n"
    using ok x by (auto simp: hdr_ok_def H'_def unat_minus_one)
  let ?k = "k1\<lparr>headers := (headers k1)(?n := H')\<rparr>"
  have i': "sp_inv h A1 al1 ?k P1 {f} (insert x live)"
    using sp_inv_header [OF t(2,3) h _ ok'(1)] ok'(3) by auto
  define al2 where "al2 = (if ph_freecount H' > 0 then al1\<lparr>partial_list := linkage ?n # partial_list al1\<rparr> else al1)"
  have "ph_freecount H' > 0 \<longleftrightarrow> ph_free_objs H' \<noteq> []"
    using ok'(1) by (auto simp: hdr_ok_def word_less_nat_alt)
  then have "sp_inv h A1 al2 ?k P1 {} (insert x live)"
    using relist_page [OF i' t(3)] by (auto simp: al2_def)
  moreover have "spalloc_malloc h (al, k) = Inr (x, al2, ?k)"
    using t(1) x by (simp add: spalloc_malloc_def Let_def al2_def H'_def H_def)
  moreover have "\<exists>xs. al2 = al\<lparr>partial_list := xs\<rparr>"
    using t(6) by (auto simp: al2_def)
  moreover have "headers ?k a = headers k a" if "a \<notin> node_of h ` P1" for a using t(3,7) that by auto
  moreover have "buddy_reach h M A1 (pmm ?k)" using t(5) by simp
  ultimately show ?case using ok'(2) t(8) by blast
qed

lemma spalloc_free_rep:
  assumes h: "IS_ALIGNED h 0x1000" and r: "buddy_reach h M A (pmm k)" and i: "sp_inv h A al k P {} live" and x: "x \<in> live"
  shows "\<exists>al' k' P' A'. spalloc_free h x (al, k) = Inr (al', k') \<and>
      sp_inv h A' al' k' P' {} (live - {x}) \<and> buddy_reach h M A' (pmm k') \<and>
      (\<exists>xs. al' = al\<lparr>partial_list := xs\<rparr>) \<and> (\<forall>a. a \<notin> node_of h ` P \<longrightarrow> headers k' a = headers k a) \<and>
      shrinks A P A' P'"
proof -
  obtain f where f: "f \<in> P" "x \<in> slots al (node_of h f)" using i x by (auto simp: sp_inv_def)
  let ?n = "node_of h f"
  define H where "H = headers k ?n"
  have lt: "al_ok al" "f < 2 ^ 52" "(f, 0) \<in> A" and ok: "hdr_ok al ?n H live" using i f(1) by (auto simp: sp_inv_def H_def)
  note al = node_aligned [OF h lt(2)]
  have pg: "SPALLOC_PAGE_OF x = ?n" using slots_page [OF lt(1) al f(2)] by simp
  define H' where "H' = H\<lparr>ph_free_objs := x # ph_free_objs H, ph_freecount := ph_freecount H + 1\<rparr>"
  define k1 where "k1 = k\<lparr>headers := (headers k)(?n := H')\<rparr>"
  have b: "length (ph_free_objs H) < unat (objs_per_page al)" by (rule free_objs_bound(2) [OF ok lt(1) al x f(2)])
  have "unat (objs_per_page al) < 2 ^ 16" using unsigned_less [of "objs_per_page al"] by simp
  then have fc: "unat (ph_freecount H') = length (ph_free_objs H')"
    using ok b by (simp add: H'_def hdr_ok_def unat_add_no_wrap)
  then have ok': "hdr_ok al ?n H' (live - {x})" using ok x f(2) by (auto simp: hdr_ok_def H'_def)
  have run: "spalloc_free h x (al, k) = (if ph_freecount H' = 1 then Inr (al\<lparr>partial_list := linkage ?n # partial_list al\<rparr>, k1)
      else if ph_freecount H' = objs_per_page al then
        if linkage ?n \<notin> set (partial_list al) then Inl Undefined
        else ebind (buddy_free h (FROM_HHDM h ?n) 0 (pmm k1)) (\<lambda>b.
          Inr (al\<lparr>partial_list := remove1 (linkage ?n) (partial_list al)\<rparr>, k1\<lparr>pmm := b\<rparr>))
      else Inr (al, k1))"
    using ok by (simp add: spalloc_free_def pg Let_def k1_def H'_def H_def hdr_ok_def)
  consider (first) "ph_free_objs H = []" | (all) "ph_free_objs H \<noteq> []" "ph_freecount H' = objs_per_page al"
    | (some) "ph_free_objs H \<noteq> []" "ph_freecount H' \<noteq> objs_per_page al" by blast
  then show ?thesis
  proof cases
    case first
    have "ph_freecount H' = 1" using fc first by (intro word_eq_unatI) (simp add: H'_def)
    then have "spalloc_free h x (al, k) = Inr (al\<lparr>partial_list := linkage ?n # partial_list al\<rparr>, k1)" using run by simp
    moreover have "sp_inv h A al k1 P {f} (live - {x})"
      unfolding k1_def by (rule sp_inv_header [OF full_page [OF i] f(1) h _ ok']) (use first x f(2) in \<open>auto simp: H_def\<close>)
    then have "sp_inv h A (al\<lparr>partial_list := linkage ?n # partial_list al\<rparr>) k1 P {} (live - {x})"
      by (rule relist_page(1) [OF _ f(1)]) (simp add: k1_def H'_def)
    ultimately show ?thesis using r f(1) by (auto simp: k1_def shrinks_def)
  next
    case some
    have "ph_freecount H' \<noteq> 1" using fc some(1) by (auto simp: H'_def)
    then have "spalloc_free h x (al, k) = Inr (al, k1)" using run some(2) by simp
    moreover have "sp_inv h A al k1 P {} (live - {x})"
      unfolding k1_def by (rule sp_inv_header [OF i f(1) h _ ok']) (use some x f(2) in \<open>auto simp: H_def H'_def\<close>)
    moreover have "\<exists>xs. al = al\<lparr>partial_list := xs\<rparr>" by (rule exI [of _ "partial_list al"]) simp
    moreover have "shrinks A P A P" by (simp add: shrinks_def)
    moreover have "\<forall>a. a \<notin> node_of h ` P \<longrightarrow> headers k1 a = headers k a" "buddy_reach h M A (pmm k1)"
      using f(1) r by (auto simp: k1_def)
    ultimately show ?thesis by blast
  next
    case all
    let ?al = "al\<lparr>partial_list := remove1 (linkage ?n) (partial_list al)\<rparr>"
    have ne: "ph_freecount H' \<noteq> 1" using fc all(1) by (auto simp: H'_def)
    have l: "linkage ?n \<in> set (partial_list al)" using i f(1) all(1) by (auto simp: sp_inv_def H_def)
    obtain b where b: "buddy_free h (pa f) 0 (pmm k) = Inr b" "buddy_reach h M (A - {(f, 0)}) b"
      using free_reach [OF r lt(3)] by blast
    have run': "spalloc_free h x (al, k) = Inr (?al, k1\<lparr>pmm := b\<rparr>)" using run ne all(2) l b(1) by (simp add: k1_def)
    have "sp_inv h A ?al k1 P {f} (live - {x})"
      unfolding k1_def by (rule sp_inv_header [OF unlist_page [OF i f(1) l] f(1) h]) (use ok' x f(2) in auto)
    moreover have "set (ph_free_objs H') = slots al ?n"
    proof (rule card_subset_eq)
      show "card (set (ph_free_objs H')) = card (slots al ?n)"
        using card_slots [OF lt(1) al] fc all(2) ok' by (simp add: hdr_ok_def distinct_card)
    qed (use card_slots [OF lt(1) al] ok' in \<open>auto simp: hdr_ok_def\<close>)
    then have "(live - {x}) \<inter> slots ?al ?n = {}" using ok' by (simp add: hdr_ok_def)
    ultimately have "sp_inv h (A - {(f, 0)}) ?al (k1\<lparr>pmm := b\<rparr>) (P - {f}) {} (live - {x})" by (rule remove_page)
    then show ?thesis using run' b(2) f(1) by (auto simp: k1_def shrinks_def)
  qed
qed

section \<open>The allocator in use\<close>

text \<open>The states that allocations and frees of live objects reach from a fresh allocator for objects of
  size \<open>sz\<close> and alignment \<open>align\<close>, over a page allocator that manages the frames \<open>M\<close>; \<open>live\<close> is the set of
  objects that are allocated.\<close>

inductive sp_reach :: "u64 \<Rightarrow> nat set \<Rightarrow> u64 \<Rightarrow> u64 \<Rightarrow> spalloc_allocator \<times> kheap \<Rightarrow> addr set \<Rightarrow> bool"
  for h M sz align where
  init: "buddy_reach h M A (pmm k) \<Longrightarrow> spalloc_init sz align = Inr al \<Longrightarrow> sp_reach h M sz align (al, k) {}"
| malloc: "sp_reach h M sz align st live \<Longrightarrow> spalloc_malloc h st = Inr (x, st') \<Longrightarrow> sp_reach h M sz align st' (insert x live)"
| free: "sp_reach h M sz align st live \<Longrightarrow> x \<in> live \<Longrightarrow> spalloc_free h x st = Inr st' \<Longrightarrow> sp_reach h M sz align st' (live - {x})"

lemma sp_reach_inv:
  assumes h: "IS_ALIGNED h 0x1000" and r: "sp_reach h M sz align st live"
  shows "\<exists>A P al0. spalloc_init sz align = Inr al0 \<and> (\<exists>xs. fst st = al0\<lparr>partial_list := xs\<rparr>) \<and>
    buddy_reach h M A (pmm (snd st)) \<and> sp_inv h A (fst st) (snd st) P {} live"
  using r
proof induction
  case (init A k al)
  moreover have "sp_inv h A al k {} {} {}" using spalloc_init_ok [OF init(2)] by (simp add: sp_inv_def)
  moreover have "al = al\<lparr>partial_list := partial_list al\<rparr>" by simp
  ultimately show ?case by (metis fst_conv snd_conv)
next
  case (malloc st live x st')
  then obtain A P al0 xs where i: "spalloc_init sz align = Inr al0" "fst st = al0\<lparr>partial_list := xs\<rparr>"
    "buddy_reach h M A (pmm (snd st))" "sp_inv h A (fst st) (snd st) P {} live" by blast
  obtain al' k' P' A' ys where "st' = (al', k')" "sp_inv h A' al' k' P' {} (insert x live)" "buddy_reach h M A' (pmm k')"
    "al' = al0\<lparr>partial_list := ys\<rparr>"     using spalloc_malloc_rep [OF h i(3,4), unfolded prod.collapse] malloc.hyps(2) i(2) by auto
  then show ?case using i(1) by (metis fst_conv snd_conv)
next
  case (free st live x st')
  then obtain A P al0 xs where i: "spalloc_init sz align = Inr al0" "fst st = al0\<lparr>partial_list := xs\<rparr>"
    "buddy_reach h M A (pmm (snd st))" "sp_inv h A (fst st) (snd st) P {} live" by blast
  obtain al' k' P' A' ys where "st' = (al', k')" "sp_inv h A' al' k' P' {} (live - {x})" "buddy_reach h M A' (pmm k')"
    "al' = al0\<lparr>partial_list := ys\<rparr>"     using spalloc_free_rep [OF h i(3,4) free.hyps(2), unfolded prod.collapse] free.hyps(3) i(2) by auto
  then show ?case using i(1) by (metis fst_conv snd_conv)
qed

text \<open>What the clients of an object allocator rely on: an allocation yields a fresh object other than the
  null pointer, or panics; a live object can be freed.\<close>

locale object_pool =
  fixes alloc :: "'s \<Rightarrow> (addr \<times> 's) result"
    and release :: "addr \<Rightarrow> 's \<Rightarrow> 's result"
    and pool_inv :: "'s \<Rightarrow> addr set \<Rightarrow> bool"
  assumes alloc_cases: "pool_inv s live \<Longrightarrow> alloc s = Inl Panicked \<or>
      (\<exists>x s'. alloc s = Inr (x, s') \<and> x \<noteq> 0 \<and> x \<notin> live \<and> pool_inv s' (insert x live))"
    and release_live: "pool_inv s live \<Longrightarrow> x \<in> live \<Longrightarrow> \<exists>s'. release x s = Inr s' \<and> pool_inv s' (live - {x})"
    and live_nonnull: "pool_inv s live \<Longrightarrow> 0 \<notin> live"
begin

lemma alloc_Inr: "pool_inv s live \<Longrightarrow> alloc s = Inr (x, s') \<Longrightarrow> x \<noteq> 0 \<and> x \<notin> live \<and> pool_inv s' (insert x live)"
  using alloc_cases by fastforce

lemma alloc_Inl: "pool_inv s live \<Longrightarrow> alloc s = Inl e \<Longrightarrow> e = Panicked"
  using alloc_cases by fastforce

lemma release_alloc:
  assumes "pool_inv s live" "alloc s = Inr (x, s1)"
  shows "\<exists>s2. release x s1 = Inr s2 \<and> pool_inv s2 live"
proof -
  have "x \<notin> live" "pool_inv s1 (insert x live)" using alloc_Inr [OF assms] by auto
  then show ?thesis using release_live [of s1 "insert x live" x] by simp
qed

lemma release_all:
  "pool_inv s (set xs) \<Longrightarrow> distinct xs \<Longrightarrow> \<exists>s'. foldl (\<lambda>r x. ebind r (release x)) (Inr s) xs = Inr s' \<and> pool_inv s' {}"
proof (induction xs arbitrary: s)
  case (Cons x xs)
  then obtain s1 where "release x s = Inr s1" "pool_inv s1 (set (x # xs) - {x})" using release_live [of s "set (x # xs)" x] by auto
  then show ?case using Cons by simp
qed simp

end

lemma sp_live_slot:
  assumes "sp_inv h A al k P {} live" "x \<in> live"
  obtains f i where "f \<in> P" "f < 2 ^ 52" "i < unat (objs_per_page al)" "x = slot al (node_of h f) i"
  using assms that by (fastforce simp: sp_inv_def slots_def)

definition sp_pool :: "u64 \<Rightarrow> nat set \<Rightarrow> u64 \<Rightarrow> u64 \<Rightarrow> spalloc_allocator \<times> kheap \<Rightarrow> addr set \<Rightarrow> bool" where
  "sp_pool h M sz align st live \<longleftrightarrow> IS_ALIGNED h 0x1000 \<and> sp_reach h M sz align st live"

interpretation spalloc: object_pool "spalloc_malloc h" "spalloc_free h" "sp_pool h M sz align" for h M sz align
proof unfold_locales
  fix st live x assume "sp_pool h M sz align st live"
  then have h: "IS_ALIGNED h 0x1000" and r: "sp_reach h M sz align st live" by (auto simp: sp_pool_def)
  obtain A P where i: "buddy_reach h M A (pmm (snd st))" "sp_inv h A (fst st) (snd st) P {} live"
    using sp_reach_inv [OF h r] by blast
  have nz: "y \<noteq> 0" if y: "sp_inv h A' al' k' P' {} live'" "y \<in> live'" for y A' al' k' P' live'
  proof -
    obtain f where "f \<in> P'" "f < 2 ^ 52" "y \<in> slots al' (node_of h f)" using y unfolding sp_inv_def by blast
    then show ?thesis using slots_page [OF _ node_aligned [OF h]] y(1) by (auto simp: sp_inv_def)
  qed
  show "spalloc_malloc h st = Inl Panicked \<or>
      (\<exists>x s'. spalloc_malloc h st = Inr (x, s') \<and> x \<noteq> 0 \<and> x \<notin> live \<and> sp_pool h M sz align s' (insert x live))"
    using spalloc_malloc_rep [OF h i, unfolded prod.collapse] nz sp_reach.malloc [OF r] h unfolding sp_pool_def by (metis insertI1)
  show "x \<in> live \<Longrightarrow> \<exists>s'. spalloc_free h x st = Inr s' \<and> sp_pool h M sz align s' (live - {x})"
    using spalloc_free_rep [OF h i, of x, unfolded prod.collapse] sp_reach.free [OF r, of x] h unfolding sp_pool_def by metis
  show "0 \<notin> live" using nz [OF i(2)] by blast
qed

section \<open>A concrete run\<close>

definition pool0 :: "spalloc_allocator \<times> kheap" where
  "pool0 = (case spalloc_init 64 8 of Inr al \<Rightarrow>
     (al, \<lparr>headers = \<lambda>_. \<lparr>ph_magic = 0, ph_freecount = 0, ph_free_objs = []\<rparr>, pmm = buddy1\<rparr>))"

definition pool1 :: "spalloc_allocator \<times> kheap" where
  "pool1 = (case spalloc_malloc 0 pool0 of Inr (x, st) \<Rightarrow> st)"

lemma pool0_reach: "sp_reach 0 {256..<260} 64 8 pool0 {}"
proof -
  obtain al where al: "spalloc_init 64 8 = Inr al"
    by (cases "spalloc_init 64 8") (use bool.simps(3) in \<open>simp_all add: spalloc_init_def kassert_def Let_def isPow2ull_def ALIGN_UP_def\<close>)
  then show ?thesis unfolding pool0_def by (simp add: sp_reach.init [OF _ al, of _ _ "{}"] reach1)
qed

lemma pool1_run: "spalloc_malloc 0 pool0 = Inr (0x100fa0, pool1)"
proof -
  have "(case spalloc_malloc 0 pool0 of Inr (x, st) \<Rightarrow> x = 0x100fa0 | Inl _ \<Rightarrow> False)" by code_simp
  then show ?thesis by (cases "spalloc_malloc 0 pool0") (auto simp: pool1_def)
qed

lemma pool1_reach: "sp_reach 0 {256..<260} 64 8 pool1 {0x100fa0}"
  using sp_reach.malloc [OF pool0_reach pool1_run] by simp

section \<open>Properties\<close>

text \<open>C19. In every reachable state of an object allocator the live objects have the alignment asked for, lie
  in one page behind its header, and the storage of two different objects does not overlap.\<close>

theorem spalloc_objects_disjoint:
  assumes "IS_ALIGNED h PAGE_SIZE" "sp_reach h M sz align st live"
  shows "\<forall>x\<in>live. unat align dvd unat x \<and> 32 \<le> unat x mod 4096 \<and> unat x mod 4096 + unat sz \<le> 4096 \<and>
    (\<forall>y\<in>live. x \<noteq> y \<longrightarrow> unat x + unat sz \<le> unat y \<or> unat y + unat sz \<le> unat x)"
proof -
  obtain A P al0 xs where i: "spalloc_init sz align = Inr al0" "fst st = al0\<lparr>partial_list := xs\<rparr>"
    "sp_inv h A (fst st) (snd st) P {} live" using sp_reach_inv [OF assms] by blast
  note ok = spalloc_init_ok [OF i(1)]
  let ?o = "unat (obj_offset al0)" and ?s = "unat (obj_stride al0)" and ?n = "unat (objs_per_page al0)"
  have at: "\<exists>q i. i < ?n \<and> unat x = 4096 * q + (?o + i * ?s)" if x: "x \<in> live" for x
  proof -
    obtain f j where "f < 2 ^ 52" "j < unat (objs_per_page (fst st))" "x = slot (fst st) (node_of h f) j"
      using sp_live_slot [OF i(3) x] by blast
    then have f: "f < 2 ^ 52" "j < ?n" "x = slot al0 (node_of h f) j" using i(2) by (simp_all add: slot_def)
    obtain q where "unat (node_of h f) = 4096 * q"
      using node_aligned [OF assms(1) f(1)] IS_ALIGNED_dvd [of "node_of h f" 12] by (auto simp: dvd_def)
    then show ?thesis using unat_slot(1) [OF ok(1) f(2) node_aligned [OF assms(1) f(1)]] f(2,3) by auto
  qed
  have bound: "?o + j * ?s + unat sz \<le> 4096" if "j < ?n" for j using slot_offset(1) [OF ok(1) that] ok(3) by simp
  have o: "32 \<le> ?o" "0 < ?s" using ok(1) by (auto simp: al_ok_def)
  show ?thesis
  proof (intro ballI conjI impI)
    fix x assume x: "x \<in> live"
    obtain q j where q: "j < ?n" "unat x = 4096 * q + (?o + j * ?s)" using at [OF x] by blast
    show "unat align dvd unat x" using q(2) ok(4-6) by (simp add: dvd_add dvd_mult)
    have m: "unat x mod 4096 = ?o + j * ?s" using q(2) slot_offset(1) [OF ok(1) q(1)] o(2) by simp
    show "32 \<le> unat x mod 4096" "unat x mod 4096 + unat sz \<le> 4096" using m o(1) bound [OF q(1)] by auto
    fix y assume y: "y \<in> live" "x \<noteq> y"
    obtain r l where r: "l < ?n" "unat y = 4096 * r + (?o + l * ?s)" using at [OF y(1)] by blast
    have "unat x \<noteq> unat y" using y(2) by (simp add: word_unat_eq_iff)
    moreover have "?s \<le> l * ?s - j * ?s" if "j < l" using that mult_le_mono1 [of "Suc j" l ?s] by simp
    moreover have "?s \<le> j * ?s - l * ?s" if "l < j" using that mult_le_mono1 [of "Suc l" j ?s] by simp
    ultimately show "unat x + unat sz \<le> unat y \<or> unat y + unat sz \<le> unat x"
      using q r bound [OF q(1)] bound [OF r(1)] ok(3) o(1) by (cases q r rule: linorder_cases; cases j l rule: linorder_cases) auto
  qed
qed

theorem spalloc_objects_disjoint_witness:
  "IS_ALIGNED 0 PAGE_SIZE \<and> sp_reach 0 {256..<260} 64 8 pool1 {0x100fa0} \<and> (8 :: nat) dvd unat (0x100fa0 :: u64)"
  using spalloc_objects_disjoint [OF _ pool1_reach] pool1_reach by (auto simp: IS_ALIGNED_def)

text \<open>C20. An allocation returns a fresh object other than the null pointer, or panics, and it panics only
  when no page of the allocator has a free object and the page allocator has no free block. A live object
  can be freed, and an object that was just allocated can be freed again without a trace in the set of
  live objects.\<close>

theorem spalloc_malloc_free:
  assumes "IS_ALIGNED h PAGE_SIZE" "sp_reach h M sz align st live"
  shows "((\<exists>x st' st''. spalloc_malloc h st = Inr (x, st') \<and> x \<noteq> 0 \<and> x \<notin> live \<and> sp_reach h M sz align st' (insert x live) \<and>
      spalloc_free h x st' = Inr st'' \<and> sp_reach h M sz align st'' live) \<or>
    (spalloc_malloc h st = Inl Panicked \<and> partial_list (fst st) = [] \<and> (\<forall>j\<le>MAX_ORDER. orders (pmm (snd st)) j = []))) \<and>
    (\<forall>x\<in>live. \<exists>st'. spalloc_free h x st = Inr st' \<and> sp_reach h M sz align st' (live - {x}))"
proof (intro conjI ballI)
  have p: "sp_pool h M sz align st live" using assms by (simp add: sp_pool_def)
  obtain A P where i: "buddy_reach h M A (pmm (snd st))" "sp_inv h A (fst st) (snd st) P {} live"
    using sp_reach_inv [OF assms] by blast
  have "(\<exists>x st'. spalloc_malloc h st = Inr (x, st')) \<or>
    (spalloc_malloc h st = Inl Panicked \<and> partial_list (fst st) = [] \<and> (\<forall>j\<le>MAX_ORDER. orders (pmm (snd st)) j = []))"
    using spalloc_malloc_rep [OF assms(1) i, unfolded prod.collapse] by auto
  then show "(\<exists>x st' st''. spalloc_malloc h st = Inr (x, st') \<and> x \<noteq> 0 \<and> x \<notin> live \<and> sp_reach h M sz align st' (insert x live) \<and>
      spalloc_free h x st' = Inr st'' \<and> sp_reach h M sz align st'' live) \<or>
    (spalloc_malloc h st = Inl Panicked \<and> partial_list (fst st) = [] \<and> (\<forall>j\<le>MAX_ORDER. orders (pmm (snd st)) j = []))"
    using spalloc.alloc_Inr [OF p] spalloc.release_alloc [OF p] unfolding sp_pool_def by meson
  fix x assume "x \<in> live"
  then show "\<exists>st'. spalloc_free h x st = Inr st' \<and> sp_reach h M sz align st' (live - {x})"
    using spalloc.release_live [OF p] unfolding sp_pool_def by blast
qed

theorem spalloc_malloc_free_witness:
  "sp_reach 0 {256..<260} 64 8 pool1 {0x100fa0} \<and> (\<exists>st'. spalloc_free 0 0x100fa0 pool1 = Inr st' \<and> sp_reach 0 {256..<260} 64 8 st' {})"
  using spalloc_malloc_free [OF _ pool1_reach] pool1_reach by (auto simp: IS_ALIGNED_def)

end
