(* ===== verification/Vmem.thy ===== *)
theory Vmem
  imports RbTree Spalloc
begin

text \<open>
  The virtual address allocator of \<^verbatim>\<open>mem/vmem.c\<close>. A segment is free or allocated; all segments are in
  the address-ordered segment list, free ones in the free list of their size class and allocated ones in
  the red-black tree, keyed by their base. The containers are the sequences and trees that \<open>Llist\<close> and
  \<open>RbPtr\<close> show the pointer code to implement, segments come from the object allocator of \<open>Spalloc\<close>. The
  theory shows that allocation and free keep the segments a partition of the address range, that an
  allocation is placed in free address space, that one without an address fails only when no free segment
  is large enough, and that a free gives back exactly the range.
\<close>

section \<open>The allocator\<close>

record vmem_segment =
  seg_allocated :: bool
  seg_base :: u64
  seg_size :: u64

record vmem_allocator =
  vm_base :: u64
  vm_size :: u64
  vm_quantum :: u32
  vm_bitmap :: u64
  freelists :: "nat \<Rightarrow> addr list"
  segments_list :: "addr list"
  segments_tree :: rbt
  segment_allocator :: spalloc_allocator
  segs :: "addr \<Rightarrow> vmem_segment"

text \<open>The field \<open>segs\<close> is the memory of the segments, by their address. An operation works on the
  allocator and the kernel heap that the segments come from.\<close>

type_synonym vmem = "vmem_allocator \<times> kheap"

definition vmem_segment_get_value :: "vmem_allocator \<Rightarrow> addr \<Rightarrow> u64" where
  "vmem_segment_get_value v x = seg_base (segs v x)"

text \<open>The alignment macros at the 32-bit quantum; the source subtracts 1 at 32 bits.\<close>

definition align_up_q :: "u64 \<Rightarrow> u32 \<Rightarrow> u64" where
  "align_up_q x quantum = (x + ucast (quantum - 1)) AND NOT (ucast (quantum - 1))"

definition is_aligned_q :: "u64 \<Rightarrow> u32 \<Rightarrow> bool" where
  "is_aligned_q x quantum \<longleftrightarrow> x AND ucast (quantum - 1) = 0"

definition set_seg :: "addr \<Rightarrow> vmem_segment \<Rightarrow> vmem_allocator \<Rightarrow> vmem_allocator" where
  "set_seg x s v = v\<lparr>segs := (segs v)(x := s)\<rparr>"

text \<open>A segment from the segment allocator, with its contents.\<close>

definition new_segment :: "u64 \<Rightarrow> vmem_segment \<Rightarrow> vmem \<Rightarrow> (addr \<times> vmem) result" where
  "new_segment hhdm s = (\<lambda>(v, k). ebind (spalloc_malloc hhdm (segment_allocator v, k)) (\<lambda>(x, al, k).
     Inr (x, set_seg x s (v\<lparr>segment_allocator := al\<rparr>), k)))"

definition drop_segment :: "u64 \<Rightarrow> addr \<Rightarrow> vmem \<Rightarrow> vmem result" where
  "drop_segment hhdm x = (\<lambda>(v, k). ebind (spalloc_free hhdm x (segment_allocator v, k)) (\<lambda>(al, k).
     Inr (v\<lparr>segment_allocator := al\<rparr>, k)))"

fun before :: "addr \<Rightarrow> addr \<Rightarrow> addr list \<Rightarrow> addr list" where
  "before pos node [] = []"
| "before pos node (x # xs) = (if x = pos then node # x # xs else x # before pos node xs)"

fun after :: "addr \<Rightarrow> addr \<Rightarrow> addr list \<Rightarrow> addr list" where
  "after pos node [] = []"
| "after pos node (x # xs) = (if x = pos then x # node # xs else x # after pos node xs)"

definition prev_in :: "addr \<Rightarrow> addr list \<Rightarrow> addr" where
  "prev_in x xs = last_or (takeWhile (\<lambda>y. y \<noteq> x) xs) 0"

definition next_in :: "addr \<Rightarrow> addr list \<Rightarrow> addr" where
  "next_in x xs = hd_or (tl (dropWhile (\<lambda>y. y \<noteq> x) xs)) 0"

definition vmem_flist_add :: "addr \<Rightarrow> nat \<Rightarrow> vmem_allocator \<Rightarrow> vmem_allocator result" where
  "vmem_flist_add x index v = (if index < 64
     then Inr (v\<lparr>freelists := (freelists v)(index := x # freelists v index),
                vm_bitmap := vm_bitmap v OR push_bit index 1\<rparr>)
     else Inl OutOfBounds)"

definition vmem_flist_del :: "addr \<Rightarrow> nat \<Rightarrow> vmem_allocator \<Rightarrow> vmem_allocator result" where
  "vmem_flist_del x index v = (if \<not> index < 64 then Inl OutOfBounds
     else if x \<notin> set (freelists v index) then Inl Undefined
     else let rest = remove1 x (freelists v index); v = v\<lparr>freelists := (freelists v)(index := rest)\<rparr>
       in Inr (if rest = [] then v\<lparr>vm_bitmap := vm_bitmap v AND NOT (push_bit index 1)\<rparr> else v))"

text \<open>The loop that finds the segment to insert a new one before.\<close>

fun first_above :: "(addr \<Rightarrow> u64) \<Rightarrow> u64 \<Rightarrow> addr list \<Rightarrow> addr" where
  "first_above b base [] = 0"
| "first_above b base (x # xs) = (if b x > base then x else first_above b base xs)"

definition vmem_add_segment :: "u64 \<Rightarrow> u64 \<Rightarrow> u64 \<Rightarrow> vmem \<Rightarrow> vmem result" where
  "vmem_add_segment hhdm base sz st =
     ebind (new_segment hhdm \<lparr>seg_allocated = False, seg_base = base, seg_size = sz\<rparr> st) (\<lambda>(x, v, k).
       let cnode = first_above (vmem_segment_get_value v) base (segments_list v);
           v = v\<lparr>segments_list := (if cnode \<noteq> 0 then before cnode x (segments_list v) else segments_list v @ [x])\<rparr>
       in ebind (vmem_flist_add x (log2ull sz) v) (\<lambda>v. Inr (v, k)))"

text \<open>Whether a free segment has room for the request, and where; the body of the loops of \<^verbatim>\<open>fit_alloc\<close>.\<close>

definition fit_segment :: "u32 \<Rightarrow> u64 \<Rightarrow> u64 \<Rightarrow> u64 \<Rightarrow> vmem_segment \<Rightarrow> u64 option" where
  "fit_segment quantum sz mn mx s =
     (let alloc_start = align_up_q (if mn > seg_base s then mn else seg_base s) quantum in
      if seg_size s < sz then None
      else if alloc_start - seg_base s > seg_size s - sz then None
      else if mx \<noteq> - 1 \<and> alloc_start + sz > mx then None
      else Some alloc_start)"

record fit_alloc_ret =
  ret_addr :: u64
  ret_idx :: nat
  ret_seg :: addr

fun fit_list :: "vmem_allocator \<Rightarrow> u64 \<Rightarrow> u64 \<Rightarrow> u64 \<Rightarrow> nat \<Rightarrow> addr list \<Rightarrow> fit_alloc_ret option" where
  "fit_list v sz mn mx i [] = None"
| "fit_list v sz mn mx i (x # xs) = (case fit_segment (vm_quantum v) sz mn mx (segs v x) of
     Some a \<Rightarrow> Some \<lparr>ret_addr = a, ret_idx = i, ret_seg = x\<rparr>
   | None \<Rightarrow> fit_list v sz mn mx i xs)"

function fit_lists :: "vmem_allocator \<Rightarrow> u64 \<Rightarrow> u64 \<Rightarrow> u64 \<Rightarrow> nat \<Rightarrow> fit_alloc_ret option" where
  "fit_lists v sz mn mx i = (if i < 64 then
     case fit_list v sz mn mx i (freelists v i) of Some r \<Rightarrow> Some r | None \<Rightarrow> fit_lists v sz mn mx (i + 1)
   else None)"
  by pat_completeness auto
termination
  by (relation "measure (\<lambda>(v, s, mn, mx, i). 64 - i)") auto

declare fit_lists.simps [simp del]

definition fit_alloc :: "vmem_allocator \<Rightarrow> u64 \<Rightarrow> u64 \<Rightarrow> fit_alloc_ret option" where
  "fit_alloc v sz addr =
     (let mn = align_up_q addr (vm_quantum v);
          mx = (if addr \<noteq> 0 then align_up_q (addr + sz) (vm_quantum v) else - 1);
          index = min (log2ullceil sz) 63;
          bitmap = vm_bitmap v AND push_bit index (- 1)
      in case fit_lists v sz mn mx (COUNT_TRAILING_ZEROS bitmap) of
           Some r \<Rightarrow> Some r
         | None \<Rightarrow> if index = 0 then None
             else fit_list v sz mn mx (index - 1) (freelists v (index - 1)))"

definition prepend_segment :: "addr \<Rightarrow> addr \<Rightarrow> vmem_allocator \<Rightarrow> vmem_allocator result" where
  "prepend_segment pos x v = (if pos \<notin> set (segments_list v) then Inl Undefined
     else Inr (v\<lparr>segments_list := before pos x (segments_list v)\<rparr>))"

definition append_segment :: "addr \<Rightarrow> addr \<Rightarrow> vmem_allocator \<Rightarrow> vmem_allocator result" where
  "append_segment pos x v = (if pos \<notin> set (segments_list v) then Inl Undefined
     else Inr (v\<lparr>segments_list := after pos x (segments_list v)\<rparr>))"

definition delete_segment :: "addr \<Rightarrow> vmem_allocator \<Rightarrow> vmem_allocator result" where
  "delete_segment x v = (if x \<notin> set (segments_list v) then Inl Undefined
     else Inr (v\<lparr>segments_list := remove1 x (segments_list v)\<rparr>))"

definition insert_tree :: "addr \<Rightarrow> vmem_allocator \<Rightarrow> vmem_allocator" where
  "insert_tree x v = v\<lparr>segments_tree := rb_insert (vmem_segment_get_value v) x (segments_tree v)\<rparr>"

definition remove_tree :: "addr \<Rightarrow> vmem_allocator \<Rightarrow> vmem_allocator" where
  "remove_tree x v = v\<lparr>segments_tree := rb_remove x (segments_tree v)\<rparr>"

text \<open>The two splits of \<^verbatim>\<open>vmem_alloc\<close>: \<open>alloc_left\<close> cuts off what lies before the address, \<open>alloc_right\<close> cuts off
  what lies behind the request, marks the segment and enters it in the tree.\<close>

definition alloc_left :: "u64 \<Rightarrow> u64 \<Rightarrow> addr \<Rightarrow> vmem \<Rightarrow> vmem result" where
  "alloc_left hhdm addr x = (\<lambda>(v, k). let s = segs v x in
     if seg_base s \<noteq> addr \<and> addr - seg_base s \<ge> ucast (vm_quantum v) then
       let left_size = addr - seg_base s in
       ebind (new_segment hhdm \<lparr>seg_allocated = False, seg_base = seg_base s, seg_size = left_size\<rparr> (v, k)) (\<lambda>(y, v, k).
       ebind (prepend_segment x y v) (\<lambda>v.
       ebind (vmem_flist_add y (log2ull left_size) v) (\<lambda>v.
         Inr (set_seg x (s\<lparr>seg_base := addr, seg_size := seg_size s - left_size\<rparr>) v, k))))
     else Inr (v, k))"

definition alloc_right :: "u64 \<Rightarrow> u64 \<Rightarrow> addr \<Rightarrow> vmem \<Rightarrow> (u64 \<times> vmem) result" where
  "alloc_right hhdm sz x = (\<lambda>(v, k). let s = segs v x in
     if seg_size s \<noteq> sz \<and> seg_size s - sz \<ge> ucast (vm_quantum v) then
       ebind (new_segment hhdm \<lparr>seg_allocated = True, seg_base = seg_base s, seg_size = sz\<rparr> (v, k)) (\<lambda>(y, v, k).
       let rest = \<lparr>seg_allocated = False, seg_base = seg_base s + sz, seg_size = seg_size s - sz\<rparr>;
           v = set_seg x rest v in
       ebind (prepend_segment x y v) (\<lambda>v.
       ebind (vmem_flist_add x (log2ull (seg_size rest)) v) (\<lambda>v.
         Inr (seg_base s, insert_tree y v, k))))
     else
       let v = set_seg x (s\<lparr>seg_allocated := True\<rparr>) v in
       Inr (seg_base s, insert_tree x v, k))"

definition vmem_alloc :: "u64 \<Rightarrow> u64 \<Rightarrow> u64 \<Rightarrow> vmem \<Rightarrow> (u64 \<times> vmem) result" where
  "vmem_alloc hhdm sz addr = (\<lambda>(v, k).
     let sz = align_up_q sz (vm_quantum v) in
     if \<not> is_aligned_q addr (vm_quantum v) then Inr (0, v, k)
     else case fit_alloc v sz addr of
       None \<Rightarrow> Inr (0, v, k)
     | Some ret \<Rightarrow>
         kassert (addr \<noteq> 0 \<longrightarrow> ret_addr ret = addr) (
         kassert (seg_size (segs v (ret_seg ret)) \<ge> sz) (
           ebind (vmem_flist_del (ret_seg ret) (ret_idx ret) v) (\<lambda>v.
           ebind (alloc_left hhdm (ret_addr ret) (ret_seg ret) (v, k)) (\<lambda>st.
             alloc_right hhdm sz (ret_seg ret) st)))))"

definition vmem_find_segment_nolock :: "vmem_allocator \<Rightarrow> u64 \<Rightarrow> addr" where
  "vmem_find_segment_nolock v addr =
     (let x = rb_search (vmem_segment_get_value v) addr RB_SEARCH_TYPE_NEAREST_LTE (segments_tree v) in
      if x = 0 then 0
      else if addr < seg_base (segs v x) \<or> addr - seg_base (segs v x) \<ge> seg_size (segs v x) then 0
      else x)"

definition vmem_find_segment :: "vmem_allocator \<Rightarrow> u64 \<Rightarrow> addr" where
  "vmem_find_segment v addr = vmem_find_segment_nolock v addr"

text \<open>The parts of the loop body of \<^verbatim>\<open>vmem_free\<close>, on a segment \<open>x\<close> that was taken out of the tree.\<close>

definition free_left :: "u64 \<Rightarrow> u64 \<Rightarrow> addr \<Rightarrow> vmem \<Rightarrow> vmem result" where
  "free_left hhdm cur_addr x = (\<lambda>(v, k). let s = segs v x in
     if seg_base s < cur_addr then
       let left_size = cur_addr - seg_base s in
       ebind (new_segment hhdm \<lparr>seg_allocated = True, seg_base = seg_base s, seg_size = left_size\<rparr> (v, k)) (\<lambda>(y, v, k).
       ebind (prepend_segment x y (set_seg x (s\<lparr>seg_base := cur_addr, seg_size := seg_size s - left_size\<rparr>) v)) (\<lambda>v.
         Inr (insert_tree y v, k)))
     else Inr (v, k))"

definition free_right :: "u64 \<Rightarrow> u64 \<Rightarrow> u64 \<Rightarrow> addr \<Rightarrow> vmem \<Rightarrow> vmem result" where
  "free_right hhdm seg_end end_addr x = (\<lambda>(v, k). let s = segs v x in
     if seg_end > end_addr then
       ebind (new_segment hhdm \<lparr>seg_allocated = True, seg_base = end_addr, seg_size = seg_end - end_addr\<rparr> (v, k)) (\<lambda>(y, v, k).
       ebind (append_segment x y (set_seg x (s\<lparr>seg_size := end_addr - seg_base s\<rparr>) v)) (\<lambda>v.
         Inr (insert_tree y v, k)))
     else Inr (v, k))"

definition coalesce_left :: "u64 \<Rightarrow> addr \<Rightarrow> vmem \<Rightarrow> vmem result" where
  "coalesce_left hhdm x = (\<lambda>(v, k).
     let s = segs v x; p = prev_in x (segments_list v); ps = segs v p in
     if p \<noteq> 0 \<and> \<not> seg_allocated ps \<and> seg_base ps + seg_size ps = seg_base s then
       ebind (vmem_flist_del p (log2ull (seg_size ps)) v) (\<lambda>v.
       ebind (delete_segment p v) (\<lambda>v.
         drop_segment hhdm p (set_seg x (s\<lparr>seg_base := seg_base ps, seg_size := seg_size s + seg_size ps\<rparr>) v, k)))
     else Inr (v, k))"

definition coalesce_right :: "u64 \<Rightarrow> addr \<Rightarrow> vmem \<Rightarrow> vmem result" where
  "coalesce_right hhdm x = (\<lambda>(v, k).
     let s = segs v x; p = next_in x (segments_list v); ps = segs v p in
     if p \<noteq> 0 \<and> \<not> seg_allocated ps \<and> seg_base s + seg_size s = seg_base ps then
       ebind (vmem_flist_del p (log2ull (seg_size ps)) v) (\<lambda>v.
       ebind (delete_segment p v) (\<lambda>v.
         drop_segment hhdm p (set_seg x (s\<lparr>seg_size := seg_size s + seg_size ps\<rparr>) v, k)))
     else Inr (v, k))"

definition free_segment :: "u64 \<Rightarrow> u64 \<Rightarrow> u64 \<Rightarrow> addr \<Rightarrow> vmem \<Rightarrow> (u64 \<times> vmem) result" where
  "free_segment hhdm cur_addr end_addr x = (\<lambda>(v, k).
     let seg_end = seg_base (segs v x) + seg_size (segs v x) in
     ebind (free_left hhdm cur_addr x (remove_tree x v, k)) (\<lambda>st.
     ebind (free_right hhdm seg_end end_addr x st) (\<lambda>(v, k).
     ebind (coalesce_left hhdm x (set_seg x ((segs v x)\<lparr>seg_allocated := False\<rparr>) v, k)) (\<lambda>st.
     ebind (coalesce_right hhdm x st) (\<lambda>(v, k).
       kassert (seg_size (segs v x) \<noteq> 0)
         (ebind (vmem_flist_add x (log2ull (seg_size (segs v x))) v) (\<lambda>v.
           Inr (if seg_end < end_addr then seg_end else end_addr, v, k))))))))"

text \<open>The loop of \<^verbatim>\<open>vmem_free\<close>; \<open>None\<close> stands for a loop that does not end.\<close>

partial_function (option) vmem_free_loop :: "u64 \<Rightarrow> u64 \<Rightarrow> u64 \<Rightarrow> vmem \<Rightarrow> vmem result option" where
  "vmem_free_loop hhdm end_addr cur_addr st = (if cur_addr < end_addr then
     let v = fst st; x = vmem_find_segment_nolock v cur_addr; s = segs v x in
     if x = 0 then Some (Inr st)
     else if \<not> seg_allocated s then vmem_free_loop hhdm end_addr (seg_base s + seg_size s) st
     else case free_segment hhdm cur_addr end_addr x st of
         Inl e \<Rightarrow> Some (Inl e)
       | Inr (cur_addr, st) \<Rightarrow> vmem_free_loop hhdm end_addr cur_addr st
   else Some (Inr st))"

definition vmem_free :: "u64 \<Rightarrow> u64 \<Rightarrow> u64 \<Rightarrow> vmem \<Rightarrow> vmem result option" where
  "vmem_free hhdm addr sz st =
     (let sz = align_up_q sz (vm_quantum (fst st));
          addr = align_up_q addr (vm_quantum (fst st))
      in if sz = 0 then Some (Inr st) else vmem_free_loop hhdm (addr + sz) addr st)"

text \<open>\<^verbatim>\<open>sizeof\<close> and \<^verbatim>\<open>alignof\<close> of \<^verbatim>\<open>vmem_segment_t\<close>: three words, a list node and the union of a list
  node and a tree node.\<close>

definition vmem_allocator_init :: "u64 \<Rightarrow> u64 \<Rightarrow> u64 \<Rightarrow> u32 \<Rightarrow> kheap \<Rightarrow> vmem result" where
  "vmem_allocator_init hhdm base sz quantum k =
     ebind (spalloc_init 64 8) (\<lambda>al.
       vmem_add_segment hhdm base sz (\<lparr>vm_base = base, vm_size = sz, vm_quantum = quantum, vm_bitmap = 0,
         freelists = (\<lambda>_. []), segments_list = [], segments_tree = Leaf, segment_allocator = al,
         segs = (\<lambda>_. \<lparr>seg_allocated = False, seg_base = 0, seg_size = 0\<rparr>)\<rparr>, k))"

section \<open>Alignment to the quantum\<close>

lemma quantum_mask:
  assumes "unat (q :: u32) = 2 ^ m"
  shows "m < 32" "(ucast (q - 1) :: u64) = 2 ^ m - 1" "(ucast q :: u64) = 2 ^ m"
proof -
  have lt: "unat q < 2 ^ 32" using unsigned_less [of q] by simp
  then have "(2::nat) ^ m < 2 ^ 32" using assms by simp
  then show m: "m < 32" by (rule power_less_imp_less_exp [rotated]) simp
  have uc: "unat (ucast w :: u64) = unat w" for w :: u32
  proof -
    have "unat w < 2 ^ 32" using unsigned_less [of w] by simp
    then show ?thesis by (simp add: unsigned_ucast_eq take_bit_nat_eq_self)
  qed
  have q0: "q \<noteq> 0" using assms by auto
  show "(ucast q :: u64) = 2 ^ m" using m assms by (intro word_eq_unatI) (simp add: uc)
  show "(ucast (q - 1) :: u64) = 2 ^ m - 1"
    using m assms q0 by (intro word_eq_unatI) (simp add: uc unat_minus_one unat_exp_minus_1)
qed

lemma align_up_q_eq: "unat q = 2 ^ m \<Longrightarrow> align_up_q x q = ALIGN_UP x (2 ^ m)"
  by (simp add: align_up_q_def ALIGN_UP_def quantum_mask)

lemma is_aligned_q_dvd: "unat q = 2 ^ m \<Longrightarrow> is_aligned_q x q \<longleftrightarrow> 2 ^ m dvd unat x"
  by (simp add: is_aligned_q_def quantum_mask flip: IS_ALIGNED_dvd IS_ALIGNED_def)

lemma align_up_q_aligned:
  assumes "unat q = 2 ^ m" "2 ^ m dvd unat x"
  shows "align_up_q x q = x"
proof -
  have m: "m < 32" using quantum_mask [OF assms(1)] by simp
  obtain j where j: "unat x = 2 ^ m * j" using assms(2) by (auto simp: dvd_def)
  have e: "(2 ^ 64 :: nat) = 2 ^ m * 2 ^ (64 - m)" using m by (simp flip: power_add)
  have "2 ^ m * j < 2 ^ m * (2 ^ (64 - m))" using unat_lt64 [of x] j e by simp
  then have "j + 1 \<le> 2 ^ (64 - m)" by simp
  then have "2 ^ m * (j + 1) \<le> 2 ^ m * 2 ^ (64 - m)" by (rule mult_le_mono2)
  then have "unat x + (2 ^ m - 1) < 2 ^ 64" unfolding e [symmetric] j by simp
  from unat_ALIGN_UP [OF _ this] m have "unat (ALIGN_UP x (2 ^ m)) = (2 ^ m - 1 + 2 ^ m * j) div 2 ^ m * 2 ^ m"
    by (simp add: j add.commute)
  also have "(2 ^ m - 1 + 2 ^ m * j) div 2 ^ m = j + (2 ^ m - 1) div 2 ^ m" by (rule div_mult_self2) simp
  also have "(2 ^ m - 1) div 2 ^ m = (0 :: nat)" by (rule div_less) simp
  also have "(j + 0) * 2 ^ m = unat x" by (simp add: j)
  finally show ?thesis by (simp add: align_up_q_eq [OF assms(1)] word_eq_unatI)
qed

section \<open>Segments as a sequence\<close>

text \<open>The sequence of segments in address order is what the operations change; a segment covers the
  addresses \<open>span s\<close>.\<close>

definition lo :: "vmem_segment \<Rightarrow> nat" where
  "lo s = unat (seg_base s)"

definition hi :: "vmem_segment \<Rightarrow> nat" where
  "hi s = unat (seg_base s) + unat (seg_size s)"

definition span :: "vmem_segment \<Rightarrow> nat set" where
  "span s = {lo s..<hi s}"

fun segs_ok :: "nat \<Rightarrow> nat \<Rightarrow> vmem_segment list \<Rightarrow> bool" where
  "segs_ok q a [] \<longleftrightarrow> a \<le> 2 ^ 64"
| "segs_ok q a (s # ss) \<longleftrightarrow> a \<le> lo s \<and> lo s < hi s \<and> q dvd lo s \<and> q dvd hi s \<and> segs_ok q (hi s) ss"

definition allocated_in :: "vmem_segment list \<Rightarrow> nat set" where
  "allocated_in ss = (\<Union>s \<in> {s \<in> set ss. seg_allocated s}. span s)"

definition free_in :: "vmem_segment list \<Rightarrow> nat set" where
  "free_in ss = (\<Union>s \<in> {s \<in> set ss. \<not> seg_allocated s}. span s)"

definition view :: "vmem_allocator \<Rightarrow> vmem_segment list" where
  "view v = map (segs v) (segments_list v)"

fun end_of :: "nat \<Rightarrow> vmem_segment list \<Rightarrow> nat" where
  "end_of a [] = a"
| "end_of a (s # ss) = end_of (hi s) ss"

lemma segs_ok_append: "segs_ok q a (ss @ ts) \<longleftrightarrow> segs_ok q a ss \<and> segs_ok q (end_of a ss) ts"
proof -
  have bound: "segs_ok q a ss \<Longrightarrow> segs_ok q (end_of a ss) ts \<Longrightarrow> a \<le> end_of a ss" for a
    by (induction ss arbitrary: a) fastforce+
  have le: "segs_ok q b us \<Longrightarrow> b \<le> 2 ^ 64" for b us by (induction us arbitrary: b) fastforce+
  show ?thesis using le by (induction ss arbitrary: a) auto
qed

lemma segs_ok_mono: "segs_ok q a ss \<Longrightarrow> b \<le> a \<Longrightarrow> segs_ok q b ss"
  by (cases ss) auto

lemma end_of_append [simp]: "end_of a (ss @ ts) = end_of (end_of a ss) ts"
  by (induction ss arbitrary: a) auto

lemma segs_ok_le: "segs_ok q a ss \<Longrightarrow> a \<le> end_of a ss \<and> end_of a ss \<le> 2 ^ 64"
proof (induction ss arbitrary: a)
  case (Cons s ss)
  then show ?case using Cons.IH [of "hi s"] by fastforce
qed simp

lemma segs_ok_span: "segs_ok q a ss \<Longrightarrow> s \<in> set ss \<Longrightarrow> span s \<subseteq> {a..<end_of a ss}"
proof (induction ss arbitrary: a)
  case (Cons t ss)
  then have "segs_ok q (hi t) ss" "a \<le> lo t" "lo t < hi t" by auto
  with Cons show ?case using segs_ok_le [of q "hi t" ss] by (force simp: span_def)
qed simp

lemma in_sets [simp]:
  "allocated_in [] = {}" "free_in [] = {}"
  "allocated_in (s # ss) = (if seg_allocated s then span s else {}) \<union> allocated_in ss"
  "free_in (s # ss) = (if seg_allocated s then {} else span s) \<union> free_in ss"
  "allocated_in (ss @ ts) = allocated_in ss \<union> allocated_in ts" "free_in (ss @ ts) = free_in ss \<union> free_in ts"
  by (auto simp: allocated_in_def free_in_def)

lemma segs_ok_disjoint: "segs_ok q a ss \<Longrightarrow> allocated_in ss \<inter> free_in ss = {}"
proof (induction ss arbitrary: a)
  case (Cons s ss)
  then have ok: "segs_ok q (hi s) ss" by simp
  have "span s \<inter> span t = {}" if "t \<in> set ss" for t using segs_ok_span [OF ok that] by (auto simp: span_def)
  then have "span s \<inter> allocated_in ss = {}" "span s \<inter> free_in ss = {}" by (auto simp: allocated_in_def free_in_def)
  then show ?case using Cons.IH [OF ok] by auto
qed simp

section \<open>Containers\<close>

text \<open>\<open>cont_ok v E\<close>: the free lists, the bitmap and the tree agree with the segment list, where the segments
  in \<open>E\<close> are in no free list and not in the tree.\<close>

definition flists_ok :: "vmem_allocator \<Rightarrow> addr set \<Rightarrow> bool" where
  "flists_ok v E \<longleftrightarrow> (\<forall>i<64. distinct (freelists v i) \<and> (bit (vm_bitmap v) i \<longleftrightarrow> freelists v i \<noteq> []) \<and>
     set (freelists v i) = {x \<in> set (segments_list v) - E. \<not> seg_allocated (segs v x) \<and> log2ull (seg_size (segs v x)) = i})"

definition tree_ok :: "vmem_allocator \<Rightarrow> addr set \<Rightarrow> bool" where
  "tree_ok v E \<longleftrightarrow> rb_inv (vmem_segment_get_value v) (segments_tree v) \<and>
     set (ids (segments_tree v)) = {x \<in> set (segments_list v) - E. seg_allocated (segs v x)}"

definition cont_ok :: "vmem_allocator \<Rightarrow> addr set \<Rightarrow> bool" where
  "cont_ok v E \<longleftrightarrow> distinct (segments_list v) \<and> 0 \<notin> set (segments_list v) \<and> flists_ok v E \<and> tree_ok v E"

definition same_geom :: "vmem_allocator \<Rightarrow> vmem_allocator \<Rightarrow> bool" where
  "same_geom v v' \<longleftrightarrow> segs v' = segs v \<and> segments_list v' = segments_list v \<and>
     segment_allocator v' = segment_allocator v \<and> vm_quantum v' = vm_quantum v"

lemma bit_bitmap [simp]: "bit (2 ^ i :: u64) j \<longleftrightarrow> i = j \<and> j < 64"
  by (auto simp: bit_exp_iff possible_bit_word)

lemma tree_ok_cong:
  assumes "tree_ok v E" "segs v' = segs v" "segments_list v' = segments_list v" "segments_tree v' = segments_tree v"
    "\<And>y. seg_allocated (segs v y) \<Longrightarrow> y \<in> E' \<longleftrightarrow> y \<in> E"
  shows "tree_ok v' E'"
proof -
  have "vmem_segment_get_value v' = vmem_segment_get_value v" by (simp add: vmem_segment_get_value_def fun_eq_iff assms)
  moreover have "{x \<in> set (segments_list v) - E. seg_allocated (segs v x)} = {x \<in> set (segments_list v) - E'. seg_allocated (segs v x)}"
    using assms(5) by blast
  ultimately show ?thesis using assms(1-4) by (simp add: tree_ok_def)
qed

lemma flists_ok_cong:
  assumes "flists_ok v E" "segs v' = segs v" "segments_list v' = segments_list v" "freelists v' = freelists v"
    "vm_bitmap v' = vm_bitmap v" "\<And>y. \<not> seg_allocated (segs v y) \<Longrightarrow> y \<in> E' \<longleftrightarrow> y \<in> E"
  shows "flists_ok v' E'"
proof -
  have "{x \<in> set (segments_list v) - E. \<not> seg_allocated (segs v x) \<and> log2ull (seg_size (segs v x)) = i} =
    {x \<in> set (segments_list v) - E'. \<not> seg_allocated (segs v x) \<and> log2ull (seg_size (segs v x)) = i}" for i
    using assms(6) by blast
  then show ?thesis using assms(1-5) by (simp add: flists_ok_def)
qed

lemma flists_ok_upd:
  assumes f: "flists_ok v E" and ys: "distinct ys" "bit bm i \<longleftrightarrow> ys \<noteq> []"
      "set ys = {x \<in> set (segments_list v) - E'. \<not> seg_allocated (segs v x) \<and> log2ull (seg_size (segs v x)) = i}"
    and bm: "\<And>j. j \<noteq> i \<Longrightarrow> j < 64 \<Longrightarrow> bit bm j = bit (vm_bitmap v) j"
    and E: "\<And>y. \<not> seg_allocated (segs v y) \<Longrightarrow> log2ull (seg_size (segs v y)) \<noteq> i \<Longrightarrow> y \<in> E' \<longleftrightarrow> y \<in> E"
  shows "flists_ok (v\<lparr>freelists := (freelists v)(i := ys), vm_bitmap := bm\<rparr>) E'"
proof -
  have "{x \<in> set (segments_list v) - E. \<not> seg_allocated (segs v x) \<and> log2ull (seg_size (segs v x)) = j} =
      {x \<in> set (segments_list v) - E'. \<not> seg_allocated (segs v x) \<and> log2ull (seg_size (segs v x)) = j}" if "j \<noteq> i" for j
    using E that by blast
  then show ?thesis using f ys bm by (simp add: flists_ok_def)
qed

lemma flist_del_ok:
  assumes c: "cont_ok v E" and x: "x \<in> set (freelists v i)" "i < 64"
  shows "\<exists>v'. vmem_flist_del x i v = Inr v' \<and> cont_ok v' (insert x E) \<and> same_geom v v'"
proof -
  let ?ys = "remove1 x (freelists v i)"
  define bm where "bm = (if ?ys = [] then vm_bitmap v AND NOT (push_bit i 1) else vm_bitmap v)"
  let ?v = "v\<lparr>freelists := (freelists v)(i := ?ys), vm_bitmap := bm\<rparr>"
  have f: "flists_ok v E" using c by (simp add: cont_ok_def)
  have fi: "distinct (freelists v i)" "bit (vm_bitmap v) i \<longleftrightarrow> freelists v i \<noteq> []"
    "set (freelists v i) = {x \<in> set (segments_list v) - E. \<not> seg_allocated (segs v x) \<and> log2ull (seg_size (segs v x)) = i}"
    using f x(2) by (auto simp: flists_ok_def)
  have al: "\<not> seg_allocated (segs v x)" "log2ull (seg_size (segs v x)) = i" using fi(3) x(1) by auto
  have run: "vmem_flist_del x i v = Inr ?v" using x by (simp add: vmem_flist_del_def Let_def bm_def)
  have "flists_ok ?v (insert x E)"
  proof (rule flists_ok_upd [OF f])
    show "bit bm i \<longleftrightarrow> ?ys \<noteq> []" using x fi(2) by (auto simp: bm_def bit_and_iff bit_not_iff)
    show "bit bm j = bit (vm_bitmap v) j" if "j \<noteq> i" "j < 64" for j using that by (auto simp: bm_def bit_and_iff bit_not_iff possible_bit_word)
    show "set ?ys = {y \<in> set (segments_list v) - insert x E. \<not> seg_allocated (segs v y) \<and> log2ull (seg_size (segs v y)) = i}"
      using fi(1,3) by auto
  qed (use fi(1) al in auto)
  moreover have "tree_ok ?v (insert x E)"
    by (rule tree_ok_cong [of v E]) (use c al(1) in \<open>auto simp: cont_ok_def\<close>)
  ultimately have "cont_ok ?v (insert x E)" using c by (simp add: cont_ok_def)
  moreover have "same_geom v ?v" by (simp add: same_geom_def)
  ultimately show ?thesis using run by blast
qed

lemma flist_add_ok:
  assumes c: "cont_ok v E" and x: "x \<in> E" "x \<in> set (segments_list v)" "\<not> seg_allocated (segs v x)" "i = log2ull (seg_size (segs v x))"
  shows "\<exists>v'. vmem_flist_add x i v = Inr v' \<and> cont_ok v' (E - {x}) \<and> same_geom v v'"
proof -
  define bm where "bm = vm_bitmap v OR push_bit i 1"
  let ?v = "v\<lparr>freelists := (freelists v)(i := x # freelists v i), vm_bitmap := bm\<rparr>"
  have f: "flists_ok v E" using c by (simp add: cont_ok_def)
  have i: "i < 64" using x(4) log2ull_less by simp
  have fi: "distinct (freelists v i)"
    "set (freelists v i) = {x \<in> set (segments_list v) - E. \<not> seg_allocated (segs v x) \<and> log2ull (seg_size (segs v x)) = i}"
    using f i by (auto simp: flists_ok_def)
  have run: "vmem_flist_add x i v = Inr ?v" using i by (simp add: vmem_flist_add_def bm_def)
  have "flists_ok ?v (E - {x})"
  proof (rule flists_ok_upd [OF f])
    show "bit bm i \<longleftrightarrow> x # freelists v i \<noteq> []" using i by (simp add: bm_def bit_or_iff)
    show "bit bm j = bit (vm_bitmap v) j" if "j \<noteq> i" "j < 64" for j using that by (simp add: bm_def bit_or_iff)
    show "set (x # freelists v i) = {y \<in> set (segments_list v) - (E - {x}). \<not> seg_allocated (segs v y) \<and> log2ull (seg_size (segs v y)) = i}"
      using fi(2) x by auto
  qed (use fi x in auto)
  moreover have "tree_ok ?v (E - {x})"
    by (rule tree_ok_cong [of v E]) (use c x in \<open>auto simp: cont_ok_def\<close>)
  ultimately have "cont_ok ?v (E - {x})" using c by (simp add: cont_ok_def)
  moreover have "same_geom v ?v" by (simp add: same_geom_def)
  ultimately show ?thesis using run by blast
qed

lemma get_value_tree [simp]: "vmem_segment_get_value (v\<lparr>segments_tree := t\<rparr>) = vmem_segment_get_value v"
  by (simp add: vmem_segment_get_value_def fun_eq_iff)

lemma insert_tree_ok:
  assumes c: "cont_ok v E" and x: "x \<in> E" "x \<in> set (segments_list v)" "seg_allocated (segs v x)"
  shows "cont_ok (insert_tree x v) (E - {x}) \<and> same_geom v (insert_tree x v)"
proof -
  have t: "rb_inv (vmem_segment_get_value v) (segments_tree v)" "x \<notin> set (ids (segments_tree v))" "x \<noteq> 0"
    using c x by (auto simp: cont_ok_def tree_ok_def)
  have "insert x {y \<in> set (segments_list v) - E. seg_allocated (segs v y)} = {y \<in> set (segments_list v) - (E - {x}). seg_allocated (segs v y)}"
    using x by blast
  then have "tree_ok (insert_tree x v) (E - {x})"
    using c rb_index.invar_ins [OF t] rb_index.elems_ins [OF t(1), of x] by (simp add: cont_ok_def tree_ok_def insert_tree_def)
  moreover have "flists_ok (insert_tree x v) (E - {x})"
    by (rule flists_ok_cong [of v E]) (use c x in \<open>auto simp: cont_ok_def insert_tree_def\<close>)
  ultimately show ?thesis using c by (simp add: cont_ok_def insert_tree_def same_geom_def)
qed

lemma remove_tree_ok:
  assumes c: "cont_ok v E" and x: "seg_allocated (segs v x)"
  shows "cont_ok (remove_tree x v) (insert x E) \<and> same_geom v (remove_tree x v)"
proof -
  have t: "rb_inv (vmem_segment_get_value v) (segments_tree v)" using c by (auto simp: cont_ok_def tree_ok_def)
  have "{y \<in> set (segments_list v) - E. seg_allocated (segs v y)} - {x} = {y \<in> set (segments_list v) - insert x E. seg_allocated (segs v y)}"
    by blast
  then have "tree_ok (remove_tree x v) (insert x E)"
    using c rb_index.invar_del [OF t] rb_index.elems_del [OF t, of x] by (simp add: cont_ok_def tree_ok_def remove_tree_def)
  moreover have "flists_ok (remove_tree x v) (insert x E)"
    by (rule flists_ok_cong [of v E]) (use c x in \<open>auto simp: cont_ok_def remove_tree_def\<close>)
  ultimately show ?thesis using c by (simp add: cont_ok_def remove_tree_def same_geom_def)
qed

lemma set_seg_ok:
  assumes c: "cont_ok v E" and x: "x \<in> E \<or> x \<notin> set (segments_list v)"
  shows "cont_ok (set_seg x s v) E"
proof -
  have n: "x \<notin> set (ids (segments_tree v))" using c x by (auto simp: cont_ok_def tree_ok_def)
  have r: "rb_inv (vmem_segment_get_value v) (segments_tree v)" using c by (simp add: cont_ok_def tree_ok_def)
  have "rb_inv (vmem_segment_get_value (set_seg x s v)) (segments_tree v)"
    by (rule rb_index.invar_key [OF r]) (use n in \<open>auto simp: vmem_segment_get_value_def set_seg_def\<close>)
  moreover have "{y \<in> set (segments_list v) - E. P (segs (set_seg x s v) y)} = {y \<in> set (segments_list v) - E. P (segs v y)}" for P
    using x by (auto simp: set_seg_def)
  note this [of seg_allocated] this [of "\<lambda>t. \<not> seg_allocated t \<and> log2ull (seg_size t) = _"]
  ultimately show ?thesis using c by (simp add: cont_ok_def tree_ok_def flists_ok_def set_seg_def [of x s v])
qed

lemma cont_list:
  assumes c: "cont_ok v E" and ys: "distinct ys" "0 \<notin> set ys" "set ys - E' = set (segments_list v) - E"
  shows "cont_ok (v\<lparr>segments_list := ys\<rparr>) E'"
proof -
  have "vmem_segment_get_value (v\<lparr>segments_list := ys\<rparr>) = vmem_segment_get_value v"
    by (simp add: vmem_segment_get_value_def fun_eq_iff)
  then show ?thesis using c ys by (simp add: cont_ok_def tree_ok_def flists_ok_def)
qed

lemma before_split: "x \<notin> set as \<Longrightarrow> before x y (as @ x # bs) = as @ y # x # bs"
  by (induction as) auto

lemma after_split: "x \<notin> set as \<Longrightarrow> after x y (as @ x # bs) = as @ x # y # bs"
  by (induction as) auto

lemma takeWhile_split: "x \<notin> set as \<Longrightarrow> takeWhile (\<lambda>y. y \<noteq> x) (as @ x # bs) = as"
  by (induction as) auto

lemma dropWhile_split: "x \<notin> set as \<Longrightarrow> dropWhile (\<lambda>y. y \<noteq> x) (as @ x # bs) = x # bs"
  by (induction as) auto

text \<open>\<open>vm_ok h M as x bs E (v, k)\<close>: a state whose segment list is \<open>as\<close>, \<open>x\<close>, \<open>bs\<close> and whose containers are in order.\<close>

definition vm_ok :: "u64 \<Rightarrow> nat set \<Rightarrow> addr list \<Rightarrow> addr set \<Rightarrow> vmem \<Rightarrow> bool" where
  "vm_ok h M xs E = (\<lambda>(v, k). cont_ok v E \<and> segments_list v = xs \<and> sp_pool h M 64 8 (segment_allocator v, k) (set xs))"

lemma vm_okI: "cont_ok v E \<Longrightarrow> segments_list v = xs \<Longrightarrow> sp_pool h M 64 8 (segment_allocator v, k) (set xs) \<Longrightarrow> vm_ok h M xs E (v, k)"
  by (simp add: vm_ok_def)

lemma new_segment_rep:
  assumes "vm_ok h M (as @ bs) E (v, k)"
  shows "new_segment h s (v, k) = Inl Panicked \<or>
    (\<exists>y v' k'. new_segment h s (v, k) = Inr (y, v', k') \<and> y \<notin> set (as @ bs) \<and> y \<noteq> 0 \<and>
      vm_ok h M (as @ y # bs) (insert y E) (v'\<lparr>segments_list := as @ y # bs\<rparr>, k') \<and>
      segments_list v' = as @ bs \<and> segs v' = (segs v)(y := s) \<and> vm_quantum v' = vm_quantum v)"
proof -
  have ok: "cont_ok v E" "segments_list v = as @ bs" "sp_pool h M 64 8 (segment_allocator v, k) (set (as @ bs))"
    using assms by (auto simp: vm_ok_def)
  from spalloc.alloc_cases [OF ok(3)] consider "spalloc_malloc h (segment_allocator v, k) = Inl Panicked" |
    y al k' where "spalloc_malloc h (segment_allocator v, k) = Inr (y, al, k')" "y \<noteq> 0" "y \<notin> set (as @ bs)"
      "sp_pool h M 64 8 (al, k') (insert y (set (as @ bs)))" by (metis prod.exhaust)
  then show ?thesis
  proof cases
    case 1
    then show ?thesis by (simp add: new_segment_def)
  next
    case 2
    let ?v = "set_seg y s (v\<lparr>segment_allocator := al\<rparr>)"
    have "cont_ok (v\<lparr>segment_allocator := al\<rparr>) E"
      using ok(1) by (simp add: cont_ok_def tree_ok_def flists_ok_def vmem_segment_get_value_def [abs_def])
    then have "cont_ok ?v E" using 2(3) ok(2) by (intro set_seg_ok) auto
    then have "cont_ok (?v\<lparr>segments_list := as @ y # bs\<rparr>) (insert y E)"
      using ok(1,2) 2(2,3) by (intro cont_list) (auto simp: cont_ok_def set_seg_def)
    moreover have "insert y (set (as @ bs)) = set (as @ y # bs)" by auto
    ultimately show ?thesis
      using 2 ok(2) by (auto simp: new_segment_def vm_ok_def set_seg_def)
  qed
qed

lemma segs_list [simp]: "segs (v\<lparr>segments_list := xs\<rparr>) = segs v" by simp

definition lefts :: "bool \<Rightarrow> u64 \<Rightarrow> vmem_segment \<Rightarrow> vmem_segment list" where
  "lefts b addr s = (if seg_base s = addr then [] else [\<lparr>seg_allocated = b, seg_base = seg_base s, seg_size = addr - seg_base s\<rparr>])"

lemma vm_ok_set_seg: "vm_ok h M xs E (v, k) \<Longrightarrow> x \<in> E \<Longrightarrow> vm_ok h M xs E (set_seg x s v, k)"
  by (auto simp: vm_ok_def intro: set_seg_ok) (simp_all add: set_seg_def)

lemma vm_ok_same: "vm_ok h M xs E (v, k) \<Longrightarrow> cont_ok v' E' \<Longrightarrow> same_geom v v' \<Longrightarrow> vm_ok h M xs E' (v', k)"
  by (auto simp: vm_ok_def same_geom_def)

lemma alloc_left_rep:
  assumes ok: "vm_ok h M (as @ x # bs) {x} (v, k)" and s: "segs v x = s" "\<not> seg_allocated s"
    and q: "seg_base s \<noteq> addr \<Longrightarrow> addr - seg_base s \<ge> ucast (vm_quantum v)"
  shows "alloc_left h addr x (v, k) = Inl Panicked \<or>
    (\<exists>as' v' k'. alloc_left h addr x (v, k) = Inr (v', k') \<and> vm_ok h M (as' @ x # bs) {x} (v', k') \<and>
      segs v' x = s\<lparr>seg_base := addr, seg_size := seg_size s - (addr - seg_base s)\<rparr> \<and> vm_quantum v' = vm_quantum v \<and>
      map (segs v') as' = map (segs v) as @ lefts False addr s \<and> map (segs v') bs = map (segs v) bs)"
proof (cases "seg_base s = addr")
  case True
  then have "alloc_left h addr x (v, k) = Inr (v, k)" "lefts False addr s = []" using s by (simp_all add: alloc_left_def lefts_def)
  then show ?thesis using ok s True by auto
next
  case False
  let ?l = "\<lparr>seg_allocated = False, seg_base = seg_base s, seg_size = addr - seg_base s\<rparr>"
  from new_segment_rep [of h M as "x # bs", OF ok, of ?l] show ?thesis
  proof (elim disjE exE conjE, goal_cases)
    case 1
    then show ?case using q [OF False] False s by (simp add: alloc_left_def Let_def)
  next
    case n: (2 y v1 k1)
    have x: "x \<notin> set as" "x \<notin> set bs" "x \<in> set (as @ y # x # bs)" using ok by (auto simp: vm_ok_def cont_ok_def)
    let ?v1 = "v1\<lparr>segments_list := as @ y # x # bs\<rparr>"
    have p: "prepend_segment x y v1 = Inr ?v1" using n(5) x(1) by (simp add: prepend_segment_def before_split)
    obtain v2 where v2: "vmem_flist_add y (log2ull (addr - seg_base s)) ?v1 = Inr v2" "cont_ok v2 (insert y {x} - {y})" "same_geom ?v1 v2"
      using flist_add_ok [of ?v1 "insert y {x}" y "log2ull (addr - seg_base s)"] n(4,6) by (auto simp: vm_ok_def)
    have "insert y {x} - {y} = {x}" using n(2) by auto
    then have "vm_ok h M (as @ y # x # bs) {x} (v2, k1)" using vm_ok_same [OF n(4) v2(2,3)] by simp
    then have "vm_ok h M ((as @ [y]) @ x # bs) {x} (set_seg x (s\<lparr>seg_base := addr, seg_size := seg_size s - (addr - seg_base s)\<rparr>) v2, k1)"
      using vm_ok_set_seg by simp
    moreover have "alloc_left h addr x (v, k) = Inr (set_seg x (s\<lparr>seg_base := addr, seg_size := seg_size s - (addr - seg_base s)\<rparr>) v2, k1)"
      using q [OF False] False s n(1) p v2(1) by (simp add: alloc_left_def Let_def)
    moreover have "segs v2 = (segs v)(y := ?l)" "vm_quantum v2 = vm_quantum v" using v2(3) n(6,7) by (simp_all add: same_geom_def)
    ultimately show ?case using n(2) x False
      by (intro disjI2 exI [of _ "as @ [y]"] exI [of _ "set_seg x (s\<lparr>seg_base := addr, seg_size := seg_size s - (addr - seg_base s)\<rparr>) v2"] exI [of _ k1])
        (auto simp: set_seg_def lefts_def)
  qed
qed


definition rights :: "u64 \<Rightarrow> vmem_segment \<Rightarrow> vmem_segment list" where
  "rights sz s = (if seg_size s = sz then []
     else [\<lparr>seg_allocated = False, seg_base = seg_base s + sz, seg_size = seg_size s - sz\<rparr>])"

lemma alloc_right_rep:
  assumes ok: "vm_ok h M (as @ x # bs) {x} (v, k)" and s: "segs v x = s" "\<not> seg_allocated s"
    and q: "seg_size s \<noteq> sz \<Longrightarrow> seg_size s - sz \<ge> ucast (vm_quantum v)"
  shows "alloc_right h sz x (v, k) = Inl Panicked \<or>
    (\<exists>xs v' k'. alloc_right h sz x (v, k) = Inr (seg_base s, v', k') \<and> vm_ok h M xs {} (v', k') \<and>
      vm_quantum v' = vm_quantum v \<and> map (segs v') xs =
        map (segs v) as @ [\<lparr>seg_allocated = True, seg_base = seg_base s, seg_size = sz\<rparr>] @ rights sz s @ map (segs v) bs)"
proof (cases "seg_size s = sz")
  case True
  let ?v = "set_seg x (s\<lparr>seg_allocated := True\<rparr>) v"
  have x: "x \<notin> set as" "x \<notin> set bs" using ok by (auto simp: vm_ok_def cont_ok_def)
  have o: "vm_ok h M (as @ x # bs) {x} (?v, k)" using vm_ok_set_seg [OF ok] by simp
  then have "cont_ok (insert_tree x ?v) ({x} - {x}) \<and> same_geom ?v (insert_tree x ?v)"
    by (intro insert_tree_ok) (auto simp: vm_ok_def set_seg_def)
  then have "vm_ok h M (as @ x # bs) {} (insert_tree x ?v, k)" using vm_ok_same [OF o] by simp
  moreover have "alloc_right h sz x (v, k) = Inr (seg_base s, insert_tree x ?v, k)" using s True by (simp add: alloc_right_def Let_def)
  ultimately show ?thesis using True x s
    by (intro disjI2 exI [of _ "as @ x # bs"] exI [of _ "insert_tree x ?v"] exI [of _ k])
      (auto simp: set_seg_def insert_tree_def rights_def)
next
  case False
  let ?a = "\<lparr>seg_allocated = True, seg_base = seg_base s, seg_size = sz\<rparr>"
  let ?r = "\<lparr>seg_allocated = False, seg_base = seg_base s + sz, seg_size = seg_size s - sz\<rparr>"
  from new_segment_rep [of h M as "x # bs", OF ok, of ?a] show ?thesis
  proof (elim disjE exE conjE, goal_cases)
    case 1
    then show ?case using q [OF False] False s by (simp add: alloc_right_def Let_def)
  next
    case n: (2 y v1 k1)
    have x: "x \<notin> set as" "x \<notin> set bs" "x \<noteq> y" using ok n(2) by (auto simp: vm_ok_def cont_ok_def)
    let ?v1 = "set_seg x ?r (v1\<lparr>segments_list := as @ y # x # bs\<rparr>)"
    have o: "vm_ok h M (as @ y # x # bs) {y, x} (?v1, k1)" using vm_ok_set_seg [OF n(4)] by simp
    have p: "prepend_segment x y (set_seg x ?r v1) = Inr ?v1"
      using n(5) x(1) by (simp add: prepend_segment_def before_split set_seg_def)
    obtain v2 where v2: "vmem_flist_add x (log2ull (seg_size ?r)) ?v1 = Inr v2" "cont_ok v2 ({y, x} - {x})" "same_geom ?v1 v2"
      using flist_add_ok [of ?v1 "{y, x}" x "log2ull (seg_size ?r)"] o by (auto simp: vm_ok_def set_seg_def)
    have e: "{y, x} - {x} = {y}" using x(3) by auto
    have o2: "vm_ok h M (as @ y # x # bs) {y} (v2, k1)" using vm_ok_same [OF o v2(2,3)] by (simp add: e)
    have g: "segs v2 = (segs v)(y := ?a, x := ?r)" "vm_quantum v2 = vm_quantum v" using v2(3) n(6,7) by (simp_all add: same_geom_def set_seg_def)
    have "cont_ok (insert_tree y v2) ({y} - {y}) \<and> same_geom v2 (insert_tree y v2)"
      using o2 g x(3) by (intro insert_tree_ok) (auto simp: vm_ok_def)
    then have "vm_ok h M (as @ y # x # bs) {} (insert_tree y v2, k1)" using vm_ok_same [OF o2] by simp
    moreover have "alloc_right h sz x (v, k) = Inr (seg_base s, insert_tree y v2, k1)"
      using q [OF False] False s n(1) p v2(1) by (simp add: alloc_right_def Let_def)
    ultimately show ?case using n(2) x False g
      by (intro disjI2 exI [of _ "as @ y # x # bs"] exI [of _ "insert_tree y v2"] exI [of _ k1]) (auto simp: insert_tree_def rights_def)
  qed
qed

section \<open>Finding room\<close>

lemma fit_list_some:
  "fit_list v sz mn mx i xs = Some r \<Longrightarrow> ret_idx r = i \<and> ret_seg r \<in> set xs \<and>
     fit_segment (vm_quantum v) sz mn mx (segs v (ret_seg r)) = Some (ret_addr r)"
  by (induction xs) (auto split: option.splits)

lemma fit_list_none:
  "fit_list v sz mn mx i xs = None \<longleftrightarrow> (\<forall>x\<in>set xs. fit_segment (vm_quantum v) sz mn mx (segs v x) = None)"
  by (induction xs) (auto split: option.splits)

lemma fit_lists_some:
  "fit_lists v sz mn mx i = Some r \<Longrightarrow> i \<le> ret_idx r \<and> ret_idx r < 64 \<and> ret_seg r \<in> set (freelists v (ret_idx r)) \<and>
     fit_segment (vm_quantum v) sz mn mx (segs v (ret_seg r)) = Some (ret_addr r)"
proof (induction v sz mn mx i rule: fit_lists.induct)
  case (1 v sz mn mx i)
  then show ?case
    by (subst (asm) fit_lists.simps) (auto split: if_splits option.splits dest: fit_list_some)
qed

lemma fit_lists_none:
  "fit_lists v sz mn mx i = None \<longleftrightarrow> (\<forall>j x. i \<le> j \<longrightarrow> j < 64 \<longrightarrow> x \<in> set (freelists v j) \<longrightarrow>
     fit_segment (vm_quantum v) sz mn mx (segs v x) = None)"
proof (induction v sz mn mx i rule: fit_lists.induct)
  case (1 v sz mn mx i)
  let ?bad = "\<lambda>j. \<forall>x\<in>set (freelists v j). fit_segment (vm_quantum v) sz mn mx (segs v x) = None"
  show ?case
  proof (cases "i < 64")
    case True
    have b: "fit_list v sz mn mx i (freelists v i) = None \<longleftrightarrow> ?bad i" by (rule fit_list_none)
    have "fit_lists v sz mn mx i = None \<longleftrightarrow> fit_list v sz mn mx i (freelists v i) = None \<and> fit_lists v sz mn mx (i + 1) = None"
      using True by (subst fit_lists.simps) (auto split: option.splits)
    also have "\<dots> \<longleftrightarrow> ?bad i \<and> (\<forall>j x. i + 1 \<le> j \<longrightarrow> j < 64 \<longrightarrow> x \<in> set (freelists v j) \<longrightarrow>
        fit_segment (vm_quantum v) sz mn mx (segs v x) = None)"
      using 1 [OF True] b by metis
    finally show ?thesis using True by (metis Suc_eq_plus1 le_eq_less_or_eq less_eq_Suc_le)
  qed (subst fit_lists.simps, auto)
qed


lemma ctz_le:
  assumes "bit w j" "j < 64"
  shows "COUNT_TRAILING_ZEROS w \<le> j"
proof -
  have w: "w \<noteq> 0" using assms(1) by auto
  have "ctzll w \<le> j" using ctzll_bit(3) [OF w, of j] assms(1) by (meson not_le)
  then show ?thesis using w by (simp add: COUNT_TRAILING_ZEROS_def)
qed

lemma fit_alloc_some:
  assumes "fit_alloc v sz addr = Some r"
  shows "ret_idx r < 64 \<and> ret_seg r \<in> set (freelists v (ret_idx r)) \<and>
    fit_segment (vm_quantum v) sz (align_up_q addr (vm_quantum v))
      (if addr \<noteq> 0 then align_up_q (addr + sz) (vm_quantum v) else - 1) (segs v (ret_seg r)) = Some (ret_addr r)"
  using assms by (auto simp: fit_alloc_def Let_def split: option.splits if_splits dest!: fit_lists_some fit_list_some)

lemma fit_alloc_none:
  assumes f: "flists_ok v E" and n: "fit_alloc v sz addr = None"
    and x: "x \<in> set (segments_list v) - E" "\<not> seg_allocated (segs v x)" "sz \<le> seg_size (segs v x)" "seg_size (segs v x) \<noteq> 0"
  shows "fit_segment (vm_quantum v) sz (align_up_q addr (vm_quantum v))
      (if addr \<noteq> 0 then align_up_q (addr + sz) (vm_quantum v) else - 1) (segs v x) = None"
proof -
  define j where "j = log2ull (seg_size (segs v x))"
  define index where "index = min (log2ullceil sz) 63"
  note b = log2ull_bounds [OF x(4), folded j_def]
  have xj: "x \<in> set (freelists v j)" using f b(3) x by (auto simp: flists_ok_def j_def)
  have "bit (vm_bitmap v) j \<longleftrightarrow> freelists v j \<noteq> []" using f b(3) by (simp add: flists_ok_def)
  then have bit: "bit (vm_bitmap v) j" using xj by auto
  have le: "unat sz \<le> unat (seg_size (segs v x))" using x(3) by (simp add: word_le_nat_alt)
  show ?thesis
  proof (cases "index \<le> j")
    case True
    then have "bit (vm_bitmap v AND push_bit index (- 1)) j"
      using bit b(3) by (simp add: bit_and_iff bit_not_iff bit_mask_iff possible_bit_word)
    from ctz_le [OF this b(3)] show ?thesis
      using n xj b(3) by (auto simp: fit_alloc_def Let_def fit_lists_none simp flip: index_def split: option.splits)
  next
    case False
    have "1 < unat sz"
    proof (rule ccontr)
      assume "\<not> 1 < unat sz"
      then have "log2ullceil sz = 0" by (simp add: log2ullceil_def word_le_nat_alt)
      then show False using False by (simp add: index_def)
    qed
    from log2ullceil_bounds [OF this] have c: "2 ^ (log2ullceil sz - 1) < unat sz" by simp
    then have "(2::nat) ^ (log2ullceil sz - 1) < 2 ^ Suc j" using le b(2) by linarith
    then have "log2ullceil sz - 1 < Suc j" by (rule power_less_imp_less_exp [rotated]) simp
    then have "index - 1 = j" "index \<noteq> 0" using False b(3) by (auto simp: index_def)
    then show ?thesis
      using n xj by (auto simp: fit_alloc_def Let_def fit_list_none simp flip: index_def split: option.splits if_splits)
  qed
qed

text \<open>\<open>room\<close>: the request fits into the free segment \<open>s\<close>, at the given address if there is one.\<close>

definition room :: "u64 \<Rightarrow> u64 \<Rightarrow> vmem_segment \<Rightarrow> bool" where
  "room addr sz s \<longleftrightarrow> \<not> seg_allocated s \<and>
     (if addr = 0 then sz \<le> seg_size s else lo s \<le> unat addr \<and> unat addr + unat sz \<le> hi s)"

lemma dvd_word_add:
  assumes "2 ^ m dvd unat (a :: u64)" "2 ^ m dvd unat b" "m < 32"
  shows "2 ^ m dvd unat (a + b)"
proof -
  have "(2::nat) ^ m dvd 2 ^ 64" using assms(3) by (intro le_imp_power_dvd) simp
  then have "2 ^ m dvd (unat a + unat b) mod 2 ^ 64" using assms by (intro dvd_mod dvd_add)
  then show ?thesis by (simp add: unat_word_ariths)
qed

lemma fit_segment_eq:
  assumes q: "unat q = 2 ^ m" "0 < m" and al: "2 ^ m dvd unat addr" "2 ^ m dvd unat sz" "2 ^ m dvd lo s"
    and s: "hi s \<le> 2 ^ 64"
  shows "fit_segment q sz (align_up_q addr q) (if addr \<noteq> 0 then align_up_q (addr + sz) q else - 1) s =
    (let a = (if addr > seg_base s then addr else seg_base s) in
     if sz \<le> seg_size s \<and> a - seg_base s \<le> seg_size s - sz \<and> (addr \<noteq> 0 \<longrightarrow> a + sz \<le> addr + sz) then Some a else None)"
proof -
  have m: "m < 32" using quantum_mask [OF q(1)] by simp
  have l: "2 ^ m dvd unat (seg_base s)" using al(3) by (simp add: lo_def)
  have d: "2 ^ m dvd unat (addr + sz)" by (rule dvd_word_add [OF al(1,2) m])
  have "addr + sz \<noteq> - 1"
  proof
    assume "addr + sz = - 1"
    then have "2 ^ m dvd (2 ^ 64 - 1 :: nat)" using d by (simp add: unsigned_minus_1_eq_mask mask_nat_def)
    moreover have "(2::nat) dvd 2 ^ m" using q(2) by simp
    ultimately have "(2::nat) dvd 2 ^ 64 - 1" by (rule dvd_trans [rotated])
    then show False by simp
  qed
  then show ?thesis
    using align_up_q_aligned [OF q(1)] al(1) l d by (auto simp: fit_segment_def Let_def not_less)
qed

lemma fit_segment_room:
  assumes "unat q = 2 ^ m" "0 < m" "2 ^ m dvd unat addr" "2 ^ m dvd unat sz" "2 ^ m dvd lo s" "hi s \<le> 2 ^ 64"
    and "room addr sz s" "sz \<noteq> 0"
  shows "fit_segment q sz (align_up_q addr q) (if addr \<noteq> 0 then align_up_q (addr + sz) q else - 1) s \<noteq> None"
proof (cases "addr = 0")
  case True
  then show ?thesis using fit_segment_eq [OF assms(1-6)] assms(7) by (auto simp: room_def)
next
  case False
  then have r: "lo s \<le> unat addr" "unat addr + unat sz \<le> hi s" using assms(7) by (auto simp: room_def)
  have b: "seg_base s \<le> addr" using r(1) by (simp add: lo_def word_le_nat_alt)
  have "sz \<le> seg_size s" using r by (simp add: lo_def hi_def word_le_nat_alt)
  moreover have "addr - seg_base s \<le> seg_size s - sz"
    using r b calculation by (simp add: word_le_nat_alt unat_sub lo_def hi_def)
  ultimately show ?thesis using fit_segment_eq [OF assms(1-6)] b by (auto simp: Let_def)
qed

lemma fit_segment_sound:
  assumes q: "unat q = 2 ^ m" "0 < m" "2 ^ m dvd unat addr" "2 ^ m dvd unat sz" "2 ^ m dvd lo s" "hi s \<le> 2 ^ 64"
    and f: "fit_segment q sz (align_up_q addr q) (if addr \<noteq> 0 then align_up_q (addr + sz) q else - 1) s = Some a"
    and c: "addr \<noteq> 0 \<and> hi s = 2 ^ 64 \<and> seg_size s = sz \<longrightarrow> seg_base s \<le> addr"
  shows "sz \<le> seg_size s" "seg_base s \<le> a" "unat a + unat sz \<le> hi s" "2 ^ m dvd unat a"
    "addr = 0 \<Longrightarrow> a = seg_base s" "addr \<noteq> 0 \<Longrightarrow> a = addr"
proof -
  have a: "sz \<le> seg_size s" "a - seg_base s \<le> seg_size s - sz" "a = (if addr > seg_base s then addr else seg_base s)"
    "addr \<noteq> 0 \<Longrightarrow> a + sz \<le> addr + sz"
    using f unfolding fit_segment_eq [OF q] by (auto simp: Let_def split: if_splits)
  show "sz \<le> seg_size s" "seg_base s \<le> a" using a by auto
  then have u: "unat a - unat (seg_base s) \<le> unat (seg_size s) - unat sz" "unat (seg_base s) \<le> unat a" "unat sz \<le> unat (seg_size s)"
    using a(2) by (simp_all add: word_le_nat_alt unat_sub)
  then show le: "unat a + unat sz \<le> hi s" by (simp add: hi_def)
  show "2 ^ m dvd unat a" using a(3) q(3,5) by (auto simp: lo_def)
  show "a = seg_base s" if "addr = 0" using a(3) that by auto
  show "a = addr" if n: "addr \<noteq> 0"
  proof (rule ccontr)
    assume "a \<noteq> addr"
    then have b: "a = seg_base s" "addr < a" using a(3) by (auto split: if_splits)
    have lt: "unat addr < unat a" using b(2) by (simp add: word_less_nat_alt)
    have le2: "unat a + unat sz \<le> 2 ^ 64" using le q(6) by simp
    show False
    proof (cases "unat a + unat sz = 2 ^ 64")
      case True
      then have "unat (seg_size s) = unat sz" using le q(6) u(3) b(1) by (simp add: hi_def)
      then have "seg_base s \<le> addr" using c n True b(1) by (simp add: hi_def word_unat_eq_iff)
      then show False using b by simp
    next
      case False
      then have "unat (a + sz) = unat a + unat sz" "unat (addr + sz) = unat addr + unat sz"
        using le2 lt by (auto intro!: unat_add_no_wrap)
      then show False using a(4) [OF n] lt by (simp add: word_le_nat_alt)
    qed
  qed
qed


section \<open>Allocation\<close>

lemma split_at: "x \<in> set xs \<Longrightarrow> \<exists>as bs. xs = as @ x # bs"
  by (rule split_list)

lemma segs_ok_mid: "segs_ok q a (A @ s # B) \<Longrightarrow> q dvd lo s \<and> q dvd hi s \<and> lo s < hi s \<and> hi s \<le> 2 ^ 64"
  using segs_ok_le [of q "hi s" B] by (auto simp: segs_ok_append)

definition carve :: "u64 \<Rightarrow> u64 \<Rightarrow> vmem_segment \<Rightarrow> vmem_segment list" where
  "carve a sz s = lefts False a s @ [\<lparr>seg_allocated = True, seg_base = a, seg_size = sz\<rparr>] @
     rights sz \<lparr>seg_allocated = False, seg_base = a, seg_size = seg_size s - (a - seg_base s)\<rparr>"

lemma at_least_quantum:
  fixes q :: u32
  assumes "unat q = 2 ^ m" "2 ^ m dvd unat w" "w \<noteq> 0"
  shows "(ucast q :: u64) \<le> w"
proof -
  have "0 < unat w" using assms(3) by (simp add: unat_gt_0)
  then have "2 ^ m \<le> unat w" using assms(2) by (simp add: dvd_imp_le)
  then show ?thesis using quantum_mask [OF assms(1)] by (simp add: word_le_nat_alt)
qed

lemma vmem_alloc_rep:
  assumes ok: "vm_ok h M (segments_list v) {} (v, k)" and q: "unat (vm_quantum v) = 2 ^ m" "0 < m"
    and o: "segs_ok (2 ^ m) 0 (view v)" and sz: "2 ^ m dvd unat sz" "sz \<noteq> 0" and addr: "2 ^ m dvd unat addr"
    and c: "\<forall>s\<in>set (view v). addr \<noteq> 0 \<and> hi s = 2 ^ 64 \<and> seg_size s = sz \<longrightarrow> seg_base s \<le> addr"
  shows "vmem_alloc h sz addr (v, k) = Inr (0, v, k) \<and> (\<forall>s\<in>set (view v). \<not> room addr sz s) \<or>
    vmem_alloc h sz addr (v, k) = Inl Panicked \<or>
    (\<exists>A s B a v' k'. vmem_alloc h sz addr (v, k) = Inr (a, v', k') \<and> view v = A @ s # B \<and> \<not> seg_allocated s \<and>
       lo s \<le> unat a \<and> unat a + unat sz \<le> hi s \<and> 2 ^ m dvd unat a \<and> (addr \<noteq> 0 \<longrightarrow> a = addr) \<and>
       view v' = A @ carve a sz s @ B \<and> vm_ok h M (segments_list v') {} (v', k') \<and> vm_quantum v' = vm_quantum v)"
proof (cases "fit_alloc v sz addr")
  case None
  have f: "flists_ok v {}" using ok by (simp add: vm_ok_def cont_ok_def)
  have "\<not> room addr sz s" if s: "s \<in> set (view v)" for s
  proof
    assume r: "room addr sz s"
    obtain x where x: "x \<in> set (segments_list v)" "s = segs v x" using s by (auto simp: view_def)
    have p: "2 ^ m dvd lo s" "hi s \<le> 2 ^ 64" "lo s < hi s" using segs_ok_mid split_list [OF s] o by metis+
    have "sz \<le> seg_size s" using r by (auto simp: room_def lo_def hi_def word_le_nat_alt split: if_splits)
    moreover have "seg_size s \<noteq> 0" using p(3) by (auto simp: lo_def hi_def)
    ultimately show False
      using fit_alloc_none [OF f None] fit_segment_room [OF q addr sz(1) p(1,2) r sz(2)] x r by (auto simp: room_def)
  qed
  then show ?thesis using None align_up_q_aligned [OF q(1) sz(1)] is_aligned_q_dvd [OF q(1)] addr by (simp add: vmem_alloc_def)
next
  case (Some r)
  define x s a where "x = ret_seg r" and "s = segs v x" and "a = ret_addr r"
  note fa = fit_alloc_some [OF Some, folded x_def a_def, folded s_def]
  have f: "flists_ok v {}" using ok by (simp add: vm_ok_def cont_ok_def)
  have x: "x \<in> set (segments_list v)" "\<not> seg_allocated s" using f fa by (auto simp: flists_ok_def s_def)
  obtain as bs where ab: "segments_list v = as @ x # bs" using split_at [OF x(1)] by blast
  then have vw: "view v = map (segs v) as @ s # map (segs v) bs" by (simp add: view_def s_def)
  then have sv: "s \<in> set (view v)" by simp
  have p: "2 ^ m dvd lo s" "2 ^ m dvd hi s" "lo s < hi s" "hi s \<le> 2 ^ 64" using segs_ok_mid o unfolding vw by metis+
  note so = fit_segment_sound [OF q addr sz(1) p(1,4) conjunct2 [OF conjunct2 [OF fa]] bspec [OF c sv]]
  have dz: "2 ^ m dvd unat (seg_size s)" using p(1,2) by (simp add: lo_def hi_def dvd_add_right_iff)
  obtain v1 where v1: "vmem_flist_del x (ret_idx r) v = Inr v1" "cont_ok v1 {x}" "same_geom v v1"
    using flist_del_ok [of v "{}" x "ret_idx r"] ok fa by (auto simp: vm_ok_def)
  have o1: "vm_ok h M (as @ x # bs) {x} (v1, k)" using vm_ok_same [OF ok v1(2,3)] ab by simp
  have g1: "segs v1 = segs v" "vm_quantum v1 = vm_quantum v" using v1(3) by (simp_all add: same_geom_def)
  have run: "vmem_alloc h sz addr (v, k) = ebind (alloc_left h a x (v1, k)) (\<lambda>st. alloc_right h sz x st)"
    using Some align_up_q_aligned [OF q(1) sz(1)] is_aligned_q_dvd [OF q(1)] addr so(1,6) v1(1)
    by (auto simp: vmem_alloc_def kassert_def x_def a_def s_def)
  have ql: "a - seg_base s \<ge> ucast (vm_quantum v1)" if "seg_base s \<noteq> a"
  proof -
    have "unat (a - seg_base s) = unat a - lo s" unfolding lo_def by (rule unat_sub [OF so(2)])
    then have "2 ^ m dvd unat (a - seg_base s)" by (simp only: dvd_diff_nat so(4) p(1))
    then show ?thesis using at_least_quantum [OF q(1)] that g1(2) by simp
  qed
  from alloc_left_rep [OF o1 _ x(2) ql] g1 consider "alloc_left h a x (v1, k) = Inl Panicked" |
    as' v2 k2 where "alloc_left h a x (v1, k) = Inr (v2, k2)" "vm_ok h M (as' @ x # bs) {x} (v2, k2)"
      "segs v2 x = s\<lparr>seg_base := a, seg_size := seg_size s - (a - seg_base s)\<rparr>" "vm_quantum v2 = vm_quantum v"
      "map (segs v2) as' = map (segs v) as @ lefts False a s" "map (segs v2) bs = map (segs v) bs"
    by (auto simp: s_def)
  then show ?thesis
  proof cases
    case 1
    then show ?thesis using run by simp
  next
    case 2
    define t where "t = s\<lparr>seg_base := a, seg_size := seg_size s - (a - seg_base s)\<rparr>"
    have t: "t = \<lparr>seg_allocated = False, seg_base = a, seg_size = seg_size s - (a - seg_base s)\<rparr>" using x(2) by (simp add: t_def)
    have ge: "unat (a - seg_base s) = unat a - unat (seg_base s)" "a - seg_base s \<le> seg_size s"
      using so(2,3) by (simp_all add: unat_sub word_le_nat_alt hi_def)
    have le: "sz \<le> seg_size t" using so(2,3) ge by (simp add: t word_le_nat_alt unat_sub hi_def)
    have "seg_size t - sz \<ge> ucast (vm_quantum v2)" if "seg_size t \<noteq> sz"
    proof -
      have "unat (seg_size t - sz) = unat (seg_size s) - (unat a - lo s) - unat sz"
        using le ge by (simp add: t unat_sub lo_def)
      then have "2 ^ m dvd unat (seg_size t - sz)" by (simp only: dvd_diff_nat so(4) p(1) dz sz(1))
      then show ?thesis using at_least_quantum [OF q(1)] that 2(4) by simp
    qed
    from alloc_right_rep [OF 2(2) _ _ this] 2(3) have "alloc_right h sz x (v2, k2) = Inl Panicked \<or>
      (\<exists>xs v' k'. alloc_right h sz x (v2, k2) = Inr (a, v', k') \<and> vm_ok h M xs {} (v', k') \<and> vm_quantum v' = vm_quantum v \<and>
        map (segs v') xs = map (segs v) as @ carve a sz s @ map (segs v) bs)"
      using 2(4-6) by (simp add: t flip: t_def) (simp add: t carve_def)
    then show ?thesis
    proof (elim disjE exE conjE)
      assume "alloc_right h sz x (v2, k2) = Inl Panicked"
      then show ?thesis using run 2(1) by simp
    next
      fix xs v' k'
      assume *: "alloc_right h sz x (v2, k2) = Inr (a, v', k')" "vm_ok h M xs {} (v', k')" "vm_quantum v' = vm_quantum v"
        "map (segs v') xs = map (segs v) as @ carve a sz s @ map (segs v) bs"
      have "segments_list v' = xs" using *(2) by (simp add: vm_ok_def)
      then show ?thesis using * run 2(1) x(2) so vw
        by (intro disjI2 exI [of _ "map (segs v) as"] exI [of _ s] exI [of _ "map (segs v) bs"] exI [of _ a] exI [of _ v'] exI [of _ k'])
          (auto simp: view_def lo_def word_le_nat_alt)
    qed
  qed
qed


lemma carve_ok:
  assumes o: "segs_ok q a0 (A @ s # B)" and s: "\<not> seg_allocated s" "lo s \<le> unat a" "unat a + unat sz \<le> hi s"
    and q: "q dvd unat a" "q dvd unat sz" and sz: "sz \<noteq> 0"
  shows "segs_ok q a0 (A @ carve a sz s @ B)"
    "allocated_in (A @ carve a sz s @ B) = allocated_in (A @ s # B) \<union> {unat a..<unat a + unat sz}"
    "free_in (A @ carve a sz s @ B) = free_in (A @ s # B) - {unat a..<unat a + unat sz}"
proof -
  have p: "q dvd lo s" "q dvd hi s" "lo s < hi s" "hi s \<le> 2 ^ 64" using segs_ok_mid [OF o] by auto
  have b: "seg_base s \<le> a" using s(2) by (simp add: lo_def word_le_nat_alt)
  have ua: "unat (a - seg_base s) = unat a - lo s" unfolding lo_def by (rule unat_sub [OF b])
  have us: "unat (seg_size s - (a - seg_base s)) = hi s - unat a"
    using s(2,3) ua by (subst unat_sub) (auto simp: word_le_nat_alt hi_def lo_def)
  have ur: "unat (seg_size s - (a - seg_base s) - sz) = hi s - unat a - unat sz"
    using s(3) us by (subst unat_sub) (auto simp: word_le_nat_alt)
  have z: "0 < unat sz" using sz by (simp add: unat_gt_0)
  have e: "seg_size s - (a - seg_base s) = sz \<longleftrightarrow> unat a + unat sz = hi s"
    using us s(3) by (auto simp: word_unat_eq_iff)
  have nw: "unat (a + sz) = unat a + unat sz" if "unat a + unat sz \<noteq> hi s"
    using that s(3) p(4) by (intro unat_add_no_wrap) simp
  have l: "seg_base s = a \<longleftrightarrow> lo s = unat a" by (simp add: lo_def word_unat_eq_iff)
  have d: "q dvd unat a + unat sz" using q by simp
  show ok: "segs_ok q a0 (A @ carve a sz s @ B)"
    using o p s(2,3) q d z ua ur l e nw b
    by (auto simp: segs_ok_append carve_def lefts_def rights_def lo_def hi_def)
  have sp: "(\<Union>t\<in>set (lefts False a s). span t) = {lo s..<unat a}"
    using s(2) ua l by (auto simp: lefts_def span_def lo_def hi_def)
  let ?t = "\<lparr>seg_allocated = False, seg_base = a, seg_size = seg_size s - (a - seg_base s)\<rparr>"
  have sr: "(\<Union>t\<in>set (rights sz ?t). span t) = {unat a + unat sz..<hi s}"
    using s(3) ur e nw by (auto simp: rights_def span_def lo_def hi_def)
  have al: "allocated_in (lefts False a s) = {}" "allocated_in (rights sz ?t) = {}"
    "free_in (lefts False a s) = {lo s..<unat a}" "free_in (rights sz ?t) = {unat a + unat sz..<hi s}"
    using sp sr by (auto simp: allocated_in_def free_in_def lefts_def rights_def split: if_splits)
  have c: "allocated_in (carve a sz s) = {unat a..<unat a + unat sz}"
    "free_in (carve a sz s) = {lo s..<unat a} \<union> {unat a + unat sz..<hi s}"
    by (auto simp: carve_def al span_def lo_def hi_def)
  show "allocated_in (A @ carve a sz s @ B) = allocated_in (A @ s # B) \<union> {unat a..<unat a + unat sz}" using s(1) c by auto
  have "span s \<inter> span t = {}" if t: "t \<in> set A \<union> set B" for t
  proof -
    have "segs_ok q a0 A" "segs_ok q (hi s) B" "end_of a0 A \<le> lo s" using o by (auto simp: segs_ok_append)
    then show ?thesis using segs_ok_span [of q a0 A t] segs_ok_span [of q "hi s" B t] t by (fastforce simp: span_def)
  qed
  then have "span s \<inter> free_in A = {}" "span s \<inter> free_in B = {}" by (auto simp: free_in_def)
  moreover have "{unat a..<unat a + unat sz} \<subseteq> span s" using s(2,3) by (auto simp: span_def)
  moreover have "{lo s..<unat a} \<union> {unat a + unat sz..<hi s} = span s - {unat a..<unat a + unat sz}" using s(2,3) by (auto simp: span_def)
  ultimately show "free_in (A @ carve a sz s @ B) = free_in (A @ s # B) - {unat a..<unat a + unat sz}" using s(1) c by auto
qed

section \<open>Free\<close>

lemma free_left_rep:
  assumes ok: "vm_ok h M (as @ x # bs) {x} (v, k)" and s: "segs v x = s" "seg_allocated s" "seg_base s \<le> cur"
  shows "free_left h cur x (v, k) = Inl Panicked \<or>
    (\<exists>as' v' k'. free_left h cur x (v, k) = Inr (v', k') \<and> vm_ok h M (as' @ x # bs) {x} (v', k') \<and>
      segs v' x = s\<lparr>seg_base := cur, seg_size := seg_size s - (cur - seg_base s)\<rparr> \<and> vm_quantum v' = vm_quantum v \<and>
      map (segs v') as' = map (segs v) as @ lefts True cur s \<and> map (segs v') bs = map (segs v) bs)"
proof (cases "seg_base s = cur")
  case True
  then have "free_left h cur x (v, k) = Inr (v, k)" "lefts True cur s = []" using s by (simp_all add: free_left_def lefts_def)
  then show ?thesis using ok s True by auto
next
  case False
  then have lt: "seg_base s < cur" using s(3) by simp
  let ?l = "\<lparr>seg_allocated = True, seg_base = seg_base s, seg_size = cur - seg_base s\<rparr>"
  let ?s = "s\<lparr>seg_base := cur, seg_size := seg_size s - (cur - seg_base s)\<rparr>"
  from new_segment_rep [of h M as "x # bs", OF ok, of ?l] show ?thesis
  proof (elim disjE exE conjE, goal_cases)
    case 1
    then show ?case using lt s by (simp add: free_left_def Let_def)
  next
    case n: (2 y v1 k1)
    have x: "x \<notin> set as" "x \<notin> set bs" "x \<noteq> y" using ok n(2) by (auto simp: vm_ok_def cont_ok_def)
    let ?v1 = "set_seg x ?s (v1\<lparr>segments_list := as @ y # x # bs\<rparr>)"
    have o: "vm_ok h M (as @ y # x # bs) {y, x} (?v1, k1)" using vm_ok_set_seg [OF n(4)] by simp
    have p: "prepend_segment x y (set_seg x ?s v1) = Inr ?v1"
      using n(5) x(1) by (simp add: prepend_segment_def before_split set_seg_def)
    have "cont_ok (insert_tree y ?v1) ({y, x} - {y}) \<and> same_geom ?v1 (insert_tree y ?v1)"
      using o n(6) x(3) by (intro insert_tree_ok) (auto simp: vm_ok_def set_seg_def)
    moreover have "{y, x} - {y} = {x}" using x(3) by auto
    ultimately have "vm_ok h M ((as @ [y]) @ x # bs) {x} (insert_tree y ?v1, k1)" using vm_ok_same [OF o] by simp
    moreover have "free_left h cur x (v, k) = Inr (insert_tree y ?v1, k1)"
      using lt s n(1) p by (simp add: free_left_def Let_def)
    ultimately show ?case using n(2,6,7) x False
      by (intro disjI2 exI [of _ "as @ [y]"] exI [of _ "insert_tree y ?v1"] exI [of _ k1])
        (auto simp: set_seg_def lefts_def insert_tree_def)
  qed
qed

lemma free_right_rep:
  assumes ok: "vm_ok h M (as @ x # bs) {x} (v, k)" and s: "segs v x = s" "seg_allocated s"
  shows "free_right h seg_end end_addr x (v, k) = Inl Panicked \<or>
    (\<exists>bs' v' k'. free_right h seg_end end_addr x (v, k) = Inr (v', k') \<and> vm_ok h M (as @ x # bs') {x} (v', k') \<and>
      segs v' x = (if seg_end > end_addr then s\<lparr>seg_size := end_addr - seg_base s\<rparr> else s) \<and> vm_quantum v' = vm_quantum v \<and>
      map (segs v') as = map (segs v) as \<and> map (segs v') bs' =
        (if seg_end > end_addr then [\<lparr>seg_allocated = True, seg_base = end_addr, seg_size = seg_end - end_addr\<rparr>] else []) @ map (segs v) bs)"
proof (cases "seg_end > end_addr")
  case False
  then have "free_right h seg_end end_addr x (v, k) = Inr (v, k)" by (simp add: free_right_def)
  then show ?thesis using ok s False by auto
next
  case True
  let ?l = "\<lparr>seg_allocated = True, seg_base = end_addr, seg_size = seg_end - end_addr\<rparr>"
  let ?s = "s\<lparr>seg_size := end_addr - seg_base s\<rparr>"
  have "vm_ok h M ((as @ [x]) @ bs) {x} (v, k)" using ok by simp
  from new_segment_rep [OF this, of ?l] show ?thesis
  proof (elim disjE exE conjE, goal_cases)
    case 1
    then show ?case using True s by (simp add: free_right_def Let_def)
  next
    case n: (2 y v1 k1)
    have x: "x \<notin> set as" "x \<notin> set bs" "x \<noteq> y" using ok n(2) by (auto simp: vm_ok_def cont_ok_def)
    let ?v1 = "set_seg x ?s (v1\<lparr>segments_list := as @ x # y # bs\<rparr>)"
    have o: "vm_ok h M (as @ x # y # bs) {y, x} (?v1, k1)" using vm_ok_set_seg [OF n(4)] by simp
    have p: "append_segment x y (set_seg x ?s v1) = Inr ?v1"
      using n(5) x(1) by (simp add: append_segment_def after_split set_seg_def)
    have "cont_ok (insert_tree y ?v1) ({y, x} - {y}) \<and> same_geom ?v1 (insert_tree y ?v1)"
      using o n(6) x(3) by (intro insert_tree_ok) (auto simp: vm_ok_def set_seg_def)
    moreover have "{y, x} - {y} = {x}" using x(3) by auto
    ultimately have "vm_ok h M (as @ x # y # bs) {x} (insert_tree y ?v1, k1)" using vm_ok_same [OF o] by simp
    moreover have "free_right h seg_end end_addr x (v, k) = Inr (insert_tree y ?v1, k1)"
      using True s n(1) p by (simp add: free_right_def Let_def)
    ultimately show ?case using n(2,6,7) x True
      by (intro disjI2 exI [of _ "y # bs"] exI [of _ "insert_tree y ?v1"] exI [of _ k1])
        (auto simp: set_seg_def insert_tree_def)
  qed
qed


text \<open>Joining a segment with a free neighbour on the left or on the right.\<close>

definition merge_l :: "vmem_segment list \<Rightarrow> vmem_segment \<Rightarrow> vmem_segment list \<times> vmem_segment" where
  "merge_l A s = (if A \<noteq> [] \<and> \<not> seg_allocated (last A) \<and> seg_base (last A) + seg_size (last A) = seg_base s
     then (butlast A, s\<lparr>seg_base := seg_base (last A), seg_size := seg_size s + seg_size (last A)\<rparr>) else (A, s))"

definition merge_r :: "vmem_segment \<Rightarrow> vmem_segment list \<Rightarrow> vmem_segment \<times> vmem_segment list" where
  "merge_r s B = (if B \<noteq> [] \<and> \<not> seg_allocated (hd B) \<and> seg_base s + seg_size s = seg_base (hd B)
     then (s\<lparr>seg_size := seg_size s + seg_size (hd B)\<rparr>, tl B) else (s, B))"

lemma drop_neighbour:
  assumes ok: "vm_ok h M (as @ p # bs) {x} (v, k)" and p: "p \<noteq> x" "\<not> seg_allocated (segs v p)" and x: "x \<in> set (as @ bs)"
  shows "\<exists>v1 v2 v3 k3. vmem_flist_del p (log2ull (seg_size (segs v p))) v = Inr v1 \<and> delete_segment p v1 = Inr v2 \<and>
    segs v2 = segs v \<and> drop_segment h p (set_seg x s v2, k) = Inr (v3, k3) \<and> vm_ok h M (as @ bs) {x} (v3, k3) \<and>
    segs v3 = (segs v)(x := s) \<and> vm_quantum v3 = vm_quantum v"
proof -
  have c: "cont_ok v {x}" "segments_list v = as @ p # bs" "sp_pool h M 64 8 (segment_allocator v, k) (set (as @ p # bs))"
    using ok by (auto simp: vm_ok_def)
  have d: "p \<notin> set as" "p \<notin> set bs" "distinct (as @ bs)" "0 \<notin> set (as @ bs)" using c(1,2) by (auto simp: cont_ok_def)
  have l: "p \<in> set (freelists v (log2ull (seg_size (segs v p))))"
    using c(1,2) p log2ull_less by (auto simp: cont_ok_def flists_ok_def)
  obtain v1 where v1: "vmem_flist_del p (log2ull (seg_size (segs v p))) v = Inr v1" "cont_ok v1 {p, x}" "same_geom v v1"
    using flist_del_ok [OF c(1) l log2ull_less] by blast
  let ?v2 = "v1\<lparr>segments_list := as @ bs\<rparr>"
  have g: "segs v1 = segs v" "segments_list v1 = as @ p # bs" "segment_allocator v1 = segment_allocator v" "vm_quantum v1 = vm_quantum v"
    using v1(3) c(2) by (simp_all add: same_geom_def)
  have v2: "delete_segment p v1 = Inr ?v2" using g(2) d(1) by (simp add: delete_segment_def remove1_append)
  have c2: "cont_ok ?v2 {x}" using cont_list [OF v1(2) d(3,4)] d g(2) by auto
  obtain al k3 where f: "spalloc_free h p (segment_allocator v, k) = Inr (al, k3)" "sp_pool h M 64 8 (al, k3) (set (as @ p # bs) - {p})"
    using spalloc.release_live [OF c(3), of p] by auto
  let ?v3 = "(set_seg x s ?v2)\<lparr>segment_allocator := al\<rparr>"
  have c3: "cont_ok (set_seg x s ?v2) {x}" by (rule set_seg_ok [OF c2]) simp
  then have "cont_ok ?v3 {x}" by (simp add: cont_ok_def tree_ok_def flists_ok_def vmem_segment_get_value_def [abs_def])
  moreover have "set (as @ p # bs) - {p} = set (as @ bs)" using d by auto
  ultimately have "vm_ok h M (as @ bs) {x} (?v3, k3)" using f(2) by (simp add: vm_ok_def set_seg_def)
  moreover have "drop_segment h p (set_seg x s ?v2, k) = Inr (?v3, k3)"
    using f(1) g(3) by (simp add: drop_segment_def set_seg_def)
  ultimately show ?thesis using v1(1) v2 g by (intro exI [of _ v1] exI [of _ ?v2] exI [of _ ?v3] exI [of _ k3]) (auto simp: set_seg_def)
qed

lemma coalesce_left_rep:
  assumes ok: "vm_ok h M (as @ x # bs) {x} (v, k)"
  shows "\<exists>as' v' k'. coalesce_left h x (v, k) = Inr (v', k') \<and> vm_ok h M (as' @ x # bs) {x} (v', k') \<and>
      (map (segs v') as', segs v' x) = merge_l (map (segs v) as) (segs v x) \<and>
      map (segs v') bs = map (segs v) bs \<and> vm_quantum v' = vm_quantum v"
proof -
  define s where "s = segs v x"
  have x: "x \<notin> set as" "x \<notin> set bs" "0 \<notin> set (as @ x # bs)" "segments_list v = as @ x # bs"
    using ok by (auto simp: vm_ok_def cont_ok_def)
  have p: "prev_in x (segments_list v) = last_or as 0" using x by (simp add: prev_in_def takeWhile_split)
  show ?thesis
  proof (cases "as \<noteq> [] \<and> \<not> seg_allocated (segs v (last as)) \<and> seg_base (segs v (last as)) + seg_size (segs v (last as)) = seg_base s")
    case False
    have "last_or as 0 \<noteq> 0 \<longleftrightarrow> as \<noteq> []" using x(3) last_or_in [of as 0] by (cases "as = []") auto
    then have "coalesce_left h x (v, k) = Inr (v, k)"
      using False by (auto simp: coalesce_left_def Let_def p last_or_def s_def)
    then show ?thesis using ok False by (intro exI [of _ as] exI [of _ v] exI [of _ k]) (auto simp: merge_l_def last_map s_def)
  next
    case True
    then obtain as0 p where as: "as = as0 @ [p]" by (metis append_butlast_last_id)
    let ?s = "s\<lparr>seg_base := seg_base (segs v p), seg_size := seg_size s + seg_size (segs v p)\<rparr>"
    have q: "p \<noteq> x" "p \<notin> set as0" "p \<notin> set bs" "p \<noteq> 0" using x ok as by (auto simp: vm_ok_def cont_ok_def)
    have ok': "vm_ok h M (as0 @ p # x # bs) {x} (v, k)" using ok as by simp
    obtain v1 v2 v3 k3 where d: "vmem_flist_del p (log2ull (seg_size (segs v p))) v = Inr v1" "delete_segment p v1 = Inr v2"
      "drop_segment h p (set_seg x ?s v2, k) = Inr (v3, k3)" "vm_ok h M (as0 @ x # bs) {x} (v3, k3)"
      "segs v3 = (segs v)(x := ?s)" "vm_quantum v3 = vm_quantum v"
      using drop_neighbour [OF ok' q(1), of ?s] True as by auto
    have "coalesce_left h x (v, k) = Inr (v3, k3)"
      using True as q(4) d(1-3) by (simp add: coalesce_left_def Let_def p s_def [symmetric])
    then show ?thesis using d x True as
      by (intro exI [of _ as0] exI [of _ v3] exI [of _ k3]) (auto simp: merge_l_def last_map s_def)
  qed
qed

lemma coalesce_right_rep:
  assumes ok: "vm_ok h M (as @ x # bs) {x} (v, k)"
  shows "\<exists>bs' v' k'. coalesce_right h x (v, k) = Inr (v', k') \<and> vm_ok h M (as @ x # bs') {x} (v', k') \<and>
      (segs v' x, map (segs v') bs') = merge_r (segs v x) (map (segs v) bs) \<and>
      map (segs v') as = map (segs v) as \<and> vm_quantum v' = vm_quantum v"
proof -
  define s where "s = segs v x"
  have x: "x \<notin> set as" "x \<notin> set bs" "0 \<notin> set (as @ x # bs)" "segments_list v = as @ x # bs"
    using ok by (auto simp: vm_ok_def cont_ok_def)
  have p: "next_in x (segments_list v) = hd_or bs 0" using x by (simp add: next_in_def dropWhile_split)
  show ?thesis
  proof (cases "bs \<noteq> [] \<and> \<not> seg_allocated (segs v (hd bs)) \<and> seg_base s + seg_size s = seg_base (segs v (hd bs))")
    case False
    have "hd_or bs 0 \<noteq> 0 \<longleftrightarrow> bs \<noteq> []" using x(3) by (cases bs) auto
    then have "coalesce_right h x (v, k) = Inr (v, k)"
      using False by (cases bs) (auto simp: coalesce_right_def Let_def p s_def)
    then show ?thesis using ok False by (intro exI [of _ bs] exI [of _ v] exI [of _ k]) (auto simp: merge_r_def hd_map s_def)
  next
    case True
    then obtain bs0 p where bs: "bs = p # bs0" by (cases bs) auto
    let ?s = "s\<lparr>seg_size := seg_size s + seg_size (segs v p)\<rparr>"
    have q: "p \<noteq> x" "p \<notin> set bs0" "p \<notin> set as" "p \<noteq> 0" using x ok bs by (auto simp: vm_ok_def cont_ok_def)
    have ok': "vm_ok h M ((as @ [x]) @ p # bs0) {x} (v, k)" using ok bs by simp
    obtain v1 v2 v3 k3 where d: "vmem_flist_del p (log2ull (seg_size (segs v p))) v = Inr v1" "delete_segment p v1 = Inr v2"
      "drop_segment h p (set_seg x ?s v2, k) = Inr (v3, k3)" "vm_ok h M (as @ x # bs0) {x} (v3, k3)"
      "segs v3 = (segs v)(x := ?s)" "vm_quantum v3 = vm_quantum v"
      using drop_neighbour [OF ok' q(1), of ?s] True bs by auto
    have "coalesce_right h x (v, k) = Inr (v3, k3)"
      using True bs q(4) d(1-3) by (simp add: coalesce_right_def Let_def p s_def [symmetric])
    then show ?thesis using d x True bs
      by (intro exI [of _ bs0] exI [of _ v3] exI [of _ k3]) (auto simp: merge_r_def s_def)
  qed
qed


lemma merge_l_ok:
  assumes o: "segs_ok q a (A @ t # B)" and t: "\<not> seg_allocated t" and m: "merge_l A t = (A', t')" and a: "0 < a"
  shows "segs_ok q a (A' @ t' # B)" "allocated_in (A' @ t' # B) = allocated_in (A @ t # B)"
    "free_in (A' @ t' # B) = free_in (A @ t # B)" "\<not> seg_allocated t'" "hi t' = hi t" "lo t' \<le> lo t"
proof -
  have "segs_ok q a (A' @ t' # B) \<and> allocated_in (A' @ t' # B) = allocated_in (A @ t # B) \<and>
    free_in (A' @ t' # B) = free_in (A @ t # B) \<and> \<not> seg_allocated t' \<and> hi t' = hi t \<and> lo t' \<le> lo t"
  proof (cases "A \<noteq> [] \<and> \<not> seg_allocated (last A) \<and> seg_base (last A) + seg_size (last A) = seg_base t")
    case False
    then show ?thesis using m o t by (auto simp: merge_l_def)
  next
    case True
    then obtain C p where A: "A = C @ [p]" by (metis append_butlast_last_id)
    have e: "A' = C" "t' = t\<lparr>seg_base := seg_base p, seg_size := seg_size t + seg_size p\<rparr>" "\<not> seg_allocated p"
      "seg_base p + seg_size p = seg_base t" using m True A by (auto simp: merge_l_def)
    have p: "hi p \<le> lo t" "lo p < hi p" "lo t < hi t" "hi t \<le> 2 ^ 64" "a \<le> lo p" "q dvd lo p" "q dvd hi t" "segs_ok q a C"
        "segs_ok q (hi t) B" "end_of a C \<le> lo p"
      using o A segs_ok_le [of q "hi t" B] segs_ok_le [of q a C] by (auto simp: segs_ok_append)
    have "unat (seg_base p + seg_size p) = hi p"
      unfolding hi_def using p(1) unat_lt64 [of "seg_base t"] by (intro unat_add_no_wrap) (simp add: hi_def lo_def)
    then have l: "hi p = lo t" using e(4) by (simp add: lo_def)
    have "unat (seg_size t + seg_size p) = unat (seg_size t) + unat (seg_size p)"
      using p a l by (intro unat_add_no_wrap) (simp add: hi_def lo_def)
    then have h: "hi t' = hi t" "lo t' = lo p" using e(2) l by (auto simp: hi_def lo_def)
    have "span t' = span p \<union> span t" using h l p by (auto simp: span_def)
    then show ?thesis using e A t h p by (auto simp: segs_ok_append)
  qed
  then show "segs_ok q a (A' @ t' # B)" "allocated_in (A' @ t' # B) = allocated_in (A @ t # B)"
    "free_in (A' @ t' # B) = free_in (A @ t # B)" "\<not> seg_allocated t'" "hi t' = hi t" "lo t' \<le> lo t" by auto
qed

lemma merge_r_ok:
  assumes o: "segs_ok q a (A @ t # B)" and t: "\<not> seg_allocated t" and m: "merge_r t B = (t', B')" and a: "0 < a"
  shows "segs_ok q a (A @ t' # B')" "allocated_in (A @ t' # B') = allocated_in (A @ t # B)"
    "free_in (A @ t' # B') = free_in (A @ t # B)" "\<not> seg_allocated t'"
proof -
  have "segs_ok q a (A @ t' # B') \<and> allocated_in (A @ t' # B') = allocated_in (A @ t # B) \<and>
    free_in (A @ t' # B') = free_in (A @ t # B) \<and> \<not> seg_allocated t'"
  proof (cases "B \<noteq> [] \<and> \<not> seg_allocated (hd B) \<and> seg_base t + seg_size t = seg_base (hd B)")
    case False
    then show ?thesis using m o t by (auto simp: merge_r_def)
  next
    case True
    then obtain C p where B: "B = p # C" by (cases B) auto
    have e: "B' = C" "t' = t\<lparr>seg_size := seg_size t + seg_size p\<rparr>" "\<not> seg_allocated p"
      "seg_base t + seg_size t = seg_base p" using m True B by (auto simp: merge_r_def)
    have p: "hi t \<le> lo p" "lo p < hi p" "lo t < hi t" "hi p \<le> 2 ^ 64" "a \<le> lo t" "q dvd lo t" "q dvd hi p"
        "segs_ok q (hi p) C" "end_of a A \<le> lo t" "segs_ok q a A"
      using o B segs_ok_le [of q "hi p" C] segs_ok_le [of q a A] by (auto simp: segs_ok_append)
    have "unat (seg_base t + seg_size t) = hi t"
      unfolding hi_def using p(1) unat_lt64 [of "seg_base p"] by (intro unat_add_no_wrap) (simp add: hi_def lo_def)
    then have l: "hi t = lo p" using e(4) by (simp add: lo_def)
    have "unat (seg_size t + seg_size p) = unat (seg_size t) + unat (seg_size p)"
      using p a l by (intro unat_add_no_wrap) (simp add: hi_def lo_def)
    then have h: "hi t' = hi p" "lo t' = lo t" using e(2) l by (auto simp: hi_def lo_def)
    have "span t' = span t \<union> span p" using h l p by (auto simp: span_def)
    then show ?thesis using e B t h p by (auto simp: segs_ok_append)
  qed
  then show "segs_ok q a (A @ t' # B')" "allocated_in (A @ t' # B') = allocated_in (A @ t # B)"
    "free_in (A @ t' # B') = free_in (A @ t # B)" "\<not> seg_allocated t'" by auto
qed


text \<open>What is left of an allocated segment when the addresses from \<open>cur\<close> up to \<open>end_addr\<close> are cut out of it.\<close>

definition cut :: "u64 \<Rightarrow> u64 \<Rightarrow> vmem_segment \<Rightarrow> vmem_segment" where
  "cut cur end_addr s = \<lparr>seg_allocated = False, seg_base = cur, seg_size =
     (if seg_base s + seg_size s > end_addr then end_addr - cur else seg_size s - (cur - seg_base s))\<rparr>"

definition tail :: "u64 \<Rightarrow> vmem_segment \<Rightarrow> vmem_segment list" where
  "tail end_addr s = (if seg_base s + seg_size s > end_addr
     then [\<lparr>seg_allocated = True, seg_base = end_addr, seg_size = seg_base s + seg_size s - end_addr\<rparr>] else [])"

lemma cut_ok:
  assumes o: "segs_ok q a (A @ s # B)" and s: "seg_allocated s" "lo s \<le> unat cur" "unat cur < hi s" "hi s < 2 ^ 64"
    and e: "cur < end_addr" and q: "q dvd unat cur" "q dvd unat end_addr"
  defines "C \<equiv> A @ lefts True cur s @ cut cur end_addr s # tail end_addr s @ B" and "f \<equiv> min (hi s) (unat end_addr)"
  shows "segs_ok q a C" "allocated_in C = allocated_in (A @ s # B) - {unat cur..<f}"
    "free_in C = free_in (A @ s # B) \<union> {unat cur..<f}" "hi (cut cur end_addr s) = f" "unat cur < f"
    "unat (if seg_base s + seg_size s < end_addr then seg_base s + seg_size s else end_addr) = f"
proof -
  have p: "q dvd lo s" "q dvd hi s" "lo s < hi s" using segs_ok_mid [OF o] by auto
  have b: "seg_base s \<le> cur" using s(2) by (simp add: lo_def word_le_nat_alt)
  have ub: "unat (cur - seg_base s) = unat cur - lo s" unfolding lo_def by (rule unat_sub [OF b])
  have ue: "unat (seg_base s + seg_size s) = hi s"
    unfolding hi_def using s(4) by (intro unat_add_no_wrap) (simp add: hi_def)
  have lt: "seg_base s + seg_size s > end_addr \<longleftrightarrow> unat end_addr < hi s" "seg_base s + seg_size s < end_addr \<longleftrightarrow> hi s < unat end_addr"
    using ue by (simp_all add: word_less_nat_alt)
  have ce: "unat cur < unat end_addr" using e by (simp add: word_less_nat_alt)
  have us: "unat (seg_size s - (cur - seg_base s)) = hi s - unat cur"
    using s(2,3) ub by (subst unat_sub) (auto simp: word_le_nat_alt hi_def lo_def)
  have uc: "unat (end_addr - cur) = unat end_addr - unat cur" using e by (intro unat_sub) simp
  have ut: "unat (seg_base s + seg_size s - end_addr) = hi s - unat end_addr" if "unat end_addr < hi s"
    using that ue by (subst unat_sub) (auto simp: word_le_nat_alt)
  show f: "unat cur < f" using ce s(3) by (simp add: f_def)
  show "unat (if seg_base s + seg_size s < end_addr then seg_base s + seg_size s else end_addr) = f"
    using lt ue by (auto simp: f_def)
  have hc: "hi (cut cur end_addr s) = f" "lo (cut cur end_addr s) = unat cur" "\<not> seg_allocated (cut cur end_addr s)"
    using lt us uc ce s(3) by (auto simp: cut_def hi_def [of "\<lparr>seg_allocated = _, seg_base = _, seg_size = _\<rparr>"] lo_def f_def)
  then show "hi (cut cur end_addr s) = f" by simp
  have l: "seg_base s = cur \<longleftrightarrow> lo s = unat cur" by (simp add: lo_def word_unat_eq_iff)
  have sl: "allocated_in (lefts True cur s) = {lo s..<unat cur}" "free_in (lefts True cur s) = {}"
    using s(2) ub l by (auto simp: lefts_def span_def lo_def hi_def)
  have sr: "allocated_in (tail end_addr s) = {f..<hi s}" "free_in (tail end_addr s) = {}"
    using lt ut by (auto simp: tail_def span_def lo_def hi_def [of "\<lparr>seg_allocated = _, seg_base = _, seg_size = _\<rparr>"] f_def)
  have sc: "span (cut cur end_addr s) = {unat cur..<f}" using hc by (simp add: span_def)
  have q': "q dvd f" using p q by (simp add: f_def min_def)
  have okl: "segs_ok q (lo s) (lefts True cur s)" "end_of (lo s) (lefts True cur s) = unat cur"
    using s p q ub l by (auto simp: lefts_def lo_def hi_def)
  have okr: "segs_ok q f (tail end_addr s @ B)"
    using o lt ut p q ue f s(4) by (auto simp: tail_def segs_ok_append f_def lo_def hi_def [of "\<lparr>seg_allocated = _, seg_base = _, seg_size = _\<rparr>"] min_def)
  have oA: "segs_ok q a A" "end_of a A \<le> lo s" using o by (auto simp: segs_ok_append)
  have "segs_ok q (end_of a A) (lefts True cur s @ cut cur end_addr s # tail end_addr s @ B)"
    by (rule segs_ok_mono [OF _ oA(2)]) (use okl okr hc f q q' in \<open>auto simp: segs_ok_append\<close>)
  then show "segs_ok q a C" using oA(1) by (simp add: C_def segs_ok_append)
  have dis: "span s \<inter> span t = {}" if t: "t \<in> set A \<union> set B" for t
    using segs_ok_span [of q a A t] segs_ok_span [of q "hi s" B t] t oA o by (fastforce simp: segs_ok_append span_def)
  have "span s \<inter> allocated_in A = {}" "span s \<inter> allocated_in B = {}" using dis by (auto simp: allocated_in_def)
  moreover have "{unat cur..<f} \<subseteq> span s" "span s = {lo s..<unat cur} \<union> {unat cur..<f} \<union> {f..<hi s}"
    using s(2,3) f by (auto simp: span_def f_def)
  ultimately show "allocated_in C = allocated_in (A @ s # B) - {unat cur..<f}"
    using s(1) sl sr sc hc(3) by (auto simp: C_def)
  show "free_in C = free_in (A @ s # B) \<union> {unat cur..<f}" using s(1) sl sr sc hc(3) by (auto simp: C_def)
qed


lemma free_segment_rep:
  assumes ok: "vm_ok h M (as @ x # bs) {} (v, k)" and o: "segs_ok q a (view v)" and a: "0 < a"
    and s: "segs v x = s" "seg_allocated s" "lo s \<le> unat cur" "unat cur < hi s" "hi s < 2 ^ 64"
    and e: "cur < end_addr" and q: "q dvd unat cur" "q dvd unat end_addr"
  shows "free_segment h cur end_addr x (v, k) = Inl Panicked \<or>
    (\<exists>cur' v' k'. free_segment h cur end_addr x (v, k) = Inr (cur', v', k') \<and> vm_ok h M (segments_list v') {} (v', k') \<and>
      unat cur' = min (hi s) (unat end_addr) \<and> vm_quantum v' = vm_quantum v \<and> segs_ok q a (view v') \<and>
      allocated_in (view v') = allocated_in (view v) - {unat cur..<unat cur'} \<and>
      free_in (view v') = free_in (view v) \<union> {unat cur..<unat cur'})"
proof -
  define seg_end where "seg_end = seg_base s + seg_size s"
  let ?A = "map (segs v) as" and ?B = "map (segs v) bs"
  have vw: "view v = ?A @ s # ?B" using ok s(1) by (simp add: vm_ok_def view_def)
  note c = cut_ok [OF o [unfolded vw] s(2-5) e q, folded vw]
  have b: "seg_base s \<le> cur" using s(3) by (simp add: lo_def word_le_nat_alt)
  have "cont_ok (remove_tree x v) {x} \<and> same_geom v (remove_tree x v)"
    using remove_tree_ok [of v "{}" x] ok s by (auto simp: vm_ok_def)
  then have o1: "vm_ok h M (as @ x # bs) {x} (remove_tree x v, k)" using vm_ok_same [OF ok] by blast
  have g1: "segs (remove_tree x v) = segs v" "vm_quantum (remove_tree x v) = vm_quantum v" by (simp_all add: remove_tree_def)
  from free_left_rep [OF o1 _ s(2) b] s(1) g1 consider "free_left h cur x (remove_tree x v, k) = Inl Panicked" |
    as' v2 k2 where "free_left h cur x (remove_tree x v, k) = Inr (v2, k2)" "vm_ok h M (as' @ x # bs) {x} (v2, k2)"
      "segs v2 x = s\<lparr>seg_base := cur, seg_size := seg_size s - (cur - seg_base s)\<rparr>" "vm_quantum v2 = vm_quantum v"
      "map (segs v2) as' = ?A @ lefts True cur s" "map (segs v2) bs = ?B" by auto
  then show ?thesis
  proof cases
    case 1
    then show ?thesis using s(1) by (simp add: free_segment_def Let_def)
  next
    case l: 2
    have al: "seg_allocated (s\<lparr>seg_base := cur, seg_size := seg_size s - (cur - seg_base s)\<rparr>)" using s(2) by simp
    from free_right_rep [OF l(2,3) al, of seg_end end_addr] consider "free_right h seg_end end_addr x (v2, k2) = Inl Panicked" |
      bs' v3 k3 where "free_right h seg_end end_addr x (v2, k2) = Inr (v3, k3)" "vm_ok h M (as' @ x # bs') {x} (v3, k3)"
        "(segs v3 x)\<lparr>seg_allocated := False\<rparr> = cut cur end_addr s" "vm_quantum v3 = vm_quantum v"
        "map (segs v3) as' = ?A @ lefts True cur s" "map (segs v3) bs' = tail end_addr s @ ?B"
      by (auto simp: l(4-6) cut_def tail_def seg_end_def split: if_splits)
    then show ?thesis
    proof cases
      case 1
      then show ?thesis using s(1) l(1) by (simp add: free_segment_def Let_def seg_end_def)
    next
      case r: 2
      let ?v3 = "set_seg x (cut cur end_addr s) v3"
      have x: "x \<notin> set as'" "x \<notin> set bs'" using r(2) by (auto simp: vm_ok_def cont_ok_def)
      have o3: "vm_ok h M (as' @ x # bs') {x} (?v3, k3)" using vm_ok_set_seg [OF r(2)] by simp
      have g3: "map (segs ?v3) as' = ?A @ lefts True cur s" "map (segs ?v3) bs' = tail end_addr s @ ?B" "segs ?v3 x = cut cur end_addr s"
        using r(5,6) x by (auto simp: set_seg_def)
      obtain A4 t4 where m4: "merge_l (?A @ lefts True cur s) (cut cur end_addr s) = (A4, t4)" by fastforce
      obtain as4 v4 k4 where v4: "coalesce_left h x (?v3, k3) = Inr (v4, k4)" "vm_ok h M (as4 @ x # bs') {x} (v4, k4)"
        "map (segs v4) as4 = A4" "segs v4 x = t4" "map (segs v4) bs' = tail end_addr s @ ?B" "vm_quantum v4 = vm_quantum ?v3"
        using coalesce_left_rep [OF o3] by (auto simp: g3 m4)
      obtain t5 B5 where m5: "merge_r t4 (tail end_addr s @ ?B) = (t5, B5)" by fastforce
      obtain bs5 v5 k5 where v5: "coalesce_right h x (v4, k4) = Inr (v5, k5)" "vm_ok h M (as4 @ x # bs5) {x} (v5, k5)"
        "map (segs v5) bs5 = B5" "segs v5 x = t5" "map (segs v5) as4 = A4" "vm_quantum v5 = vm_quantum v4"
        using coalesce_right_rep [OF v4(2)] by (auto simp: v4(3-5) m5)
      have nc: "\<not> seg_allocated (cut cur end_addr s)" by (simp add: cut_def)
      note ml = merge_l_ok [OF _ nc m4 a, of q "tail end_addr s @ ?B"]
      have c1: "segs_ok q a ((?A @ lefts True cur s) @ cut cur end_addr s # tail end_addr s @ ?B)" using c(1) by simp
      note mr = merge_r_ok [OF ml(1) [OF c1] ml(4) [OF c1] m5 a]
      have "lo t5 < hi t5" using segs_ok_mid [OF mr(1)] by simp
      then have sz: "seg_size (segs v5 x) \<noteq> 0" using v5(4) by (auto simp: lo_def hi_def)
      obtain v6 where v6: "vmem_flist_add x (log2ull (seg_size (segs v5 x))) v5 = Inr v6" "cont_ok v6 ({x} - {x})" "same_geom v5 v6"
        using flist_add_ok [of v5 "{x}" x] v5(2,4) mr(4) by (auto simp: vm_ok_def)
      have o6: "vm_ok h M (as4 @ x # bs5) {} (v6, k5)" using vm_ok_same [OF v5(2) v6(2,3)] by simp
      have "segments_list v6 = as4 @ x # bs5" "segs v6 = segs v5" using o6 v6(3) by (simp_all add: vm_ok_def same_geom_def)
      then have vw6: "view v6 = A4 @ t5 # B5" using v5(3-5) by (simp add: view_def)
      let ?cur = "if seg_end < end_addr then seg_end else end_addr"
      have run: "free_segment h cur end_addr x (v, k) = Inr (?cur, v6, k5)"
        using s(1) l(1) r(1,3) v4(1) v5(1) v6(1) sz by (simp add: free_segment_def Let_def flip: seg_end_def)
      have uc: "unat ?cur = min (hi s) (unat end_addr)" unfolding seg_end_def by (rule c(6))
      have "allocated_in (view v6) = allocated_in (view v) - {unat cur..<unat ?cur}" "free_in (view v6) = free_in (view v) \<union> {unat cur..<unat ?cur}"
        unfolding vw6 mr(2,3) ml(2,3) [OF c1] append_assoc uc by (rule c(2), rule c(3))
      moreover have "vm_quantum v6 = vm_quantum v" using v6(3) v5(6) v4(6) r(4) by (simp add: same_geom_def set_seg_def)
      moreover have "vm_ok h M (segments_list v6) {} (v6, k5)" using o6 by (simp add: vm_ok_def)
      ultimately show ?thesis using run uc mr(1) vw6 by (intro disjI2 exI [of _ ?cur] exI [of _ v6] exI [of _ k5] conjI) simp_all
    qed
  qed
qed


lemma spans_disjoint:
  assumes "segs_ok q a (map f xs)" "distinct xs" "x \<in> set xs" "y \<in> set xs" "x \<noteq> y"
  shows "span (f x) \<inter> span (f y) = {}"
  using assms
proof (induction xs arbitrary: a)
  case (Cons z xs)
  then have ok: "segs_ok q (hi (f z)) (map f xs)" by simp
  have "span (f z) \<inter> span (f w) = {}" if "w \<in> set xs" for w
    using segs_ok_span [OF ok, of "f w"] that by (auto simp: span_def)
  then show ?case using Cons ok by auto
qed simp

lemma find_segment_rep:
  assumes ok: "vm_ok h M (segments_list v) {} (v, k)" and o: "segs_ok q a (view v)" and x_def: "x = vmem_find_segment_nolock v cur"
  shows "x \<noteq> 0 \<and> x \<in> set (segments_list v) \<and> seg_allocated (segs v x) \<and> lo (segs v x) \<le> unat cur \<and> unat cur < hi (segs v x) \<or>
    x = 0 \<and> unat cur \<notin> allocated_in (view v)"
proof -
  let ?b = "vmem_segment_get_value v"
  define y where "y = rb_search ?b cur RB_SEARCH_TYPE_NEAREST_LTE (segments_tree v)"
  have t: "rb_inv ?b (segments_tree v)" "set (ids (segments_tree v)) = {x \<in> set (segments_list v). seg_allocated (segs v x)}"
    and d: "distinct (segments_list v)" using ok by (auto simp: vm_ok_def cont_ok_def tree_ok_def)
  have fx: "x = (if y = 0 then 0 else if cur < seg_base (segs v y) \<or> cur - seg_base (segs v y) \<ge> seg_size (segs v y) then 0 else y)"
    unfolding x_def vmem_find_segment_nolock_def Let_def y_def ..
  have none: "unat cur \<notin> allocated_in (view v)" if y0: "y = 0 \<or> cur - seg_base (segs v y) \<ge> seg_size (segs v y)"
  proof
    assume "unat cur \<in> allocated_in (view v)"
    then obtain z where z: "z \<in> set (segments_list v)" "seg_allocated (segs v z)" "lo (segs v z) \<le> unat cur" "unat cur < hi (segs v z)"
      by (auto simp: allocated_in_def view_def span_def)
    have zb: "?b z \<le> cur" using z(3) by (simp add: vmem_segment_get_value_def lo_def word_le_nat_alt)
    have f: "y \<in> set (ids (segments_tree v))" "?b y \<le> cur" "?b z \<le> ?b y"
      using rb_index.floor_some [OF t(1) _ zb] z(1,2) t(2) by (auto simp: y_def)
    have y: "y \<noteq> 0" "y \<in> set (segments_list v)" using f(1) rb_index.nil_out [OF t(1)] t(2) by auto
    have lo: "lo (segs v z) \<le> lo (segs v y)" "lo (segs v y) \<le> unat cur"
      using f(2,3) by (simp_all add: vmem_segment_get_value_def lo_def word_le_nat_alt)
    have "unat (cur - seg_base (segs v y)) = unat cur - lo (segs v y)"
      unfolding lo_def using f(2) by (intro unat_sub) (simp add: vmem_segment_get_value_def)
    then have "hi (segs v y) \<le> unat cur" using y0 y(1) lo(2) by (auto simp: word_le_nat_alt hi_def lo_def)
    then have "y \<noteq> z" using z(4) by auto
    then have "span (segs v y) \<inter> span (segs v z) = {}"
      using spans_disjoint [OF o [unfolded view_def] d y(2) z(1)] by simp
    moreover have "lo (segs v y) \<in> span (segs v y)"
      using o y(2) segs_ok_mid split_list [of "segs v y" "view v"] by (fastforce simp: view_def span_def)
    ultimately show False using lo z(4) by (auto simp: span_def)
  qed
  show ?thesis
  proof (cases "y = 0 \<or> cur - seg_base (segs v y) \<ge> seg_size (segs v y)")
    case True
    then have "x = 0" unfolding fx by auto
    then show ?thesis using none [OF True] by simp
  next
    case False
    have f: "y \<in> set (ids (segments_tree v))" "?b y \<le> cur"
      using False rb_index.floor_in [OF t(1)] rb_index.floor_le [OF t(1)] by (auto simp: y_def)
    then have le: "seg_base (segs v y) \<le> cur" by (simp add: vmem_segment_get_value_def)
    have "unat (cur - seg_base (segs v y)) = unat cur - lo (segs v y)" unfolding lo_def by (rule unat_sub [OF le])
    then have "unat cur < hi (segs v y)" using False le by (auto simp: word_le_nat_alt hi_def lo_def)
    moreover have "x = y" using False le unfolding fx by auto
    ultimately show ?thesis using f(1) t(2) le False by (auto simp: lo_def word_le_nat_alt)
  qed
qed

lemma top_free: "s \<in> set (view v) \<Longrightarrow> seg_allocated s \<Longrightarrow> segs_ok q a (view v) \<Longrightarrow> 2 ^ 64 - 1 \<notin> allocated_in (view v) \<Longrightarrow> hi s < 2 ^ 64"
proof (rule ccontr)
  assume s: "s \<in> set (view v)" "seg_allocated s" "segs_ok q a (view v)" "2 ^ 64 - 1 \<notin> allocated_in (view v)" "\<not> hi s < 2 ^ 64"
  then have "lo s < hi s" "hi s \<le> 2 ^ 64" using segs_ok_mid split_list [OF s(1)] by metis+
  then have "2 ^ 64 - 1 \<in> span s" using s(5) by (auto simp: span_def)
  then show False using s by (auto simp: allocated_in_def)
qed

lemma vmem_free_loop_rep:
  assumes ok: "vm_ok h M (segments_list v) {} (v, k)" and o: "segs_ok q a (view v)" and a: "0 < a"
    and top: "2 ^ 64 - 1 \<notin> allocated_in (view v)" and q: "q dvd unat cur" "q dvd unat end_addr" and le: "cur \<le> end_addr"
  shows "\<exists>r. vmem_free_loop h end_addr cur (v, k) = Some r \<and> (r = Inl Panicked \<or>
    (\<exists>v' k' c. r = Inr (v', k') \<and> vm_ok h M (segments_list v') {} (v', k') \<and> vm_quantum v' = vm_quantum v \<and> segs_ok q a (view v') \<and>
      unat cur \<le> c \<and> c \<le> unat end_addr \<and> {unat cur..<c} \<subseteq> allocated_in (view v) \<and> (c = unat end_addr \<or> c \<notin> allocated_in (view v)) \<and>
      allocated_in (view v') = allocated_in (view v) - {unat cur..<c} \<and> free_in (view v') = free_in (view v) \<union> {unat cur..<c}))"
  using assms
proof (induction "unat end_addr - unat cur" arbitrary: v k cur rule: less_induct)
  case less
  note ok = less.prems(1) and o = less.prems(2) and top = less.prems(4)
  show ?case
  proof (cases "cur < end_addr")
    case False
    then have "cur = end_addr" using less.prems(7) by simp
    then show ?thesis using ok o by (subst vmem_free_loop.simps) auto
  next
    case True
    define x where "x = vmem_find_segment_nolock v cur"
    define s where "s = segs v x"
    from find_segment_rep [OF ok o x_def] consider "x = 0" "unat cur \<notin> allocated_in (view v)" |
      "x \<noteq> 0" "x \<in> set (segments_list v)" "seg_allocated s" "lo s \<le> unat cur" "unat cur < hi s"
      by (auto simp: x_def s_def)
    then show ?thesis
    proof cases
      case 1
      then have "vmem_free_loop h end_addr cur (v, k) = Some (Inr (v, k))"
        using True by (subst vmem_free_loop.simps) (simp add: Let_def x_def)
      then show ?thesis using ok o 1(2) True by (auto simp: word_le_nat_alt word_less_nat_alt intro!: exI [of _ "unat cur"])
    next
      case 2
      obtain as bs where ab: "segments_list v = as @ x # bs" using split_list [OF 2(2)] by blast
      have sv: "s \<in> set (view v)" using 2(2) by (simp add: view_def s_def)
      have h: "hi s < 2 ^ 64" by (rule top_free [OF sv 2(3) o top])
      have run: "vmem_free_loop h end_addr cur (v, k) = (case free_segment h cur end_addr x (v, k) of
          Inl e \<Rightarrow> Some (Inl e) | Inr (cur, st) \<Rightarrow> vmem_free_loop h end_addr cur st)"
        using True 2(1,3) by (subst vmem_free_loop.simps) (simp add: Let_def x_def s_def)
      from free_segment_rep [OF ok [unfolded ab] o less.prems(3) s_def [symmetric] 2(3-5) h True less.prems(5,6)]
      consider "free_segment h cur end_addr x (v, k) = Inl Panicked" |
        c v1 k1 where "free_segment h cur end_addr x (v, k) = Inr (c, v1, k1)" "vm_ok h M (segments_list v1) {} (v1, k1)"
          "unat c = min (hi s) (unat end_addr)" "vm_quantum v1 = vm_quantum v" "segs_ok q a (view v1)"
          "allocated_in (view v1) = allocated_in (view v) - {unat cur..<unat c}"
          "free_in (view v1) = free_in (view v) \<union> {unat cur..<unat c}" by blast
      then show ?thesis
      proof cases
        case 1
        then show ?thesis using run by auto
      next
        case n: 2
        have lt: "unat cur < unat c" "unat c \<le> unat end_addr" using n(3) 2(5) True by (auto simp: word_less_nat_alt)
        have dq: "q dvd unat c" using n(3) less.prems(6) segs_ok_mid [of q a "map (segs v) as" s "map (segs v) bs"] o ab
          by (auto simp: min_def view_def s_def)
        have sub: "{unat cur..<unat c} \<subseteq> allocated_in (view v)"
          using sv 2(3,4) n(3) by (force simp: allocated_in_def span_def)
        have tp: "2 ^ 64 - 1 \<notin> allocated_in (view v1)" using top n(6) by blast
        have "unat end_addr - unat c < unat end_addr - unat cur" using lt by simp
        from less.hyps [OF this n(2,5) less.prems(3) tp dq less.prems(6)] lt(2)
        obtain r where r: "vmem_free_loop h end_addr c (v1, k1) = Some r" "r = Inl Panicked \<or>
          (\<exists>v' k' e. r = Inr (v', k') \<and> vm_ok h M (segments_list v') {} (v', k') \<and> vm_quantum v' = vm_quantum v1 \<and> segs_ok q a (view v') \<and>
            unat c \<le> e \<and> e \<le> unat end_addr \<and> {unat c..<e} \<subseteq> allocated_in (view v1) \<and> (e = unat end_addr \<or> e \<notin> allocated_in (view v1)) \<and>
            allocated_in (view v') = allocated_in (view v1) - {unat c..<e} \<and> free_in (view v') = free_in (view v1) \<union> {unat c..<e})"
          by (auto simp: word_le_nat_alt)
        have un: "{unat cur..<e} = {unat cur..<unat c} \<union> {unat c..<e}" if "unat c \<le> e" for e using lt that by auto
        have "r = Inl Panicked \<or> (\<exists>v' k' e. r = Inr (v', k') \<and> vm_ok h M (segments_list v') {} (v', k') \<and> vm_quantum v' = vm_quantum v \<and> segs_ok q a (view v') \<and>
            unat cur \<le> e \<and> e \<le> unat end_addr \<and> {unat cur..<e} \<subseteq> allocated_in (view v) \<and> (e = unat end_addr \<or> e \<notin> allocated_in (view v)) \<and>
            allocated_in (view v') = allocated_in (view v) - {unat cur..<e} \<and> free_in (view v') = free_in (view v) \<union> {unat cur..<e})"
          using r(2)
        proof (elim disjE exE conjE, goal_cases)
          case (2 v' k' e)
          then show ?case using n(4,6,7) sub lt un [OF 2(5)]
            by (intro disjI2 exI [of _ v'] exI [of _ k'] exI [of _ e]) auto
        next
          case (3 v' k' e)
          then show ?case using n(4,6,7) sub lt un [OF 3(5)]
            by (intro disjI2 exI [of _ v'] exI [of _ k'] exI [of _ e]) auto
        qed simp
        then show ?thesis using run n(1) r(1) by simp
      qed
    qed
  qed
qed


section \<open>The allocator in use\<close>

lemma align_up_q_dvd: "unat q = 2 ^ m \<Longrightarrow> 2 ^ m dvd unat (align_up_q x q)"
  using quantum_mask [of q m] by (simp add: align_up_q_eq ALIGN_UP_DOWN unat_ALIGN_DOWN)

lemma vmem_alloc_aligned:
  "unat (vm_quantum (fst st)) = 2 ^ m \<Longrightarrow> vmem_alloc h sz addr st = vmem_alloc h (align_up_q sz (vm_quantum (fst st))) addr st"
  using align_up_q_aligned [OF _ align_up_q_dvd] by (cases st) (simp add: vmem_alloc_def)

text \<open>The states that an allocator for the addresses \<open>base\<close> up to \<open>base + sz\<close> reaches. The rounded size of a
  request is not 0; a request for a fixed address does not meet a free segment of exactly its size
  that ends at the top of the address space; a range that is freed does not wrap around, and the top
  page of the address space is not allocated when something is freed.\<close>

inductive vmem_reach :: "u64 \<Rightarrow> nat set \<Rightarrow> u64 \<Rightarrow> u64 \<Rightarrow> u32 \<Rightarrow> vmem \<Rightarrow> bool" for h M base sz quantum where
  init: "buddy_reach h M A (pmm k) \<Longrightarrow> vmem_allocator_init h base sz quantum k = Inr st \<Longrightarrow> vmem_reach h M base sz quantum st"
| alloc: "vmem_reach h M base sz quantum st \<Longrightarrow> align_up_q n quantum \<noteq> 0 \<Longrightarrow>
    (\<forall>s\<in>set (view (fst st)). addr \<noteq> 0 \<and> hi s = 2 ^ 64 \<and> seg_size s = align_up_q n quantum \<longrightarrow> seg_base s \<le> addr) \<Longrightarrow>
    vmem_alloc h n addr st = Inr (a, st') \<Longrightarrow> vmem_reach h M base sz quantum st'"
| free: "vmem_reach h M base sz quantum st \<Longrightarrow> 2 ^ 64 - 1 \<notin> allocated_in (view (fst st)) \<Longrightarrow>
    unat (align_up_q addr quantum) + unat (align_up_q n quantum) < 2 ^ 64 \<Longrightarrow>
    vmem_free h addr n st = Some (Inr st') \<Longrightarrow> vmem_reach h M base sz quantum st'"

definition range_ok :: "u64 \<Rightarrow> u64 \<Rightarrow> u64 \<Rightarrow> u32 \<Rightarrow> nat \<Rightarrow> bool" where
  "range_ok h base sz quantum m \<longleftrightarrow> IS_ALIGNED h PAGE_SIZE \<and> unat quantum = 2 ^ m \<and> 0 < m \<and> 2 ^ m dvd unat base \<and>
     2 ^ m dvd unat sz \<and> 0 < base \<and> 0 < sz \<and> unat base + unat sz \<le> 2 ^ 64"

definition vmem_inv :: "u64 \<Rightarrow> nat set \<Rightarrow> u64 \<Rightarrow> u64 \<Rightarrow> u32 \<Rightarrow> nat \<Rightarrow> vmem \<Rightarrow> bool" where
  "vmem_inv h M base sz quantum m = (\<lambda>(v, k). vm_ok h M (segments_list v) {} (v, k) \<and> vm_quantum v = quantum \<and>
     segs_ok (2 ^ m) (unat base) (view v) \<and> allocated_in (view v) \<union> free_in (view v) = {unat base..<unat base + unat sz})"

lemma vmem_init_inv:
  assumes r: "range_ok h base sz quantum m" and b: "buddy_reach h M A (pmm k)"
  shows "vmem_allocator_init h base sz quantum k = Inl Panicked \<or>
    (\<exists>v k'. vmem_allocator_init h base sz quantum k = Inr (v, k') \<and> vmem_inv h M base sz quantum m (v, k') \<and> allocated_in (view v) = {})"
proof -
  obtain al where al: "spalloc_init 64 8 = Inr al"
    by (cases "spalloc_init 64 8") (simp_all add: spalloc_init_def kassert_def Let_def isPow2ull_def ALIGN_UP_def)
  let ?v = "\<lparr>vm_base = base, vm_size = sz, vm_quantum = quantum, vm_bitmap = 0,
         freelists = (\<lambda>_. []), segments_list = [], segments_tree = Leaf, segment_allocator = al,
         segs = (\<lambda>_. \<lparr>seg_allocated = False, seg_base = 0, seg_size = 0\<rparr>)\<rparr>"
  let ?s = "\<lparr>seg_allocated = False, seg_base = base, seg_size = sz\<rparr>"
  have "sp_pool h M 64 8 (al, k) {}" using r b al by (auto simp: sp_pool_def range_ok_def intro: sp_reach.init)
  then have "vm_ok h M ([] @ []) {} (?v, k)"
    by (simp add: vm_ok_def cont_ok_def flists_ok_def tree_ok_def rb_inv_def)
  from new_segment_rep [OF this, of ?s] consider "new_segment h ?s (?v, k) = Inl Panicked" |
    y v1 k1 where "new_segment h ?s (?v, k) = Inr (y, v1, k1)" "vm_ok h M [y] {y} (v1\<lparr>segments_list := [y]\<rparr>, k1)"
      "segments_list v1 = []" "segs v1 y = ?s" "vm_quantum v1 = quantum" by auto
  then show ?thesis
  proof cases
    case 1
    then show ?thesis by (simp add: vmem_allocator_init_def al vmem_add_segment_def)
  next
    case 2
    let ?v1 = "v1\<lparr>segments_list := [y]\<rparr>"
    obtain v2 where v2: "vmem_flist_add y (log2ull sz) ?v1 = Inr v2" "cont_ok v2 ({y} - {y})" "same_geom ?v1 v2"
      using flist_add_ok [of ?v1 "{y}" y "log2ull sz"] 2(2,4) by (auto simp: vm_ok_def)
    have vw: "view v2 = [?s]" "segments_list v2 = [y]" "vm_quantum v2 = quantum"
      using v2(3) 2(4,5) by (simp_all add: view_def same_geom_def)
    have "vm_ok h M [y] {} (v2, k1)" using vm_ok_same [OF 2(2) v2(2,3)] by simp
    moreover have "vmem_allocator_init h base sz quantum k = Inr (v2, k1)"
      using 2(1,3) v2(1) by (simp add: vmem_allocator_init_def al vmem_add_segment_def Let_def)
    ultimately show ?thesis using r vw
      by (auto simp: vmem_inv_def range_ok_def lo_def hi_def span_def word_less_nat_alt)
  qed
qed

lemma vmem_alloc_inv:
  assumes r: "range_ok h base sz quantum m" and i: "vmem_inv h M base sz quantum m (v, k)"
    and n: "align_up_q n quantum \<noteq> 0" and addr: "is_aligned_q addr quantum"
    and c: "\<forall>s\<in>set (view v). addr \<noteq> 0 \<and> hi s = 2 ^ 64 \<and> seg_size s = align_up_q n quantum \<longrightarrow> seg_base s \<le> addr"
  defines "len \<equiv> align_up_q n quantum"
  shows "vmem_alloc h n addr (v, k) = Inr (0, v, k) \<and> (\<forall>s\<in>set (view v). \<not> room addr len s) \<or>
    vmem_alloc h n addr (v, k) = Inl Panicked \<or>
    (\<exists>a v' k'. vmem_alloc h n addr (v, k) = Inr (a, v', k') \<and> a \<noteq> 0 \<and> vmem_inv h M base sz quantum m (v', k') \<and>
      is_aligned_q a quantum \<and> (addr \<noteq> 0 \<longrightarrow> a = addr) \<and> {unat a..<unat a + unat len} \<subseteq> free_in (view v) \<and>
      allocated_in (view v') = allocated_in (view v) \<union> {unat a..<unat a + unat len} \<and>
      free_in (view v') = free_in (view v) - {unat a..<unat a + unat len})"
proof -
  have q: "unat quantum = 2 ^ m" "0 < m" "0 < base" using r by (auto simp: range_ok_def)
  have iv: "vm_ok h M (segments_list v) {} (v, k)" "vm_quantum v = quantum" "segs_ok (2 ^ m) (unat base) (view v)"
    "allocated_in (view v) \<union> free_in (view v) = {unat base..<unat base + unat sz}" using i by (auto simp: vmem_inv_def)
  have d: "2 ^ m dvd unat len" "2 ^ m dvd unat addr" using align_up_q_dvd [OF q(1)] addr is_aligned_q_dvd [OF q(1)] by (auto simp: len_def)
  have e: "vmem_alloc h n addr (v, k) = vmem_alloc h len addr (v, k)"
    using vmem_alloc_aligned [of "(v, k)" m h n addr] iv(2) q(1) by (simp add: len_def)
  have o0: "segs_ok (2 ^ m) 0 (view v)" using segs_ok_mono [OF iv(3)] by simp
  have bz: "0 < unat base" using q(3) by (simp add: word_less_nat_alt)
  have qv: "unat (vm_quantum v) = 2 ^ m" using iv(2) q(1) by simp
  from vmem_alloc_rep [OF iv(1) qv q(2) o0 d(1) n [folded len_def] d(2) c [folded len_def]] show ?thesis
    unfolding e
  proof (elim disjE exE conjE, goal_cases)
    case (3 A s B a v' k')
    note cv = carve_ok [OF iv(3) [unfolded 3(2)] 3(3-6) d(1) n [folded len_def]]
    have "lo s \<in> {unat base..<unat base + unat sz}"
      using segs_ok_mid [OF iv(3) [unfolded 3(2)]] iv(4) 3(2,3) by (auto simp: span_def)
    then have "0 < unat a" using 3(4) bz by auto
    then have "a \<noteq> 0" by auto
    moreover have "{unat a..<unat a + unat len} \<subseteq> free_in (view v)" using 3(2-5) by (auto simp: span_def)
    moreover have "allocated_in (view v') \<union> free_in (view v') = {unat base..<unat base + unat sz}"
      unfolding 3(8) cv(2,3) 3(2) [symmetric] iv(4) [symmetric] using calculation(2) by blast
    then have "vmem_inv h M base sz quantum m (v', k')"
      using 3(8-10) cv(1) iv(2) by (simp add: vmem_inv_def)
    moreover have "allocated_in (view v') = allocated_in (view v) \<union> {unat a..<unat a + unat len}"
      "free_in (view v') = free_in (view v) - {unat a..<unat a + unat len}" unfolding 3(8) cv(2,3) 3(2) by (rule refl)+
    ultimately show ?case using 3(1,6,7) is_aligned_q_dvd [OF q(1)] by blast
  qed (use iv in auto)
qed


lemma vmem_free_inv:
  fixes addr n :: u64
  assumes r: "range_ok h base sz quantum m" and i: "vmem_inv h M base sz quantum m (v, k)"
    and top: "2 ^ 64 - 1 \<notin> allocated_in (view v)"
  defines "start \<equiv> unat (align_up_q addr quantum)" and "fin \<equiv> unat (align_up_q addr quantum) + unat (align_up_q n quantum)"
  assumes w: "fin < 2 ^ 64"
  shows "\<exists>r. vmem_free h addr n (v, k) = Some r \<and> (r = Inl Panicked \<or>
    (\<exists>v' k' c. r = Inr (v', k') \<and> vmem_inv h M base sz quantum m (v', k') \<and> start \<le> c \<and> c \<le> fin \<and>
      {start..<c} \<subseteq> allocated_in (view v) \<and> (c = fin \<or> c \<notin> allocated_in (view v)) \<and>
      allocated_in (view v') = allocated_in (view v) - {start..<c} \<and> free_in (view v') = free_in (view v) \<union> {start..<c}))"
proof -
  have q: "unat quantum = 2 ^ m" "0 < base" "m < 32" using r quantum_mask by (auto simp: range_ok_def)
  have iv: "vm_ok h M (segments_list v) {} (v, k)" "vm_quantum v = quantum" "segs_ok (2 ^ m) (unat base) (view v)"
    "allocated_in (view v) \<union> free_in (view v) = {unat base..<unat base + unat sz}" using i by (auto simp: vmem_inv_def)
  have bz: "0 < unat base" using q(2) by (simp add: word_less_nat_alt)
  let ?a = "align_up_q addr quantum" and ?n = "align_up_q n quantum"
  have ue: "unat (?a + ?n) = fin" unfolding fin_def using w by (intro unat_add_no_wrap) (simp add: fin_def)
  note d = align_up_q_dvd [OF q(1), of addr] align_up_q_dvd [OF q(1), of n]
  show ?thesis
  proof (cases "?n = 0")
    case True
    then show ?thesis using i iv(2) by (auto simp: vmem_free_def fin_def start_def intro!: exI [of _ "unat ?a"])
  next
    case False
    have le: "?a \<le> ?a + ?n" using ue by (simp add: word_le_nat_alt fin_def)
    have run: "vmem_free h addr n (v, k) = vmem_free_loop h (?a + ?n) ?a (v, k)" using False iv(2) by (simp add: vmem_free_def Let_def)
    from vmem_free_loop_rep [OF iv(1,3) bz top d(1) dvd_word_add [OF d q(3)] le, unfolded ue]
    obtain r where r: "vmem_free h addr n (v, k) = Some r" and c: "r = Inl Panicked \<or>
      (\<exists>v' k' c. r = Inr (v', k') \<and> vm_ok h M (segments_list v') {} (v', k') \<and> vm_quantum v' = vm_quantum v \<and> segs_ok (2 ^ m) (unat base) (view v') \<and>
        start \<le> c \<and> c \<le> fin \<and> {start..<c} \<subseteq> allocated_in (view v) \<and> (c = fin \<or> c \<notin> allocated_in (view v)) \<and>
        allocated_in (view v') = allocated_in (view v) - {start..<c} \<and> free_in (view v') = free_in (view v) \<union> {start..<c})"
      unfolding run start_def by blast
    have "vmem_inv h M base sz quantum m (v', k')" if "vm_ok h M (segments_list v') {} (v', k')" "vm_quantum v' = vm_quantum v"
      "segs_ok (2 ^ m) (unat base) (view v')" "X \<subseteq> allocated_in (view v)" "allocated_in (view v') = allocated_in (view v) - X"
      "free_in (view v') = free_in (view v) \<union> X" for v' k' X
      using that iv(2,4) by (auto simp: vmem_inv_def)
    then show ?thesis using r c by blast
  qed
qed

lemma vmem_reach_inv:
  assumes r: "range_ok h base sz quantum m"
  shows "vmem_reach h M base sz quantum st \<Longrightarrow> vmem_inv h M base sz quantum m st"
proof (induction rule: vmem_reach.induct)
  case (init A k st)
  then show ?case using vmem_init_inv [OF r init(1)] by auto
next
  case (alloc st n addr a st')
  obtain v k where st: "st = (v, k)" by (cases st)
  have q: "vm_quantum v = quantum" using alloc.IH st by (simp add: vmem_inv_def)
  show ?case
  proof (cases "is_aligned_q addr quantum")
    case True
    from vmem_alloc_inv [OF r alloc.IH [unfolded st] alloc.hyps(2) True] alloc.hyps(3,4) alloc.IH st show ?thesis by auto
  next
    case False
    then show ?thesis using alloc q st by (auto simp: vmem_alloc_def Let_def)
  qed
next
  case (free st addr n st')
  obtain v k where st: "st = (v, k)" by (cases st)
  from vmem_free_inv [OF r free.IH [unfolded st], of addr n] free.hyps(2-4) st show ?case by auto
qed

section \<open>A concrete run\<close>

definition vmem0 :: vmem where
  "vmem0 = (case vmem_allocator_init 0 0x10000 0x8000 0x1000 (snd pool0) of Inr st \<Rightarrow> st)"

definition vmem1 :: vmem where
  "vmem1 = (case vmem_alloc 0 0x1800 0x12000 vmem0 of Inr (a, st) \<Rightarrow> st)"

lemma range0: "range_ok 0 0x10000 0x8000 0x1000 12"
  by (simp add: range_ok_def IS_ALIGNED_def)

lemma vmem0_reach: "vmem_reach 0 {256..<260} 0x10000 0x8000 0x1000 vmem0"
proof -
  have "\<not> isl (vmem_allocator_init 0 0x10000 0x8000 0x1000 (snd pool0))" by code_simp
  then have "vmem_allocator_init 0 0x10000 0x8000 0x1000 (snd pool0) = Inr vmem0"
    by (cases "vmem_allocator_init 0 0x10000 0x8000 0x1000 (snd pool0)") (simp_all add: vmem0_def)
  moreover have "pmm (snd pool0) = buddy1"
    by (cases "spalloc_init 64 8") (simp_all add: pool0_def spalloc_init_def kassert_def Let_def isPow2ull_def ALIGN_UP_def)
  ultimately show ?thesis using vmem_reach.init reach1 by metis
qed

lemma vmem1_run: "vmem_alloc 0 0x1800 0x12000 vmem0 = Inr (0x12000, vmem1)"
proof -
  have "(case vmem_alloc 0 0x1800 0x12000 vmem0 of Inr (a, st) \<Rightarrow> a = 0x12000 | Inl _ \<Rightarrow> False)" by code_simp
  then show ?thesis by (cases "vmem_alloc 0 0x1800 0x12000 vmem0") (auto simp: vmem1_def)
qed


lemma vmem0_view: "view (fst vmem0) = [\<lparr>seg_allocated = False, seg_base = 0x10000, seg_size = 0x8000\<rparr>]"
  by code_simp

lemma vmem1_reach: "vmem_reach 0 {256..<260} 0x10000 0x8000 0x1000 vmem1"
proof (rule vmem_reach.alloc [OF vmem0_reach _ _ vmem1_run])
  show "align_up_q 0x1800 0x1000 \<noteq> 0" by code_simp
qed (simp add: vmem0_view hi_def)

lemma vmem1_view: "view (fst vmem1) = [\<lparr>seg_allocated = False, seg_base = 0x10000, seg_size = 0x2000\<rparr>,
    \<lparr>seg_allocated = True, seg_base = 0x12000, seg_size = 0x2000\<rparr>, \<lparr>seg_allocated = False, seg_base = 0x14000, seg_size = 0x4000\<rparr>]"
  by code_simp

section \<open>Properties\<close>







section \<open>Corner cases\<close>

text \<open>Where the conditions on the callers matter. A request of size 0 is placed at the base of a free
  segment. A free segment that ends at the top of the address space accepts a request of its size for any
  lower address, which the assertion of \<^verbatim>\<open>vmem_alloc\<close> then catches. When the segment being freed ends at the
  top of the address space, its part behind the freed range is not split off.\<close>

lemma zero_size_fits: "fit_segment 0x1000 0 0 (- 1) \<lparr>seg_allocated = False, seg_base = 0x10000, seg_size = 0x1000\<rparr> = Some 0x10000"
  by code_simp

lemma top_segment_fits:
  "fit_segment 0x1000 0x1000 0x5000 (align_up_q (0x5000 + 0x1000) 0x1000)
     \<lparr>seg_allocated = False, seg_base = - 0x1000, seg_size = 0x1000\<rparr> = Some (- 0x1000)"
  by code_simp

lemma top_segment_not_split:
  assumes "hi (segs (fst st) x) = 2 ^ 64"
  shows "free_right h (seg_base (segs (fst st) x) + seg_size (segs (fst st) x)) end_addr x st = Inr st"
proof -
  have "seg_base (segs (fst st) x) + seg_size (segs (fst st) x) = 0"
    using assms by (intro word_eq_unatI) (simp add: hi_def unat_word_ariths)
  then show ?thesis by (cases st) (simp add: free_right_def)
qed

end
