(* ===== verification/Elf.thy ===== *)
theory Elf
  imports DwarfLine
begin

unbundle bit_operations_syntax

text \<open>
  The ELF structures of \<^verbatim>\<open>loader/elf_structs.h\<close>, the check of an executable in \<^verbatim>\<open>loader/elf_checker.c\<close>,
  the look into the kernel's own file of \<^verbatim>\<open>loader/elf_introspection.c\<close> and the search of a symbol in
  \<^verbatim>\<open>loader/symbols.c\<close>. A file is the list of its bytes; a structure is read at an offset and reading one
  that does not lie inside the file is the error \<open>OutOfBounds\<close>. The theory shows what the introspection
  finds, and under which conditions on the file it stays inside it.
\<close>

section \<open>Structures\<close>

datatype arch = X86_64 | RISCV64 | LOONGARCH64

text \<open>The number of \<open>n\<close> bytes at an offset.\<close>

definition num :: "nat \<Rightarrow> bytes \<Rightarrow> nat \<Rightarrow> 'a::len word" where
  "num n bs p = le_word (take n (drop p bs))"

record elf_header_64 =
  eh_magic :: bytes
  eh_bits :: u8
  eh_endianness :: u8
  eh_header_version :: u8
  eh_abi :: u8
  eh_abi_extra :: u8
  eh_type :: u16
  eh_arch :: u16
  eh_elf_version :: u32
  eh_entry_point :: u64
  eh_program_header_table :: u64
  eh_section_header_table :: u64
  eh_arch_flags :: u32
  eh_elf_header_size :: u16
  eh_program_header_size :: u16
  eh_program_header_entries :: u16
  eh_section_header_size :: u16
  eh_section_header_entries :: u16
  eh_section_name_index :: u16

definition elf_header :: "bytes \<Rightarrow> elf_header_64 result" where
  "elf_header f = (if 64 \<le> length f then Inr
     \<lparr>eh_magic = take 4 f, eh_bits = num 1 f 4, eh_endianness = num 1 f 5, eh_header_version = num 1 f 6,
      eh_abi = num 1 f 7, eh_abi_extra = num 1 f 8, eh_type = num 2 f 16, eh_arch = num 2 f 18,
      eh_elf_version = num 4 f 20, eh_entry_point = num 8 f 24, eh_program_header_table = num 8 f 32,
      eh_section_header_table = num 8 f 40, eh_arch_flags = num 4 f 48, eh_elf_header_size = num 2 f 52,
      eh_program_header_size = num 2 f 54, eh_program_header_entries = num 2 f 56,
      eh_section_header_size = num 2 f 58, eh_section_header_entries = num 2 f 60,
      eh_section_name_index = num 2 f 62\<rparr>
     else Inl OutOfBounds)"

record elf_program_header_64 =
  ph_type :: u32
  ph_flags :: u32
  ph_offset :: u64
  ph_virt_addr :: u64
  ph_phys_addr :: u64
  ph_file_size :: u64
  ph_mem_size :: u64
  ph_alignment :: u64

definition elf_program_header :: "bytes \<Rightarrow> nat \<Rightarrow> elf_program_header_64 result" where
  "elf_program_header f p = (if p + 56 \<le> length f then Inr
     \<lparr>ph_type = num 4 f p, ph_flags = num 4 f (p + 4), ph_offset = num 8 f (p + 8), ph_virt_addr = num 8 f (p + 16),
      ph_phys_addr = num 8 f (p + 24), ph_file_size = num 8 f (p + 32), ph_mem_size = num 8 f (p + 40),
      ph_alignment = num 8 f (p + 48)\<rparr>
     else Inl OutOfBounds)"

record elf_section_header_64 =
  sh_name :: u32
  sh_type :: u32
  sh_flags :: u64
  sh_virt_addr :: u64
  sh_offset :: u64
  sh_size :: u64
  sh_link :: u32
  sh_info :: u32
  sh_alignment :: u64
  sh_entry_size :: u64

definition elf_section_header :: "bytes \<Rightarrow> nat \<Rightarrow> elf_section_header_64 result" where
  "elf_section_header f p = (if p + 64 \<le> length f then Inr
     \<lparr>sh_name = num 4 f p, sh_type = num 4 f (p + 4), sh_flags = num 8 f (p + 8), sh_virt_addr = num 8 f (p + 16),
      sh_offset = num 8 f (p + 24), sh_size = num 8 f (p + 32), sh_link = num 4 f (p + 40), sh_info = num 4 f (p + 44),
      sh_alignment = num 8 f (p + 48), sh_entry_size = num 8 f (p + 56)\<rparr>
     else Inl OutOfBounds)"

record elf_symbol_64 =
  st_name :: u32
  st_info :: u8
  st_other :: u8
  st_shndx :: u16
  st_value :: u64
  st_size :: u64

definition elf_symbol :: "bytes \<Rightarrow> nat \<Rightarrow> elf_symbol_64 result" where
  "elf_symbol f p = (if p + 24 \<le> length f then Inr
     \<lparr>st_name = num 4 f p, st_info = num 1 f (p + 4), st_other = num 1 f (p + 5), st_shndx = num 2 f (p + 6),
      st_value = num 8 f (p + 8), st_size = num 8 f (p + 16)\<rparr>
     else Inl OutOfBounds)"

section \<open>The check of an executable\<close>

definition elf_magic :: bytes where
  "elf_magic = [0x7F, 0x45, 0x4C, 0x46]"

definition ELF_CURRENT_ARCH :: "arch \<Rightarrow> u16" where
  "ELF_CURRENT_ARCH a = (case a of X86_64 \<Rightarrow> 0x3E | RISCV64 \<Rightarrow> 0xF3 | LOONGARCH64 \<Rightarrow> 0x102)"

definition verify_elf :: "arch \<Rightarrow> bytes \<Rightarrow> bool result" where
  "verify_elf a f = ebind (elf_header f) (\<lambda>h. Inr
     (if eh_magic h \<noteq> elf_magic then False
      else if eh_header_version h \<noteq> 1 then False
      else if eh_elf_version h \<noteq> 1 then False
      else if eh_bits h \<noteq> 2 then False
      else if eh_endianness h \<noteq> 1 then False
      else if eh_abi h \<noteq> 0xEE then False
      else if eh_type h \<noteq> 2 then False
      else if eh_arch h \<noteq> ELF_CURRENT_ARCH a then False
      else True))"

section \<open>Introspection of the kernel's file\<close>

abbreviation (input) ELF_PROG_PT_LOAD_TYPE :: u32 where "ELF_PROG_PT_LOAD_TYPE \<equiv> 1"

definition ph_at :: "bytes \<Rightarrow> elf_header_64 \<Rightarrow> nat \<Rightarrow> elf_program_header_64 result" where
  "ph_at f h i = elf_program_header f (unat (eh_program_header_table h) + i * 56)"

fun base_loop :: "bytes \<Rightarrow> elf_header_64 \<Rightarrow> nat list \<Rightarrow> u64 \<Rightarrow> u64 result" where
  "base_loop f h [] elf_base = Inr elf_base"
| "base_loop f h (i # is) elf_base = ebind (ph_at f h i) (\<lambda>ph.
     base_loop f h is
       (if ph_type ph = ELF_PROG_PT_LOAD_TYPE \<and> ph_virt_addr ph < elf_base then ph_virt_addr ph else elf_base))"

definition elf_introspect_base :: "bytes \<Rightarrow> u64 result" where
  "elf_introspect_base f = ebind (elf_header f) (\<lambda>h.
     ebind (base_loop f h [0..<unat (eh_program_header_entries h)] (- 1)) (\<lambda>elf_base.
     kassert (elf_base \<noteq> - 1) (Inr elf_base)))"

fun top_loop :: "bytes \<Rightarrow> elf_header_64 \<Rightarrow> nat list \<Rightarrow> u64 \<Rightarrow> u64 result" where
  "top_loop f h [] elf_top = Inr elf_top"
| "top_loop f h (i # is) elf_top = ebind (ph_at f h i) (\<lambda>ph.
     let section_top = ph_virt_addr ph + ph_mem_size ph in
     top_loop f h is (if ph_type ph = ELF_PROG_PT_LOAD_TYPE \<and> section_top > elf_top then section_top else elf_top))"

definition elf_introspect_top :: "bytes \<Rightarrow> u64 result" where
  "elf_introspect_top f = ebind (elf_header f) (\<lambda>h.
     ebind (top_loop f h [0..<unat (eh_program_header_entries h)] 0) (\<lambda>elf_top.
     kassert (elf_top \<noteq> 0) (Inr elf_top)))"

text \<open>Whether \<^verbatim>\<open>strcmp\<close> finds the string at an offset of the file equal to a given one.\<close>

fun strcmp_eq :: "bytes \<Rightarrow> nat \<Rightarrow> bytes \<Rightarrow> bool result" where
  "strcmp_eq f p [] = ebind (byte_at f p) (\<lambda>c. Inr (c = 0))"
| "strcmp_eq f p (x # xs) = ebind (byte_at f p) (\<lambda>c. if c \<noteq> x then Inr False else strcmp_eq f (p + 1) xs)"

text \<open>A section is returned as an address of the running kernel or as an offset of the file, with its size.\<close>

datatype section_ptr = Loaded u64 | InFile nat

definition found_section :: "u64 \<Rightarrow> bytes \<Rightarrow> elf_section_header_64 \<Rightarrow> (section_ptr \<times> u64) option result" where
  "found_section kernel_virtual_base f sh =
    (if sh_flags sh AND 2 \<noteq> 0
     then ebind (elf_introspect_base f) (\<lambda>elf_base.
       Inr (Some (Loaded (sh_virt_addr sh + kernel_virtual_base - elf_base), sh_size sh)))
     else if unat (sh_offset sh) > length f \<or> unat (sh_size sh) > length f - unat (sh_offset sh) then Inr None
     else Inr (Some (InFile (unat (sh_offset sh)), sh_size sh)))"

fun section_loop :: "u64 \<Rightarrow> bytes \<Rightarrow> elf_header_64 \<Rightarrow> elf_section_header_64 \<Rightarrow> bytes \<Rightarrow> nat list \<Rightarrow>
    (section_ptr \<times> u64) option result" where
  "section_loop kernel_virtual_base f h shstrtab name [] = Inr None"
| "section_loop kernel_virtual_base f h shstrtab name (i # is) =
    ebind (elf_section_header f (unat (eh_section_header_table h) + i * 64)) (\<lambda>sh.
      if unat (sh_name sh) \<ge> unat (sh_size shstrtab) then section_loop kernel_virtual_base f h shstrtab name is
      else ebind (strcmp_eq f (unat (sh_offset shstrtab) + unat (sh_name sh)) name) (\<lambda>same.
        if \<not> same then section_loop kernel_virtual_base f h shstrtab name is
        else found_section kernel_virtual_base f sh))"

definition elf_introspect_section :: "u64 \<Rightarrow> bytes \<Rightarrow> bytes \<Rightarrow> (section_ptr \<times> u64) option result" where
  "elf_introspect_section kernel_virtual_base f name = ebind (elf_header f) (\<lambda>h.
     let table = unat (eh_section_header_table h); entries = unat (eh_section_header_entries h) in
     if table > length f then Inr None
     else if entries * 64 > length f - table then Inr None
     else if table = 0 \<or> entries = 0 then Inr None
     else if unat (eh_section_name_index h) \<ge> entries then Inr None
     else ebind (elf_section_header f (table + unat (eh_section_name_index h) * 64)) (\<lambda>shstrtab.
       if unat (sh_offset shstrtab) > length f \<or> unat (sh_size shstrtab) > length f - unat (sh_offset shstrtab)
       then Inr None
       else section_loop kernel_virtual_base f h shstrtab name [0..<entries]))"

definition elf_introspect_kaslr_slide :: "u64 \<Rightarrow> bytes \<Rightarrow> u64 result" where
  "elf_introspect_kaslr_slide kernel_virtual_base f =
     ebind (elf_introspect_base f) (\<lambda>elf_base. Inr (kernel_virtual_base - elf_base))"

definition kaslr_rt2lt :: "u64 \<Rightarrow> bytes \<Rightarrow> u64 \<Rightarrow> u64 result" where
  "kaslr_rt2lt kernel_virtual_base f a = ebind (elf_introspect_kaslr_slide kernel_virtual_base f) (\<lambda>s. Inr (a - s))"

definition kaslr_lt2rt :: "u64 \<Rightarrow> bytes \<Rightarrow> u64 \<Rightarrow> u64 result" where
  "kaslr_lt2rt kernel_virtual_base f a = ebind (elf_introspect_kaslr_slide kernel_virtual_base f) (\<lambda>s. Inr (a + s))"

section \<open>Symbols\<close>

text \<open>The name of a symbol is its offset in the string table.\<close>

record symbol_result =
  sr_name :: nat
  sr_offset :: u64

definition ELF_ST_TYPE :: "u8 \<Rightarrow> u8" where
  "ELF_ST_TYPE info = info AND 0xF"

definition better :: "u64 \<Rightarrow> elf_symbol_64 option \<Rightarrow> elf_symbol_64 \<Rightarrow> elf_symbol_64 option" where
  "better pc best symbol =
    (if ELF_ST_TYPE (st_info symbol) \<noteq> 2 then best
     else if st_shndx symbol = 0 then best
     else if st_value symbol > pc then best
     else case best of None \<Rightarrow> Some symbol
       | Some b \<Rightarrow> if st_value symbol > st_value b then Some symbol else best)"

fun best_loop :: "bytes \<Rightarrow> u64 \<Rightarrow> nat list \<Rightarrow> elf_symbol_64 option \<Rightarrow> elf_symbol_64 option result" where
  "best_loop symtab pc [] best = Inr best"
| "best_loop symtab pc (i # is) best = ebind (elf_symbol symtab (i * 24)) (\<lambda>symbol.
     best_loop symtab pc is (better pc best symbol))"

definition symbol_for_pc :: "bytes \<Rightarrow> bytes \<Rightarrow> u64 \<Rightarrow> symbol_result option result" where
  "symbol_for_pc symtab strtab pc =
     ebind (best_loop symtab pc [0..<length symtab div 24] None) (\<lambda>best. case best of
       None \<Rightarrow> Inr None
     | Some b \<Rightarrow>
         if unat (st_name b) \<ge> length strtab then Inr None
         else if st_size b \<noteq> 0 \<and> pc - st_value b \<ge> st_size b then Inr None
         else let remaining = length strtab - unat (st_name b) in
           ebind (strnlen_at strtab (unat (st_name b)) remaining) (\<lambda>l.
             if l \<ge> remaining then Inr None
             else Inr (Some \<lparr>sr_name = unat (st_name b), sr_offset = pc - st_value b\<rparr>)))"

section \<open>The load segments\<close>

text \<open>The addresses and ends of the segments to be loaded, for a list of indices of program headers.\<close>

definition load_addrs :: "bytes \<Rightarrow> elf_header_64 \<Rightarrow> nat list \<Rightarrow> u64 set" where
  "load_addrs f h is = {ph_virt_addr ph | i ph. i \<in> set is \<and> ph_at f h i = Inr ph \<and> ph_type ph = 1}"

definition load_ends :: "bytes \<Rightarrow> elf_header_64 \<Rightarrow> nat list \<Rightarrow> u64 set" where
  "load_ends f h is = {ph_virt_addr ph + ph_mem_size ph | i ph. i \<in> set is \<and> ph_at f h i = Inr ph \<and> ph_type ph = 1}"

lemma load_sets_simps [simp]:
  "load_addrs f h [] = {}" "load_ends f h [] = {}"
  "ph_at f h i = Inr ph \<Longrightarrow> load_addrs f h (i # is) = (if ph_type ph = 1 then {ph_virt_addr ph} else {}) \<union> load_addrs f h is"
  "ph_at f h i = Inr ph \<Longrightarrow>
   load_ends f h (i # is) = (if ph_type ph = 1 then {ph_virt_addr ph + ph_mem_size ph} else {}) \<union> load_ends f h is"
  by (auto simp: load_addrs_def load_ends_def)

lemma base_loop_Min:
  "\<forall>i \<in> set is. \<exists>ph. ph_at f h i = Inr ph \<Longrightarrow> base_loop f h is b = Inr (Min (insert b (load_addrs f h is)))"
proof (induction "is" arbitrary: b)
  case (Cons i "is")
  then obtain ph where ph: "ph_at f h i = Inr ph" by auto
  have fin: "finite (load_addrs f h is)" by (rule finite_subset [of _ UNIV]) simp_all
  show ?case using Cons ph fin by (cases "load_addrs f h is = {}") (auto simp: min_def)
qed simp

lemma top_loop_Max:
  "\<forall>i \<in> set is. \<exists>ph. ph_at f h i = Inr ph \<Longrightarrow> top_loop f h is b = Inr (Max (insert b (load_ends f h is)))"
proof (induction "is" arbitrary: b)
  case (Cons i "is")
  then obtain ph where ph: "ph_at f h i = Inr ph" by auto
  have fin: "finite (load_ends f h is)" by (rule finite_subset [of _ UNIV]) simp_all
  show ?case using Cons ph fin by (cases "load_ends f h is = {}") (auto simp: Let_def max_def)
qed simp

lemma ph_at_in_table:
  "unat (eh_program_header_table h) + unat (eh_program_header_entries h) * 56 \<le> length f \<Longrightarrow>
   \<forall>i \<in> set [0..<unat (eh_program_header_entries h)]. \<exists>ph. ph_at f h i = Inr ph"
  by (auto simp: ph_at_def elf_program_header_def)

lemma Min_insert_max: "Min (insert (- 1) A) = - 1 \<longleftrightarrow> A \<subseteq> {- 1}" "\<not> A \<subseteq> {- 1} \<Longrightarrow> Min (insert (- 1) A) = Min A"
  "\<not> A \<subseteq> {- 1} \<Longrightarrow> Min A \<noteq> - 1"
  for A :: "u64 set"
proof -
  have fin: "finite A" by (rule finite_subset [of _ UNIV]) simp_all
  show a: "Min (insert (- 1) A) = - 1 \<longleftrightarrow> A \<subseteq> {- 1}"
    by (subst Min_eq_iff) (use fin in \<open>auto simp: word_order.extremum_unique\<close>)
  show b: "Min (insert (- 1) A) = Min A" if "\<not> A \<subseteq> {- 1}"
    using that fin by (subst Min_insert) (auto simp: min_def word_order.extremum_unique)
  show "Min A \<noteq> - 1" if "\<not> A \<subseteq> {- 1}" using a b [OF that] that by metis
qed

lemma Max_insert_min: "Max (insert 0 A) = 0 \<longleftrightarrow> A \<subseteq> {0}" "\<not> A \<subseteq> {0} \<Longrightarrow> Max (insert 0 A) = Max A"
  "\<not> A \<subseteq> {0} \<Longrightarrow> Max A \<noteq> 0"
  for A :: "u64 set"
proof -
  have fin: "finite A" by (rule finite_subset [of _ UNIV]) simp_all
  show a: "Max (insert 0 A) = 0 \<longleftrightarrow> A \<subseteq> {0}" by (subst Max_eq_iff) (use fin in auto)
  show b: "Max (insert 0 A) = Max A" if "\<not> A \<subseteq> {0}"
    using that fin by (subst Max_insert) auto
  show "Max A \<noteq> 0" if "\<not> A \<subseteq> {0}" using a b [OF that] that by metis
qed

section \<open>Section names\<close>

lemma strcmp_eq_total:
  "0 \<notin> set name \<Longrightarrow> p \<le> z \<Longrightarrow> z < length f \<Longrightarrow> f ! z = 0 \<Longrightarrow>
   strcmp_eq f p name = Inr (take (length name + 1) (drop p f) = name @ [0])"
proof (induction name arbitrary: p)
  case (Cons x xs)
  have d: "drop p f = f ! p # drop (Suc p) f" using Cons.prems by (simp add: Cons_nth_drop_Suc)
  have "p \<noteq> z" if "f ! p = x" using that Cons.prems by auto
  then show ?case using Cons by (auto simp: byte_at_def d)
qed (auto simp: byte_at_def take_Suc hd_drop_conv_nth)

text \<open>The string table of the section names ends in a zero byte.\<close>

definition names_terminated :: "bytes \<Rightarrow> bool" where
  "names_terminated f = (case elf_header f of Inl _ \<Rightarrow> False | Inr h \<Rightarrow>
     (case elf_section_header f (unat (eh_section_header_table h) + unat (eh_section_name_index h) * 64) of
        Inl _ \<Rightarrow> True
      | Inr s \<Rightarrow> unat (sh_offset s) + unat (sh_size s) \<le> length f \<longrightarrow> 0 < unat (sh_size s) \<longrightarrow>
          f ! (unat (sh_offset s) + unat (sh_size s) - 1) = 0))"

text \<open>Section \<open>i\<close> has the given name.\<close>

definition section_named :: "bytes \<Rightarrow> elf_header_64 \<Rightarrow> elf_section_header_64 \<Rightarrow> bytes \<Rightarrow> nat \<Rightarrow> elf_section_header_64 \<Rightarrow> bool" where
  "section_named f h s name i sh \<longleftrightarrow> elf_section_header f (unat (eh_section_header_table h) + i * 64) = Inr sh \<and>
     unat (sh_name sh) < unat (sh_size s) \<and>
     take (length name + 1) (drop (unat (sh_offset s) + unat (sh_name sh)) f) = name @ [0]"


lemma section_loop_total:
  assumes "0 \<notin> set name" "elf_introspect_base f = Inr b" "unat (sh_offset s) + unat (sh_size s) \<le> length f"
    "0 < unat (sh_size s) \<longrightarrow> f ! (unat (sh_offset s) + unat (sh_size s) - 1) = 0"
    "\<forall>i \<in> set is. \<exists>sh. elf_section_header f (unat (eh_section_header_table h) + i * 64) = Inr sh"
  shows "section_loop v f h s name is = Inr None \<and> (\<forall>i \<in> set is. \<forall>sh. \<not> section_named f h s name i sh) \<or>
    (\<exists>i \<in> set is. \<exists>sh. section_named f h s name i sh \<and> section_loop v f h s name is = found_section v f sh)"
  using assms(5)
proof (induction "is")
  case (Cons i "is")
  then obtain sh where sh: "elf_section_header f (unat (eh_section_header_table h) + i * 64) = Inr sh" by auto
  show ?case
  proof (cases "unat (sh_name sh) < unat (sh_size s)")
    case True
    then have "strcmp_eq f (unat (sh_offset s) + unat (sh_name sh)) name =
        Inr (take (length name + 1) (drop (unat (sh_offset s) + unat (sh_name sh)) f) = name @ [0])"
      using assms by (intro strcmp_eq_total [where z = "unat (sh_offset s) + unat (sh_size s) - 1"]) auto
    then show ?thesis using Cons sh True by (auto simp: section_named_def)
  qed (use Cons sh in \<open>auto simp: section_named_def\<close>)
qed simp

lemma found_section_total:
  assumes "elf_introspect_base f = Inr b"
  shows "\<exists>r. found_section v f sh = Inr r \<and> (\<forall>p n. r = Some (p, n) \<longrightarrow> n = sh_size sh \<and>
    (case p of Loaded a \<Rightarrow> a = sh_virt_addr sh + v - b
     | InFile a \<Rightarrow> a = unat (sh_offset sh) \<and> a + unat n \<le> length f))"
  using assms by (auto simp: found_section_def)

section \<open>The best symbol\<close>

definition candidate :: "u64 \<Rightarrow> elf_symbol_64 \<Rightarrow> bool" where
  "candidate pc s \<longleftrightarrow> ELF_ST_TYPE (st_info s) = 2 \<and> st_shndx s \<noteq> 0 \<and> st_value s \<le> pc"

definition best_of :: "u64 \<Rightarrow> elf_symbol_64 set \<Rightarrow> elf_symbol_64 option \<Rightarrow> bool" where
  "best_of pc S best = (case best of None \<Rightarrow> \<forall>s \<in> S. \<not> candidate pc s
     | Some b \<Rightarrow> b \<in> S \<and> candidate pc b \<and> (\<forall>s \<in> S. candidate pc s \<longrightarrow> st_value s \<le> st_value b))"

definition symbols_at :: "bytes \<Rightarrow> nat list \<Rightarrow> elf_symbol_64 set" where
  "symbols_at symtab is = {s. \<exists>i \<in> set is. elf_symbol symtab (i * 24) = Inr s}"

lemma better_best: "best_of pc S best \<Longrightarrow> best_of pc (insert s S) (better pc best s)"
  by (auto simp: best_of_def better_def candidate_def split: option.splits)

lemma best_loop_best:
  "best_of pc S best \<Longrightarrow> \<forall>i \<in> set is. i * 24 + 24 \<le> length symtab \<Longrightarrow>
   \<exists>b. best_loop symtab pc is best = Inr b \<and> best_of pc (S \<union> symbols_at symtab is) b"
proof (induction "is" arbitrary: S best)
  case (Cons i "is")
  then obtain s where s: "elf_symbol symtab (i * 24) = Inr s" by (simp add: elf_symbol_def)
  have "S \<union> symbols_at symtab (i # is) = insert s S \<union> symbols_at symtab is" using s by (auto simp: symbols_at_def)
  then show ?case using Cons.IH [OF better_best [OF Cons.prems(1), of s]] Cons.prems(2) s by simp
qed (simp add: symbols_at_def)

lemma strnlen_at_total:
  "p + n \<le> length bs \<Longrightarrow>
   \<exists>l \<le> n. strnlen_at bs p n = Inr l \<and> (\<forall>k < l. bs ! (p + k) \<noteq> 0) \<and> (l < n \<longrightarrow> bs ! (p + l) = 0)"
proof (induction n arbitrary: p)
  case (Suc n)
  show ?case
  proof (cases "bs ! p = 0")
    case False
    obtain l where l: "l \<le> n" "strnlen_at bs (p + 1) n = Inr l" "\<forall>k < l. bs ! (p + 1 + k) \<noteq> 0"
        "l < n \<longrightarrow> bs ! (p + 1 + l) = 0"
      using Suc.IH [of "p + 1"] Suc.prems by auto
    have "bs ! (p + k) \<noteq> 0" if "k < l + 1" for k
      using l(3) False that by (cases k) auto
    then show ?thesis using l False Suc.prems by (intro exI [of _ "l + 1"]) (auto simp: byte_at_def)
  qed (use Suc.prems in \<open>auto simp: byte_at_def\<close>)
qed simp

text \<open>A symbol whose extent, if known, covers the counter and whose name is a terminated string.\<close>

definition usable :: "bytes \<Rightarrow> u64 \<Rightarrow> elf_symbol_64 \<Rightarrow> bool" where
  "usable strtab pc b \<longleftrightarrow> (st_size b \<noteq> 0 \<longrightarrow> pc - st_value b < st_size b) \<and>
     (\<exists>k. unat (st_name b) + k < length strtab \<and> strtab ! (unat (st_name b) + k) = 0)"

lemma usable_strnlen:
  "(if unat (st_name b) \<ge> length strtab then Inr None
    else if st_size b \<noteq> 0 \<and> pc - st_value b \<ge> st_size b then Inr None
    else ebind (strnlen_at strtab (unat (st_name b)) (length strtab - unat (st_name b))) (\<lambda>l.
      if l \<ge> length strtab - unat (st_name b) then Inr None else Inr (Some r))) =
   Inr (if usable strtab pc b then Some r else None)"
proof (cases "unat (st_name b) < length strtab")
  case True
  let ?n = "unat (st_name b)"
  obtain l where l: "l \<le> length strtab - ?n" "strnlen_at strtab ?n (length strtab - ?n) = Inr l"
      "\<forall>k < l. strtab ! (?n + k) \<noteq> 0" "l < length strtab - ?n \<longrightarrow> strtab ! (?n + l) = 0"
    using strnlen_at_total [of ?n "length strtab - ?n" strtab] True by auto
  have "l < length strtab - ?n \<longleftrightarrow> (\<exists>k. ?n + k < length strtab \<and> strtab ! (?n + k) = 0)"
  proof
    show "\<exists>k. ?n + k < length strtab \<and> strtab ! (?n + k) = 0" if "l < length strtab - ?n"
      using that l(4) by (intro exI [of _ l]) auto
    show "l < length strtab - ?n" if "\<exists>k. ?n + k < length strtab \<and> strtab ! (?n + k) = 0"
      using that l(1,3) by (metis add.commute less_diff_conv linorder_neqE_nat order_less_le_trans nless_le)
  qed
  then show ?thesis using True l(2) by (auto simp: usable_def not_le)
qed (auto simp: usable_def)

lemma section_found:
  assumes "0 \<notin> set name" "elf_introspect_base f = Inr b" "names_terminated f"
  shows "\<exists>r. elf_introspect_section v f name = Inr r \<and> (\<forall>p n. r = Some (p, n) \<longrightarrow>
    (\<exists>h s i sh. elf_header f = Inr h \<and>
       elf_section_header f (unat (eh_section_header_table h) + unat (eh_section_name_index h) * 64) = Inr s \<and>
       i < unat (eh_section_header_entries h) \<and> section_named f h s name i sh \<and>
       n = sh_size sh \<and> (case p of Loaded a \<Rightarrow> a = sh_virt_addr sh + v - b
         | InFile a \<Rightarrow> a = unat (sh_offset sh) \<and> a + unat n \<le> length f)))"
proof -
  obtain h where h: "elf_header f = Inr h"
    using assms(3) by (auto simp: names_terminated_def split: sum.splits)
  let ?t = "unat (eh_section_header_table h)" and ?n = "unat (eh_section_header_entries h)"
  show ?thesis
  proof (cases "?t > length f \<or> ?n * 64 > length f - ?t \<or> ?t = 0 \<or> ?n = 0 \<or> unat (eh_section_name_index h) \<ge> ?n")
    case False
    then have "?t + i * 64 + 64 \<le> length f" if "i < ?n" for i using that by (auto simp: not_less)
    then have sh: "\<forall>i \<in> set [0..<?n]. \<exists>sh. elf_section_header f (?t + i * 64) = Inr sh"
      by (simp add: elf_section_header_def)
    have "unat (eh_section_name_index h) \<in> set [0..<?n]" using False by simp
    with sh obtain s where s: "elf_section_header f (?t + unat (eh_section_name_index h) * 64) = Inr s" by blast
    show ?thesis
    proof (cases "unat (sh_offset s) > length f \<or> unat (sh_size s) > length f - unat (sh_offset s)")
      case False
      note eq = \<open>\<not> (?t > length f \<or> _)\<close> False h s
      have in_file: "unat (sh_offset s) + unat (sh_size s) \<le> length f" using False by auto
      with assms(3) h s have "0 < unat (sh_size s) \<longrightarrow> f ! (unat (sh_offset s) + unat (sh_size s) - 1) = 0"
        by (simp add: names_terminated_def)
      from section_loop_total [OF assms(1,2) in_file this sh, of v] show ?thesis
      proof (elim disjE conjE bexE exE, goal_cases)
        case 1
        then show ?case using eq by (simp add: elf_introspect_section_def Let_def)
      next
        case (2 i sh)
        then have r: "elf_introspect_section v f name = found_section v f sh" using eq
          by (simp add: elf_introspect_section_def Let_def)
        show ?case unfolding r using found_section_total [OF assms(2), of v sh] h s 2 by fastforce
      qed
    qed (use False h s in \<open>auto simp: elf_introspect_section_def Let_def\<close>)
  qed (use h in \<open>auto simp: elf_introspect_section_def Let_def\<close>)
qed

lemma symbol_found:
  "\<exists>r. symbol_for_pc symtab strtab pc = Inr r \<and>
    (\<forall>s. r = Some s \<longrightarrow> (\<exists>b. best_of pc (symbols_at symtab [0..<length symtab div 24]) (Some b) \<and>
       usable strtab pc b \<and> s = \<lparr>sr_name = unat (st_name b), sr_offset = pc - st_value b\<rparr>)) \<and>
    (\<forall>b. best_of pc (symbols_at symtab [0..<length symtab div 24]) (Some b) \<and>
       (\<forall>c \<in> symbols_at symtab [0..<length symtab div 24]. candidate pc c \<and> c \<noteq> b \<longrightarrow> st_value c < st_value b) \<and>
       usable strtab pc b \<longrightarrow> r = Some \<lparr>sr_name = unat (st_name b), sr_offset = pc - st_value b\<rparr>)"
proof -
  let ?S = "symbols_at symtab [0..<length symtab div 24]"
  have "i * 24 + 24 \<le> length symtab" if "i < length symtab div 24" for i
    using that div_times_less_eq_dividend [of "length symtab" 24] by linarith
  then obtain best where b: "best_loop symtab pc [0..<length symtab div 24] None = Inr best" "best_of pc ?S best"
    using best_loop_best [of pc "{}" None "[0..<length symtab div 24]" symtab] by (auto simp: best_of_def)
  have "b = c" if "best = Some c" "best_of pc ?S (Some b)"
      "\<forall>c \<in> ?S. candidate pc c \<and> c \<noteq> b \<longrightarrow> st_value c < st_value b" for b c
    using that b(2) by (fastforce simp: best_of_def dest: bspec [of _ _ b])
  moreover have "symbol_for_pc symtab strtab pc = Inr (case best of None \<Rightarrow> None
      | Some b \<Rightarrow> if usable strtab pc b then Some \<lparr>sr_name = unat (st_name b), sr_offset = pc - st_value b\<rparr> else None)"
    by (cases best) (simp_all only: symbol_for_pc_def Let_def b(1) ebind_simps option.case usable_strnlen)
  moreover have "\<not> best_of pc ?S (Some b)" if "best = None" for b
    using b(2) that by (auto simp: best_of_def)
  ultimately show ?thesis using b(2) by (cases best) (auto split: if_splits)
qed

lemma section_total:
  assumes "0 \<notin> set name" "elf_introspect_base f = Inr b" "names_terminated f"
  shows "\<exists>r. elf_introspect_section v f name = Inr r"
  using section_found [OF assms] by blast

lemma symbol_for_pc_total: "\<exists>r. symbol_for_pc symtab strtab pc = Inr r"
  using symbol_found [of symtab strtab pc] by blast

section \<open>Properties\<close>

text \<open>When the program header table lies inside the kernel's file, the base of the kernel is the
  lowest address of its load segments and its top their highest end, and each of the two functions
  fails its assertion exactly when no segment gives it a value.\<close>

lemma elf_introspect_base_top:
  assumes "elf_header f = Inr h"
    and "unat (eh_program_header_table h) + unat (eh_program_header_entries h) * 56 \<le> length f"
  shows "elf_introspect_base f = (let A = load_addrs f h [0..<unat (eh_program_header_entries h)] in
           if A \<subseteq> {- 1} then Inl AssertFailed else Inr (Min A)) \<and>
         elf_introspect_top f = (let E = load_ends f h [0..<unat (eh_program_header_entries h)] in
           if E \<subseteq> {0} then Inl AssertFailed else Inr (Max E))"
proof -
  let ?A = "load_addrs f h [0..<unat (eh_program_header_entries h)]"
  let ?E = "load_ends f h [0..<unat (eh_program_header_entries h)]"
  have "elf_introspect_base f = (if ?A \<subseteq> {- 1} then Inl AssertFailed else Inr (Min ?A))"
    using base_loop_Min [OF ph_at_in_table [OF assms(2)], of "- 1"]
    by (cases "?A \<subseteq> {- 1}") (simp_all only: elf_introspect_base_def assms(1) ebind_simps Min_insert_max kassert_def not_not if_True if_False simp_thms)
  moreover have "elf_introspect_top f = (if ?E \<subseteq> {0} then Inl AssertFailed else Inr (Max ?E))"
    using top_loop_Max [OF ph_at_in_table [OF assms(2)], of 0]
    by (cases "?E \<subseteq> {0}") (simp_all only: elf_introspect_top_def assms(1) ebind_simps Max_insert_min kassert_def not_not if_True if_False simp_thms)
  ultimately show ?thesis unfolding Let_def by (rule conjI)
qed

text \<open>A small executable with one load segment, one named section and the table of section names.\<close>

definition elf0 :: bytes where
  "elf0 = elf_magic @ [2, 1, 1, 0xEE] @ replicate 8 0 @ [2, 0, 0x3E, 0, 1, 0, 0, 0] @
    [0x40, 0x10, 0, 0, 0, 0, 0, 0] @ [64, 0, 0, 0, 0, 0, 0, 0] @ [120, 0, 0, 0, 0, 0, 0, 0] @
    [0, 0, 0, 0, 64, 0, 56, 0, 1, 0, 64, 0, 2, 0, 1, 0] @
    [1, 0, 0, 0, 5, 0, 0, 0] @ replicate 8 0 @ [0, 0x10, 0, 0, 0, 0, 0, 0] @ replicate 8 0 @
    [16, 0, 0, 0, 0, 0, 0, 0] @ [0, 0x20, 0, 0, 0, 0, 0, 0] @ [0, 0x10, 0, 0, 0, 0, 0, 0] @
    [1, 0, 0, 0, 1, 0, 0, 0] @ replicate 16 0 @ [16, 0, 0, 0, 0, 0, 0, 0] @ [32, 0, 0, 0, 0, 0, 0, 0] @ replicate 24 0 @
    [4, 0, 0, 0, 3, 0, 0, 0] @ replicate 16 0 @ [248, 0, 0, 0, 0, 0, 0, 0] @ [5, 0, 0, 0, 0, 0, 0, 0] @ replicate 24 0 @
    [0, 0x2E, 0x61, 0, 0]"

definition eh0 :: elf_header_64 where
  "eh0 = projr (elf_header elf0)"

lemma elf_introspect_base_top_example:
  "elf_introspect_base elf0 = (let A = load_addrs elf0 eh0 [0..<unat (eh_program_header_entries eh0)] in
     if A \<subseteq> {- 1} then Inl AssertFailed else Inr (Min A)) \<and> elf_introspect_base elf0 = Inr 0x1000 \<and>
   elf_introspect_top elf0 = Inr 0x3000 \<and> verify_elf X86_64 elf0 = Inr True"
proof -
  have "elf_header elf0 = Inr eh0" by code_simp
  moreover have "unat (eh_program_header_table eh0) + unat (eh_program_header_entries eh0) * 56 \<le> length elf0" by code_simp
  moreover have "elf_introspect_base elf0 = Inr 0x1000" "elf_introspect_top elf0 = Inr 0x3000" "verify_elf X86_64 elf0 = Inr True"
    by code_simp+
  ultimately show ?thesis using elf_introspect_base_top [of elf0 eh0] by simp
qed



text \<open>C29. The search for the symbol of a program counter reads only inside the two tables, whatever they
  hold. The symbol it returns is a function symbol with the greatest address not above the counter; the
  counter lies inside it when its size is known, and its name is a terminated string of the table.
  Conversely a function symbol that covers the counter, is nearer to it than every other and has a
  terminated name is found.\<close>

theorem symbol_for_pc_nearest:
  "\<exists>r. symbol_for_pc symtab strtab pc = Inr r \<and>
    (\<forall>s. r = Some s \<longrightarrow> (\<exists>b. best_of pc (symbols_at symtab [0..<length symtab div 24]) (Some b) \<and>
       usable strtab pc b \<and> s = \<lparr>sr_name = unat (st_name b), sr_offset = pc - st_value b\<rparr>)) \<and>
    (\<forall>b. best_of pc (symbols_at symtab [0..<length symtab div 24]) (Some b) \<and>
       (\<forall>c \<in> symbols_at symtab [0..<length symtab div 24]. candidate pc c \<and> c \<noteq> b \<longrightarrow> st_value c < st_value b) \<and>
       usable strtab pc b \<longrightarrow> r = Some \<lparr>sr_name = unat (st_name b), sr_offset = pc - st_value b\<rparr>)"
  by (rule symbol_found)

definition symtab0 :: bytes where
  "symtab0 = [1, 0, 0, 0, 2, 0, 1, 0] @ [0, 0x10, 0, 0, 0, 0, 0, 0] @ [0x20, 0, 0, 0, 0, 0, 0, 0] @
     [3, 0, 0, 0, 2, 0, 1, 0] @ [0, 0x20, 0, 0, 0, 0, 0, 0] @ [0x20, 0, 0, 0, 0, 0, 0, 0]"

theorem symbol_for_pc_nearest_witness:
  "(\<exists>r. symbol_for_pc symtab0 [0, 0x66, 0, 0x67, 0] 0x2008 = Inr r) \<and>
   symbol_for_pc symtab0 [0, 0x66, 0, 0x67, 0] 0x2008 = Inr (Some \<lparr>sr_name = 3, sr_offset = 8\<rparr>) \<and>
   symbol_for_pc symtab0 [0, 0x66, 0, 0x67, 0] 0x1028 = Inr None"
proof -
  have "\<exists>r. symbol_for_pc symtab0 [0, 0x66, 0, 0x67, 0] 0x2008 = Inr r"
    using symbol_for_pc_nearest [of symtab0 "[0, 0x66, 0, 0x67, 0]" "0x2008"] by blast
  moreover have "symbol_for_pc symtab0 [0, 0x66, 0, 0x67, 0] 0x2008 = Inr (Some \<lparr>sr_name = 3, sr_offset = 8\<rparr>)"
    "symbol_for_pc symtab0 [0, 0x66, 0, 0x67, 0] 0x1028 = Inr None" by code_simp+
  ultimately show ?thesis by blast
qed

end
