(* ===== verification/PagingArch.thy ===== *)
theory PagingArch
  imports Elf LibMath
begin

unbundle bit_operations_syntax

text \<open>
  The page table entries of the three architectures, \<^verbatim>\<open>arch/x86_64/intrin/paging.h\<close>,
  \<^verbatim>\<open>arch/riscv64/intrin/paging.h\<close> and \<^verbatim>\<open>arch/loongarch64/intrin/paging.h\<close> (in its configuration with 4 KB
  pages), and the definitions of \<^verbatim>\<open>arch/generic/paging/paging.h\<close> they share. The header the build
  selects is the architecture of an \<open>mmu\<close>, next to the features found at boot. The locale \<open>pte_format\<close>
  is what the generic page table code relies on; it is interpreted for every architecture.
\<close>

section \<open>The generic definitions\<close>

text \<open>A single bit, \<^verbatim>\<open>1ull << n\<close>.\<close>

definition BIT :: "nat \<Rightarrow> 'a::len word" where
  "BIT n = push_bit n 1"

definition MMU_CONFIG_TOP_LEVEL :: "u32 \<Rightarrow> nat" where
  "MMU_CONFIG_TOP_LEVEL config = unat (config AND 7)"

definition MMU_CONFIG_L3_LEAF :: u32 where "MMU_CONFIG_L3_LEAF = BIT 6"
definition MMU_CONFIG_L2_LEAF :: u32 where "MMU_CONFIG_L2_LEAF = BIT 7"
definition MMU_CONFIG_NX :: u32 where "MMU_CONFIG_NX = BIT 8"

definition MMU_CONFIG_3LVL_PAGING :: u32 where "MMU_CONFIG_3LVL_PAGING = push_bit 3 1 OR 3"
definition MMU_CONFIG_4LVL_PAGING :: u32 where "MMU_CONFIG_4LVL_PAGING = push_bit 3 3 OR 4"
definition MMU_CONFIG_5LVL_PAGING :: u32 where "MMU_CONFIG_5LVL_PAGING = push_bit 3 7 OR 5"

definition PAGE_LEAF_LEVEL :: "u64 \<Rightarrow> nat" where
  "PAGE_LEAF_LEVEL attr = unat (attr AND 3) + 1"

definition PAGE_R :: u64 where "PAGE_R = BIT 2"
definition PAGE_W :: u64 where "PAGE_W = BIT 3"
definition PAGE_X :: u64 where "PAGE_X = BIT 4"
definition PAGE_U :: u64 where "PAGE_U = BIT 5"
definition PAGE_G :: u64 where "PAGE_G = BIT 6"
definition PAGE_UC :: u64 where "PAGE_UC = BIT 7"
definition PAGE_WC :: u64 where "PAGE_WC = BIT 8"

lemmas page_attrs = PAGE_R_def PAGE_W_def PAGE_X_def PAGE_U_def PAGE_G_def PAGE_UC_def PAGE_WC_def

text \<open>The expressions \<^verbatim>\<open>(x & m) ? a : b\<close> of the sources.\<close>

definition has :: "'a::len word \<Rightarrow> 'a word \<Rightarrow> bool" where
  "has x m \<longleftrightarrow> x AND m \<noteq> 0"

section \<open>x86-64\<close>

abbreviation (input) X86_PTE_MASK :: u64 where "X86_PTE_MASK \<equiv> 0x000ffffffffff000"
abbreviation (input) X86_LARGE_PTE_MASK :: u64 where "X86_LARGE_PTE_MASK \<equiv> 0x000fffffffffe000"

definition x86_64_intermediate :: "u64 \<Rightarrow> u64" where
  "x86_64_intermediate attr = BIT 0 OR BIT 1 OR (if has attr PAGE_U then BIT 2 else 0)"

definition x86_64_present :: "u64 \<Rightarrow> bool" where
  "x86_64_present pte \<longleftrightarrow> has pte (BIT 0)"

definition x86_64_is_leaf :: "u64 \<Rightarrow> nat \<Rightarrow> bool" where
  "x86_64_is_leaf pte level \<longleftrightarrow> level = 1 \<or> level \<le> 3 \<and> has pte (BIT 7)"

definition x86_64_encode :: "u64 \<Rightarrow> u64 \<Rightarrow> u64" where
  "x86_64_encode paddr flags = (paddr AND X86_PTE_MASK) OR flags"

definition x86_64_decode :: "u64 \<Rightarrow> u64" where
  "x86_64_decode pte = pte AND X86_PTE_MASK"

definition x86_64_decode_large :: "u64 \<Rightarrow> u64" where
  "x86_64_decode_large pte = pte AND X86_LARGE_PTE_MASK"

text \<open>The mode the boot loader chose and two processor features give the configuration.\<close>

definition x86_64_get_mmu_config :: "bool \<Rightarrow> bool \<Rightarrow> bool \<Rightarrow> u32" where
  "x86_64_get_mmu_config mode_5lvl has_1gb has_nx =
    MMU_CONFIG_L2_LEAF OR (if mode_5lvl then MMU_CONFIG_5LVL_PAGING else MMU_CONFIG_4LVL_PAGING) OR
    (if has_1gb then MMU_CONFIG_L3_LEAF else 0) OR (if has_nx then MMU_CONFIG_NX else 0)"

definition x86_64_prot_to_mmu_flags :: "u32 \<Rightarrow> u64 \<Rightarrow> u64" where
  "x86_64_prot_to_mmu_flags mmu_config attr =
    (let flags = BIT 0;
         flags = flags OR (if has attr PAGE_W then BIT 1 else 0);
         flags = flags OR (if has attr PAGE_U then BIT 2 else 0);
         flags = flags OR (if has attr PAGE_G then BIT 8 else 0);
         flags = flags OR (if has attr PAGE_UC then BIT 3 OR BIT 4 else 0);
         flags = flags OR (if has attr PAGE_WC then BIT 3 OR BIT 7 else 0)
     in if has mmu_config MMU_CONFIG_NX then flags OR (if has attr PAGE_X then 0 else BIT 63) else flags)"

definition x86_64_large_page_fixup :: "u64 \<Rightarrow> u64" where
  "x86_64_large_page_fixup flags =
    (let flags = (if has flags (BIT 7) then flags OR BIT 12 else flags) in flags OR BIT 7)"

definition x86_64_mmu_flags_to_prot :: "u64 \<Rightarrow> nat \<Rightarrow> u64" where
  "x86_64_mmu_flags_to_prot pte level =
    (let perm = 0;
         perm = perm OR (if has pte (BIT 0) then PAGE_R else 0);
         perm = perm OR (if has pte (BIT 1) then PAGE_W else 0);
         perm = perm OR (if has pte (BIT 2) then PAGE_U else 0);
         perm = perm OR (if has pte (BIT 63) then 0 else PAGE_X);
         perm = perm OR (if has pte (BIT 8) then PAGE_G else 0)
     in if level \<noteq> 1 then
          let perm = (if has pte (BIT 3) \<and> has pte (BIT 4) then perm OR PAGE_UC else perm)
          in if has pte (BIT 3) \<and> has pte (BIT 12) then perm OR PAGE_WC else perm
        else
          let perm = (if has pte (BIT 3) \<and> has pte (BIT 4) then perm OR PAGE_UC else perm)
          in if has pte (BIT 3) \<and> has pte (BIT 7) then perm OR PAGE_WC else perm)"

section \<open>RISC-V\<close>

abbreviation (input) RISCV_PTE_MASK :: u64 where "RISCV_PTE_MASK \<equiv> 0x003fffffffffc00"

definition riscv64_present :: "u64 \<Rightarrow> bool" where
  "riscv64_present pte \<longleftrightarrow> has pte (BIT 0)"

definition riscv64_is_leaf :: "u64 \<Rightarrow> nat \<Rightarrow> bool" where
  "riscv64_is_leaf pte level \<longleftrightarrow> level = 1 \<or> has pte (BIT 1 OR BIT 2 OR BIT 3)"

definition riscv64_encode :: "u64 \<Rightarrow> u64 \<Rightarrow> u64" where
  "riscv64_encode paddr flags = drop_bit 2 paddr OR flags"

definition riscv64_decode :: "u64 \<Rightarrow> u64" where
  "riscv64_decode pte = push_bit 2 (pte AND RISCV_PTE_MASK)"

datatype riscv_mode = SV39 | SV48 | SV57

definition riscv64_get_mmu_config :: "riscv_mode \<Rightarrow> u32" where
  "riscv64_get_mmu_config mode = MMU_CONFIG_L2_LEAF OR MMU_CONFIG_L3_LEAF OR MMU_CONFIG_NX OR
    (case mode of SV57 \<Rightarrow> MMU_CONFIG_5LVL_PAGING | SV48 \<Rightarrow> MMU_CONFIG_4LVL_PAGING | SV39 \<Rightarrow> MMU_CONFIG_3LVL_PAGING)"

definition riscv64_prot_to_mmu_flags :: "u64 \<Rightarrow> u64" where
  "riscv64_prot_to_mmu_flags attr =
    (let flags = BIT 6 OR BIT 7 OR BIT 0 OR BIT 1;
         flags = flags OR (if has attr PAGE_W then BIT 2 OR BIT 1 else 0);
         flags = flags OR (if has attr PAGE_X then BIT 3 else 0);
         flags = flags OR (if has attr PAGE_U then BIT 4 else 0)
     in flags OR (if has attr PAGE_G then BIT 5 else 0))"

definition riscv64_mmu_flags_to_prot :: "u64 \<Rightarrow> nat \<Rightarrow> u64" where
  "riscv64_mmu_flags_to_prot pte level =
    (if \<not> has pte (BIT 0) then 0 else
     let perm = 0;
         perm = perm OR (if has pte (BIT 1) then PAGE_R else 0);
         perm = perm OR (if has pte (BIT 2) then PAGE_W else 0);
         perm = perm OR (if has pte (BIT 3) then PAGE_X else 0);
         perm = perm OR (if has pte (BIT 4) then PAGE_U else 0)
     in perm OR (if has pte (BIT 5) then PAGE_G else 0))"

definition riscv64_satp :: "u32 \<Rightarrow> u64 \<Rightarrow> u64 result" where
  "riscv64_satp mmu_config page_table =
    (let level = MMU_CONFIG_TOP_LEVEL mmu_config in
     ebind (if level = 3 then Inr 8 else if level = 4 then Inr 9 else if level = 5 then Inr 10 else Inl Undefined)
       (\<lambda>mode. Inr (push_bit 60 mode OR drop_bit 12 page_table)))"

section \<open>LoongArch\<close>

abbreviation (input) LA_PTE_MASK :: u64 where "LA_PTE_MASK \<equiv> 0x000ffffffffff000"
abbreviation (input) LA_LARGE_PTE_MASK :: u64 where "LA_LARGE_PTE_MASK \<equiv> 0x000fffffffffe000"

definition loongarch64_present :: "u64 \<Rightarrow> bool" where
  "loongarch64_present pte \<longleftrightarrow> pte \<noteq> 0"

definition loongarch64_is_leaf :: "u64 \<Rightarrow> nat \<Rightarrow> bool" where
  "loongarch64_is_leaf pte level \<longleftrightarrow> level = 1 \<or> level \<le> 3 \<and> has pte (BIT 6)"

definition loongarch64_encode :: "u64 \<Rightarrow> u64 \<Rightarrow> u64" where
  "loongarch64_encode paddr flags = (paddr AND LA_PTE_MASK) OR flags"

definition loongarch64_decode :: "u64 \<Rightarrow> u64" where
  "loongarch64_decode pte = pte AND LA_PTE_MASK"

definition loongarch64_decode_large :: "u64 \<Rightarrow> u64" where
  "loongarch64_decode_large pte = pte AND LA_LARGE_PTE_MASK"

text \<open>With 4 KB pages there are four levels; \<^verbatim>\<open>psavl\<close> is the register that lists the page sizes.\<close>

definition loongarch64_get_mmu_config :: "u64 \<Rightarrow> u32" where
  "loongarch64_get_mmu_config psavl = MMU_CONFIG_NX OR MMU_CONFIG_4LVL_PAGING OR
     (if has psavl (BIT 21) then MMU_CONFIG_L2_LEAF else 0) OR (if has psavl (BIT 30) then MMU_CONFIG_L3_LEAF else 0)"

definition loongarch64_prot_to_mmu_flags :: "u64 \<Rightarrow> u64" where
  "loongarch64_prot_to_mmu_flags attr =
    (let flags = BIT 0 OR BIT 7;
         flags = flags OR (if has attr PAGE_W then BIT 8 OR BIT 1 else 0);
         flags = flags OR (if has attr PAGE_X then 0 else BIT 62);
         flags = flags OR (if has attr PAGE_U then push_bit 2 3 else push_bit 2 0);
         flags = flags OR (if has attr PAGE_G then BIT 6 else 0);
         flags = flags OR (if has attr PAGE_UC then push_bit 4 0 else 0);
         flags = flags OR (if has attr PAGE_WC then push_bit 4 2 else 0)
     in flags OR (if \<not> has attr (PAGE_UC OR PAGE_WC) then push_bit 4 1 else 0))"

definition loongarch64_large_page_fixup :: "u64 \<Rightarrow> u64" where
  "loongarch64_large_page_fixup flags =
    (let flags = (if has flags (BIT 6) then flags OR BIT 12 else flags) in flags OR BIT 6)"

definition loongarch64_mmu_flags_to_prot :: "u64 \<Rightarrow> nat \<Rightarrow> u64" where
  "loongarch64_mmu_flags_to_prot pte level =
    (if \<not> has pte (BIT 0) then 0 else
     let perm = 0;
         perm = perm OR PAGE_R;
         perm = perm OR (if has pte (BIT 8) then PAGE_W else 0);
         perm = perm OR (if has pte (BIT 62) then 0 else PAGE_X);
         perm = perm OR (if drop_bit 2 pte AND 3 \<noteq> 0 then PAGE_U else 0);
         perm = (if level = 1 then perm OR (if has pte (BIT 6) then PAGE_G else 0)
                 else perm OR (if has pte (BIT 12) then PAGE_G else 0));
         mat = drop_bit 4 pte AND 3
     in if mat = 0 then perm OR PAGE_UC else if mat = 2 then perm OR PAGE_WC else perm)"

section \<open>The selected architecture\<close>

record mmu =
  mmu_arch :: arch
  mmu_config :: u32

definition ARCH_PTE_PRESENT :: "mmu \<Rightarrow> u64 \<Rightarrow> bool" where
  "ARCH_PTE_PRESENT A pte = (case mmu_arch A of X86_64 \<Rightarrow> x86_64_present pte | RISCV64 \<Rightarrow> riscv64_present pte
     | LOONGARCH64 \<Rightarrow> loongarch64_present pte)"

definition ARCH_PTE_IS_LEAF :: "mmu \<Rightarrow> u64 \<Rightarrow> nat \<Rightarrow> bool" where
  "ARCH_PTE_IS_LEAF A pte level = (case mmu_arch A of X86_64 \<Rightarrow> x86_64_is_leaf pte level
     | RISCV64 \<Rightarrow> riscv64_is_leaf pte level | LOONGARCH64 \<Rightarrow> loongarch64_is_leaf pte level)"

definition ARCH_ENCODE_PTE :: "mmu \<Rightarrow> u64 \<Rightarrow> u64 \<Rightarrow> u64" where
  "ARCH_ENCODE_PTE A paddr flags = (case mmu_arch A of X86_64 \<Rightarrow> x86_64_encode paddr flags
     | RISCV64 \<Rightarrow> riscv64_encode paddr flags | LOONGARCH64 \<Rightarrow> loongarch64_encode paddr flags)"

definition ARCH_DECODE_PTE :: "mmu \<Rightarrow> u64 \<Rightarrow> u64" where
  "ARCH_DECODE_PTE A pte = (case mmu_arch A of X86_64 \<Rightarrow> x86_64_decode pte | RISCV64 \<Rightarrow> riscv64_decode pte
     | LOONGARCH64 \<Rightarrow> loongarch64_decode pte)"

definition ARCH_DECODE_LARGE_PTE :: "mmu \<Rightarrow> u64 \<Rightarrow> u64" where
  "ARCH_DECODE_LARGE_PTE A pte = (case mmu_arch A of X86_64 \<Rightarrow> x86_64_decode_large pte | RISCV64 \<Rightarrow> riscv64_decode pte
     | LOONGARCH64 \<Rightarrow> loongarch64_decode_large pte)"

definition ARCH_INTERMEDIATE_MMU_FLAGS :: "mmu \<Rightarrow> u64 \<Rightarrow> u64" where
  "ARCH_INTERMEDIATE_MMU_FLAGS A attr = (case mmu_arch A of X86_64 \<Rightarrow> x86_64_intermediate attr | RISCV64 \<Rightarrow> BIT 0
     | LOONGARCH64 \<Rightarrow> 0)"

definition prot_to_mmu_flags :: "mmu \<Rightarrow> u64 \<Rightarrow> u64" where
  "prot_to_mmu_flags A attr = (case mmu_arch A of X86_64 \<Rightarrow> x86_64_prot_to_mmu_flags (mmu_config A) attr
     | RISCV64 \<Rightarrow> riscv64_prot_to_mmu_flags attr | LOONGARCH64 \<Rightarrow> loongarch64_prot_to_mmu_flags attr)"

definition mmu_flags_to_prot :: "mmu \<Rightarrow> u64 \<Rightarrow> nat \<Rightarrow> u64" where
  "mmu_flags_to_prot A pte level = (case mmu_arch A of X86_64 \<Rightarrow> x86_64_mmu_flags_to_prot pte level
     | RISCV64 \<Rightarrow> riscv64_mmu_flags_to_prot pte level | LOONGARCH64 \<Rightarrow> loongarch64_mmu_flags_to_prot pte level)"

definition arch_large_page_fixup :: "mmu \<Rightarrow> u64 \<Rightarrow> u64" where
  "arch_large_page_fixup A flags = (case mmu_arch A of X86_64 \<Rightarrow> x86_64_large_page_fixup flags | RISCV64 \<Rightarrow> flags
     | LOONGARCH64 \<Rightarrow> loongarch64_large_page_fixup flags)"

text \<open>The bit that splits the address space; on LoongArch it also depends on the width the processor reports.\<close>

definition vaddr_split_bit :: "mmu \<Rightarrow> u64 \<Rightarrow> nat result" where
  "vaddr_split_bit A cpucfg1 = (case mmu_arch A of
     LOONGARCH64 \<Rightarrow> let valen = unat (drop_bit 12 cpucfg1 AND 0xff) + 1 in kassert (valen \<ge> 39) (Inr (min (valen - 1) 47))
   | _ \<Rightarrow> Inr (MMU_CONFIG_TOP_LEVEL (mmu_config A) * 9 + 12 - 1))"

definition paging_get_vaddr_lower_half_top :: "nat \<Rightarrow> u64" where
  "paging_get_vaddr_lower_half_top split = BIT split - 1"

definition paging_get_vaddr_higher_half_base :: "nat \<Rightarrow> u64" where
  "paging_get_vaddr_higher_half_base split = 0 - BIT split"

section \<open>Single bits\<close>

lemma bit_BIT: "bit (BIT n :: 'a::len word) k \<longleftrightarrow> n = k \<and> k < LENGTH('a)"
  by (auto simp: BIT_def bit_simps)

lemma has_BIT: "n < LENGTH('a) \<Longrightarrow> has w (BIT n :: 'a::len word) \<longleftrightarrow> bit w n"
  unfolding has_def bit_eq_iff [of "w AND BIT n"] by (auto simp: bit_and_iff bit_BIT)

lemma has_or: "has w (a OR b) \<longleftrightarrow> has w a \<or> has w b"
  unfolding has_def bit_eq_iff [of "w AND _"] by (auto simp: bit_and_iff bit_or_iff)

lemma field2: "drop_bit n w AND 3 = 0 \<longleftrightarrow> \<not> bit w n \<and> \<not> bit w (n + 1)"
  "drop_bit n w AND 3 = 2 \<longleftrightarrow> \<not> bit w n \<and> bit w (n + 1)" for w :: u64
proof -
  have b: "bit (drop_bit n w AND 3) k \<longleftrightarrow> (k = 0 \<and> bit w n \<or> k = 1 \<and> bit w (n + 1))" for k
  proof -
    have "bit (3 :: u64) k \<longleftrightarrow> k = 0 \<or> k = 1"
      using bit_mask_iff [of 2 k, where 'a = u64] by (auto simp: mask_eq_exp_minus_1 less_Suc_eq numeral_2_eq_2)
    then show ?thesis by (auto simp: bit_and_iff bit_drop_bit_eq)
  qed
  have two: "bit (2 :: u64) k \<longleftrightarrow> k = 1" for k
    using bit_BIT [of 1 k, where 'a = 64] by (auto simp: BIT_def)
  show "drop_bit n w AND 3 = 0 \<longleftrightarrow> \<not> bit w n \<and> \<not> bit w (n + 1)"
    unfolding bit_eq_iff [of "drop_bit n w AND 3"] b by (auto dest: spec [of _ 0] spec [of _ "Suc 0"])
  show "drop_bit n w AND 3 = 2 \<longleftrightarrow> \<not> bit w n \<and> bit w (n + 1)"
    unfolding bit_eq_iff [of "drop_bit n w AND 3"] b two by (auto dest: spec [of _ 0] spec [of _ "Suc 0"])
qed

lemma mask_bits:
  "bit (0x000ffffffffff000 :: u64) k \<longleftrightarrow> 12 \<le> k \<and> k < 52"
  "bit (0x000fffffffffe000 :: u64) k \<longleftrightarrow> 13 \<le> k \<and> k < 52"
  "bit (0x003fffffffffc00 :: u64) k \<longleftrightarrow> 10 \<le> k \<and> k < 50"
proof -
  have m: "(0x000ffffffffff000 :: u64) = push_bit 12 (mask 40)" "(0x000fffffffffe000 :: u64) = push_bit 13 (mask 39)"
    "(0x003fffffffffc00 :: u64) = push_bit 10 (mask 40)"
    by (simp_all add: mask_eq_exp_minus_1 push_bit_eq_mult)
  show "bit (0x000ffffffffff000 :: u64) k \<longleftrightarrow> 12 \<le> k \<and> k < 52"
    "bit (0x000fffffffffe000 :: u64) k \<longleftrightarrow> 13 \<le> k \<and> k < 52" "bit (0x003fffffffffc00 :: u64) k \<longleftrightarrow> 10 \<le> k \<and> k < 50"
    unfolding m bit_push_bit_iff bit_mask_iff possible_bit_word by auto
qed

lemma has_attrs:
  "has attr PAGE_R \<longleftrightarrow> bit attr 2" "has attr PAGE_W \<longleftrightarrow> bit attr 3" "has attr PAGE_X \<longleftrightarrow> bit attr 4"
  "has attr PAGE_U \<longleftrightarrow> bit attr 5" "has attr PAGE_G \<longleftrightarrow> bit attr 6" "has attr PAGE_UC \<longleftrightarrow> bit attr 7"
  "has attr PAGE_WC \<longleftrightarrow> bit attr 8" "has cfg MMU_CONFIG_NX \<longleftrightarrow> bit cfg 8"
  by (simp_all add: page_attrs MMU_CONFIG_NX_def has_BIT)

lemma bit_attrs:
  "bit PAGE_R k \<longleftrightarrow> k = 2" "bit PAGE_W k \<longleftrightarrow> k = 3" "bit PAGE_X k \<longleftrightarrow> k = 4" "bit PAGE_U k \<longleftrightarrow> k = 5"
  "bit PAGE_G k \<longleftrightarrow> k = 6" "bit PAGE_UC k \<longleftrightarrow> k = 7" "bit PAGE_WC k \<longleftrightarrow> k = 8"
  by (auto simp: page_attrs bit_BIT)

lemma bit_if: "bit (if b then x else y) k \<longleftrightarrow> (if b then bit x k else bit y k)"
  by simp

lemma bit_small: "bit (push_bit 2 3 :: u64) k \<longleftrightarrow> k = 2 \<or> k = 3" "bit (push_bit 4 2 :: u64) k \<longleftrightarrow> k = 5"
  "bit (push_bit 4 1 :: u64) k \<longleftrightarrow> k = 4"
proof -
  have e: "(push_bit 2 3 :: u64) = BIT 2 OR BIT 3" "(push_bit 4 2 :: u64) = BIT 5" "(push_bit 4 1 :: u64) = BIT 4"
    by (simp_all add: BIT_def)
  show "bit (push_bit 2 3 :: u64) k \<longleftrightarrow> k = 2 \<or> k = 3" "bit (push_bit 4 2 :: u64) k \<longleftrightarrow> k = 5"
    "bit (push_bit 4 1 :: u64) k \<longleftrightarrow> k = 4" unfolding e by (auto simp: bit_or_iff bit_BIT)
qed

lemmas bits = bit_or_iff bit_and_iff bit_if bit_BIT bit_attrs has_attrs has_or bit_small

section \<open>The bits of the entries\<close>

lemma x86_64_flag_bits:
  "bit (x86_64_prot_to_mmu_flags cfg attr) k \<longleftrightarrow> k = 0 \<or> k = 1 \<and> bit attr 3 \<or> k = 2 \<and> bit attr 5 \<or>
     k = 3 \<and> (bit attr 7 \<or> bit attr 8) \<or> k = 4 \<and> bit attr 7 \<or> k = 7 \<and> bit attr 8 \<or> k = 8 \<and> bit attr 6 \<or>
     k = 63 \<and> bit cfg 8 \<and> \<not> bit attr 4"
proof (cases "k \<in> {0, 1, 2, 3, 4, 7, 8, 63}")
  case True
  then show ?thesis unfolding x86_64_prot_to_mmu_flags_def Let_def bits by (elim insertE emptyE) (simp_all add: has_BIT bits)
next
  case False
  then show ?thesis unfolding x86_64_prot_to_mmu_flags_def Let_def bits by (simp add: bits)
qed

lemma riscv64_flag_bits:
  "bit (riscv64_prot_to_mmu_flags attr) k \<longleftrightarrow> k \<in> {0, 1, 6, 7} \<or> k = 2 \<and> bit attr 3 \<or> k = 3 \<and> bit attr 4 \<or>
     k = 4 \<and> bit attr 5 \<or> k = 5 \<and> bit attr 6"
proof (cases "k \<in> {0, 1, 2, 3, 4, 5, 6, 7}")
  case True
  then show ?thesis unfolding riscv64_prot_to_mmu_flags_def Let_def bits by (elim insertE emptyE) (simp_all add: has_BIT bits)
next
  case False
  then show ?thesis unfolding riscv64_prot_to_mmu_flags_def Let_def bits by (simp add: bits)
qed

lemma loongarch64_flag_bits:
  "bit (loongarch64_prot_to_mmu_flags attr) k \<longleftrightarrow> k \<in> {0, 7} \<or> k \<in> {1, 8} \<and> bit attr 3 \<or> k = 62 \<and> \<not> bit attr 4 \<or>
     k \<in> {2, 3} \<and> bit attr 5 \<or> k = 6 \<and> bit attr 6 \<or> k = 5 \<and> bit attr 8 \<or> k = 4 \<and> \<not> bit attr 7 \<and> \<not> bit attr 8"
proof (cases "k \<in> {0, 1, 2, 3, 4, 5, 6, 7, 8, 62}")
  case True
  then show ?thesis unfolding loongarch64_prot_to_mmu_flags_def Let_def bits by (elim insertE emptyE) (simp_all add: has_BIT bits)
next
  case False
  then show ?thesis unfolding loongarch64_prot_to_mmu_flags_def Let_def bits by (simp add: bits)
qed

lemma fixup_bits:
  "bit (x86_64_large_page_fixup fl) k \<longleftrightarrow> bit fl k \<or> k = 12 \<and> bit fl 7 \<or> k = 7"
  "bit (loongarch64_large_page_fixup fl) k \<longleftrightarrow> bit fl k \<or> k = 12 \<and> bit fl 6 \<or> k = 6"
  unfolding x86_64_large_page_fixup_def loongarch64_large_page_fixup_def Let_def by (auto simp: bits has_BIT)

lemma x86_64_prot_bits:
  "bit (x86_64_mmu_flags_to_prot pte level) k \<longleftrightarrow> k = 2 \<and> bit pte 0 \<or> k = 3 \<and> bit pte 1 \<or> k = 5 \<and> bit pte 2 \<or>
     k = 4 \<and> \<not> bit pte 63 \<or> k = 6 \<and> bit pte 8 \<or> k = 7 \<and> bit pte 3 \<and> bit pte 4 \<or>
     k = 8 \<and> bit pte 3 \<and> bit pte (if level = 1 then 7 else 12)"
proof (cases "k \<in> {2, 3, 4, 5, 6, 7, 8}")
  case True
  then show ?thesis
    unfolding x86_64_mmu_flags_to_prot_def Let_def bits
    by (elim insertE emptyE) (simp_all add: has_BIT bits)
next
  case False
  then show ?thesis unfolding x86_64_mmu_flags_to_prot_def Let_def bits by (simp add: bits)
qed

lemma riscv64_prot_bits:
  "bit (riscv64_mmu_flags_to_prot pte level) k \<longleftrightarrow> bit pte 0 \<and> (k = 2 \<and> bit pte 1 \<or> k = 3 \<and> bit pte 2 \<or>
     k = 4 \<and> bit pte 3 \<or> k = 5 \<and> bit pte 4 \<or> k = 6 \<and> bit pte 5)"
proof (cases "k \<in> {2, 3, 4, 5, 6}")
  case True
  then show ?thesis
    unfolding riscv64_mmu_flags_to_prot_def Let_def bits
    by (elim insertE emptyE) (simp_all add: has_BIT bits)
next
  case False
  then show ?thesis unfolding riscv64_mmu_flags_to_prot_def Let_def bits by (simp add: bits)
qed

lemma loongarch64_prot_bits:
  "bit (loongarch64_mmu_flags_to_prot pte level) k \<longleftrightarrow> bit pte 0 \<and> (k = 2 \<or> k = 3 \<and> bit pte 8 \<or> k = 4 \<and> \<not> bit pte 62 \<or>
     k = 5 \<and> (bit pte 2 \<or> bit pte 3) \<or> k = 6 \<and> bit pte (if level = 1 then 6 else 12) \<or>
     k = 7 \<and> \<not> bit pte 4 \<and> \<not> bit pte 5 \<or> k = 8 \<and> \<not> bit pte 4 \<and> bit pte 5)"
proof (cases "k \<in> {2, 3, 4, 5, 6, 7, 8}")
  case True
  then show ?thesis
    unfolding loongarch64_mmu_flags_to_prot_def Let_def bits field2
    by (elim insertE emptyE) (simp_all add: has_BIT bits)
next
  case False
  then show ?thesis unfolding loongarch64_mmu_flags_to_prot_def Let_def bits by (simp add: bits)
qed

lemmas prot_bits = x86_64_prot_bits riscv64_prot_bits loongarch64_prot_bits

section \<open>What the generic code relies on\<close>

text \<open>The flags and the entry of a page that \<^verbatim>\<open>write_leaf\<close> writes at a level, and the address
  \<^verbatim>\<open>paging_get_paddr\<close> reads from it.\<close>

definition leaf_flags :: "mmu \<Rightarrow> nat \<Rightarrow> u64 \<Rightarrow> u64" where
  "leaf_flags A level attr =
    (let flags = prot_to_mmu_flags A attr in if level \<noteq> 1 then arch_large_page_fixup A flags else flags)"

definition leaf_entry :: "mmu \<Rightarrow> nat \<Rightarrow> u64 \<Rightarrow> u64 \<Rightarrow> u64" where
  "leaf_entry A level attr paddr = ARCH_ENCODE_PTE A paddr (leaf_flags A level attr)"

definition table_entry :: "mmu \<Rightarrow> u64 \<Rightarrow> u64 \<Rightarrow> u64" where
  "table_entry A attr paddr = ARCH_ENCODE_PTE A paddr (ARCH_INTERMEDIATE_MMU_FLAGS A attr)"

definition decode_leaf :: "mmu \<Rightarrow> nat \<Rightarrow> u64 \<Rightarrow> u64" where
  "decode_leaf A level pte = (if level = 1 then ARCH_DECODE_PTE A pte else ARCH_DECODE_LARGE_PTE A pte)"

text \<open>An address that is aligned to the size of an entry of a level and fits an entry.\<close>

definition frame_at :: "nat \<Rightarrow> u64 \<Rightarrow> bool" where
  "frame_at level p \<longleftrightarrow> (\<forall>k < 12 + 9 * (level - 1). \<not> bit p k) \<and> (\<forall>k \<ge> 52. \<not> bit p k)"

text \<open>The attributes that a mapping made with \<open>attr\<close> has: what the architecture cannot express is dropped
  or granted.\<close>

definition granted :: "mmu \<Rightarrow> u64 \<Rightarrow> u64" where
  "granted A attr = PAGE_R OR (attr AND (PAGE_W OR PAGE_U OR PAGE_G)) OR (case mmu_arch A of
     X86_64 \<Rightarrow> (if has (mmu_config A) MMU_CONFIG_NX then attr AND PAGE_X else PAGE_X) OR (attr AND (PAGE_UC OR PAGE_WC))
   | RISCV64 \<Rightarrow> attr AND PAGE_X
   | LOONGARCH64 \<Rightarrow> (attr AND PAGE_X) OR (if has attr PAGE_WC then PAGE_WC else attr AND PAGE_UC))"

lemma granted_bits:
  "bit (granted A attr) k \<longleftrightarrow> k = 2 \<or> k \<in> {3, 5, 6} \<and> bit attr k \<or>
     k = 4 \<and> (bit attr 4 \<or> mmu_arch A = X86_64 \<and> \<not> bit (mmu_config A) 8) \<or>
     k = 7 \<and> bit attr 7 \<and> (mmu_arch A = X86_64 \<or> mmu_arch A = LOONGARCH64 \<and> \<not> bit attr 8) \<or>
     k = 8 \<and> bit attr 8 \<and> mmu_arch A \<noteq> RISCV64"
  by (cases "mmu_arch A"; cases "k \<in> {2, 3, 4, 5, 6, 7, 8}"; (elim insertE emptyE)?) (simp_all add: granted_def bits)

locale pte_format =
  fixes present :: "u64 \<Rightarrow> bool" and is_leaf :: "u64 \<Rightarrow> nat \<Rightarrow> bool"
    and table :: "u64 \<Rightarrow> u64 \<Rightarrow> u64" and table_addr :: "u64 \<Rightarrow> u64"
    and leaf :: "nat \<Rightarrow> u64 \<Rightarrow> u64 \<Rightarrow> u64" and leaf_addr :: "nat \<Rightarrow> u64 \<Rightarrow> u64" and prot :: "u64 \<Rightarrow> nat \<Rightarrow> u64"
    and grant :: "u64 \<Rightarrow> u64"
  assumes zero_absent: "\<not> present 0"
    and table_present: "frame_at 1 p \<Longrightarrow> p \<noteq> 0 \<Longrightarrow> present (table attr p)"
    and table_no_leaf: "frame_at 1 p \<Longrightarrow> 1 < level \<Longrightarrow> \<not> is_leaf (table attr p) level"
    and table_addr: "frame_at 1 p \<Longrightarrow> table_addr (table attr p) = p"
    and leaf_present: "present (leaf level attr p)"
    and leaf_is_leaf: "0 < level \<Longrightarrow> level \<le> 3 \<Longrightarrow> is_leaf (leaf level attr p) level"
    and leaf_addr: "frame_at level p \<Longrightarrow> 0 < level \<Longrightarrow> level \<le> 3 \<Longrightarrow> leaf_addr level (leaf level attr p) = p"
    and leaf_prot: "frame_at level p \<Longrightarrow> 0 < level \<Longrightarrow> level \<le> 3 \<Longrightarrow> prot (leaf level attr p) level = grant attr"
    and grant_grant: "grant (grant attr) = grant attr"
    and level_1_leaf: "is_leaf e 1"
begin

text \<open>A page that is split into pages of the next level keeps its attributes.\<close>

lemma split_prot:
  "frame_at level p \<Longrightarrow> 1 < level \<Longrightarrow> level \<le> 3 \<Longrightarrow> frame_at (level - 1) q \<Longrightarrow>
   prot (leaf (level - 1) (prot (leaf level attr p) level) q) (level - 1) = prot (leaf level attr p) level"
  by (simp add: leaf_prot grant_grant)

end

lemma frame_atD: "frame_at level p \<Longrightarrow> k < 12 \<Longrightarrow> \<not> bit p k" "frame_at level p \<Longrightarrow> 52 \<le> k \<Longrightarrow> \<not> bit p k"
  "frame_at level p \<Longrightarrow> 1 < level \<Longrightarrow> k < 21 \<Longrightarrow> \<not> bit p k"
  by (auto simp: frame_at_def)

lemmas pte_ops = ARCH_PTE_PRESENT_def ARCH_PTE_IS_LEAF_def ARCH_ENCODE_PTE_def ARCH_DECODE_PTE_def ARCH_DECODE_LARGE_PTE_def
  ARCH_INTERMEDIATE_MMU_FLAGS_def prot_to_mmu_flags_def mmu_flags_to_prot_def arch_large_page_fixup_def

lemmas pte_defs = x86_64_present_def x86_64_is_leaf_def x86_64_encode_def x86_64_decode_def x86_64_decode_large_def
  x86_64_intermediate_def riscv64_present_def riscv64_is_leaf_def riscv64_encode_def riscv64_decode_def
  loongarch64_present_def loongarch64_is_leaf_def loongarch64_encode_def loongarch64_decode_def loongarch64_decode_large_def

lemma mask_frame: "frame_at 1 p \<Longrightarrow> p AND 0x000ffffffffff000 = p"
  unfolding bit_eq_iff [of "p AND _"] bit_and_iff mask_bits using frame_atD(1,2) [of 1 p] by (metis not_le)

lemma mask_roundtrip:
  assumes "frame_at level p"
  shows "\<forall>k \<ge> 12. k < 52 \<longrightarrow> \<not> bit fl k \<Longrightarrow> ((p AND 0x000ffffffffff000) OR fl) AND 0x000ffffffffff000 = p"
    and "1 < level \<Longrightarrow> \<forall>k \<ge> 13. k < 52 \<longrightarrow> \<not> bit fl k \<Longrightarrow> ((p AND 0x000ffffffffff000) OR fl) AND 0x000fffffffffe000 = p"
    and "\<forall>k \<ge> 10. k < 50 \<longrightarrow> \<not> bit fl k \<Longrightarrow> push_bit 2 ((drop_bit 2 p OR fl) AND 0x003fffffffffc00) = p"
proof -
  note p = frame_atD [OF assms]
  show "((p AND 0x000ffffffffff000) OR fl) AND 0x000ffffffffff000 = p" if "\<forall>k \<ge> 12. k < 52 \<longrightarrow> \<not> bit fl k"
    unfolding bit_eq_iff [of "_ AND _"] bit_and_iff bit_or_iff mask_bits using that p(1,2) by (metis not_le)
  show "((p AND 0x000ffffffffff000) OR fl) AND 0x000fffffffffe000 = p" if "1 < level" "\<forall>k \<ge> 13. k < 52 \<longrightarrow> \<not> bit fl k"
  proof -
    have "13 \<le> k \<and> k < 52" if "bit p k" for k
      using p(2) [of k] p(3) [of k] that \<open>1 < level\<close> by (cases "k < 21") (auto simp: not_less intro: leI)
    then show ?thesis unfolding bit_eq_iff [of "_ AND _"] bit_and_iff bit_or_iff mask_bits using that p(1,2) by (metis not_le)
  qed
  show "push_bit 2 ((drop_bit 2 p OR fl) AND 0x003fffffffffc00) = p" if "\<forall>k \<ge> 10. k < 50 \<longrightarrow> \<not> bit fl k"
  proof (rule bit_eqI)
    fix k
    have "bit p k \<longrightarrow> 12 \<le> k \<and> k < 52" using p(1,2) [of k] by (meson not_le)
    then show "bit (push_bit 2 ((drop_bit 2 p OR fl) AND 0x003fffffffffc00)) k \<longleftrightarrow> bit p k"
      unfolding bit_push_bit_iff bit_and_iff bit_or_iff mask_bits bit_drop_bit_eq possible_bit_word
      using that [rule_format, of "k - 2"] by (cases "2 \<le> k") (auto simp: le_iff_add)
  qed
qed

lemma decode_encode:
  assumes "frame_at level p"
  shows "\<forall>k \<ge> 12. k < 52 \<longrightarrow> \<not> bit fl k \<Longrightarrow> x86_64_decode (x86_64_encode p fl) = p"
    and "1 < level \<Longrightarrow> \<forall>k \<ge> 13. k < 52 \<longrightarrow> \<not> bit fl k \<Longrightarrow> x86_64_decode_large (x86_64_encode p fl) = p"
    and "\<forall>k \<ge> 10. k < 50 \<longrightarrow> \<not> bit fl k \<Longrightarrow> riscv64_decode (riscv64_encode p fl) = p"
    and "\<forall>k \<ge> 12. k < 52 \<longrightarrow> \<not> bit fl k \<Longrightarrow> loongarch64_decode (loongarch64_encode p fl) = p"
    and "1 < level \<Longrightarrow> \<forall>k \<ge> 13. k < 52 \<longrightarrow> \<not> bit fl k \<Longrightarrow> loongarch64_decode_large (loongarch64_encode p fl) = p"
  unfolding pte_defs by (rule mask_roundtrip [OF assms]; assumption)+

lemma table_entry_facts:
  assumes "frame_at 1 p"
  shows "p \<noteq> 0 \<Longrightarrow> ARCH_PTE_PRESENT A (table_entry A attr p)"
    and "1 < level \<Longrightarrow> \<not> ARCH_PTE_IS_LEAF A (table_entry A attr p) level"
    and "ARCH_DECODE_PTE A (table_entry A attr p) = p"
proof -
  note p = frame_atD(1,2) [OF assms] and m = mask_frame [OF assms]
  show "ARCH_PTE_PRESENT A (table_entry A attr p)" if "p \<noteq> 0"
    using that m by (cases "mmu_arch A") (simp_all add: pte_ops pte_defs table_entry_def bits has_BIT)
  show "\<not> ARCH_PTE_IS_LEAF A (table_entry A attr p) level" if "1 < level"
    using that p by (cases "mmu_arch A") (simp_all add: pte_ops pte_defs table_entry_def bits has_BIT bit_drop_bit_eq)
  show "ARCH_DECODE_PTE A (table_entry A attr p) = p"
  proof (cases "mmu_arch A")
    case X86_64
    have "\<forall>k \<ge> 12. k < 52 \<longrightarrow> \<not> bit (x86_64_intermediate attr) k" by (simp add: x86_64_intermediate_def bits)
    then show ?thesis using X86_64 by (simp add: pte_ops table_entry_def decode_encode [OF assms])
  next
    case RISCV64
    have "\<forall>k \<ge> 10. k < 50 \<longrightarrow> \<not> bit (BIT 0 :: u64) k" by (simp add: bits)
    then show ?thesis using RISCV64 by (simp add: pte_ops table_entry_def decode_encode [OF assms])
  next
    case LOONGARCH64
    then show ?thesis by (simp add: pte_ops table_entry_def decode_encode [OF assms])
  qed
qed

lemma leaf_flag_bits:
  "\<forall>k \<ge> 10. k < 50 \<longrightarrow> \<not> bit (riscv64_prot_to_mmu_flags attr) k"
  "\<forall>k \<ge> 12. k < 52 \<longrightarrow> \<not> bit (x86_64_prot_to_mmu_flags cfg attr) k"
  "\<forall>k \<ge> 12. k < 52 \<longrightarrow> \<not> bit (loongarch64_prot_to_mmu_flags attr) k"
  "\<forall>k \<ge> 13. k < 52 \<longrightarrow> \<not> bit (x86_64_large_page_fixup (x86_64_prot_to_mmu_flags cfg attr)) k"
  "\<forall>k \<ge> 13. k < 52 \<longrightarrow> \<not> bit (loongarch64_large_page_fixup (loongarch64_prot_to_mmu_flags attr)) k"
  by (auto simp: x86_64_flag_bits riscv64_flag_bits loongarch64_flag_bits fixup_bits)

lemma leaf_entry_addr:
  assumes "frame_at level p"
  shows "0 < level \<Longrightarrow> decode_leaf A level (leaf_entry A level attr p) = p"
  by (cases "mmu_arch A"; cases "level = 1")
    (simp_all add: pte_ops leaf_entry_def leaf_flags_def decode_leaf_def decode_encode [OF assms] leaf_flag_bits)

lemma leaf_entry_bits:
  assumes "frame_at level p" "0 < level"
  shows "mmu_arch A \<noteq> RISCV64 \<Longrightarrow> k < 12 \<or> 52 \<le> k \<Longrightarrow> bit (leaf_entry A level attr p) k \<longleftrightarrow> bit (leaf_flags A level attr) k"
    and "mmu_arch A \<noteq> RISCV64 \<Longrightarrow> 1 < level \<Longrightarrow> k = 12 \<Longrightarrow> bit (leaf_entry A level attr p) k \<longleftrightarrow> bit (leaf_flags A level attr) k"
    and "mmu_arch A = RISCV64 \<Longrightarrow> k < 10 \<Longrightarrow> bit (leaf_entry A level attr p) k \<longleftrightarrow> bit (leaf_flags A level attr) k"
proof -
  note p = frame_atD [OF assms(1)]
  show "bit (leaf_entry A level attr p) k \<longleftrightarrow> bit (leaf_flags A level attr) k" if "mmu_arch A \<noteq> RISCV64" "k < 12 \<or> 52 \<le> k"
    using that p(1,2) [of k] by (cases "mmu_arch A") (auto simp: leaf_entry_def pte_ops pte_defs bit_or_iff bit_and_iff)
  show "bit (leaf_entry A level attr p) k \<longleftrightarrow> bit (leaf_flags A level attr) k" if "mmu_arch A \<noteq> RISCV64" "1 < level" "k = 12"
    using that p(3) [of k] by (cases "mmu_arch A") (auto simp: leaf_entry_def pte_ops pte_defs bit_or_iff bit_and_iff)
  show "bit (leaf_entry A level attr p) k \<longleftrightarrow> bit (leaf_flags A level attr) k" if "mmu_arch A = RISCV64" "k < 10"
    using that p(1) [of "k + 2"] by (auto simp: leaf_entry_def pte_ops pte_defs bit_or_iff bit_drop_bit_eq)
qed

lemma leaf_entry_prot:
  assumes "frame_at level p" "0 < level"
  shows "mmu_flags_to_prot A (leaf_entry A level attr p) level = granted A attr"
proof (rule bit_eqI)
  fix k
  note b = leaf_entry_bits [OF assms, of A]
  show "bit (mmu_flags_to_prot A (leaf_entry A level attr p) level) k \<longleftrightarrow> bit (granted A attr) k"
    using assms(2) b
    by (cases "mmu_arch A"; cases "level = 1")
      (auto simp: pte_ops prot_bits granted_bits leaf_flags_def x86_64_flag_bits riscv64_flag_bits loongarch64_flag_bits fixup_bits)
qed

lemma leaf_entry_present: "ARCH_PTE_PRESENT A (leaf_entry A level attr p)"
proof -
  have "bit (leaf_flags A level attr) 0"
    by (cases "mmu_arch A"; cases "level = 1")
      (simp_all add: leaf_flags_def pte_ops x86_64_flag_bits riscv64_flag_bits loongarch64_flag_bits fixup_bits del: bit_0)
  then have "bit (leaf_entry A level attr p) 0"
    by (cases "mmu_arch A") (simp_all add: leaf_entry_def pte_ops pte_defs bit_or_iff del: bit_0)
  moreover from this have "leaf_entry A level attr p \<noteq> 0" by (metis bit_0_eq bot_apply bot_bool_def)
  ultimately show ?thesis
    by (cases "mmu_arch A") (simp_all add: ARCH_PTE_PRESENT_def x86_64_present_def riscv64_present_def loongarch64_present_def has_BIT del: bit_0)
qed

lemma leaf_entry_is_leaf: "0 < level \<Longrightarrow> level \<le> 3 \<Longrightarrow> ARCH_PTE_IS_LEAF A (leaf_entry A level attr p) level"
  by (cases "mmu_arch A"; cases "level = 1")
    (simp_all add: leaf_entry_def leaf_flags_def pte_ops pte_defs has_BIT has_or bit_or_iff riscv64_flag_bits fixup_bits)

lemma granted_granted: "granted A (granted A attr) = granted A attr"
  by (rule bit_eqI) (auto simp: granted_bits)

interpretation pte: pte_format "ARCH_PTE_PRESENT A" "ARCH_PTE_IS_LEAF A" "table_entry A" "ARCH_DECODE_PTE A" "leaf_entry A"
  "decode_leaf A" "mmu_flags_to_prot A" "granted A" for A
proof unfold_locales
  show "\<not> ARCH_PTE_PRESENT A 0"
    by (cases "mmu_arch A") (simp_all add: ARCH_PTE_PRESENT_def x86_64_present_def riscv64_present_def loongarch64_present_def has_def)
  show "ARCH_PTE_IS_LEAF A e 1" for e
    by (cases "mmu_arch A") (simp_all add: ARCH_PTE_IS_LEAF_def x86_64_is_leaf_def riscv64_is_leaf_def loongarch64_is_leaf_def)
qed (simp_all add: table_entry_facts leaf_entry_present leaf_entry_is_leaf leaf_entry_addr leaf_entry_prot granted_granted)

section \<open>Properties\<close>



end
