(* ===== verification/BootMem.thy ===== *)
theory BootMem
  imports Buddy
begin

unbundle bit_operations_syntax

text \<open>
  Memory before the page allocator runs: the memory map the boot loader hands over
  (\<^verbatim>\<open>utils/limine.c\<close>, \<^verbatim>\<open>mem/memmap.c\<close>), the boot allocator of \<^verbatim>\<open>mem/balloc.c\<close> and the pages of \<^verbatim>\<open>mem/pmm.h\<close>.
  The memory map itself is the boot loader's and an argument. Physical memory is a function from the
  address of a 64-bit word to its value, which is how page tables are read and written. The theory
  shows that the boot allocator hands out every page at most once and only usable memory.
\<close>

section \<open>The memory map\<close>

datatype memmap_type = MEMMAP_USABLE | MEMMAP_RESERVED | MEMMAP_ACPI_RECLAIMABLE | MEMMAP_ACPI_NVS | MEMMAP_BAD_MEMORY
  | MEMMAP_BOOTLOADER_RECLAIMABLE | MEMMAP_EXECUTABLE_AND_MODULES | MEMMAP_FRAMEBUFFER | MEMMAP_RESERVED_MAPPED

record memmap_entry =
  mm_base :: u64
  mm_length :: u64
  mm_type :: memmap_type

type_synonym memmap = "memmap_entry list"

type_synonym pmem = "u64 \<Rightarrow> u64"

fun memmap_end_loop :: "memmap \<Rightarrow> u64 \<Rightarrow> u64" where
  "memmap_end_loop [] memmap_end = memmap_end"
| "memmap_end_loop (e # es) memmap_end =
    (if mm_type e = MEMMAP_RESERVED then memmap_end_loop es memmap_end
     else if mm_type e = MEMMAP_BAD_MEMORY then memmap_end_loop es memmap_end
     else let entry_end = mm_base e + mm_length e
       in memmap_end_loop es (if entry_end > memmap_end then entry_end else memmap_end))"

definition memmap_last_paddr :: "memmap \<Rightarrow> u64" where
  "memmap_last_paddr mm = ALIGN_UP (memmap_end_loop mm 0) PAGE_SIZE"

text \<open>The two sums that \<^verbatim>\<open>memmap_print\<close> reports, before they are scaled to megabytes.\<close>

fun memmap_usable :: "memmap \<Rightarrow> u64 \<times> u64 \<Rightarrow> u64 \<times> u64" where
  "memmap_usable [] (pre, post) = (pre, post)"
| "memmap_usable (e # es) (pre, post) = memmap_usable es (case mm_type e of
     MEMMAP_USABLE \<Rightarrow> (pre + mm_length e, post + mm_length e)
   | MEMMAP_BOOTLOADER_RECLAIMABLE \<Rightarrow> (pre, post + mm_length e)
   | MEMMAP_ACPI_RECLAIMABLE \<Rightarrow> (pre, post + mm_length e)
   | _ \<Rightarrow> (pre, post))"

section \<open>Pages\<close>

text \<open>\<^verbatim>\<open>memset\<close> of a whole page through the direct map.\<close>

definition zero_page :: "u64 \<Rightarrow> pmem \<Rightarrow> pmem" where
  "zero_page paddr m = (\<lambda>a. if unat (a - paddr) < 4096 then 0 else m a)"

definition pmm_alloc_page :: "u64 \<Rightarrow> pmem \<times> buddy \<Rightarrow> (u64 \<times> pmem \<times> buddy) result" where
  "pmm_alloc_page hhdm s = (case s of (m, pmm) \<Rightarrow>
     ebind (buddy_allocate hhdm 0 ALLOC_FLAG_NOFAIL pmm) (\<lambda>(paddr, pmm). Inr (paddr, zero_page paddr m, pmm)))"

definition pmm_free_page :: "u64 \<Rightarrow> u64 \<Rightarrow> buddy \<Rightarrow> buddy result" where
  "pmm_free_page hhdm paddr pmm = buddy_free hhdm paddr 0 pmm"

section \<open>The boot allocator\<close>

record balloc =
  balloc_entry :: nat
  balloc_offset :: u64
  balloc_last_addr :: u64

function balloc_alloc_page :: "memmap \<Rightarrow> balloc \<times> pmem \<Rightarrow> (u64 \<times> balloc \<times> pmem) result" where
  "balloc_alloc_page mm (b, m) =
    (if balloc_entry b < length mm then
       let entry = mm ! balloc_entry b in
       if mm_type entry \<noteq> MEMMAP_USABLE
       then balloc_alloc_page mm (b\<lparr>balloc_entry := balloc_entry b + 1, balloc_offset := 0\<rparr>, m)
       else
         let aligned_start = max (ALIGN_UP (mm_base entry) PAGE_SIZE) 0x100000;
             aligned_end = ALIGN_DOWN (mm_base entry + mm_length entry) PAGE_SIZE;
             offset = (if balloc_offset b = 0 then aligned_start - mm_base entry else balloc_offset b)
         in if mm_base entry + offset + PAGE_SIZE \<le> aligned_end then
              let paddr = mm_base entry + offset
              in Inr (paddr, b\<lparr>balloc_offset := offset + PAGE_SIZE, balloc_last_addr := paddr\<rparr>, zero_page paddr m)
            else balloc_alloc_page mm (b\<lparr>balloc_entry := balloc_entry b + 1, balloc_offset := 0\<rparr>, m)
     else Inl Panicked)"
  by pat_completeness auto
termination
  by (relation "measure (\<lambda>(mm, b, m). length mm - balloc_entry b)") auto

declare balloc_alloc_page.simps [simp del]

fun balloc_pages :: "memmap \<Rightarrow> nat \<Rightarrow> balloc \<times> pmem \<Rightarrow> (u64 list \<times> balloc \<times> pmem) result" where
  "balloc_pages mm 0 s = Inr ([], s)"
| "balloc_pages mm (Suc n) s = ebind (balloc_alloc_page mm s) (\<lambda>(p, s).
     ebind (balloc_pages mm n s) (\<lambda>(ps, s). Inr (p # ps, s)))"

section \<open>What the boot allocator hands out\<close>

text \<open>A memory map whose entries lie below the end of physical addresses and whose usable entries do not overlap.\<close>

definition entry_frames :: "memmap_entry \<Rightarrow> nat set" where
  "entry_frames e = {unat (mm_base e) ..< unat (mm_base e) + unat (mm_length e)}"

definition memmap_ok :: "memmap \<Rightarrow> bool" where
  "memmap_ok mm \<longleftrightarrow> (\<forall>i < length mm. unat (mm_base (mm ! i)) + unat (mm_length (mm ! i)) < 2 ^ 52) \<and>
    (\<forall>i < length mm. \<forall>j < length mm. i \<noteq> j \<longrightarrow> mm_type (mm ! i) = MEMMAP_USABLE \<longrightarrow> mm_type (mm ! j) = MEMMAP_USABLE \<longrightarrow>
      entry_frames (mm ! i) \<inter> entry_frames (mm ! j) = {})"

text \<open>The page lies in usable memory above the first megabyte, in the entry the allocator is at or a later one,
  and not below the position it has reached there.\<close>

definition ahead :: "memmap \<Rightarrow> balloc \<Rightarrow> u64 \<Rightarrow> bool" where
  "ahead mm b p \<longleftrightarrow> 4096 dvd unat p \<and> 0x100000 \<le> unat p \<and> (\<exists>i < length mm. balloc_entry b \<le> i \<and>
     mm_type (mm ! i) = MEMMAP_USABLE \<and> {unat p ..< unat p + 4096} \<subseteq> entry_frames (mm ! i) \<and>
     (i = balloc_entry b \<longrightarrow> unat (mm_base (mm ! i)) + unat (balloc_offset b) \<le> unat p))"

text \<open>The position in the current entry is where the next page starts.\<close>

definition balloc_ok :: "memmap \<Rightarrow> balloc \<Rightarrow> bool" where
  "balloc_ok mm b \<longleftrightarrow> (balloc_entry b < length mm \<longrightarrow> balloc_offset b \<noteq> 0 \<longrightarrow>
     (let e = mm ! balloc_entry b in 4096 dvd unat (mm_base e) + unat (balloc_offset b) \<and>
        0x100000 \<le> unat (mm_base e) + unat (balloc_offset b) \<and>
        unat (mm_base e) + unat (balloc_offset b) \<le> unat (mm_base e) + unat (mm_length e)))"

text \<open>The position in entry \<open>e\<close> from which a page would be taken.\<close>

definition start_of :: "memmap_entry \<Rightarrow> u64 \<Rightarrow> u64" where
  "start_of e offset = mm_base e + (if offset = 0 then max (ALIGN_UP (mm_base e) PAGE_SIZE) 0x100000 - mm_base e else offset)"

lemma unat_align_page: "unat x + 4095 < 2 ^ 64 \<Longrightarrow> unat (ALIGN_UP x 0x1000) = (unat x + 4095) div 4096 * 4096"
  "unat (ALIGN_DOWN x 0x1000) = unat x div 4096 * 4096"
  using unat_ALIGN_UP [of 12 x] unat_ALIGN_DOWN [of 12 x] by simp_all

lemma start_of_unat:
  assumes "unat (mm_base e) + unat (mm_length e) < 2 ^ 52" "offset \<noteq> 0 \<longrightarrow> unat (mm_base e) + unat offset \<le> unat (mm_base e) + unat (mm_length e)"
    "offset \<noteq> 0 \<longrightarrow> 4096 dvd unat (mm_base e) + unat offset \<and> 0x100000 \<le> unat (mm_base e) + unat offset"
  shows "4096 dvd unat (start_of e offset)" "0x100000 \<le> unat (start_of e offset)" "unat (start_of e offset) < 2 ^ 52 + 4096"
    "unat (mm_base e) + unat offset \<le> unat (start_of e offset)"
    "unat (start_of e offset) = unat (mm_base e) + unat (start_of e offset - mm_base e)"
proof -
  let ?s = "max (ALIGN_UP (mm_base e) 0x1000) 0x100000"
  have u: "unat (ALIGN_UP (mm_base e) 0x1000) = (unat (mm_base e) + 4095) div 4096 * 4096"
    using assms(1) by (intro unat_align_page) simp
  have m: "unat ?s = max ((unat (mm_base e) + 4095) div 4096 * 4096) 0x100000"
    unfolding max_def word_le_nat_alt u by (simp add: u)
  have b: "unat (mm_base e) \<le> (unat (mm_base e) + 4095) div 4096 * 4096"
    "(unat (mm_base e) + 4095) div 4096 * 4096 \<le> unat (mm_base e) + 4095" by linarith+
  have le: "mm_base e \<le> ?s" unfolding word_le_nat_alt m using b by linarith
  have s: "unat (start_of e offset) = (if offset = 0 then unat ?s else unat (mm_base e) + unat offset)"
  proof (cases "offset = 0")
    case True
    then have "start_of e offset = ?s" by (simp add: start_of_def algebra_simps)
    then show ?thesis using True by simp
  qed (use assms(1,2) in \<open>simp add: start_of_def unat_word_ariths\<close>)
  show "4096 dvd unat (start_of e offset)" unfolding s m using assms(3) by (auto simp: max_def)
  show "0x100000 \<le> unat (start_of e offset)" unfolding s m using assms(3) by auto
  show "unat (start_of e offset) < 2 ^ 52 + 4096" unfolding s m using assms(1,2) b by auto
  show l: "unat (mm_base e) + unat offset \<le> unat (start_of e offset)" unfolding s m using b by auto
  show "unat (start_of e offset) = unat (mm_base e) + unat (start_of e offset - mm_base e)"
    using l by (simp add: unat_sub word_le_nat_alt)
qed

lemma balloc_unfold:
  "balloc_alloc_page mm (b, m) = (if balloc_entry b < length mm then
     let e = mm ! balloc_entry b; p = start_of e (balloc_offset b) in
     if mm_type e = MEMMAP_USABLE \<and> p + PAGE_SIZE \<le> ALIGN_DOWN (mm_base e + mm_length e) PAGE_SIZE
     then Inr (p, b\<lparr>balloc_offset := p - mm_base e + PAGE_SIZE, balloc_last_addr := p\<rparr>, zero_page p m)
     else balloc_alloc_page mm (b\<lparr>balloc_entry := balloc_entry b + 1, balloc_offset := 0\<rparr>, m)
   else Inl Panicked)"
  by (subst balloc_alloc_page.simps) (auto simp: Let_def start_of_def)

lemma ahead_skip:
  assumes "ahead mm (b\<lparr>balloc_entry := balloc_entry b + 1, balloc_offset := 0\<rparr>) p"
  shows "ahead mm b p"
proof -
  from assms obtain i where "i < length mm" "Suc (balloc_entry b) \<le> i" "mm_type (mm ! i) = MEMMAP_USABLE"
    "{unat p..<unat p + 4096} \<subseteq> entry_frames (mm ! i)" by (auto simp: ahead_def)
  moreover from this have "balloc_entry b \<le> i" "i \<noteq> balloc_entry b" by simp_all
  ultimately show ?thesis using assms unfolding ahead_def by blast
qed

lemma balloc_step:
  assumes "memmap_ok mm" "balloc_ok mm b" "balloc_entry b < length mm" "e = mm ! balloc_entry b" "p = start_of e (balloc_offset b)"
    "mm_type e = MEMMAP_USABLE" "p + PAGE_SIZE \<le> ALIGN_DOWN (mm_base e + mm_length e) PAGE_SIZE"
    "b' = b\<lparr>balloc_offset := p - mm_base e + PAGE_SIZE, balloc_last_addr := p\<rparr>"
  shows "ahead mm b p \<and> balloc_ok mm b' \<and> (\<forall>q. ahead mm b' q \<longrightarrow> ahead mm b q \<and> {unat q..<unat q + 4096} \<inter> {unat p..<unat p + 4096} = {})"
proof -
  have fit: "unat (mm_base e) + unat (mm_length e) < 2 ^ 52" using assms(1,3,4) by (auto simp: memmap_ok_def)
  note s = start_of_unat [OF fit, of "balloc_offset b", folded assms(5)]
  have "balloc_offset b \<noteq> 0 \<longrightarrow> unat (mm_base e) + unat (balloc_offset b) \<le> unat (mm_base e) + unat (mm_length e)"
    "balloc_offset b \<noteq> 0 \<longrightarrow> 4096 dvd unat (mm_base e) + unat (balloc_offset b) \<and> 0x100000 \<le> unat (mm_base e) + unat (balloc_offset b)"
    using assms(2,3,4) by (auto simp: balloc_ok_def Let_def)
  note s = s [OF this]
  have "unat (p + PAGE_SIZE) = unat p + 4096" using s(3) by (simp add: unat_word_ariths)
  moreover have "unat (mm_base e + mm_length e) = unat (mm_base e) + unat (mm_length e)" using fit by (simp add: unat_word_ariths)
  ultimately have le: "unat p + 4096 \<le> (unat (mm_base e) + unat (mm_length e)) div 4096 * 4096"
    using assms(7) by (simp add: word_le_nat_alt unat_align_page)
  then have le': "unat p + 4096 \<le> unat (mm_base e) + unat (mm_length e)" by linarith
  have "unat (p - mm_base e + PAGE_SIZE) = unat (p - mm_base e) + 4096"
    using s(3,5) by (subst unat_add_no_wrap) simp_all
  then have pos: "unat (mm_base e) + unat (p - mm_base e + PAGE_SIZE) = unat p + 4096" using s(5) by simp
  have sub: "{unat p..<unat p + 4096} \<subseteq> entry_frames e" using le' s(5) by (auto simp: entry_frames_def)
  have a: "ahead mm b p" unfolding ahead_def using s assms(3,4,6) sub by (intro conjI exI [of _ "balloc_entry b"]) auto
  moreover have "4096 dvd unat p + 4096" using s(1) by (rule dvd_add) simp
  then have "4096 dvd unat (mm_base e) + unat (p - mm_base e + PAGE_SIZE) \<and> 0x100000 \<le> unat (mm_base e) + unat (p - mm_base e + PAGE_SIZE) \<and>
      unat (mm_base e) + unat (p - mm_base e + PAGE_SIZE) \<le> unat (mm_base e) + unat (mm_length e)"
    unfolding pos using s(2) le' by linarith
  then have "balloc_ok mm b'" by (simp add: balloc_ok_def Let_def assms(8) flip: assms(4))
  moreover have "ahead mm b q \<and> {unat q..<unat q + 4096} \<inter> {unat p..<unat p + 4096} = {}" if q: "ahead mm b' q" for q
  proof -
    obtain i where i: "i < length mm" "balloc_entry b \<le> i" "mm_type (mm ! i) = MEMMAP_USABLE"
        "{unat q..<unat q + 4096} \<subseteq> entry_frames (mm ! i)"
        "i = balloc_entry b \<longrightarrow> unat p + 4096 \<le> unat q"
    proof -
      from q obtain i where "i < length mm" "balloc_entry b \<le> i" "mm_type (mm ! i) = MEMMAP_USABLE"
        "{unat q..<unat q + 4096} \<subseteq> entry_frames (mm ! i)"
        "i = balloc_entry b \<longrightarrow> unat (mm_base (mm ! i)) + unat (p - mm_base e + PAGE_SIZE) \<le> unat q"
        by (auto simp: ahead_def assms(8))
      then show ?thesis using pos assms(4) that [of i] by simp
    qed
    have "ahead mm b q" unfolding ahead_def using q i s(4) assms(4)
      by (intro conjI exI [of _ i]) (auto simp: ahead_def)
    moreover have "{unat q..<unat q + 4096} \<inter> {unat p..<unat p + 4096} = {}"
    proof (cases "i = balloc_entry b")
      case False
      then have "entry_frames (mm ! i) \<inter> entry_frames e = {}"
        using assms(1,3,4,6) i(1,3) by (auto simp: memmap_ok_def)
      then show ?thesis using i(4) sub by blast
    qed (use i(5) in auto)
    ultimately show ?thesis by blast
  qed
  ultimately show ?thesis by blast
qed

lemma balloc_alloc_page_fresh:
  assumes "memmap_ok mm" "balloc_ok mm b"
  shows "balloc_alloc_page mm (b, m) = Inl Panicked \<or>
    (\<exists>p b'. balloc_alloc_page mm (b, m) = Inr (p, b', zero_page p m) \<and> ahead mm b p \<and> balloc_ok mm b' \<and>
      (\<forall>q. ahead mm b' q \<longrightarrow> ahead mm b q \<and> {unat q..<unat q + 4096} \<inter> {unat p..<unat p + 4096} = {}))"
  using assms(2)
proof (induction "length mm - balloc_entry b" arbitrary: b rule: less_induct)
  case less
  let ?e = "mm ! balloc_entry b" and ?n = "b\<lparr>balloc_entry := balloc_entry b + 1, balloc_offset := 0\<rparr>"
  let ?p = "start_of ?e (balloc_offset b)"
  show ?case
  proof (cases "balloc_entry b < length mm \<and> mm_type ?e = MEMMAP_USABLE \<and> ?p + PAGE_SIZE \<le> ALIGN_DOWN (mm_base ?e + mm_length ?e) PAGE_SIZE")
    case True
    then have "balloc_alloc_page mm (b, m) =
        Inr (?p, b\<lparr>balloc_offset := ?p - mm_base ?e + PAGE_SIZE, balloc_last_addr := ?p\<rparr>, zero_page ?p m)"
      by (subst balloc_unfold) (simp add: Let_def)
    then show ?thesis using balloc_step [OF assms(1) less.prems _ refl refl _ _ refl] True by blast
  next
    case False
    show ?thesis
    proof (cases "balloc_entry b < length mm")
      case True
      then have "balloc_alloc_page mm (b, m) = balloc_alloc_page mm (?n, m)" using False by (subst balloc_unfold) (auto simp: Let_def)
      moreover have "balloc_ok mm ?n" "length mm - balloc_entry ?n < length mm - balloc_entry b"
        using True by (simp_all add: balloc_ok_def)
      note less.hyps [OF this(2,1)]
      ultimately show ?thesis using ahead_skip [of mm b] by (elim disjE exE conjE) (simp, metis)
    qed (subst balloc_unfold, simp)
  qed
qed

text \<open>The words of two addresses are different pages when their byte ranges are apart.\<close>

definition disjoint_pages :: "u64 list \<Rightarrow> bool" where
  "disjoint_pages ps \<longleftrightarrow> (\<forall>i < length ps. \<forall>j < length ps. i \<noteq> j \<longrightarrow>
     {unat (ps ! i)..<unat (ps ! i) + 4096} \<inter> {unat (ps ! j)..<unat (ps ! j) + 4096} = {})"

lemma disjoint_pages_Cons:
  "disjoint_pages (p # ps) \<longleftrightarrow> disjoint_pages ps \<and>
     (\<forall>q \<in> set ps. {unat q..<unat q + 4096} \<inter> {unat p..<unat p + 4096} = {})"
proof -
  have "disjoint_pages (p # ps) \<longleftrightarrow> (\<forall>i < length ps. \<forall>j < length ps. i \<noteq> j \<longrightarrow>
      {unat (ps ! i)..<unat (ps ! i) + 4096} \<inter> {unat (ps ! j)..<unat (ps ! j) + 4096} = {}) \<and>
      (\<forall>i < length ps. {unat (ps ! i)..<unat (ps ! i) + 4096} \<inter> {unat p..<unat p + 4096} = {})"
    unfolding disjoint_pages_def by (simp only: length_Cons All_less_Suc2 nth_Cons_0 nth_Cons_Suc) blast
  then show ?thesis by (simp only: disjoint_pages_def all_set_conv_all_nth)
qed

section \<open>Properties\<close>

text \<open>C32. As long as it has memory, the boot allocator hands out pages that are aligned, lie above the
  first megabyte inside usable entries of the memory map, and never overlap one another.\<close>

theorem balloc_pages_fresh:
  assumes "memmap_ok mm" "balloc_ok mm b" "balloc_pages mm n (b, m) = Inr (ps, b', m')"
  shows "length ps = n \<and> disjoint_pages ps \<and> (\<forall>p \<in> set ps. ahead mm b p)"
  using assms(2,3)
proof (induction n arbitrary: b m ps)
  case (Suc n)
  from balloc_alloc_page_fresh [OF assms(1) Suc.prems(1), of m] Suc.prems(2) obtain p b1 where p:
    "balloc_alloc_page mm (b, m) = Inr (p, b1, zero_page p m)" "ahead mm b p" "balloc_ok mm b1"
    "\<forall>q. ahead mm b1 q \<longrightarrow> ahead mm b q \<and> {unat q..<unat q + 4096} \<inter> {unat p..<unat p + 4096} = {}" by auto
  with Suc.prems(2) obtain qs where qs: "balloc_pages mm n (b1, zero_page p m) = Inr (qs, b', m')" "ps = p # qs"
    by (auto simp: ebind_Inr_iff)
  from Suc.IH [OF p(3) qs(1)] p(2,4) qs(2) show ?case by (simp add: disjoint_pages_Cons)
qed (simp add: disjoint_pages_def)

definition memmap0 :: memmap where
  "memmap0 = [\<lparr>mm_base = 0x1000, mm_length = 0x9E000, mm_type = MEMMAP_USABLE\<rparr>,
     \<lparr>mm_base = 0xF0000, mm_length = 0x10000, mm_type = MEMMAP_RESERVED\<rparr>,
     \<lparr>mm_base = 0x100800, mm_length = 0x2800, mm_type = MEMMAP_USABLE\<rparr>,
     \<lparr>mm_base = 0x200000, mm_length = 0x1000, mm_type = MEMMAP_USABLE\<rparr>]"

theorem balloc_pages_fresh_witness:
  "(case balloc_pages memmap0 3 (\<lparr>balloc_entry = 0, balloc_offset = 0, balloc_last_addr = 0\<rparr>, \<lambda>_. 0) of
     Inr (ps, _) \<Rightarrow> ps = [0x101000, 0x102000, 0x200000] \<and> disjoint_pages ps | Inl _ \<Rightarrow> False)"
proof -
  let ?b = "\<lparr>balloc_entry = 0, balloc_offset = 0, balloc_last_addr = 0\<rparr>"
  have "memmap_ok memmap0"
    unfolding memmap_ok_def memmap0_def by (auto simp: less_Suc_eq entry_frames_def)
  moreover have "balloc_ok memmap0 ?b" by (simp add: balloc_ok_def)
  moreover obtain s where "balloc_pages memmap0 3 (?b, \<lambda>_. 0) = Inr ([0x101000, 0x102000, 0x200000], s)"
  proof -
    have "(case balloc_pages memmap0 3 (?b, \<lambda>_. 0) of Inr (ps, _) \<Rightarrow> ps = [0x101000, 0x102000, 0x200000] | Inl _ \<Rightarrow> False)"
      by code_simp
    then show ?thesis using that by (auto split: sum.splits)
  qed
  ultimately show ?thesis using balloc_pages_fresh [of memmap0 ?b 3 "\<lambda>_. 0" "[0x101000, 0x102000, 0x200000]" "fst s" "snd s"] by simp
qed

end
