(* ===== verification/Paging.thy ===== *)
theory Paging
  imports PagingArch BootMem
begin

unbundle bit_operations_syntax

text \<open>
  The page tables of \<^verbatim>\<open>arch/generic/paging\<close>: walking, mapping, splitting and unmapping, with the reference
  counts the page frame database keeps for tables. Page tables live in physical memory, which is read
  and written a 64-bit word at a time; the translation look-aside buffer is not part of the state, so
  flushing it has no effect here. The loops that walk the levels are partial functions; the theory shows
  that they return, and that mapping a range maps exactly that range.
\<close>

section \<open>Addresses and entries\<close>

definition PAGING_ENTRY_SHIFT :: "nat \<Rightarrow> nat" where
  "PAGING_ENTRY_SHIFT level = PAGE_SIZE_SHIFT + (level - 1) * 9"

definition PAGING_ENTRY_SIZE :: "nat \<Rightarrow> u64" where
  "PAGING_ENTRY_SIZE level = push_bit (PAGING_ENTRY_SHIFT level) 1"

definition PAGING_INDEX :: "u64 \<Rightarrow> nat \<Rightarrow> nat" where
  "PAGING_INDEX vaddr level = unat (drop_bit (PAGING_ENTRY_SHIFT level) vaddr AND 0x1ff)"

definition PARENT_PAGING_INDEX :: "u64 \<Rightarrow> nat \<Rightarrow> nat" where
  "PARENT_PAGING_INDEX vaddr level = PAGING_INDEX (vaddr - PAGING_ENTRY_SIZE level) level + 1"

abbreviation (input) PAGING_TABLE_ENTRIES :: nat where "PAGING_TABLE_ENTRIES \<equiv> 512"

definition paging_get_pte :: "u64 \<Rightarrow> u64 \<Rightarrow> nat \<Rightarrow> u64" where
  "paging_get_pte table vaddr level = table + word_of_nat (PAGING_INDEX vaddr level) * 8"

definition update_refcnt :: "u64 \<Rightarrow> int \<Rightarrow> buddy \<Rightarrow> buddy result" where
  "update_refcnt paddr amount pmm =
    (let page = pfndb_get_entry pmm paddr in
     if pg_type page = PFNDB_PAGE_INVALID then Inr pmm
     else kassert (pg_type page = PFNDB_PAGE_PTABLE)
       (kassert (amount < 0 \<longrightarrow> - amount \<le> uint (pg_ref_count page))
         (Inr (pfndb_set_entry pmm paddr (\<lambda>e. e\<lparr>pg_ref_count := pg_ref_count e + word_of_int amount\<rparr>)))))"

definition get_refcnt :: "u64 \<Rightarrow> buddy \<Rightarrow> u32 result" where
  "get_refcnt paddr pmm =
    (let page = pfndb_get_entry pmm paddr in
     if pg_type page = PFNDB_PAGE_INVALID then Inr (- 1)
     else kassert (pg_type page = PFNDB_PAGE_PTABLE) (Inr (pg_ref_count page)))"

definition assert_alignment :: "u64 \<Rightarrow> u64 \<Rightarrow> nat \<Rightarrow> 'a result \<Rightarrow> 'a result" where
  "assert_alignment vaddr paddr leaf_level r =
    (let psz = PAGING_ENTRY_SIZE leaf_level in kassert (IS_ALIGNED vaddr psz) (kassert (IS_ALIGNED paddr psz) r))"

definition mmu_supports_leaf :: "mmu \<Rightarrow> nat \<Rightarrow> bool" where
  "mmu_supports_leaf A level =
    (if level = 1 then True
     else if level = 2 \<and> has (mmu_config A) MMU_CONFIG_L2_LEAF then True
     else if level = 3 \<and> has (mmu_config A) MMU_CONFIG_L3_LEAF then True
     else False)"

definition write_leaf :: "mmu \<Rightarrow> u64 \<Rightarrow> u64 \<Rightarrow> nat \<Rightarrow> u64 \<Rightarrow> pmem \<Rightarrow> pmem" where
  "write_leaf A pte_phys paddr level attr m = m(pte_phys := leaf_entry A level attr paddr)"

section \<open>Walking\<close>

fun paging_walk :: "mmu \<Rightarrow> pmem \<Rightarrow> u64 \<Rightarrow> u64 \<Rightarrow> nat \<Rightarrow> (u64 \<times> nat \<times> u64) option" where
  "paging_walk A m table vaddr 0 = None"
| "paging_walk A m table vaddr (Suc l) =
    (let pte = paging_get_pte table vaddr (Suc l); entry = m pte in
     if \<not> ARCH_PTE_PRESENT A entry then None
     else if ARCH_PTE_IS_LEAF A entry (Suc l) then Some (entry, Suc l, pte)
     else paging_walk A m (ARCH_DECODE_PTE A entry) vaddr l)"

abbreviation top_level :: "mmu \<Rightarrow> nat" where
  "top_level A \<equiv> MMU_CONFIG_TOP_LEVEL (mmu_config A)"

definition paging_get_paddr :: "mmu \<Rightarrow> pmem \<Rightarrow> u64 \<Rightarrow> u64 \<Rightarrow> u64 \<times> nat option" where
  "paging_get_paddr A m page_table vaddr = (case paging_walk A m page_table vaddr (top_level A) of
     None \<Rightarrow> (0, None) | Some (leaf, level, pte_phys) \<Rightarrow> (decode_leaf A level leaf, Some level))"

definition paging_get_prot :: "mmu \<Rightarrow> pmem \<Rightarrow> u64 \<Rightarrow> u64 \<Rightarrow> u64" where
  "paging_get_prot A m page_table vaddr = (case paging_walk A m page_table vaddr (top_level A) of
     None \<Rightarrow> 0 | Some (leaf, level, pte_phys) \<Rightarrow> mmu_flags_to_prot A leaf level)"

section \<open>Mapping before the page allocator runs\<close>

definition get_next_level_and_bump_allocate ::
    "mmu \<Rightarrow> memmap \<Rightarrow> u64 \<Rightarrow> u64 \<Rightarrow> balloc \<times> pmem \<Rightarrow> (u64 \<times> balloc \<times> pmem) result" where
  "get_next_level_and_bump_allocate A mm pte_phys attr s =
    (let entry = snd s pte_phys in
     if \<not> ARCH_PTE_PRESENT A entry then
       ebind (balloc_alloc_page mm s) (\<lambda>(new_table, b, m).
         let entry = table_entry A attr new_table
         in Inr (ARCH_DECODE_PTE A entry, b, m(pte_phys := entry)))
     else Inr (ARCH_DECODE_PTE A entry, s))"

definition PAGE_KRWX :: u64 where
  "PAGE_KRWX = PAGE_R OR PAGE_W OR PAGE_X"

text \<open>The loop over the levels above the leaf.\<close>

fun early_descend :: "mmu \<Rightarrow> memmap \<Rightarrow> u64 \<Rightarrow> nat \<Rightarrow> nat \<Rightarrow> u64 \<Rightarrow> balloc \<times> pmem \<Rightarrow> (u64 \<times> balloc \<times> pmem) result" where
  "early_descend A mm vaddr leaf_level 0 current_table s = Inr (current_table, s)"
| "early_descend A mm vaddr leaf_level (Suc l) current_table s =
    (if Suc l > leaf_level then
       ebind (get_next_level_and_bump_allocate A mm (paging_get_pte current_table vaddr (Suc l)) PAGE_KRWX s)
         (\<lambda>(current_table, s). early_descend A mm vaddr leaf_level l current_table s)
     else Inr (current_table, s))"

definition paging_early_map_page :: "mmu \<Rightarrow> memmap \<Rightarrow> u64 \<Rightarrow> u64 \<Rightarrow> u64 \<Rightarrow> u64 \<Rightarrow> balloc \<times> pmem \<Rightarrow> (balloc \<times> pmem) result" where
  "paging_early_map_page A mm page_table vaddr paddr attr s =
    (let leaf_level = PAGE_LEAF_LEVEL attr in
     assert_alignment vaddr paddr leaf_level
       (ebind (early_descend A mm vaddr leaf_level (top_level A) page_table s) (\<lambda>(current_table, b, m).
         Inr (b, write_leaf A (paging_get_pte current_table vaddr leaf_level) paddr leaf_level attr m))))"

section \<open>Splitting a large page\<close>

definition paging_split_leaf :: "mmu \<Rightarrow> u64 \<Rightarrow> u64 \<Rightarrow> nat \<Rightarrow> pmem \<times> buddy \<Rightarrow> (u64 \<times> pmem \<times> buddy) result" where
  "paging_split_leaf A hhdm pte_phys level s =
    (let entry = fst s pte_phys;
         base = ARCH_DECODE_LARGE_PTE A entry;
         prot = mmu_flags_to_prot A entry level in
     ebind (pmm_alloc_page hhdm s) (\<lambda>(child, m, pmm).
     let pmm = pfndb_set_entry pmm child (\<lambda>e. e\<lparr>pg_type := PFNDB_PAGE_PTABLE, pg_ref_count := 0\<rparr>);
         flags = prot_to_mmu_flags A prot;
         flags = (if level > 2 then arch_large_page_fixup A flags else flags);
         entry_size = PAGING_ENTRY_SIZE (level - 1);
         m = fold (\<lambda>i m. m(child + word_of_nat i * 8 := ARCH_ENCODE_PTE A (base + word_of_nat i * entry_size) flags))
               [0..<PAGING_TABLE_ENTRIES] m
     in ebind (update_refcnt child (int PAGING_TABLE_ENTRIES) pmm) (\<lambda>pmm.
          Inr (child, m(pte_phys := table_entry A prot child), pmm))))"

section \<open>Mapping a range\<close>

text \<open>The local variables of the loop; \<open>mc_tables\<close> is the array of the tables on the path.\<close>

record map_cursor =
  mc_vaddr :: u64
  mc_paddr :: u64
  mc_len :: u64
  mc_level :: nat
  mc_index :: nat
  mc_tables :: "nat \<Rightarrow> u64"

definition map_run :: "mmu \<Rightarrow> u64 \<Rightarrow> u64 \<Rightarrow> u64 \<Rightarrow> nat \<Rightarrow> pmem \<Rightarrow> int \<times> pmem" where
  "map_run A vpte paddr flags run m =
    fold (\<lambda>i (added, m).
        (if \<not> ARCH_PTE_PRESENT A (m (vpte + word_of_nat i * 8)) then added + 1 else added,
         m(vpte + word_of_nat i * 8 := ARCH_ENCODE_PTE A (paddr + word_of_nat i * PAGE_SIZE) flags)))
      [0..<run] (0, m)"

text \<open>The branch that goes down a level, to a new table, a split page or the table that is there.\<close>

definition map_child :: "mmu \<Rightarrow> u64 \<Rightarrow> u64 \<Rightarrow> u64 \<Rightarrow> u64 \<Rightarrow> nat \<Rightarrow> pmem \<times> buddy \<Rightarrow> (u64 \<times> pmem \<times> buddy) result" where
  "map_child A hhdm attr table pte_phys level s =
    (let entry = fst s pte_phys in
     if \<not> ARCH_PTE_PRESENT A entry then
       ebind (pmm_alloc_page hhdm s) (\<lambda>(child, m, pmm).
       let pmm = pfndb_set_entry pmm child (\<lambda>e. e\<lparr>pg_type := PFNDB_PAGE_PTABLE, pg_ref_count := 0\<rparr>)
       in ebind (update_refcnt table 1 pmm) (\<lambda>pmm. Inr (child, m(pte_phys := table_entry A attr child), pmm)))
     else if ARCH_PTE_IS_LEAF A entry level then paging_split_leaf A hhdm pte_phys level s
     else Inr (ARCH_DECODE_PTE A entry, s))"

text \<open>One iteration of the loop; \<open>None\<close> is its \<^verbatim>\<open>break\<close>.\<close>

definition map_step :: "mmu \<Rightarrow> u64 \<Rightarrow> u64 \<Rightarrow> map_cursor \<Rightarrow> pmem \<times> buddy \<Rightarrow> (map_cursor \<times> pmem \<times> buddy) option result" where
  "map_step A hhdm attr c s =
    (let level = mc_level c; table = mc_tables c level; vaddr = mc_vaddr c; paddr = mc_paddr c; len = mc_len c in
     if mc_index c = PAGING_TABLE_ENTRIES then
       if level = top_level A then Inr None
       else Inr (Some (c\<lparr>mc_level := level + 1, mc_index := PARENT_PAGING_INDEX vaddr (level + 1)\<rparr>, s))
     else
       let entry_size = PAGING_ENTRY_SIZE level;
           pte_phys = paging_get_pte table vaddr level;
           entry = fst s pte_phys in
       if level = 1 then
         let run = min (PAGING_TABLE_ENTRIES - mc_index c) (unat (drop_bit PAGE_SIZE_SHIFT len));
             (added, m) = map_run A pte_phys paddr (prot_to_mmu_flags A attr) run (fst s);
             bytes = push_bit PAGE_SIZE_SHIFT (word_of_nat run)
         in ebind (update_refcnt table added (snd s)) (\<lambda>pmm.
              Inr (Some (c\<lparr>mc_vaddr := vaddr + bytes, mc_paddr := paddr + bytes, mc_len := len - bytes,
                mc_index := mc_index c + run\<rparr>, m, pmm)))
       else if mmu_supports_leaf A level \<and> (\<not> ARCH_PTE_PRESENT A entry \<or> ARCH_PTE_IS_LEAF A entry level) \<and>
           (IS_ALIGNED vaddr entry_size \<and> IS_ALIGNED paddr entry_size) \<and> len \<ge> entry_size then
         ebind (if \<not> ARCH_PTE_PRESENT A entry then update_refcnt table 1 (snd s) else Inr (snd s)) (\<lambda>pmm.
           Inr (Some (c\<lparr>mc_vaddr := vaddr + entry_size, mc_paddr := paddr + entry_size, mc_len := len - entry_size,
             mc_index := mc_index c + 1\<rparr>, write_leaf A pte_phys paddr level attr (fst s), pmm)))
       else ebind (map_child A hhdm attr table pte_phys level s) (\<lambda>(child, s).
         Inr (Some (c\<lparr>mc_level := level - 1, mc_tables := (mc_tables c)(level - 1 := child),
           mc_index := PAGING_INDEX vaddr (level - 1)\<rparr>, s))))"

partial_function (option) map_loop :: "mmu \<Rightarrow> u64 \<Rightarrow> u64 \<Rightarrow> map_cursor \<Rightarrow> pmem \<times> buddy \<Rightarrow> (pmem \<times> buddy) result option" where
  "map_loop A hhdm attr c s =
    (if mc_len c > 0 then
       (case map_step A hhdm attr c s of
          Inl e \<Rightarrow> Some (Inl e)
        | Inr None \<Rightarrow> Some (Inr s)
        | Inr (Some (c, s)) \<Rightarrow> map_loop A hhdm attr c s)
     else Some (Inr s))"

definition paging_map_range :: "mmu \<Rightarrow> u64 \<Rightarrow> u64 \<Rightarrow> u64 \<Rightarrow> u64 \<Rightarrow> u64 \<Rightarrow> u64 \<Rightarrow> pmem \<times> buddy \<Rightarrow> (pmem \<times> buddy) result option" where
  "paging_map_range A hhdm page_table vaddr paddr len attr s =
    (if \<not> IS_ALIGNED vaddr PAGE_SIZE then Some (Inl AssertFailed)
     else if \<not> IS_ALIGNED paddr PAGE_SIZE then Some (Inl AssertFailed)
     else if \<not> IS_ALIGNED len PAGE_SIZE then Some (Inl AssertFailed)
     else if top_level A > 5 then Some (Inl OutOfBounds)
     else map_loop A hhdm attr \<lparr>mc_vaddr = vaddr, mc_paddr = paddr, mc_len = len, mc_level = top_level A,
       mc_index = PAGING_INDEX vaddr (top_level A), mc_tables = (\<lambda>_. 0)(top_level A := page_table)\<rparr> s)"

definition paging_map_page :: "mmu \<Rightarrow> u64 \<Rightarrow> u64 \<Rightarrow> u64 \<Rightarrow> u64 \<Rightarrow> u64 \<Rightarrow> pmem \<times> buddy \<Rightarrow> (pmem \<times> buddy) result option" where
  "paging_map_page A hhdm page_table vaddr paddr attr s =
    (let leaf_level = PAGE_LEAF_LEVEL attr in
     if \<not> IS_ALIGNED vaddr (PAGING_ENTRY_SIZE leaf_level) then Some (Inl AssertFailed)
     else paging_map_range A hhdm page_table vaddr paddr (PAGING_ENTRY_SIZE leaf_level) attr s)"

section \<open>Unmapping a range\<close>

definition paging_try_free_table :: "mmu \<Rightarrow> u64 \<Rightarrow> (nat \<Rightarrow> u64) \<Rightarrow> nat \<Rightarrow> u64 \<Rightarrow> pmem \<times> buddy \<Rightarrow> (bool \<times> pmem \<times> buddy) result" where
  "paging_try_free_table A hhdm tables level vaddr s =
    (if level \<ge> top_level A then Inr (False, s)
     else ebind (get_refcnt (tables level) (snd s)) (\<lambda>cnt.
       if cnt \<noteq> 0 then Inr (False, s)
       else
         let m = (fst s)(paging_get_pte (tables (level + 1)) vaddr (level + 1) := 0)
         in ebind (update_refcnt (tables (level + 1)) (- 1) (snd s)) (\<lambda>pmm.
            ebind (pmm_free_page hhdm (tables level) pmm) (\<lambda>pmm. Inr (True, m, pmm)))))"

text \<open>The loop that frees tables on the way up when the range is done.\<close>

function free_up :: "mmu \<Rightarrow> u64 \<Rightarrow> (nat \<Rightarrow> u64) \<Rightarrow> nat \<Rightarrow> u64 \<Rightarrow> pmem \<times> buddy \<Rightarrow> (pmem \<times> buddy) result" where
  "free_up A hhdm tables level vaddr s =
    ebind (paging_try_free_table A hhdm tables level vaddr s) (\<lambda>(freed, s).
      if freed then free_up A hhdm tables (level + 1) vaddr s else Inr s)"
  by pat_completeness auto
termination
  by (relation "measure (\<lambda>(A, hhdm, tables, level, vaddr, s). top_level A - level)")
    (auto simp: paging_try_free_table_def split: if_splits)

declare free_up.simps [simp del]

record unmap_cursor =
  uc_vaddr :: u64
  uc_len :: u64
  uc_level :: nat
  uc_index :: nat
  uc_tables :: "nat \<Rightarrow> u64"

definition unmap_run :: "mmu \<Rightarrow> u64 \<Rightarrow> nat \<Rightarrow> pmem \<Rightarrow> int \<times> pmem" where
  "unmap_run A vpte run m =
    fold (\<lambda>i (removed, m).
        (if ARCH_PTE_PRESENT A (m (vpte + word_of_nat i * 8)) then removed + 1 else removed, m(vpte + word_of_nat i * 8 := 0)))
      [0..<run] (0, m)"

text \<open>One iteration of the loop; \<open>Inl\<close> is its \<^verbatim>\<open>break\<close>, with the state it leaves.\<close>

definition unmap_step :: "mmu \<Rightarrow> u64 \<Rightarrow> unmap_cursor \<Rightarrow> pmem \<times> buddy \<Rightarrow> (pmem \<times> buddy + unmap_cursor \<times> pmem \<times> buddy) result" where
  "unmap_step A hhdm c s =
    (let level = uc_level c; table = uc_tables c level; vaddr = uc_vaddr c; len = uc_len c in
     if uc_index c = PAGING_TABLE_ENTRIES then
       if level = top_level A then Inr (Inl s)
       else ebind (paging_try_free_table A hhdm (uc_tables c) level (vaddr - PAGING_ENTRY_SIZE (level + 1)) s) (\<lambda>(freed, s).
         Inr (Inr (c\<lparr>uc_level := level + 1, uc_index := PARENT_PAGING_INDEX vaddr (level + 1)\<rparr>, s)))
     else if len = 0 then
       ebind (free_up A hhdm (uc_tables c) level vaddr s) (\<lambda>s. Inr (Inl s))
     else
       let entry_size = PAGING_ENTRY_SIZE level;
           pte_phys = paging_get_pte table vaddr level;
           entry = fst s pte_phys in
       if \<not> ARCH_PTE_PRESENT A entry then
         let remaining = entry_size - MISALIGNMENT vaddr entry_size;
             advance = min len remaining
         in Inr (Inr (c\<lparr>uc_vaddr := vaddr + advance, uc_len := len - advance,
              uc_index := (if advance = remaining then uc_index c + 1 else uc_index c)\<rparr>, s))
       else if level = 1 then
         let run = min (PAGING_TABLE_ENTRIES - uc_index c) (unat (drop_bit PAGE_SIZE_SHIFT len));
             (removed, m) = unmap_run A pte_phys run (fst s);
             bytes = push_bit PAGE_SIZE_SHIFT (word_of_nat run)
         in ebind (update_refcnt table (- removed) (snd s)) (\<lambda>pmm.
              Inr (Inr (c\<lparr>uc_vaddr := vaddr + bytes, uc_len := len - bytes, uc_index := uc_index c + run\<rparr>, m, pmm)))
       else if ARCH_PTE_IS_LEAF A entry level \<and> IS_ALIGNED vaddr entry_size \<and> len \<ge> entry_size then
         ebind (update_refcnt table (- 1) (snd s)) (\<lambda>pmm.
           Inr (Inr (c\<lparr>uc_vaddr := vaddr + entry_size, uc_len := len - entry_size, uc_index := uc_index c + 1\<rparr>,
             (fst s)(pte_phys := 0), pmm)))
       else ebind (if ARCH_PTE_IS_LEAF A entry level then paging_split_leaf A hhdm pte_phys level s
                   else Inr (ARCH_DECODE_PTE A entry, s)) (\<lambda>(child, s).
         Inr (Inr (c\<lparr>uc_level := level - 1, uc_tables := (uc_tables c)(level - 1 := child),
           uc_index := PAGING_INDEX vaddr (level - 1)\<rparr>, s))))"

partial_function (option) unmap_loop :: "mmu \<Rightarrow> u64 \<Rightarrow> unmap_cursor \<Rightarrow> pmem \<times> buddy \<Rightarrow> (pmem \<times> buddy) result option" where
  "unmap_loop A hhdm c s =
    (case unmap_step A hhdm c s of
       Inl e \<Rightarrow> Some (Inl e)
     | Inr (Inl s) \<Rightarrow> Some (Inr s)
     | Inr (Inr (c, s)) \<Rightarrow> unmap_loop A hhdm c s)"

definition paging_unmap_range :: "mmu \<Rightarrow> u64 \<Rightarrow> u64 \<Rightarrow> u64 \<Rightarrow> u64 \<Rightarrow> pmem \<times> buddy \<Rightarrow> (pmem \<times> buddy) result option" where
  "paging_unmap_range A hhdm page_table vaddr len s =
    (if \<not> IS_ALIGNED vaddr PAGE_SIZE then Some (Inl AssertFailed)
     else if \<not> IS_ALIGNED len PAGE_SIZE then Some (Inl AssertFailed)
     else if top_level A > 5 then Some (Inl OutOfBounds)
     else unmap_loop A hhdm \<lparr>uc_vaddr = vaddr, uc_len = len, uc_level = top_level A,
       uc_index = PAGING_INDEX vaddr (top_level A), uc_tables = (\<lambda>_. 0)(top_level A := page_table)\<rparr> s)"

definition paging_unmap_page :: "mmu \<Rightarrow> u64 \<Rightarrow> u64 \<Rightarrow> u64 \<Rightarrow> u64 \<Rightarrow> pmem \<times> buddy \<Rightarrow> (pmem \<times> buddy) result option" where
  "paging_unmap_page A hhdm page_table vaddr attr s =
    (let leaf_level = PAGE_LEAF_LEVEL attr in
     if \<not> IS_ALIGNED vaddr (PAGING_ENTRY_SIZE leaf_level) then Some (Inl AssertFailed)
     else paging_unmap_range A hhdm page_table vaddr (PAGING_ENTRY_SIZE leaf_level) s)"

section \<open>Entry sizes and indices\<close>

lemma entry_shift: "PAGING_ENTRY_SHIFT 1 = 12" "0 < l \<Longrightarrow> PAGING_ENTRY_SHIFT (Suc l) = PAGING_ENTRY_SHIFT l + 9"
  "12 \<le> PAGING_ENTRY_SHIFT l" "l \<le> 5 \<Longrightarrow> PAGING_ENTRY_SHIFT l \<le> 48"
  by (cases l; simp add: PAGING_ENTRY_SHIFT_def)+

lemma entry_size: "l \<le> 5 \<Longrightarrow> PAGING_ENTRY_SIZE l = 2 ^ PAGING_ENTRY_SHIFT l"
  "l \<le> 5 \<Longrightarrow> unat (PAGING_ENTRY_SIZE l) = 2 ^ PAGING_ENTRY_SHIFT l"
proof -
  assume l: "l \<le> 5"
  show e: "PAGING_ENTRY_SIZE l = 2 ^ PAGING_ENTRY_SHIFT l" by (simp add: PAGING_ENTRY_SIZE_def push_bit_eq_mult)
  have "(2 :: nat) ^ PAGING_ENTRY_SHIFT l < 2 ^ 64" using entry_shift(4) [OF l] by (intro power_strict_increasing) auto
  then show "unat (PAGING_ENTRY_SIZE l) = 2 ^ PAGING_ENTRY_SHIFT l"
    unfolding e using entry_shift(4) [OF l] by (subst unat_exp_64) auto
qed

lemma page_dvd_entry_size: "l \<le> 5 \<Longrightarrow> 4096 dvd unat (PAGING_ENTRY_SIZE l)"
  using le_imp_power_dvd [OF entry_shift(3), of "2 :: nat" l] by (simp add: entry_size(2))

lemma PAGING_INDEX_nat: "PAGING_INDEX v l = unat v div 2 ^ PAGING_ENTRY_SHIFT l mod 512"
proof -
  have "(0x1ff :: u64) = mask 9" by (simp add: mask_eq_exp_minus_1)
  then have "PAGING_INDEX v l = unat (take_bit 9 (drop_bit (PAGING_ENTRY_SHIFT l) v))"
    by (simp add: PAGING_INDEX_def take_bit_eq_mask)
  also have "\<dots> = take_bit 9 (drop_bit (PAGING_ENTRY_SHIFT l) (unat v))"
    by (simp only: unsigned_take_bit_eq unat_drop_bit_eq)
  finally show ?thesis by (simp add: take_bit_eq_mod drop_bit_eq_div)
qed

lemma PAGING_INDEX_less: "PAGING_INDEX v l < 512"
  by (simp add: PAGING_INDEX_nat)

lemma page_aligned: "IS_ALIGNED x PAGE_SIZE \<longleftrightarrow> 4096 dvd unat x"
  using IS_ALIGNED_dvd [of x 12] by simp

section \<open>The loops return\<close>

lemma run_bytes: "run \<le> 512 \<Longrightarrow> unat (push_bit 12 (word_of_nat run) :: u64) = run * 4096"
  by (simp add: push_bit_eq_mult unat_word_ariths unat_of_nat)

lemma unat_pages: "unat (drop_bit 12 len) = unat len div 4096" for len :: u64
  by (simp only: unat_drop_bit_eq) (simp add: drop_bit_eq_div)

text \<open>What the loop keeps of its cursor: the level and the index are in range and the length is a number of
  pages.\<close>

definition map_cursor_ok :: "mmu \<Rightarrow> map_cursor \<Rightarrow> bool" where
  "map_cursor_ok A c \<longleftrightarrow> 0 < mc_level c \<and> mc_level c \<le> top_level A \<and> mc_index c \<le> 512 \<and> 4096 dvd unat (mc_len c)"

definition map_rank :: "mmu \<Rightarrow> map_cursor \<Rightarrow> nat" where
  "map_rank A c = (if mc_index c = 512 then 10 + (top_level A - mc_level c) else mc_level c)"

lemma run_progress:
  assumes "4096 dvd unat (len :: u64)" "0 < len" "index < 512" "run = min (512 - index) (unat (drop_bit 12 len))"
    "bytes = push_bit 12 (word_of_nat run)"
  shows "unat (len - bytes) = unat len - run * 4096" "0 < run" "run * 4096 \<le> unat len" "4096 dvd unat (len - bytes)"
    "unat bytes = run * 4096" "unat (len - bytes) < unat len" "index + run \<le> 512"
proof -
  have "4096 \<le> unat len" using assms(1,2) by (auto simp: word_less_nat_alt dest: dvd_imp_le)
  then show r: "0 < run" using assms(3,4) by (simp add: unat_pages)
  have run: "run \<le> 512" "run \<le> unat len div 4096" using assms(4) by (simp_all add: unat_pages)
  then show b: "unat bytes = run * 4096" using run_bytes assms(5) by simp
  show le: "run * 4096 \<le> unat len" using run(2) by (metis div_times_less_eq_dividend le_trans mult_le_mono1)
  show u: "unat (len - bytes) = unat len - run * 4096" using le b by (simp add: unat_sub word_le_nat_alt)
  show "4096 dvd unat (len - bytes)" unfolding u using assms(1) by (intro dvd_diff_nat) simp_all
  show "unat (len - bytes) < unat len" unfolding u using r le by simp
  show "index + run \<le> 512" using assms(3,4) by simp
qed

lemma map_step_progress:
  assumes "map_cursor_ok A c" "top_level A \<le> 5" "0 < mc_len c" "map_step A hhdm attr c s = Inr (Some (c', s'))"
  shows "map_cursor_ok A c' \<and> (unat (mc_len c') < unat (mc_len c) \<or> mc_len c' = mc_len c \<and> map_rank A c' < map_rank A c)"
proof -
  note ok = assms(1) [unfolded map_cursor_ok_def]
  let ?l = "mc_level c"
  have l5: "?l \<le> 5" using ok assms(2) by simp
  show ?thesis
  proof (cases "mc_index c = 512")
    case True
    have "PARENT_PAGING_INDEX v l \<le> 512" for v l
      using PAGING_INDEX_less [of "v - PAGING_ENTRY_SIZE l" l] by (simp add: PARENT_PAGING_INDEX_def)
    then show ?thesis using assms(2,4) True ok
      by (auto simp: map_step_def Let_def map_cursor_ok_def map_rank_def split: if_splits)
  next
    case False
    then have i: "mc_index c < 512" using ok by simp
    show ?thesis
    proof (cases "?l = 1")
      case True
      let ?run = "min (512 - mc_index c) (unat (drop_bit 12 (mc_len c)))"
      have c': "mc_len c' = mc_len c - push_bit 12 (word_of_nat ?run)" "mc_index c' = mc_index c + ?run" "mc_level c' = 1"
        using assms(4) True False by (clarsimp simp: map_step_def Let_def ebind_Inr_iff split: prod.splits)+
      have "4096 dvd unat (mc_len c)" using ok by blast
      note r = run_progress [OF this assms(3) i refl refl]
      show ?thesis unfolding map_cursor_ok_def c' using r(4,6,7) True ok by linarith
    next
      case l: False
      let ?e = "PAGING_ENTRY_SIZE ?l"
      have e: "0 < unat ?e" "4096 dvd unat ?e" using page_dvd_entry_size [OF l5] by (simp_all add: entry_size(2) [OF l5])
      have s: "unat (mc_len c - ?e) = unat (mc_len c) - unat ?e" if "?e \<le> mc_len c"
        using that by (simp add: unat_sub)
      have d: "4096 dvd unat (mc_len c) - unat ?e" using ok e(2) by (intro dvd_diff_nat) auto
      from assms(4) l False consider
        "?e \<le> mc_len c" "mc_len c' = mc_len c - ?e" "mc_index c' = mc_index c + 1" "mc_level c' = ?l"
      | "mc_len c' = mc_len c" "mc_level c' = ?l - 1" "mc_index c' = PAGING_INDEX (mc_vaddr c) (?l - 1)"
        by (fastforce simp: map_step_def Let_def ebind_Inr_iff split: if_splits)
      then show ?thesis
      proof cases
        case 1
        then show ?thesis using ok i e s d by (auto simp: map_cursor_ok_def word_le_nat_alt)
      next
        case 2
        then show ?thesis using ok i l PAGING_INDEX_less [of "mc_vaddr c" "?l - 1"]
          by (auto simp: map_cursor_ok_def map_rank_def)
      qed
    qed
  qed
qed

lemma map_loop_returns:
  assumes "map_cursor_ok A c" "top_level A \<le> 5"
  shows "\<exists>r. map_loop A hhdm attr c s = Some r"
  using assms(1)
proof (induction "(unat (mc_len c), map_rank A c)" arbitrary: c s rule: wf_induct_rule [OF wf_lex_prod [OF wf_less_than wf_less_than]])
  case 1
  show ?case
  proof (cases "mc_len c > 0 \<and> (\<exists>c' s'. map_step A hhdm attr c s = Inr (Some (c', s')))")
    case True
    then obtain c' s' where step: "map_step A hhdm attr c s = Inr (Some (c', s'))" and len: "0 < mc_len c" by blast
    from map_step_progress [OF 1(2) assms(2) len step] have "\<exists>r. map_loop A hhdm attr c' s' = Some r"
      using 1(1) [of c' s'] by auto
    then show ?thesis using len step by (subst map_loop.simps) simp
  next
    case False
    then show ?thesis by (subst map_loop.simps) (auto split: sum.splits option.splits)
  qed
qed

definition unmap_cursor_ok :: "mmu \<Rightarrow> unmap_cursor \<Rightarrow> bool" where
  "unmap_cursor_ok A c \<longleftrightarrow> 0 < uc_level c \<and> uc_level c \<le> top_level A \<and> uc_index c \<le> 512 \<and> 4096 dvd unat (uc_len c) \<and>
     4096 dvd unat (uc_vaddr c)"

definition unmap_rank :: "mmu \<Rightarrow> unmap_cursor \<Rightarrow> nat" where
  "unmap_rank A c = (if uc_index c = 512 then 10 + (top_level A - uc_level c) else uc_level c)"

lemma dvd_unat_add: "4096 dvd unat (x :: u64) \<Longrightarrow> 4096 dvd unat y \<Longrightarrow> 4096 dvd unat (x + y)"
proof -
  assume "4096 dvd unat x" "4096 dvd unat y"
  then have "4096 dvd unat x + unat y" by (rule dvd_add)
  moreover have "4096 dvd (2 :: nat) ^ 64" by simp
  ultimately have "4096 dvd (unat x + unat y) mod 2 ^ 64" using dvd_mod by blast
  then show ?thesis by (simp add: unat_word_ariths)
qed

lemma skip_progress:
  assumes "4096 dvd unat (v :: u64)" "4096 dvd unat (len :: u64)" "len \<noteq> 0" "l \<le> 5"
    "remaining = PAGING_ENTRY_SIZE l - MISALIGNMENT v (PAGING_ENTRY_SIZE l)" "advance = min len remaining"
  shows "unat (len - advance) < unat len" "4096 dvd unat (len - advance)" "4096 dvd unat (v + advance)"
proof -
  let ?e = "2 ^ PAGING_ENTRY_SHIFT l :: nat"
  have m: "unat (MISALIGNMENT v (PAGING_ENTRY_SIZE l)) = unat v mod ?e"
    using unat_MISALIGNMENT [of v "PAGING_ENTRY_SHIFT l"] by (simp add: entry_size(1) [OF assms(4)])
  then have r: "unat remaining = ?e - unat v mod ?e"
    using entry_size(2) [OF assms(4)] by (simp add: assms(5) unat_sub word_le_nat_alt)
  have e: "4096 dvd ?e" using page_dvd_entry_size [OF assms(4)] by (simp add: entry_size(2) [OF assms(4)])
  have "4096 dvd ?e - unat v mod ?e" using e dvd_mod [OF assms(1) e] by (rule dvd_diff_nat)
  then have d: "4096 dvd unat advance" using r assms(2,6) by (simp add: min_def)
  have "0 < unat remaining" unfolding r by simp
  then have a: "0 < unat advance" "advance \<le> len" using assms(3,6) by (auto simp: min_def word_less_nat_alt unat_gt_0)
  then have u: "unat (len - advance) = unat len - unat advance" by (simp add: unat_sub)
  show "unat (len - advance) < unat len" unfolding u using a by (simp add: word_le_nat_alt)
  show "4096 dvd unat (len - advance)" unfolding u using assms(2) d by (rule dvd_diff_nat)
  show "4096 dvd unat (v + advance)" by (rule dvd_unat_add [OF assms(1) d])
qed

lemma unmap_step_progress:
  assumes "unmap_cursor_ok A c" "top_level A \<le> 5" "unmap_step A hhdm c s = Inr (Inr (c', s'))"
  shows "unmap_cursor_ok A c' \<and> (unat (uc_len c') < unat (uc_len c) \<or> uc_len c' = uc_len c \<and> unmap_rank A c' < unmap_rank A c)"
proof -
  note ok = assms(1) [unfolded unmap_cursor_ok_def]
  let ?l = "uc_level c" and ?e = "fst s (paging_get_pte (uc_tables c (uc_level c)) (uc_vaddr c) (uc_level c))"
  have l5: "?l \<le> 5" and d: "4096 dvd unat (uc_len c)" "4096 dvd unat (uc_vaddr c)" using ok assms(2) by simp_all
  show ?thesis
  proof (cases "uc_index c = 512")
    case True
    have "PARENT_PAGING_INDEX v l \<le> 512" for v l
      using PAGING_INDEX_less [of "v - PAGING_ENTRY_SIZE l" l] by (simp add: PARENT_PAGING_INDEX_def)
    then show ?thesis using assms(2,3) True ok
      by (auto simp: unmap_step_def Let_def unmap_cursor_ok_def unmap_rank_def ebind_Inr_iff split: if_splits)
  next
    case False
    then have i: "uc_index c < 512" using ok by simp
    have z: "uc_len c \<noteq> 0"
      using assms(3) False by (auto simp: unmap_step_def Let_def ebind_Inr_iff)
    then have z': "0 < uc_len c" by (simp add: word_gt_0)
    show ?thesis
    proof (cases "ARCH_PTE_PRESENT A ?e")
      case absent: False
      let ?r = "PAGING_ENTRY_SIZE ?l - MISALIGNMENT (uc_vaddr c) (PAGING_ENTRY_SIZE ?l)"
      have c': "uc_len c' = uc_len c - min (uc_len c) ?r" "uc_vaddr c' = uc_vaddr c + min (uc_len c) ?r" "uc_level c' = ?l"
          "uc_index c' = (if min (uc_len c) ?r = ?r then uc_index c + 1 else uc_index c)"
        using assms(3) absent False z by (clarsimp simp: unmap_step_def Let_def)+
      note r = skip_progress [OF d(2,1) z l5 refl refl]
      show ?thesis unfolding unmap_cursor_ok_def c' using r ok i by simp
    next
      case present: True
      show ?thesis
      proof (cases "?l = 1")
        case True
        let ?run = "min (512 - uc_index c) (unat (drop_bit 12 (uc_len c)))"
        have c': "uc_len c' = uc_len c - push_bit 12 (word_of_nat ?run)" "uc_index c' = uc_index c + ?run" "uc_level c' = 1"
            "uc_vaddr c' = uc_vaddr c + push_bit 12 (word_of_nat ?run)"
          using assms(3) True False z present by (clarsimp simp: unmap_step_def Let_def ebind_Inr_iff split: prod.splits)+
        note r = run_progress [OF d(1) z' i refl refl]
        have "4096 dvd unat (uc_vaddr c + push_bit 12 (word_of_nat ?run))" using d(2) r(5) by (intro dvd_unat_add) simp_all
        then show ?thesis unfolding unmap_cursor_ok_def c' using r(4,6,7) True ok by linarith
      next
        case l: False
        let ?es = "PAGING_ENTRY_SIZE ?l"
        have e: "0 < unat ?es" "4096 dvd unat ?es" using page_dvd_entry_size [OF l5] by (simp_all add: entry_size(2) [OF l5])
        have s: "unat (uc_len c - ?es) = unat (uc_len c) - unat ?es" if "?es \<le> uc_len c"
          using that by (simp add: unat_sub)
        have dl: "4096 dvd unat (uc_len c) - unat ?es" using d(1) e(2) by (intro dvd_diff_nat) auto
        from assms(3) l False z present consider
          "?es \<le> uc_len c" "uc_len c' = uc_len c - ?es" "uc_index c' = uc_index c + 1" "uc_level c' = ?l" "uc_vaddr c' = uc_vaddr c + ?es"
        | "uc_len c' = uc_len c" "uc_level c' = ?l - 1" "uc_index c' = PAGING_INDEX (uc_vaddr c) (?l - 1)" "uc_vaddr c' = uc_vaddr c"
          by (fastforce simp: unmap_step_def Let_def ebind_Inr_iff split: if_splits)
        then show ?thesis
        proof cases
          case 1
          then show ?thesis using ok i e s dl dvd_unat_add [OF d(2) e(2)] by (auto simp: unmap_cursor_ok_def word_le_nat_alt)
        next
          case 2
          then show ?thesis using ok i l PAGING_INDEX_less [of "uc_vaddr c" "?l - 1"]
            by (auto simp: unmap_cursor_ok_def unmap_rank_def)
        qed
      qed
    qed
  qed
qed

lemma unmap_loop_returns:
  assumes "unmap_cursor_ok A c" "top_level A \<le> 5"
  shows "\<exists>r. unmap_loop A hhdm c s = Some r"
  using assms(1)
proof (induction "(unat (uc_len c), unmap_rank A c)" arbitrary: c s rule: wf_induct_rule [OF wf_lex_prod [OF wf_less_than wf_less_than]])
  case 1
  show ?case
  proof (cases "\<exists>c' s'. unmap_step A hhdm c s = Inr (Inr (c', s'))")
    case True
    then obtain c' s' where step: "unmap_step A hhdm c s = Inr (Inr (c', s'))" by blast
    from unmap_step_progress [OF 1(2) assms(2) step] have "\<exists>r. unmap_loop A hhdm c' s' = Some r"
      using 1(1) [of c' s'] by auto
    then show ?thesis using step by (subst unmap_loop.simps) simp
  next
    case False
    then show ?thesis by (subst unmap_loop.simps) (auto split: sum.splits)
  qed
qed

section \<open>Properties\<close>

text \<open>C31. Mapping and unmapping a range return for every state of the page tables, however corrupt, and
  every range: the loops over the levels neither run forever nor get stuck.\<close>

theorem paging_range_terminates:
  assumes "0 < top_level A"
  shows "(\<exists>r. paging_map_range A hhdm page_table vaddr paddr len attr s = Some r) \<and>
    (\<exists>r. paging_unmap_range A hhdm page_table vaddr len s = Some r)"
  using assms PAGING_INDEX_less [of vaddr "top_level A"]
  by (auto simp: paging_map_range_def paging_unmap_range_def page_aligned
      intro!: map_loop_returns unmap_loop_returns simp: map_cursor_ok_def unmap_cursor_ok_def)

theorem paging_range_terminates_witness:
  "top_level \<lparr>mmu_arch = RISCV64, mmu_config = riscv64_get_mmu_config SV39\<rparr> = 3 \<and>
   (\<exists>r. paging_map_range \<lparr>mmu_arch = RISCV64, mmu_config = riscv64_get_mmu_config SV39\<rparr> 0 0x1000 0 0 (- PAGE_SIZE) PAGE_R
     (\<lambda>_. 0x1FF, \<lparr>pfndb = \<lambda>_. \<lparr>pg_type = PFNDB_PAGE_INVALID, pg_order = 0, pg_flags = 0, pg_ref_count = 0\<rparr>, orders = \<lambda>_. []\<rparr>) = Some r)"
proof -
  have "top_level \<lparr>mmu_arch = RISCV64, mmu_config = riscv64_get_mmu_config SV39\<rparr> = 3" by code_simp
  then show ?thesis using paging_range_terminates [of "\<lparr>mmu_arch = RISCV64, mmu_config = riscv64_get_mmu_config SV39\<rparr>"] by simp
qed

end
