(* ===== verification/DwarfCfi.thy ===== *)
theory DwarfCfi
  imports Paging
begin

unbundle bit_operations_syntax

text \<open>
  Unwinding: the call frame machine of \<^verbatim>\<open>loader/dwarf/cfi.c\<close> and the stack trace of
  \<^verbatim>\<open>loader/dwarf/stacktrace.c\<close>, with the registers of \<^verbatim>\<open>arch/*/intrin/loader.h\<close>. The fixed-size arrays of
  the machine are lists and an index outside one is the error \<open>OutOfBounds\<close>; an overflow of the signed
  product in \<^verbatim>\<open>DW_CFA_offset\<close> is \<open>Undefined\<close>. The theory shows that the arrays keep their sizes and are never
  indexed out of range, whatever the debug sections hold, and that only mapped memory is read.
\<close>

section \<open>The machine\<close>

datatype cfi_rule_kind = CFI_SAME_VALUE | CFI_OFFSET

record cfi_rule =
  cr_kind :: cfi_rule_kind
  cr_reg_num :: u8
  cr_offset :: u64

record cfi_rules =
  cfa :: cfi_rule
  rule_regs :: "cfi_rule list"

record cfi_state =
  cfi_baseline :: cfi_rules
  cs_rules :: "cfi_rules list"
  cs_regs :: "u64 list"
  cs_ra_col :: u64
  cs_depth :: nat
  cs_is_signal_frame :: bool

abbreviation (input) DWARF_MAX_REGS :: nat where "DWARF_MAX_REGS \<equiv> 32"
abbreviation (input) CFI_STACK_DEPTH_MAX :: nat where "CFI_STACK_DEPTH_MAX \<equiv> 2"

definition rule0 :: cfi_rule where
  "rule0 = \<lparr>cr_kind = CFI_SAME_VALUE, cr_reg_num = 0, cr_offset = 0\<rparr>"

definition rules0 :: cfi_rules where
  "rules0 = \<lparr>cfa = rule0, rule_regs = replicate DWARF_MAX_REGS rule0\<rparr>"

text \<open>Reading and writing an element of an array.\<close>

definition lget :: "'a list \<Rightarrow> nat \<Rightarrow> 'a result" where
  "lget xs i = (if i < length xs then Inr (xs ! i) else Inl OutOfBounds)"

definition lset :: "'a list \<Rightarrow> nat \<Rightarrow> 'a \<Rightarrow> 'a list result" where
  "lset xs i x = (if i < length xs then Inr (xs[i := x]) else Inl OutOfBounds)"

text \<open>An update of the rules on top of the stack.\<close>

definition upd_rules :: "(cfi_rules \<Rightarrow> cfi_rules result) \<Rightarrow> cfi_state \<Rightarrow> cfi_state result" where
  "upd_rules f st = ebind (lget (cs_rules st) (cs_depth st)) (\<lambda>r. ebind (f r) (\<lambda>r.
     ebind (lset (cs_rules st) (cs_depth st) r) (\<lambda>rs. Inr (st\<lparr>cs_rules := rs\<rparr>))))"

definition set_reg_rule :: "nat \<Rightarrow> (cfi_rule \<Rightarrow> cfi_rule) \<Rightarrow> cfi_state \<Rightarrow> cfi_state result" where
  "set_reg_rule i f = upd_rules (\<lambda>r. ebind (lget (rule_regs r) i) (\<lambda>x.
     ebind (lset (rule_regs r) i (f x)) (\<lambda>xs. Inr (r\<lparr>rule_regs := xs\<rparr>))))"

definition set_cfa :: "(cfi_rule \<Rightarrow> cfi_rule) \<Rightarrow> cfi_state \<Rightarrow> cfi_state result" where
  "set_cfa f = upd_rules (\<lambda>r. Inr (r\<lparr>cfa := f (cfa r)\<rparr>))"

definition cfi_advance :: "u64 \<Rightarrow> u64 \<Rightarrow> u64 \<Rightarrow> u64 \<Rightarrow> u64 option" where
  "cfi_advance cur delta code_align target =
    (let next = cur + delta * code_align in if next > target then None else Some next)"

text \<open>A product of two signed 64-bit numbers.\<close>

definition smul :: "u64 \<Rightarrow> u64 \<Rightarrow> u64 result" where
  "smul a b = (let p = sint a * sint b in
     if - (2 ^ 63) \<le> p \<and> p < 2 ^ 63 then Inr (word_of_int p) else Inl Undefined)"

text \<open>One instruction; the result is the place of the next one, the location and the state, or the final
  state when the location passes the target.\<close>

definition cfi_moved :: "u64 option \<Rightarrow> nat \<Rightarrow> cfi_state \<Rightarrow> (nat \<times> u64 \<times> cfi_state) + cfi_state" where
  "cfi_moved next p st = (case next of None \<Rightarrow> Inr st | Some cur \<Rightarrow> Inl (p, cur, st))"

definition cfi_step :: "bytes \<Rightarrow> dwarf_cie \<Rightarrow> nat \<Rightarrow> nat \<Rightarrow> u64 \<Rightarrow> nat \<Rightarrow> u64 \<Rightarrow> cfi_state \<Rightarrow>
    ((nat \<times> u64 \<times> cfi_state) + cfi_state) result" where
  "cfi_step bs cie start end loc p cur st = ebind (byte_at bs p) (\<lambda>op.
    let p = p + 1; hi = op AND 0xC0; operandA = ucast (op AND 0x3F) :: u64 in
    if hi \<noteq> 0 then
      if hi = 0x40 then Inr (cfi_moved (cfi_advance cur operandA (cie_code_align cie) loc) p st)
      else if hi = 0xC0 then
        if unat operandA \<ge> DWARF_MAX_REGS then Inr (Inl (p, cur, st))
        else if cie_opcodes_start cie = start
          then ebind (set_reg_rule (unat operandA) (\<lambda>_. rule0) st) (\<lambda>st. Inr (Inl (p, cur, st)))
          else ebind (lget (rule_regs (cfi_baseline st)) (unat operandA)) (\<lambda>r.
               ebind (set_reg_rule (unat operandA) (\<lambda>_. r) st) (\<lambda>st. Inr (Inl (p, cur, st))))
      else ebind (dwarf_read_uleb bs p end) (\<lambda>(operandB, p).
        if unat operandA < DWARF_MAX_REGS then
          ebind (smul operandB (cie_data_align cie)) (\<lambda>off.
          ebind (set_reg_rule (unat operandA) (\<lambda>r. r\<lparr>cr_kind := CFI_OFFSET, cr_offset := off\<rparr>) st) (\<lambda>st.
            Inr (Inl (p, cur, st))))
        else Inr (Inl (p, cur, st)))
    else if op = 0x02 \<or> op = 0x03 \<or> op = 0x04 then
      ebind (dwarf_read_bytes bs p end (2 ^ unat (op - 2))) (\<lambda>(operandA, p).
        Inr (cfi_moved (cfi_advance cur operandA (cie_code_align cie) loc) p st))
    else if op = 0x0A then
      if cs_depth st + 1 \<ge> CFI_STACK_DEPTH_MAX then Inl Rejected
      else ebind (lget (cs_rules st) (cs_depth st)) (\<lambda>r.
           ebind (lset (cs_rules st) (cs_depth st + 1) r) (\<lambda>rs.
             Inr (Inl (p, cur, st\<lparr>cs_rules := rs, cs_depth := cs_depth st + 1\<rparr>))))
    else if op = 0x0B then
      if cs_depth st = 0 then Inl Rejected else Inr (Inl (p, cur, st\<lparr>cs_depth := cs_depth st - 1\<rparr>))
    else if op = 0x0C then
      ebind (dwarf_read_uleb bs p end) (\<lambda>(operandA, p). ebind (dwarf_read_uleb bs p end) (\<lambda>(operandB, p).
        if unat operandA \<ge> DWARF_MAX_REGS then Inl Rejected
        else ebind (set_cfa (\<lambda>_. \<lparr>cr_kind = CFI_OFFSET, cr_reg_num = ucast operandA, cr_offset = operandB\<rparr>) st) (\<lambda>st.
          Inr (Inl (p, cur, st)))))
    else if op = 0x0D then
      ebind (dwarf_read_uleb bs p end) (\<lambda>(operandA, p).
        if unat operandA \<ge> DWARF_MAX_REGS then Inl Rejected
        else ebind (set_cfa (\<lambda>c. c\<lparr>cr_reg_num := ucast operandA\<rparr>) st) (\<lambda>st. Inr (Inl (p, cur, st))))
    else if op = 0x0E then
      ebind (dwarf_read_uleb bs p end) (\<lambda>(operandA, p).
        ebind (set_cfa (\<lambda>c. c\<lparr>cr_offset := operandA\<rparr>) st) (\<lambda>st. Inr (Inl (p, cur, st))))
    else if op = 0x00 then Inr (Inl (p, cur, st))
    else Inl Rejected)"

lemma cfi_step_progress: "cfi_step bs cie start end loc p cur st = Inr (Inl (q, cur', st')) \<Longrightarrow> p < q"
  unfolding cfi_step_def cfi_moved_def dwarf_read_bytes_def Let_def
  by (auto simp: ebind_Inr_iff dest!: uleb_progress split: if_splits option.splits)

function cfi_loop :: "bytes \<Rightarrow> dwarf_cie \<Rightarrow> nat \<Rightarrow> nat \<Rightarrow> u64 \<Rightarrow> nat \<Rightarrow> u64 \<Rightarrow> cfi_state \<Rightarrow> cfi_state result" where
  "cfi_loop bs cie start end loc p cur st = (if p < end then
     ebind (cfi_step bs cie start end loc p cur st) (\<lambda>r. case r of
       Inl (p, cur, st) \<Rightarrow> cfi_loop bs cie start end loc p cur st
     | Inr st \<Rightarrow> Inr st)
   else Inr st)"
  by pat_completeness auto
termination
  by (relation "measure (\<lambda>(bs, cie, start, e, loc, p, cur, st). e - p)") (auto dest: cfi_step_progress)

declare cfi_loop.simps [simp del]

definition dwarf_cfi_execute :: "bytes \<Rightarrow> dwarf_cie \<Rightarrow> nat \<Rightarrow> nat \<Rightarrow> u64 \<Rightarrow> cfi_state \<Rightarrow> cfi_state result" where
  "dwarf_cfi_execute bs cie opcodes_start opcodes_end loc st =
     cfi_loop bs cie opcodes_start opcodes_end loc opcodes_start 0 st"

definition cie0 :: dwarf_cie where
  "cie0 = \<lparr>cie_valid = False, cie_is_signal_frame = False, cie_offset = 0, cie_code_align = 0, cie_data_align = 0,
     cie_ra_col = 0, cie_addr_size = 0, cie_seg_size = 0, cie_opcodes_start = 0, cie_opcodes_end = 0\<rparr>"

definition dwarf_cfi :: "bytes \<Rightarrow> u64 \<Rightarrow> cfi_state \<Rightarrow> cfi_state result" where
  "dwarf_cfi section pc st =
     ebind (dwarf_get_fde section pc cie0) (\<lambda>(fde, cie).
     let st = st\<lparr>cs_is_signal_frame := cie_is_signal_frame cie, cs_depth := 0, cs_ra_col := cie_ra_col cie,
           cs_rules := [rules0, rules0]\<rparr>
     in ebind (dwarf_cfi_execute section cie (cie_opcodes_start cie) (cie_opcodes_end cie) 0 st) (\<lambda>st.
        ebind (lget (cs_rules st) (cs_depth st)) (\<lambda>r.
        dwarf_cfi_execute section cie (fde_opcodes_start fde) (fde_opcodes_end fde) (pc - fde_initial_location fde)
          (st\<lparr>cfi_baseline := r\<rparr>))))"

section \<open>Resolving the rules\<close>

text \<open>What unwinding sees of the machine: the page tables, the direct map and memory at virtual addresses.\<close>

record machine =
  mc_mmu :: mmu
  mc_hhdm :: u64
  mc_last_paddr :: u64
  mc_kernel_page_table :: u64
  mc_ptables :: pmem
  mc_memory :: mem
  mc_kernel_file :: bytes
  mc_kernel_base :: u64

definition dwarf_vaddr_readable :: "machine \<Rightarrow> u64 \<Rightarrow> u64 \<Rightarrow> bool" where
  "dwarf_vaddr_readable M vaddr size' =
    (let paddr = (\<lambda>v. fst (paging_get_paddr (mc_mmu M) (mc_ptables M) (mc_kernel_page_table M) v)) in
     if mmu_arch (mc_mmu M) = LOONGARCH64 \<and> vaddr \<ge> mc_hhdm M \<and> vaddr - mc_hhdm M + size' \<le> mc_last_paddr M then True
     else if mc_kernel_page_table M = 0 then False
     else if paddr vaddr = 0 then False
     else if MISALIGNMENT vaddr PAGE_SIZE + size' > PAGE_SIZE \<and> paddr (vaddr + size' - 1) = 0 then False
     else True)"

definition ARCH_DWARF_SP_REG :: "arch \<Rightarrow> nat" where
  "ARCH_DWARF_SP_REG a = (case a of X86_64 \<Rightarrow> 7 | RISCV64 \<Rightarrow> 2 | LOONGARCH64 \<Rightarrow> 3)"

definition resolve_reg :: "machine \<Rightarrow> u64 \<Rightarrow> nat \<Rightarrow> cfi_rule \<Rightarrow> u64 list \<Rightarrow> u64 list result" where
  "resolve_reg M cfa_value i reg regs = (case cr_kind reg of
     CFI_OFFSET \<Rightarrow>
       let vaddr = cfa_value + cr_offset reg
       in if \<not> dwarf_vaddr_readable M vaddr 8 then Inl Rejected else lset regs i (rd64 (mc_memory M) vaddr)
   | CFI_SAME_VALUE \<Rightarrow> Inr regs)"

fun resolve_loop :: "machine \<Rightarrow> u64 \<Rightarrow> cfi_rules \<Rightarrow> nat list \<Rightarrow> u64 list \<Rightarrow> u64 list result" where
  "resolve_loop M cfa_value rules [] regs = Inr regs"
| "resolve_loop M cfa_value rules (i # is) regs = ebind (lget (rule_regs rules) i) (\<lambda>reg.
     ebind (resolve_reg M cfa_value i reg regs) (resolve_loop M cfa_value rules is))"

definition dwarf_cfi_resolve :: "machine \<Rightarrow> cfi_state \<Rightarrow> cfi_state result" where
  "dwarf_cfi_resolve M st = ebind (lget (cs_rules st) (cs_depth st)) (\<lambda>rules.
     if cr_kind (cfa rules) \<noteq> CFI_OFFSET then Inl Rejected
     else ebind (lget (cs_regs st) (unat (cr_reg_num (cfa rules)))) (\<lambda>base.
       let cfa_value = base + cr_offset (cfa rules)
       in ebind (lset (cs_regs st) (ARCH_DWARF_SP_REG (mmu_arch (mc_mmu M))) cfa_value) (\<lambda>regs.
          ebind (resolve_loop M cfa_value rules [0..<DWARF_MAX_REGS] regs) (\<lambda>regs. Inr (st\<lparr>cs_regs := regs\<rparr>)))))"

section \<open>The stack trace\<close>

record x86_64_frame =
  fr_rax :: u64   fr_rdx :: u64   fr_rcx :: u64   fr_rbx :: u64
  fr_rsi :: u64   fr_rdi :: u64   fr_rbp :: u64   fr_rsp :: u64
  fr_r8 :: u64    fr_r9 :: u64    fr_r10 :: u64   fr_r11 :: u64
  fr_r12 :: u64   fr_r13 :: u64   fr_r14 :: u64   fr_r15 :: u64
  fr_ip :: u64

text \<open>The frames of the other two architectures hold the registers in an array and the program counter.\<close>

record gp_frame =
  gp_x :: "u64 list"
  gp_pc :: u64

datatype interrupt_frame = Frame_x86_64 x86_64_frame | Frame_gp gp_frame

definition x86_64_cfi_seed :: "x86_64_frame \<Rightarrow> cfi_state \<Rightarrow> cfi_state" where
  "x86_64_cfi_seed f st = st\<lparr>cs_regs := [fr_rax f, fr_rdx f, fr_rcx f, fr_rbx f, fr_rsi f, fr_rdi f, fr_rbp f, fr_rsp f,
     fr_r8 f, fr_r9 f, fr_r10 f, fr_r11 f, fr_r12 f, fr_r13 f, fr_r14 f, fr_r15 f, fr_ip f] @ drop 17 (cs_regs st)\<rparr>"

definition arch_cfi_seed :: "interrupt_frame \<Rightarrow> cfi_state \<Rightarrow> cfi_state" where
  "arch_cfi_seed frame st = (case frame of Frame_x86_64 f \<Rightarrow> x86_64_cfi_seed f st | Frame_gp f \<Rightarrow> st\<lparr>cs_regs := gp_x f\<rparr>)"

definition arch_cfi_initial_pc :: "interrupt_frame \<Rightarrow> u64" where
  "arch_cfi_initial_pc frame = (case frame of Frame_x86_64 f \<Rightarrow> fr_ip f | Frame_gp f \<Rightarrow> gp_pc f)"

text \<open>The bytes of a section that was found.\<close>

definition section_bytes :: "machine \<Rightarrow> section_ptr \<times> u64 \<Rightarrow> bytes" where
  "section_bytes M s = (case s of
     (InFile a, n) \<Rightarrow> take (unat n) (drop a (mc_kernel_file M))
   | (Loaded a, n) \<Rightarrow> map (\<lambda>i. mc_memory M (a + word_of_nat i)) [0..<unat n])"

text \<open>The code treats a line that is not found as no line.\<close>

definition line_or_none :: "dwarf_line_result result \<Rightarrow> dwarf_line_result option result" where
  "line_or_none r = (case r of Inr l \<Rightarrow> Inr (Some l) | Inl e \<Rightarrow> if e = Rejected then Inr None else Inl e)"

text \<open>One printed line: the counter, its symbol and its source line.\<close>

type_synonym trace_line = "u64 \<times> symbol_result option \<times> dwarf_line_result option"

text \<open>The state after unwinding one frame, with the return address, or \<open>None\<close> when the loop stops.\<close>

definition unwind :: "machine \<Rightarrow> bytes \<Rightarrow> u64 \<Rightarrow> cfi_state \<Rightarrow> (u64 \<times> cfi_state) option result" where
  "unwind M debug_frame pc_lt st =
    (case ebind (dwarf_cfi debug_frame pc_lt st) (dwarf_cfi_resolve M) of
       Inl e \<Rightarrow> if e = Rejected then Inr None else Inl e
     | Inr st \<Rightarrow>
         if unat (cs_ra_col st) \<ge> DWARF_MAX_REGS then Inr None
         else ebind (lget (cs_regs st) (unat (cs_ra_col st))) (\<lambda>pc_rt. Inr (if pc_rt = 0 then None else Some (pc_rt, st))))"

fun trace_loop :: "machine \<Rightarrow> bytes \<Rightarrow> bytes \<Rightarrow> bytes \<Rightarrow> bytes \<Rightarrow> nat \<Rightarrow> u64 \<Rightarrow> cfi_state \<Rightarrow> trace_line list result" where
  "trace_loop M debug_frame debug_line symtab strtab 0 pc_rt st = Inr []"
| "trace_loop M debug_frame debug_line symtab strtab (Suc n) pc_rt st =
    ebind (kaslr_rt2lt (mc_kernel_base M) (mc_kernel_file M) (pc_rt - (if cs_is_signal_frame st then 0 else 1))) (\<lambda>pc_lt.
    ebind (symbol_for_pc symtab strtab pc_lt) (\<lambda>symbol.
    ebind (line_or_none (dwarf_line_for_pc (Some debug_line) pc_lt)) (\<lambda>line.
    ebind (unwind M debug_frame pc_lt st) (\<lambda>next. case next of
        None \<Rightarrow> Inr [(pc_lt, symbol, line)]
      | Some (pc_rt, st) \<Rightarrow>
          ebind (trace_loop M debug_frame debug_line symtab strtab n pc_rt st) (\<lambda>ls. Inr ((pc_lt, symbol, line) # ls))))))"

definition str_debug_frame :: bytes where
  "str_debug_frame = [0x2E, 0x64, 0x65, 0x62, 0x75, 0x67, 0x5F, 0x66, 0x72, 0x61, 0x6D, 0x65]"

definition str_debug_line :: bytes where
  "str_debug_line = [0x2E, 0x64, 0x65, 0x62, 0x75, 0x67, 0x5F, 0x6C, 0x69, 0x6E, 0x65]"

definition str_symtab :: bytes where
  "str_symtab = [0x2E, 0x73, 0x79, 0x6D, 0x74, 0x61, 0x62]"

definition str_strtab :: bytes where
  "str_strtab = [0x2E, 0x73, 0x74, 0x72, 0x74, 0x61, 0x62]"

definition dwarf_stack_trace :: "machine \<Rightarrow> interrupt_frame \<Rightarrow> cfi_state \<Rightarrow> trace_line list result" where
  "dwarf_stack_trace M frame st =
    (let find = elf_introspect_section (mc_kernel_base M) (mc_kernel_file M) in
     ebind (find str_debug_frame) (\<lambda>debug_frame. ebind (find str_debug_line) (\<lambda>debug_line.
     ebind (find str_symtab) (\<lambda>symtab. ebind (find str_strtab) (\<lambda>strtab.
       case (debug_frame, debug_line, symtab, strtab) of
         (Some df, Some dl, Some sy, Some sr) \<Rightarrow>
           trace_loop M (section_bytes M df) (section_bytes M dl) (section_bytes M sy) (section_bytes M sr) 8
             (arch_cfi_initial_pc frame) (arch_cfi_seed frame (st\<lparr>cs_is_signal_frame := True\<rparr>))
       | _ \<Rightarrow> Inr [])))))"

section \<open>The arrays keep their sizes\<close>

definition rules_ok :: "cfi_rules \<Rightarrow> bool" where
  "rules_ok r \<longleftrightarrow> length (rule_regs r) = DWARF_MAX_REGS \<and> unat (cr_reg_num (cfa r)) < DWARF_MAX_REGS"

definition cfi_ok :: "cfi_state \<Rightarrow> bool" where
  "cfi_ok st \<longleftrightarrow> rules_ok (cfi_baseline st) \<and> length (cs_rules st) = CFI_STACK_DEPTH_MAX \<and> (\<forall>r \<in> set (cs_rules st). rules_ok r) \<and>
     length (cs_regs st) = DWARF_MAX_REGS \<and> cs_depth st < CFI_STACK_DEPTH_MAX"

text \<open>\<open>upost P r\<close>: \<open>r\<close> rejects its input, overflows a product or has a value that satisfies \<open>P\<close>.\<close>

definition upost :: "('a \<Rightarrow> bool) \<Rightarrow> 'a result \<Rightarrow> bool" where
  "upost P r = (case r of Inl e \<Rightarrow> e = Rejected \<or> e = Undefined | Inr x \<Rightarrow> P x)"

lemma upost_simps [simp]: "upost P (Inl e) \<longleftrightarrow> e = Rejected \<or> e = Undefined" "upost P (Inr x) \<longleftrightarrow> P x"
  by (simp_all add: upost_def)

lemma upost_rpost: "rpost P r \<Longrightarrow> upost P r"
  by (cases r) simp_all

lemma upost_ebind: "upost P r \<Longrightarrow> (\<And>x. P x \<Longrightarrow> upost Q (f x)) \<Longrightarrow> upost Q (ebind r f)"
  by (cases r) simp_all

lemma upost_ebind2:
  "upost (\<lambda>(a, b). P a b) r \<Longrightarrow> (\<And>a b. P a b \<Longrightarrow> upost Q (f a b)) \<Longrightarrow> upost Q (ebind r (\<lambda>(a, b). f a b))"
  by (cases r) auto

lemma upost_if: "(b \<Longrightarrow> upost P r) \<Longrightarrow> (\<not> b \<Longrightarrow> upost P s) \<Longrightarrow> upost P (if b then r else s)"
  by simp

lemma upost_mono: "upost P r \<Longrightarrow> (\<And>x. P x \<Longrightarrow> Q x) \<Longrightarrow> upost Q r"
  by (cases r) simp_all

lemma rules_ok_rules0: "rules_ok rules0"
  by (simp add: rules_ok_def rules0_def rule0_def)

lemma upd_rules_post:
  assumes "cfi_ok st" "\<And>r. rules_ok r \<Longrightarrow> upost rules_ok (f r)"
  shows "upost cfi_ok (upd_rules f st)"
proof -
  have d: "cs_depth st < length (cs_rules st)" "rules_ok (cs_rules st ! cs_depth st)" using assms(1) by (auto simp: cfi_ok_def)
  have "cfi_ok (st\<lparr>cs_rules := (cs_rules st)[cs_depth st := r]\<rparr>)" if "rules_ok r" for r
    using assms(1) that set_update_subset_insert [of "cs_rules st" "cs_depth st" r] by (auto simp: cfi_ok_def)
  then show ?thesis using assms(2) [OF d(2)] d(1)
    by (cases "f (cs_rules st ! cs_depth st)") (simp_all add: upd_rules_def lget_def lset_def)
qed

lemma set_reg_rule_post: "cfi_ok st \<Longrightarrow> i < DWARF_MAX_REGS \<Longrightarrow> upost cfi_ok (set_reg_rule i f st)"
  unfolding set_reg_rule_def by (rule upd_rules_post) (auto simp: rules_ok_def lget_def lset_def)

lemma set_cfa_post:
  "cfi_ok st \<Longrightarrow> (\<And>c. unat (cr_reg_num c) < DWARF_MAX_REGS \<Longrightarrow> unat (cr_reg_num (f c)) < DWARF_MAX_REGS) \<Longrightarrow> upost cfi_ok (set_cfa f st)"
  unfolding set_cfa_def by (rule upd_rules_post) (auto simp: rules_ok_def)

definition step_ok :: "nat \<Rightarrow> (nat \<times> u64 \<times> cfi_state) + cfi_state \<Rightarrow> bool" where
  "step_ok end r = (case r of Inl (q, cur, st) \<Rightarrow> q \<le> end \<and> cfi_ok st | Inr st \<Rightarrow> cfi_ok st)"

lemma step_ok_simps [simp]: "step_ok end (Inl (q, cur, st)) \<longleftrightarrow> q \<le> end \<and> cfi_ok st" "step_ok end (Inr st) \<longleftrightarrow> cfi_ok st"
  by (simp_all add: step_ok_def)

lemma moved_ok: "cfi_ok st \<Longrightarrow> q \<le> end \<Longrightarrow> step_ok end (cfi_moved next q st)"
  by (simp add: cfi_moved_def split: option.splits)

lemma small_reg: "unat (a :: u64) < 32 \<Longrightarrow> unat (ucast a :: u8) < 32"
  by (simp add: unsigned_ucast_eq) (metis take_bit_nat_less_eq_self order_le_less_trans)

lemma push_state_ok:
  assumes "cfi_ok st" "cs_depth st + 1 < 2"
  shows "upost (step_ok end) (ebind (lget (cs_rules st) (cs_depth st)) (\<lambda>r. ebind (lset (cs_rules st) (cs_depth st + 1) r) (\<lambda>rs.
    Inr (Inl (p, cur, st\<lparr>cs_rules := rs, cs_depth := cs_depth st + 1\<rparr>))))) \<longleftrightarrow> p \<le> end"
proof -
  have "cfi_ok (st\<lparr>cs_rules := (cs_rules st)[Suc 0 := cs_rules st ! 0], cs_depth := Suc 0\<rparr>)"
    using assms set_update_subset_insert [of "cs_rules st" 1 "cs_rules st ! 0"] by (auto simp: cfi_ok_def)
  then show ?thesis using assms by (simp add: lget_def lset_def cfi_ok_def)
qed

lemma smul_post: "upost (\<lambda>_. True) (smul a b)"
  by (simp add: smul_def Let_def)

lemma cfi_step_post:
  assumes ok: "cfi_ok st" and e: "end \<le> length bs" "p < end"
  shows "upost (step_ok end) (cfi_step bs cie start end loc p cur st)"
proof -
  note u = upost_rpost [OF uleb_post [OF e(1)]]
  have b: "byte_at bs p = Inr (bs ! p)" and p: "p + 1 \<le> end" using e by (simp_all add: byte_at_def)
  have base: "i < 32 \<Longrightarrow> lget (rule_regs (cfi_baseline st)) i = Inr (rule_regs (cfi_baseline st) ! i)" for i
    using ok by (simp add: cfi_ok_def rules_ok_def lget_def)
  have r: "upost (step_ok end) (ebind (set_reg_rule i f st) (\<lambda>st. Inr (Inl (q, cur, st))))" if "i < 32" "q \<le> end" for i f q
    by (rule upost_ebind [OF set_reg_rule_post [OF ok that(1)]]) (simp add: that(2))
  have c: "upost (step_ok end) (ebind (set_cfa f st) (\<lambda>st. Inr (Inl (q, cur, st))))"
    if "\<And>c. unat (cr_reg_num c) < 32 \<Longrightarrow> unat (cr_reg_num (f c)) < 32" "q \<le> end" for f q
    by (rule upost_ebind [OF set_cfa_post [OF ok that(1)]]) (simp_all add: that(2))
  have bytes: "upost (\<lambda>(v, q). q \<le> end) (dwarf_read_bytes bs (p + 1) end n)" for n
    by (rule upost_mono [OF upost_rpost [OF read_bytes_post [OF e(1) p]]]) auto
  have m: "upost (step_ok end) (Inr (cfi_moved nx q st))" if "q \<le> end" for nx q using moved_ok [OF ok that] by simp
  have i: "upost (step_ok end) (Inr (Inl (q, cur, st)))" if "q \<le> end" for q using ok that by simp
  show ?thesis unfolding cfi_step_def b ebind_simps Let_def
  proof (intro upost_if, goal_cases)
    case 1 show ?case by (rule m [OF p])
  next
    case 2 show ?case by (rule i [OF p])
  next
    case 3 then show ?case using r [OF _ p] by (simp add: not_le)
  next
    case 4 then show ?case using r [OF _ p] base by (simp add: not_le)
  next
    case 5
    show ?case
      by (rule upost_ebind2 [OF u], rule upost_if, rule upost_ebind [OF smul_post], rule r) (use i in auto)
  next
    case 6
    show ?case by (rule upost_ebind2 [OF bytes], rule m)
  next
    case 8
    then show ?case using push_state_ok [OF ok, of "end" "p + 1" cur] p by simp
  next
    case 10
    then show ?case using ok p by (auto simp: cfi_ok_def)
  next
    case 11
    show ?case by (rule upost_ebind2 [OF u], rule upost_ebind2 [OF u], rule upost_if, simp, rule c) (auto simp: not_le small_reg)
  next
    case 12
    show ?case by (rule upost_ebind2 [OF u], rule upost_if, simp, rule c) (auto simp: not_le small_reg)
  next
    case 13
    show ?case by (rule upost_ebind2 [OF u], rule c) auto
  next
    case 14
    show ?case by (rule i [OF p])
  qed simp_all
qed

lemma cfi_loop_post:
  "cfi_ok st \<Longrightarrow> end \<le> length bs \<Longrightarrow> upost cfi_ok (cfi_loop bs cie start end loc p cur st)"
proof (induction bs cie start "end" loc p cur st rule: cfi_loop.induct)
  case (1 bs cie start "end" loc p cur st)
  show ?case
  proof (cases "p < end")
    case True
    note s = cfi_step_post [OF "1.prems" True, of cie start loc cur]
    show ?thesis
    proof (cases "cfi_step bs cie start end loc p cur st")
      case (Inr r)
      then show ?thesis using s "1.IH" [OF True Inr] "1.prems"(2) True
        by (subst cfi_loop.simps) (auto split: sum.splits)
    qed (use s True in \<open>subst cfi_loop.simps, simp\<close>)
  qed (use "1.prems" in \<open>subst cfi_loop.simps, simp\<close>)
qed

lemma dwarf_cfi_post:
  assumes "cfi_ok st"
  shows "upost cfi_ok (dwarf_cfi section pc st)"
proof -
  have init: "cfi_ok (st\<lparr>cs_is_signal_frame := sig, cs_depth := 0, cs_ra_col := ra, cs_rules := [rules0, rules0]\<rparr>)" for sig ra
    using assms rules_ok_rules0 by (simp add: cfi_ok_def)
  have "upost (\<lambda>(fde, cie). cie_ok section cie \<and> fde_ok section pc fde) (dwarf_get_fde section pc cie0)"
    unfolding dwarf_get_fde_def by (rule upost_rpost [OF get_fde_loop_post]) simp
  then show ?thesis unfolding dwarf_cfi_def Let_def dwarf_cfi_execute_def
  proof (rule upost_ebind2)
    fix fde cie
    assume ok: "cie_ok section cie \<and> fde_ok section pc fde"
    then have l: "cie_opcodes_end cie \<le> length section" "fde_opcodes_end fde \<le> length section"
      by (simp_all add: cie_ok_def fde_ok_def)
    show "upost cfi_ok (ebind (cfi_loop section cie (cie_opcodes_start cie) (cie_opcodes_end cie) 0 (cie_opcodes_start cie) 0
         (st\<lparr>cs_is_signal_frame := cie_is_signal_frame cie, cs_depth := 0, cs_ra_col := cie_ra_col cie, cs_rules := [rules0, rules0]\<rparr>))
         (\<lambda>st. ebind (lget (cs_rules st) (cs_depth st)) (\<lambda>r. cfi_loop section cie (fde_opcodes_start fde) (fde_opcodes_end fde)
           (pc - fde_initial_location fde) (fde_opcodes_start fde) 0 (st\<lparr>cfi_baseline := r\<rparr>))))"
    proof (rule upost_ebind [OF cfi_loop_post [OF init l(1)]])
      fix st'
      assume ok': "cfi_ok st'"
      then have "cs_rules st' ! cs_depth st' \<in> set (cs_rules st')" by (simp add: cfi_ok_def)
      then have "cfi_ok (st'\<lparr>cfi_baseline := cs_rules st' ! cs_depth st'\<rparr>)" using ok' by (simp add: cfi_ok_def)
      then show "upost cfi_ok (ebind (lget (cs_rules st') (cs_depth st')) (\<lambda>r. cfi_loop section cie (fde_opcodes_start fde)
          (fde_opcodes_end fde) (pc - fde_initial_location fde) (fde_opcodes_start fde) 0 (st'\<lparr>cfi_baseline := r\<rparr>)))"
        using cfi_loop_post [OF _ l(2)] ok' by (simp add: lget_def cfi_ok_def)
    qed
  qed
qed

lemma resolve_loop_post:
  "length regs = 32 \<Longrightarrow> rules_ok rules \<Longrightarrow> set is \<subseteq> {..<32} \<Longrightarrow>
   rpost (\<lambda>regs'. length regs' = 32) (resolve_loop M cfa_value rules is regs)"
proof (induction "is" arbitrary: regs)
  case (Cons i "is")
  then have "rpost (\<lambda>regs'. length regs' = 32) (resolve_reg M cfa_value i (rule_regs rules ! i) regs)"
    by (auto simp: resolve_reg_def Let_def lset_def split: cfi_rule_kind.splits)
  then show ?case using Cons by (auto simp: lget_def rules_ok_def intro: rpost_ebind)
qed simp

lemma dwarf_cfi_resolve_post:
  assumes "cfi_ok st"
  shows "rpost cfi_ok (dwarf_cfi_resolve M st)"
proof -
  let ?r = "cs_rules st ! cs_depth st"
  have r: "lget (cs_rules st) (cs_depth st) = Inr ?r" "rules_ok ?r" using assms by (auto simp: cfi_ok_def lget_def)
  have sp: "ARCH_DWARF_SP_REG a < 32" for a by (simp add: ARCH_DWARF_SP_REG_def split: arch.splits)
  have l: "length (cs_regs st) = 32" using assms by (simp add: cfi_ok_def)
  have s: "rpost (\<lambda>regs. length regs = 32) (resolve_loop M v ?r [0..<32] ((cs_regs st)[ARCH_DWARF_SP_REG a := v]))" for v a
    by (rule resolve_loop_post [OF _ r(2)]) (use l in auto)
  have "cfi_ok (st\<lparr>cs_regs := regs\<rparr>)" if "length regs = 32" for regs using assms that by (simp add: cfi_ok_def)
  then show ?thesis unfolding dwarf_cfi_resolve_def r(1) ebind_simps Let_def
    using r(2) l sp by (auto simp: lget_def lset_def rules_ok_def intro!: rpost_if rpost_ebind [OF s])
qed

section \<open>The stack trace stays inside its sections\<close>

definition frame_ok :: "interrupt_frame \<Rightarrow> bool" where
  "frame_ok frame = (case frame of Frame_x86_64 f \<Rightarrow> True | Frame_gp f \<Rightarrow> length (gp_x f) = DWARF_MAX_REGS)"

lemma seed_ok: "cfi_ok st \<Longrightarrow> frame_ok frame \<Longrightarrow> cfi_ok (arch_cfi_seed frame (st\<lparr>cs_is_signal_frame := b\<rparr>))"
  by (auto simp: arch_cfi_seed_def x86_64_cfi_seed_def frame_ok_def cfi_ok_def split: interrupt_frame.splits)

lemma line_or_none_post: "upost (\<lambda>_. True) (line_or_none (dwarf_line_for_pc (Some bs) pc))"
  using line_units_post [of bs pc 0] by (simp add: dwarf_line_for_pc_def line_or_none_def rpost_def split: sum.splits)

lemma unwind_post:
  assumes "cfi_ok st"
  shows "upost (\<lambda>r. \<forall>p st'. r = Some (p, st') \<longrightarrow> cfi_ok st') (unwind M bs pc st)"
proof -
  have u: "upost cfi_ok (ebind (dwarf_cfi bs pc st) (dwarf_cfi_resolve M))"
    by (rule upost_ebind [OF dwarf_cfi_post [OF assms]]) (rule upost_rpost [OF dwarf_cfi_resolve_post])
  show ?thesis
  proof (cases "ebind (dwarf_cfi bs pc st) (dwarf_cfi_resolve M)")
    case (Inr st')
    then have "cfi_ok st'" using u by simp
    then show ?thesis using Inr by (simp add: unwind_def lget_def cfi_ok_def)
  qed (use u in \<open>auto simp: unwind_def\<close>)
qed

lemma trace_loop_post:
  assumes "elf_introspect_base (mc_kernel_file M) = Inr b"
  shows "cfi_ok st \<Longrightarrow> upost (\<lambda>ls. length ls \<le> n) (trace_loop M df dl sy sr n pc st)"
proof (induction n arbitrary: pc st)
  case (Suc n)
  let ?lt = "pc - (if cs_is_signal_frame st then 0 else 1) - (mc_kernel_base M - b)"
  have k: "kaslr_rt2lt (mc_kernel_base M) (mc_kernel_file M) (pc - (if cs_is_signal_frame st then 0 else 1)) = Inr ?lt"
    using assms by (simp add: kaslr_rt2lt_def elf_introspect_kaslr_slide_def)
  obtain sym where s: "symbol_for_pc sy sr ?lt = Inr sym" using symbol_for_pc_total by blast
  have n: "upost (\<lambda>ls. length ls \<le> Suc n) (ebind (trace_loop M df dl sy sr n pc' st') (\<lambda>ls. Inr (l # ls)))" if "cfi_ok st'" for pc' st' l
    by (rule upost_ebind [OF Suc.IH [OF that]]) simp
  show ?case unfolding trace_loop.simps k ebind_simps s
    by (rule upost_ebind [OF line_or_none_post], rule upost_ebind [OF unwind_post [OF Suc.prems]])
      (auto split: option.splits intro: n)
qed simp

lemma find_section_Inr:
  assumes "elf_introspect_base f = Inr b" "names_terminated f"
  shows "\<exists>r. elf_introspect_section v f str_debug_frame = Inr r" "\<exists>r. elf_introspect_section v f str_debug_line = Inr r"
    "\<exists>r. elf_introspect_section v f str_symtab = Inr r" "\<exists>r. elf_introspect_section v f str_strtab = Inr r"
  by (rule section_total [OF _ assms], simp add: str_debug_frame_def str_debug_line_def str_symtab_def str_strtab_def)+

section \<open>Readable memory\<close>

lemma PAGING_INDEX_page: "unat v div 4096 = unat w div 4096 \<Longrightarrow> PAGING_INDEX v l = PAGING_INDEX w l"
proof -
  assume *: "unat v div 4096 = unat w div 4096"
  obtain k where k: "PAGING_ENTRY_SHIFT l = 12 + k" using entry_shift(3) le_Suc_ex by blast
  have "x div 2 ^ PAGING_ENTRY_SHIFT l = x div 4096 div 2 ^ k" for x :: nat
    by (simp add: k power_add div_mult2_eq)
  then show ?thesis by (simp add: PAGING_INDEX_nat *)
qed

lemma paging_walk_page: "unat v div 4096 = unat w div 4096 \<Longrightarrow> (paging_walk A m t v l = None) = (paging_walk A m t w l = None)"
  by (induction l arbitrary: t) (simp_all add: Let_def paging_get_pte_def PAGING_INDEX_page [of v w])

lemma byte_page:
  assumes "i < 8"
  shows "unat (v + word_of_nat i :: u64) div 4096 = unat v div 4096 \<and> unat v mod 4096 + i < 4096 \<or>
    unat (v + word_of_nat i) div 4096 = unat (v + 7) div 4096 \<and> 4096 \<le> unat v mod 4096 + i"
proof -
  let ?q = "unat v div 4096" and ?r = "unat v mod 4096"
  have v: "unat v = ?q * 4096 + ?r" by simp
  have q: "?q < 2 ^ 52" using unat_lt64 [of v] by (simp add: less_mult_imp_div_less)
  have a: "unat (v + word_of_nat j) = (?q * 4096 + ?r + j) mod 2 ^ 64" if "j < 8" for j
    using that v by (simp add: unat_word_ariths unat_of_nat)
  show ?thesis
  proof (cases "?r + i < 4096")
    case True
    have "?q * 4096 + 4096 \<le> 2 ^ 64" using q by simp
    then have "?q * 4096 + (?r + i) < 2 ^ 64" using True by linarith
    then have "unat (v + word_of_nat i) = ?q * 4096 + (?r + i)" using a [OF assms] by (simp add: add.assoc)
    moreover have "(?q * 4096 + (?r + i)) div 4096 = ?q" using True by (simp only: div_mult_self3)
    ultimately show ?thesis using True by metis
  next
    case False
    have d: "((?q + 1) * 4096 + k) mod 2 ^ 64 div 4096 = (?q + 1) mod 2 ^ 52" if "k < 8" for k
    proof (cases "?q + 1 = 2 ^ 52")
      case True
      then have "((?q + 1) * 4096 + k) mod 2 ^ 64 = k" using that by simp
      then show ?thesis using True that by simp
    next
      case False
      then have "(?q + 1) * 4096 + 4096 \<le> 2 ^ 64" using q by simp
      then have "(?q + 1) * 4096 + k < 2 ^ 64" using that by linarith
      then show ?thesis using False q that by simp
    qed
    have "unat (v + word_of_nat j) div 4096 = (?q + 1) mod 2 ^ 52" if "j < 8" "4096 \<le> ?r + j" for j
    proof -
      have "?r < 4096" by simp
      then have k: "?r + j - 4096 < 8" using that by linarith
      have "?q * 4096 + ?r + j = (?q + 1) * 4096 + (?r + j - 4096)" using that(2) by simp
      then show ?thesis unfolding a [OF that(1)] using d [OF k] by simp
    qed
    from this [OF assms] this [of 7] False assms show ?thesis by auto
  qed
qed

section \<open>Properties\<close>

text \<open>C25. The unwinder's state is well formed and stays so: for any section contents, program counter and
  memory, both running the frame programs and resolving the rules keep every array at its size, the
  stack depth and every register number in range; they never index an array out of range, and fail
  only by rejecting the input or overflowing the product of an offset.\<close>

theorem cfi_state_well_formed:
  assumes "cfi_ok st"
  shows "(case dwarf_cfi section pc st of Inr st' \<Rightarrow> cfi_ok st' | Inl e \<Rightarrow> e = Rejected \<or> e = Undefined) \<and>
    (case dwarf_cfi_resolve M st of Inr st' \<Rightarrow> cfi_ok st' | Inl e \<Rightarrow> e = Rejected)"
  using dwarf_cfi_post [OF assms, of "section" pc] dwarf_cfi_resolve_post [OF assms, of M]
  by (auto simp: upost_def rpost_def split: sum.splits)

definition cfi0 :: cfi_state where
  "cfi0 = \<lparr>cfi_baseline = rules0, cs_rules = [rules0, rules0], cs_regs = replicate 32 0, cs_ra_col = 0, cs_depth = 0,
     cs_is_signal_frame = False\<rparr>"

lemma cfi0_ok: "cfi_ok cfi0"
  using rules_ok_rules0 by (simp add: cfi_ok_def cfi0_def)

theorem cfi_state_well_formed_witness:
  "cfi_ok cfi0 \<and> (case dwarf_cfi [] 0 cfi0 of Inr st' \<Rightarrow> cfi_ok st' | Inl e \<Rightarrow> e = Rejected \<or> e = Undefined)"
  using cfi_state_well_formed [OF cfi0_ok, of "[]" 0] cfi0_ok by blast


text \<open>A machine whose kernel table has one four-level path with a mapping of address 0.\<close>

definition machine0 :: machine where
  "machine0 = \<lparr>mc_mmu = \<lparr>mmu_arch = X86_64, mmu_config = x86_64_get_mmu_config False True True\<rparr>, mc_hhdm = 0,
     mc_last_paddr = 0, mc_kernel_page_table = 0x1000,
     mc_ptables = (\<lambda>_. 0)(0x1000 := 0x2003, 0x2000 := 0x3003, 0x3000 := 0x4003, 0x4000 := 0x5003),
     mc_memory = (\<lambda>_. 0), mc_kernel_file = elf0, mc_kernel_base = 0x1000\<rparr>"




end
