(* ===== verification/Locks.thy ===== *)
theory Locks
  imports Prelude
begin

text \<open>
  The locks of \<^verbatim>\<open>utils/locks\<close>: the ticket lock, the test-and-set locks (spin lock, interrupt lock and
  preemption lock) and the sleeping mutex. Each is a step relation in which a thread performs one
  atomic access to the lock at a time and the threads interleave freely; memory is sequentially
  consistent. The theory shows mutual exclusion for all of them, first-come-first-served order and
  progress for the ticket lock, and for the mutex that no sleeping thread is forgotten.
\<close>

type_synonym tid = nat

section \<open>The contract of a lock\<close>

text \<open>A lock is a transition system with an invariant under which at most one thread holds the lock.\<close>

locale exclusive_lock =
  fixes init :: "'s \<Rightarrow> bool" and step :: "'s \<Rightarrow> 's \<Rightarrow> bool" and holds :: "'s \<Rightarrow> tid \<Rightarrow> bool" and inv :: "'s \<Rightarrow> bool"
  assumes inv_init: "init s \<Longrightarrow> inv s"
    and inv_step: "inv s \<Longrightarrow> step s s' \<Longrightarrow> inv s'"
    and inv_holds: "inv s \<Longrightarrow> holds s t \<Longrightarrow> holds s u \<Longrightarrow> t = u"
begin

lemma reachable_inv: "step\<^sup>*\<^sup>* s s' \<Longrightarrow> init s \<Longrightarrow> inv s'"
  by (induction rule: rtranclp_induct) (auto intro: inv_init inv_step)

lemma exclusion: "init s \<Longrightarrow> step\<^sup>*\<^sup>* s s' \<Longrightarrow> holds s' t \<Longrightarrow> holds s' u \<Longrightarrow> t = u"
  using reachable_inv inv_holds by blast

end

section \<open>The ticket lock\<close>

record ticketlock =
  tl_next :: u32
  tl_owner :: u32

definition ticketlock_init :: ticketlock where
  "ticketlock_init = \<lparr>tl_next = 0, tl_owner = 0\<rparr>"

text \<open>A thread is outside, spins with its ticket, or is inside.\<close>

datatype tl_pc = TlOut | TlSpin u32 | TlIn u32

record tl_state =
  tl_lock :: ticketlock
  tl_pcs :: "tid \<Rightarrow> tl_pc"
  tl_preempt :: "tid \<Rightarrow> u32"

definition disable_preemption :: "tid \<Rightarrow> (tid \<Rightarrow> u32) \<Rightarrow> tid \<Rightarrow> u32" where
  "disable_preemption t c = c(t := c t + 1)"

definition enable_preemption :: "tid \<Rightarrow> (tid \<Rightarrow> u32) \<Rightarrow> tid \<Rightarrow> u32" where
  "enable_preemption t c = c(t := c t - 1)"

text \<open>\<^verbatim>\<open>ticketlock_lock\<close> up to the ticket, its spin test, and \<^verbatim>\<open>ticketlock_unlock\<close>.\<close>

definition tl_take :: "tid \<Rightarrow> tl_state \<Rightarrow> tl_state" where
  "tl_take t s = s\<lparr>tl_preempt := disable_preemption t (tl_preempt s),
     tl_lock := (tl_lock s)\<lparr>tl_next := tl_next (tl_lock s) + 1\<rparr>,
     tl_pcs := (tl_pcs s)(t := TlSpin (tl_next (tl_lock s)))\<rparr>"

definition tl_enter :: "tid \<Rightarrow> u32 \<Rightarrow> tl_state \<Rightarrow> tl_state" where
  "tl_enter t my s = (if tl_owner (tl_lock s) \<noteq> my then s else s\<lparr>tl_pcs := (tl_pcs s)(t := TlIn my)\<rparr>)"

definition ticketlock_unlock :: "tid \<Rightarrow> tl_state \<Rightarrow> tl_state" where
  "ticketlock_unlock t s = s\<lparr>tl_lock := (tl_lock s)\<lparr>tl_owner := tl_owner (tl_lock s) + 1\<rparr>,
     tl_preempt := enable_preemption t (tl_preempt s), tl_pcs := (tl_pcs s)(t := TlOut)\<rparr>"

text \<open>The steps of the threads of a set \<open>T\<close>.\<close>

inductive tl_step :: "tid set \<Rightarrow> tl_state \<Rightarrow> tl_state \<Rightarrow> bool" for T :: "tid set" where
  take: "t \<in> T \<Longrightarrow> tl_pcs s t = TlOut \<Longrightarrow> tl_step T s (tl_take t s)"
| enter: "t \<in> T \<Longrightarrow> tl_pcs s t = TlSpin my \<Longrightarrow> tl_step T s (tl_enter t my s)"
| leave: "t \<in> T \<Longrightarrow> tl_pcs s t = TlIn my \<Longrightarrow> tl_step T s (ticketlock_unlock t s)"

definition tl_init :: "tid set \<Rightarrow> tl_state \<Rightarrow> bool" where
  "tl_init T s \<longleftrightarrow> finite T \<and> card T < 2 ^ 32 \<and> tl_lock s = ticketlock_init \<and> tl_pcs s = (\<lambda>_. TlOut) \<and> tl_preempt s = (\<lambda>_. 0)"

text \<open>The lock represents the queue \<open>q\<close> of the threads that hold tickets, in the order of the tickets; only the
  first of them can be inside, and exactly they cannot be preempted.\<close>

definition tl_rep :: "tid set \<Rightarrow> tl_state \<Rightarrow> tid list \<Rightarrow> bool" where
  "tl_rep T s q \<longleftrightarrow> distinct q \<and> set q \<subseteq> T \<and> (\<forall>t. tl_pcs s t = TlOut \<longleftrightarrow> t \<notin> set q) \<and>
     tl_next (tl_lock s) = tl_owner (tl_lock s) + word_of_nat (length q) \<and>
     (\<forall>i < length q. tl_pcs s (q ! i) = TlSpin (tl_owner (tl_lock s) + word_of_nat i) \<or>
        i = 0 \<and> tl_pcs s (q ! i) = TlIn (tl_owner (tl_lock s))) \<and>
     (\<forall>t. tl_preempt s t = (if t \<in> set q then 1 else 0))"

definition tl_inv :: "tid set \<Rightarrow> tl_state \<Rightarrow> bool" where
  "tl_inv T s \<longleftrightarrow> finite T \<and> card T < 2 ^ 32 \<and> (\<exists>q. tl_rep T s q)"

definition tl_holds :: "tl_state \<Rightarrow> tid \<Rightarrow> bool" where
  "tl_holds s t \<longleftrightarrow> (\<exists>my. tl_pcs s t = TlIn my)"

lemma ticket_inj: "i < 2 ^ 32 \<Longrightarrow> j < 2 ^ 32 \<Longrightarrow> (w :: u32) + word_of_nat i = w + word_of_nat j \<longleftrightarrow> i = j"
  by (simp add: word_of_nat_eq_iff take_bit_nat_eq_self)

lemma tl_rep_small: "finite T \<Longrightarrow> card T < 2 ^ 32 \<Longrightarrow> tl_rep T s q \<Longrightarrow> length q < 2 ^ 32"
  unfolding tl_rep_def by (metis card_mono distinct_card le_less_trans)

lemma tl_rep_spin:
  assumes "finite T" "card T < 2 ^ 32" "tl_rep T s q" "tl_pcs s t = TlSpin my"
  shows "\<exists>i < length q. q ! i = t \<and> my = tl_owner (tl_lock s) + word_of_nat i"
proof -
  have "t \<in> set q" using assms(3,4) unfolding tl_rep_def by (metis tl_pc.distinct(1))
  then obtain i where "i < length q" "q ! i = t" by (auto simp: in_set_conv_nth)
  thus ?thesis using assms(3,4) unfolding tl_rep_def by fastforce
qed

lemma tl_rep_in:
  assumes "tl_rep T s q" "tl_pcs s t = TlIn my"
  shows "q \<noteq> [] \<and> hd q = t \<and> my = tl_owner (tl_lock s)"
proof -
  have "t \<in> set q" using assms unfolding tl_rep_def by (metis tl_pc.distinct(3))
  then obtain i where "i < length q" "q ! i = t" by (auto simp: in_set_conv_nth)
  thus ?thesis using assms unfolding tl_rep_def
    by (metis hd_conv_nth length_greater_0_conv less_nat_zero_code list.size(3) tl_pc.distinct(5) tl_pc.inject(2))
qed

lemma tl_rep_take:
  assumes "tl_rep T s q" "t \<in> T" "tl_pcs s t = TlOut"
  shows "tl_rep T (tl_take t s) (q @ [t])"
proof -
  have t: "t \<notin> set q" using assms unfolding tl_rep_def by blast
  have "\<forall>i < length q. q ! i \<noteq> t" using t by auto
  thus ?thesis using assms t unfolding tl_rep_def tl_take_def disable_preemption_def
    by (auto simp: nth_append less_Suc_eq)
qed

lemma tl_rep_enter:
  assumes "finite T" "card T < 2 ^ 32" "tl_rep T s q" "tl_pcs s t = TlSpin my"
  shows "tl_rep T (tl_enter t my s) q"
proof (cases "tl_owner (tl_lock s) = my")
  case True
  obtain i where i: "i < length q" "q ! i = t" "my = tl_owner (tl_lock s) + word_of_nat i"
    using tl_rep_spin [OF assms] by blast
  have "i < 2 ^ 32" using i(1) tl_rep_small [OF assms(1-3)] by linarith
  moreover have "tl_owner (tl_lock s) + word_of_nat i = my" using i(3) by (rule sym)
  hence "my + word_of_nat i = my + word_of_nat 0" using True by simp
  ultimately have "i = 0" using ticket_inj [of i 0 my] by simp
  moreover have "distinct q" using assms(3) unfolding tl_rep_def by blast
  ultimately have j: "\<And>j. j < length q \<Longrightarrow> q ! j = t \<longleftrightarrow> j = 0" using i by (metis nth_eq_iff_index_eq)
  have t: "t \<in> set q" using i by auto
  have e: "tl_enter t my s = s\<lparr>tl_pcs := (tl_pcs s)(t := TlIn my)\<rparr>" using True by (simp add: tl_enter_def)
  have "\<forall>k < length q. ((tl_pcs s)(t := TlIn my)) (q ! k) = TlSpin (my + word_of_nat k) \<or>
      k = 0 \<and> ((tl_pcs s)(t := TlIn my)) (q ! k) = TlIn my"
    using assms(3) j unfolding tl_rep_def True fun_upd_def by metis
  thus ?thesis using assms(3) t unfolding tl_rep_def e
    by (simp add: True)
qed (use assms(3) in \<open>simp add: tl_enter_def\<close>)

lemma tl_rep_leave:
  assumes "tl_rep T s q" "tl_pcs s t = TlIn my"
  shows "tl_rep T (ticketlock_unlock t s) (tl q)"
proof -
  obtain q' where q: "q = t # q'" using tl_rep_in [OF assms] by (cases q) auto
  have "\<forall>i < length q'. q' ! i \<noteq> t" using assms(1) q unfolding tl_rep_def by auto
  moreover have "tl_pcs s (q' ! i) = TlSpin (tl_owner (tl_lock s) + 1 + word_of_nat i)" if "i < length q'" for i
    using assms(1) that unfolding tl_rep_def q by (auto simp: add.assoc dest: spec [of _ "Suc i"])
  ultimately show ?thesis using assms(1) unfolding tl_rep_def ticketlock_unlock_def enable_preemption_def q
    by (auto simp: algebra_simps)
qed

lemma tl_inv_init: "tl_init T s \<Longrightarrow> tl_inv T s"
  unfolding tl_init_def tl_inv_def tl_rep_def ticketlock_init_def by (intro conjI exI [of _ "[]"]) auto

lemma tl_inv_step: "tl_step T s s' \<Longrightarrow> tl_inv T s \<Longrightarrow> tl_inv T s'"
  unfolding tl_inv_def
  by (induction rule: tl_step.cases) (blast intro: tl_rep_take tl_rep_enter tl_rep_leave)+

lemma tl_inv_holds: "tl_inv T s \<Longrightarrow> tl_holds s t \<Longrightarrow> tl_holds s u \<Longrightarrow> t = u"
  unfolding tl_inv_def tl_holds_def using tl_rep_in by metis

interpretation ticketlock: exclusive_lock "tl_init T" "tl_step T" tl_holds "tl_inv T" for T
  by unfold_locales (auto intro: tl_inv_init tl_inv_step tl_inv_holds)

subsection \<open>First come, first served\<close>

text \<open>The abstract lock: the queue of the threads that asked for it, and whether the first of them is inside.\<close>

inductive fifo_step :: "tid set \<Rightarrow> tid list \<times> bool \<Rightarrow> tid list \<times> bool \<Rightarrow> bool" for T :: "tid set" where
  ask: "t \<in> T \<Longrightarrow> t \<notin> set q \<Longrightarrow> fifo_step T (q, b) (q @ [t], b)"
| admit: "q \<noteq> [] \<Longrightarrow> fifo_step T (q, False) (q, True)"
| release: "fifo_step T (t # q, True) (q, False)"

definition tl_abs :: "tid set \<Rightarrow> tl_state \<Rightarrow> tid list \<times> bool \<Rightarrow> bool" where
  "tl_abs T s a \<longleftrightarrow> tl_rep T s (fst a) \<and> (snd a \<longleftrightarrow> fst a \<noteq> [] \<and> tl_holds s (hd (fst a)))"

lemma tl_holds_hd: "tl_rep T s q \<Longrightarrow> tl_holds s t \<Longrightarrow> q \<noteq> [] \<and> hd q = t"
  unfolding tl_holds_def using tl_rep_in by blast

lemma tl_rep_out: "tl_rep T s q \<Longrightarrow> tl_pcs s t = TlOut \<longleftrightarrow> t \<notin> set q"
  by (simp add: tl_rep_def)

lemma tl_abs_step:
  assumes "tl_step T s s'" "finite T" "card T < 2 ^ 32" "tl_abs T s a"
  shows "\<exists>a'. (fifo_step T)\<^sup>*\<^sup>* a a' \<and> tl_abs T s' a'"
  using assms(1)
proof cases
  case (take t)
  have t: "t \<notin> set (fst a)" using assms(4) take(3) tl_rep_out unfolding tl_abs_def by blast
  hence "fifo_step T a (fst a @ [t], snd a)" using take(2) fifo_step.ask [of t T "fst a" "snd a"] by simp
  moreover have "tl_abs T s' (fst a @ [t], snd a)"
    using tl_rep_take [of T s "fst a" t] take assms(4) t
    by (auto simp: tl_abs_def tl_holds_def tl_take_def hd_append)
  ultimately show ?thesis by blast
next
  case (enter t my)
  have r: "tl_rep T s' (fst a)" using tl_rep_enter assms(2-4) enter unfolding tl_abs_def by blast
  show ?thesis
  proof (cases "tl_holds s' t")
    case True
    hence h: "fst a \<noteq> []" "hd (fst a) = t" using tl_holds_hd [OF r] by auto
    have "\<not> tl_holds s t" using enter by (simp add: tl_holds_def)
    hence "a = (fst a, False)" using assms(4) h by (auto simp: tl_abs_def prod_eq_iff)
    hence "fifo_step T a (fst a, True)" using fifo_step.admit [OF h(1)] by metis
    moreover have "tl_abs T s' (fst a, True)" using r True h by (simp add: tl_abs_def)
    ultimately show ?thesis by blast
  next
    case False
    hence "s' = s" using enter by (auto simp: tl_enter_def tl_holds_def)
    thus ?thesis using assms(4) by blast
  qed
next
  case (leave t my)
  have r: "tl_rep T s (fst a)" using assms(4) by (simp add: tl_abs_def)
  have h: "tl_holds s t" using leave by (simp add: tl_holds_def)
  obtain q where q: "fst a = t # q" using tl_holds_hd [OF r h] by (cases "fst a") auto
  have "a = (t # q, True)" using assms(4) q h by (auto simp: tl_abs_def prod_eq_iff)
  hence "fifo_step T a (q, False)" using fifo_step.release by simp
  moreover have "tl_rep T s' q" using tl_rep_leave [OF r leave(3)] leave(1) q by simp
  moreover have "\<not> tl_holds s' u" for u
    using tl_holds_hd [OF r, of u] q leave by (auto simp: ticketlock_unlock_def tl_holds_def)
  ultimately show ?thesis by (intro exI [of _ "(q, False)"]) (auto simp: tl_abs_def)
qed

lemma tl_abs_run:
  assumes "(tl_step T)\<^sup>*\<^sup>* s s'" "tl_init T s"
  shows "\<exists>a. (fifo_step T)\<^sup>*\<^sup>* ([], False) a \<and> tl_abs T s' a"
  using assms
proof (induction rule: rtranclp_induct)
  case base
  hence "tl_abs T s ([], False)"
    unfolding tl_init_def tl_abs_def tl_rep_def ticketlock_init_def by auto
  thus ?case by blast
next
  case (step s1 s2)
  then obtain a where a: "(fifo_step T)\<^sup>*\<^sup>* ([], False) a" "tl_abs T s1 a" by blast
  have "finite T" "card T < 2 ^ 32" using step.prems unfolding tl_init_def by blast+
  then obtain a' where "(fifo_step T)\<^sup>*\<^sup>* a a'" "tl_abs T s2 a'" using tl_abs_step step.hyps(2) a(2) by blast
  thus ?case using a(1) by (meson rtranclp_trans)
qed

text \<open>
  C33. The ticket lock implements the abstract first-come-first-served lock: after every interleaving of
  \<^verbatim>\<open>ticketlock_lock\<close> and \<^verbatim>\<open>ticketlock_unlock\<close> by fewer than \<open>2^32\<close> threads, also after the 32-bit
  ticket counters have wrapped around, its state represents a state of the abstract lock that the abstract lock
  can reach; so only the thread that asked first is inside, and exactly the threads that asked run with preemption
  disabled.
\<close>

theorem ticketlock_fifo:
  assumes "tl_init T s" "(tl_step T)\<^sup>*\<^sup>* s s'"
  shows "\<exists>q b. (fifo_step T)\<^sup>*\<^sup>* ([], False) (q, b) \<and> tl_rep T s' q \<and>
    (b \<longleftrightarrow> (\<exists>t. tl_holds s' t)) \<and> (\<forall>t. tl_holds s' t \<longrightarrow> q \<noteq> [] \<and> t = hd q) \<and>
    (\<forall>t. tl_preempt s' t = (if t \<in> set q then 1 else 0))"
proof -
  obtain q b where a: "(fifo_step T)\<^sup>*\<^sup>* ([], False) (q, b)" "tl_abs T s' (q, b)"
    using tl_abs_run [OF assms(2,1)] by auto
  have r: "tl_rep T s' q" "b \<longleftrightarrow> q \<noteq> [] \<and> tl_holds s' (hd q)" using a(2) by (auto simp: tl_abs_def)
  moreover have "\<forall>t. tl_holds s' t \<longrightarrow> q \<noteq> [] \<and> t = hd q" using tl_holds_hd [OF r(1)] by auto
  moreover have "\<forall>t. tl_preempt s' t = (if t \<in> set q then 1 else 0)" using r(1) by (simp add: tl_rep_def)
  ultimately show ?thesis using a(1) by blast
qed

subsection \<open>Progress\<close>

text \<open>A spinning thread keeps its ticket until it enters, and the owner changes only when the thread inside leaves.\<close>

lemma tl_spin_step:
  assumes "tl_step T s s'" "tl_inv T s" "tl_pcs s t = TlSpin my"
  shows "tl_pcs s' t = TlSpin my \<or> tl_holds s' t \<and> tl_owner (tl_lock s) = my"
  using assms(1,3) by cases (auto simp: tl_take_def tl_enter_def ticketlock_unlock_def tl_holds_def)

lemma tl_owner_step:
  assumes "tl_step T s s'"
  shows "tl_owner (tl_lock s') = tl_owner (tl_lock s) \<or>
    tl_owner (tl_lock s') = tl_owner (tl_lock s) + 1 \<and> (\<exists>t. tl_holds s t \<and> \<not> tl_holds s' t)"
  using assms by cases (auto simp: tl_take_def tl_enter_def ticketlock_unlock_def tl_holds_def)

lemma tl_holds_step:
  assumes "tl_step T s s'" "tl_holds s t"
  shows "tl_holds s' t \<or> tl_owner (tl_lock s') = tl_owner (tl_lock s) + 1"
  using assms by cases (auto simp: tl_take_def tl_enter_def ticketlock_unlock_def tl_holds_def)

lemma tl_turn_free: "tl_inv T s \<Longrightarrow> tl_pcs s t = TlSpin (tl_owner (tl_lock s)) \<Longrightarrow> \<not> tl_holds s u"
proof
  assume a: "tl_inv T s" "tl_pcs s t = TlSpin (tl_owner (tl_lock s))" "tl_holds s u"
  then obtain q where r: "finite T" "card T < 2 ^ 32" "tl_rep T s q" by (auto simp: tl_inv_def)
  obtain i where i: "i < length q" "q ! i = t" "tl_owner (tl_lock s) = tl_owner (tl_lock s) + word_of_nat i"
    using tl_rep_spin [OF r a(2)] by blast
  have "i < 2 ^ 32" using i(1) tl_rep_small [OF r] by linarith
  hence "i = 0" using ticket_inj [of i 0 "tl_owner (tl_lock s)"] i(3) by simp
  hence "t = u" using tl_holds_hd [OF r(3) a(3)] i by (auto simp: hd_conv_nth)
  thus False using a(2,3) by (simp add: tl_holds_def)
qed

text \<open>An infinite run of the threads of \<open>T\<close>; a thread inside eventually leaves; a thread that spins eventually
  executes its test again.\<close>

definition tl_run :: "tid set \<Rightarrow> (nat \<Rightarrow> tl_state) \<Rightarrow> bool" where
  "tl_run T r \<longleftrightarrow> tl_init T (r 0) \<and> (\<forall>n. tl_step T (r n) (r (Suc n)))"

definition tl_leaves :: "(nat \<Rightarrow> tl_state) \<Rightarrow> bool" where
  "tl_leaves r \<longleftrightarrow> (\<forall>n t. tl_holds (r n) t \<longrightarrow> (\<exists>m \<ge> n. \<not> tl_holds (r m) t))"

definition tl_retries :: "(nat \<Rightarrow> tl_state) \<Rightarrow> bool" where
  "tl_retries r \<longleftrightarrow> (\<forall>n t my. tl_pcs (r n) t = TlSpin my \<longrightarrow>
     (\<exists>m \<ge> n. (tl_pcs (r m) t = TlSpin my \<longrightarrow> r (Suc m) = tl_enter t my (r m))))"

lemma tl_run_inv: "tl_run T r \<Longrightarrow> tl_inv T (r n)"
  by (induction n) (auto simp: tl_run_def intro: tl_inv_init tl_inv_step)

lemma tl_run_step: "tl_run T r \<Longrightarrow> tl_step T (r n) (r (Suc n))"
  by (simp add: tl_run_def)

lemma tl_waits:
  assumes "tl_run T r" "tl_pcs (r n) t = TlSpin my"
  shows "tl_pcs (r (n + k)) t = TlSpin my \<or> (\<exists>m \<ge> n. tl_holds (r m) t)"
proof (induction k)
  case (Suc k)
  show ?case
  proof (cases "\<exists>m \<ge> n. tl_holds (r m) t")
    case False
    hence "tl_pcs (r (n + k)) t = TlSpin my" using Suc by blast
    hence "tl_pcs (r (Suc (n + k))) t = TlSpin my \<or> tl_holds (r (Suc (n + k))) t"
      using tl_spin_step [OF tl_run_step [OF assms(1)] tl_run_inv [OF assms(1)]] by blast
    thus ?thesis using False by (metis add_Suc_right le_add1)
  qed blast
qed (use assms(2) in simp)

lemma tl_turn_waits:
  assumes "tl_run T r" "tl_pcs (r n) t = TlSpin my" "tl_owner (tl_lock (r n)) = my"
    and "\<not> (\<exists>m \<ge> n. tl_holds (r m) t)"
  shows "tl_owner (tl_lock (r (n + k))) = my"
proof (induction k)
  case (Suc k)
  have "tl_pcs (r (n + k)) t = TlSpin (tl_owner (tl_lock (r (n + k))))"
    using tl_waits [OF assms(1,2), of k] assms(4) Suc by auto
  hence "\<not> tl_holds (r (n + k)) u" for u using tl_turn_free [OF tl_run_inv [OF assms(1)]] by blast
  thus ?case using tl_owner_step [OF tl_run_step [OF assms(1), of "n + k"]] Suc by auto
qed (use assms(3) in simp)

lemma tl_turn_enters:
  assumes "tl_run T r" "tl_retries r" "tl_pcs (r n) t = TlSpin my" "tl_owner (tl_lock (r n)) = my"
  shows "\<exists>m \<ge> n. tl_holds (r m) t"
proof (rule ccontr)
  assume a: "\<not> ?thesis"
  obtain k where k: "tl_pcs (r (n + k)) t = TlSpin my \<longrightarrow> r (Suc (n + k)) = tl_enter t my (r (n + k))"
    using assms(2,3) unfolding tl_retries_def by (metis le_iff_add)
  hence "r (Suc (n + k)) = tl_enter t my (r (n + k))" using tl_waits [OF assms(1,3), of k] a by blast
  moreover have "tl_owner (tl_lock (r (n + k))) = my" using tl_turn_waits [OF assms(1,3,4) a] .
  ultimately have "tl_holds (r (Suc (n + k))) t" by (simp add: tl_enter_def tl_holds_def)
  thus False using a by (meson le_SucI le_add1)
qed

lemma tl_owner_moves:
  assumes "tl_run T r" "tl_leaves r" "tl_holds (r n) h"
  shows "\<exists>m \<ge> n. tl_owner (tl_lock (r m)) \<noteq> tl_owner (tl_lock (r n))"
proof (rule ccontr)
  assume a: "\<not> ?thesis"
  have "tl_holds (r (n + k)) h" for k
  proof (induction k)
    case (Suc k)
    have "tl_owner (tl_lock (r (Suc (n + k)))) = tl_owner (tl_lock (r (n + k)))"
      using a by (metis le_SucI le_add1)
    thus ?case using tl_holds_step [OF tl_run_step [OF assms(1)] Suc] by simp
  qed (use assms(3) in simp)
  thus False using assms(2,3) unfolding tl_leaves_def by (metis le_iff_add)
qed

lemma tl_owner_advances:
  assumes r: "tl_run T r" "tl_leaves r" "tl_retries r" and t: "tl_pcs (r n) t = TlSpin my"
  shows "\<exists>m \<ge> n. tl_owner (tl_lock (r m)) \<noteq> tl_owner (tl_lock (r n))"
proof (rule ccontr)
  assume a: "\<not> ?thesis"
  obtain q where q: "finite T" "card T < 2 ^ 32" "tl_rep T (r n) q"
    using tl_run_inv [OF r(1)] by (auto simp: tl_inv_def)
  obtain i where "i < length q" using tl_rep_spin [OF q t] by blast
  hence "0 < length q" by linarith
  hence "tl_pcs (r n) (q ! 0) = TlSpin (tl_owner (tl_lock (r n)) + word_of_nat 0) \<or>
      tl_pcs (r n) (q ! 0) = TlIn (tl_owner (tl_lock (r n)))"
    using q(3) unfolding tl_rep_def by blast
  hence "tl_pcs (r n) (q ! 0) = TlSpin (tl_owner (tl_lock (r n))) \<or> tl_pcs (r n) (q ! 0) = TlIn (tl_owner (tl_lock (r n)))"
    by simp
  then obtain m where m: "m \<ge> n" "tl_holds (r m) (q ! 0)"
    using tl_turn_enters [OF r(1,3)] unfolding tl_holds_def by blast
  then obtain m' where "m' \<ge> m" "tl_owner (tl_lock (r m')) \<noteq> tl_owner (tl_lock (r m))"
    using tl_owner_moves [OF r(1,2)] by blast
  thus False using a m(1) by (metis le_trans)
qed

lemma tl_owner_next:
  assumes "tl_run T r" "tl_owner (tl_lock (r m)) \<noteq> tl_owner (tl_lock (r n))" "n \<le> m"
  shows "\<exists>m' \<ge> n. tl_owner (tl_lock (r m')) = tl_owner (tl_lock (r n)) + 1"
  using assms(3,2)
proof (induction rule: dec_induct)
  case (step k)
  show ?case
  proof (cases "tl_owner (tl_lock (r k)) = tl_owner (tl_lock (r n))")
    case True
    thus ?thesis using tl_owner_step [OF tl_run_step [OF assms(1), of k]] step by (metis le_SucI)
  qed (use step in blast)
qed simp

lemma tl_distance_enters:
  assumes r: "tl_run T r" "tl_leaves r" "tl_retries r"
  shows "tl_pcs (r n) t = TlSpin (tl_owner (tl_lock (r n)) + word_of_nat i) \<Longrightarrow> \<exists>m \<ge> n. tl_holds (r m) t"
proof (induction i arbitrary: n)
  case 0
  thus ?case using tl_turn_enters [OF r(1,3)] by simp
next
  case (Suc i)
  show ?case
  proof (rule ccontr)
    assume a: "\<not> ?thesis"
    obtain m where m: "m \<ge> n" "tl_owner (tl_lock (r m)) = tl_owner (tl_lock (r n)) + 1"
      using tl_owner_advances [OF r Suc.prems] tl_owner_next [OF r(1)] by blast
    obtain k where k: "m = n + k" using m(1) le_Suc_ex by blast
    have "tl_pcs (r m) t = TlSpin (tl_owner (tl_lock (r n)) + word_of_nat (Suc i))"
      using tl_waits [OF r(1) Suc.prems, of k] a k by blast
    hence "tl_pcs (r m) t = TlSpin (tl_owner (tl_lock (r m)) + word_of_nat i)" by (simp add: m(2) add_ac)
    then obtain m' where "m' \<ge> m" "tl_holds (r m') t" using Suc.IH by blast
    thus False using a m(1) le_trans by blast
  qed
qed

text \<open>
  C34. No thread starves at a ticket lock: in every infinite run of the threads in which a thread inside eventually
  unlocks and a spinning thread eventually executes its test again, every thread that has drawn a ticket eventually
  holds the lock.
\<close>

theorem ticketlock_no_starvation:
  assumes "tl_run T r" "tl_leaves r" "tl_retries r" "tl_pcs (r n) t = TlSpin my"
  shows "\<exists>m \<ge> n. tl_holds (r m) t"
proof -
  obtain q where q: "finite T" "card T < 2 ^ 32" "tl_rep T (r n) q"
    using tl_run_inv [OF assms(1)] by (auto simp: tl_inv_def)
  obtain i where "my = tl_owner (tl_lock (r n)) + word_of_nat i" using tl_rep_spin [OF q assms(4)] by blast
  thus ?thesis using tl_distance_enters [OF assms(1-3)] assms(4) by blast
qed

text \<open>One thread that locks and unlocks for ever, in round \<open>k\<close> and phase \<open>j\<close>.\<close>

definition tl_at :: "nat \<Rightarrow> nat \<Rightarrow> tl_state" where
  "tl_at k j = \<lparr>tl_lock = \<lparr>tl_next = (if j = 0 then word_of_nat k else word_of_nat k + 1), tl_owner = word_of_nat k\<rparr>,
      tl_pcs = (\<lambda>t. if t = 0 \<and> j \<noteq> 0 then (if j = 1 then TlSpin (word_of_nat k) else TlIn (word_of_nat k)) else TlOut),
      tl_preempt = (\<lambda>t. if t = 0 \<and> j \<noteq> 0 then 1 else 0)\<rparr>"

definition tl_solo :: "nat \<Rightarrow> tl_state" where
  "tl_solo n = tl_at (n div 3) (n mod 3)"

lemma tl_at_steps:
  "tl_step {0} (tl_at k 0) (tl_at k 1)" "tl_step {0} (tl_at k 1) (tl_at k 2)" "tl_step {0} (tl_at k 2) (tl_at (Suc k) 0)"
proof -
  have "tl_at k 1 = tl_take 0 (tl_at k 0)"
    by (auto simp: tl_at_def tl_take_def disable_preemption_def fun_eq_iff)
  thus "tl_step {0} (tl_at k 0) (tl_at k 1)" using tl_step.take [of 0 "{0}" "tl_at k 0"] by (simp add: tl_at_def)
  have "tl_at k 2 = tl_enter 0 (word_of_nat k) (tl_at k 1)"
    by (auto simp: tl_at_def tl_enter_def fun_eq_iff)
  thus "tl_step {0} (tl_at k 1) (tl_at k 2)"
    using tl_step.enter [of 0 "{0}" "tl_at k 1" "word_of_nat k"] by (simp add: tl_at_def)
  have "tl_at (Suc k) 0 = ticketlock_unlock 0 (tl_at k 2)"
    by (auto simp: tl_at_def ticketlock_unlock_def enable_preemption_def fun_eq_iff)
  thus "tl_step {0} (tl_at k 2) (tl_at (Suc k) 0)"
    using tl_step.leave [of 0 "{0}" "tl_at k 2" "word_of_nat k"] by (simp add: tl_at_def)
qed

lemma tl_solo_run: "tl_run {0} tl_solo"
proof -
  have "tl_step {0} (tl_solo n) (tl_solo (Suc n))" for n
  proof -
    have "Suc n div 3 = n div 3 \<and> n mod 3 = 0 \<and> Suc n mod 3 = 1 \<or> Suc n div 3 = n div 3 \<and> n mod 3 = 1 \<and> Suc n mod 3 = 2 \<or>
      Suc n div 3 = Suc (n div 3) \<and> n mod 3 = 2 \<and> Suc n mod 3 = 0" by presburger
    thus ?thesis unfolding tl_solo_def using tl_at_steps by metis
  qed
  thus ?thesis by (simp add: tl_run_def tl_init_def tl_solo_def tl_at_def ticketlock_init_def)
qed

lemma tl_solo_fair: "tl_leaves tl_solo" "tl_retries tl_solo"
proof -
  have m: "\<exists>m \<ge> n. m mod 3 = 0" for n :: nat by (rule exI [of _ "3 * n"]) simp
  have z: "m mod 3 = 0 \<Longrightarrow> tl_pcs (tl_solo m) t = TlOut" for m t by (simp add: tl_solo_def tl_at_def)
  show "tl_leaves tl_solo" unfolding tl_leaves_def tl_holds_def using m z by (metis tl_pc.distinct(3))
  show "tl_retries tl_solo" unfolding tl_retries_def using m z by (metis tl_pc.distinct(1))
qed

theorem ticketlock_no_starvation_witness:
  "tl_pcs (tl_solo 1) 0 = TlSpin 0 \<and> (\<exists>m \<ge> 1. tl_holds (tl_solo m) 0)"
proof -
  have "tl_pcs (tl_solo 1) 0 = TlSpin 0" by (simp add: tl_solo_def tl_at_def)
  thus ?thesis using ticketlock_no_starvation [OF tl_solo_run tl_solo_fair] by blast
qed

lemma tl_solo_reach: "(tl_step {0})\<^sup>*\<^sup>* (tl_solo 0) (tl_solo n)"
  by (induction n) (auto intro: rtranclp.rtrancl_into_rtrancl tl_run_step [OF tl_solo_run])

theorem ticketlock_fifo_witness:
  "tl_holds (tl_solo 2) 0 \<and> (\<exists>q b. tl_rep {0} (tl_solo 2) q \<and> q \<noteq> [] \<and> hd q = 0)"
proof -
  have h: "tl_holds (tl_solo 2) 0" by (simp add: tl_holds_def tl_solo_def tl_at_def)
  have "tl_init {0} (tl_solo 0)" using tl_solo_run by (simp add: tl_run_def)
  thus ?thesis using ticketlock_fifo [OF _ tl_solo_reach, of 2] h by metis
qed

section \<open>The test-and-set locks\<close>

text \<open>
  The three locks of \<^verbatim>\<open>spinlock.h\<close>, \<^verbatim>\<open>irqlock.h\<close> and \<^verbatim>\<open>preemptlock.h\<close> share the flag and the loop; they differ in
  what they do to the processor before the loop and after the release. A thread in the loop carries the interrupt
  state that \<^verbatim>\<open>irqlock_lock\<close> returns.
\<close>

datatype tas_pc = TasOut | TasTest bool | TasXchg bool | TasIn bool

record tas_state =
  tas_flag :: u32
  tas_pcs :: "tid \<Rightarrow> tas_pc"
  tas_irq :: "tid \<Rightarrow> bool"
  tas_preempt :: "tid \<Rightarrow> u32"

definition tas_goto :: "tid \<Rightarrow> tas_pc \<Rightarrow> tas_state \<Rightarrow> tas_state" where
  "tas_goto t p s = s\<lparr>tas_pcs := (tas_pcs s)(t := p)\<rparr>"

text \<open>One access of the loop: the relaxed load of the flag, or the exchange.\<close>

definition tas_loop :: "tid \<Rightarrow> tas_state \<Rightarrow> tas_state" where
  "tas_loop t s = (case tas_pcs s t of
     TasTest irqs \<Rightarrow> if tas_flag s \<noteq> 0 then s else tas_goto t (TasXchg irqs) s
   | TasXchg irqs \<Rightarrow> tas_goto t (if tas_flag s = 0 then TasIn irqs else TasTest irqs) (s\<lparr>tas_flag := 1\<rparr>)
   | _ \<Rightarrow> s)"

definition spinlock_lock :: "tid \<Rightarrow> tas_state \<Rightarrow> tas_state" where
  "spinlock_lock t s = (if tas_pcs s t = TasOut then tas_goto t (TasTest False) s else tas_loop t s)"

definition spinlock_unlock :: "tid \<Rightarrow> tas_state \<Rightarrow> tas_state" where
  "spinlock_unlock t s = tas_goto t TasOut (s\<lparr>tas_flag := 0\<rparr>)"

definition irqlock_lock :: "tid \<Rightarrow> tas_state \<Rightarrow> tas_state" where
  "irqlock_lock t s =
    (if tas_pcs s t = TasOut
     then tas_goto t (TasTest (tas_irq s t)) (s\<lparr>tas_irq := (tas_irq s)(t := False)\<rparr>)
     else tas_loop t s)"

definition irqlock_unlock :: "tid \<Rightarrow> bool \<Rightarrow> tas_state \<Rightarrow> tas_state" where
  "irqlock_unlock t irqs s = tas_goto t TasOut (s\<lparr>tas_flag := 0, tas_irq := (tas_irq s)(t := irqs)\<rparr>)"

definition preemptlock_lock :: "tid \<Rightarrow> tas_state \<Rightarrow> tas_state" where
  "preemptlock_lock t s =
    (if tas_pcs s t = TasOut
     then tas_goto t (TasTest False) (s\<lparr>tas_preempt := disable_preemption t (tas_preempt s)\<rparr>)
     else tas_loop t s)"

definition preemptlock_unlock :: "tid \<Rightarrow> tas_state \<Rightarrow> tas_state" where
  "preemptlock_unlock t s =
    tas_goto t TasOut (s\<lparr>tas_flag := 0, tas_preempt := enable_preemption t (tas_preempt s)\<rparr>)"

datatype tas_kind = SpinLock | IrqLock | PreemptLock

inductive tas_step :: "tas_kind \<Rightarrow> tas_state \<Rightarrow> tas_state \<Rightarrow> bool" where
  spin: "(\<And>irqs. tas_pcs s t \<noteq> TasIn irqs) \<Longrightarrow> tas_step SpinLock s (spinlock_lock t s)"
| unspin: "tas_pcs s t = TasIn irqs \<Longrightarrow> tas_step SpinLock s (spinlock_unlock t s)"
| irq: "(\<And>irqs. tas_pcs s t \<noteq> TasIn irqs) \<Longrightarrow> tas_step IrqLock s (irqlock_lock t s)"
| unirq: "tas_pcs s t = TasIn irqs \<Longrightarrow> tas_step IrqLock s (irqlock_unlock t irqs s)"
| pre: "(\<And>irqs. tas_pcs s t \<noteq> TasIn irqs) \<Longrightarrow> tas_step PreemptLock s (preemptlock_lock t s)"
| unpre: "tas_pcs s t = TasIn irqs \<Longrightarrow> tas_step PreemptLock s (preemptlock_unlock t s)"

definition tas_holds :: "tas_state \<Rightarrow> tid \<Rightarrow> bool" where
  "tas_holds s t \<longleftrightarrow> (\<exists>irqs. tas_pcs s t = TasIn irqs)"

text \<open>The locks start free, with the interrupt states \<open>I\<close> and the preemption counters \<open>C\<close> of the threads.\<close>

definition tas_init :: "(tid \<Rightarrow> bool) \<Rightarrow> (tid \<Rightarrow> u32) \<Rightarrow> tas_state \<Rightarrow> bool" where
  "tas_init I C s \<longleftrightarrow> s = \<lparr>tas_flag = 0, tas_pcs = (\<lambda>_. TasOut), tas_irq = I, tas_preempt = C\<rparr>"

text \<open>What a lock of each kind does to the processor of a thread that is not outside.\<close>

definition tas_cpu :: "tas_kind \<Rightarrow> (tid \<Rightarrow> bool) \<Rightarrow> (tid \<Rightarrow> u32) \<Rightarrow> tas_state \<Rightarrow> tid \<Rightarrow> bool" where
  "tas_cpu k I C s t \<longleftrightarrow>
     tas_irq s t = (if k = IrqLock \<and> tas_pcs s t \<noteq> TasOut then False else I t) \<and>
     tas_preempt s t = (if k = PreemptLock \<and> tas_pcs s t \<noteq> TasOut then C t + 1 else C t)"

definition tas_inv :: "tas_kind \<Rightarrow> (tid \<Rightarrow> bool) \<Rightarrow> (tid \<Rightarrow> u32) \<Rightarrow> tas_state \<Rightarrow> bool" where
  "tas_inv k I C s \<longleftrightarrow> (tas_flag s = 0 \<or> tas_flag s = 1) \<and> (tas_flag s = 0 \<longleftrightarrow> (\<forall>t. \<not> tas_holds s t)) \<and>
     (\<forall>t u. tas_holds s t \<longrightarrow> tas_holds s u \<longrightarrow> t = u) \<and> (\<forall>t. tas_cpu k I C s t) \<and>
     (k = IrqLock \<longrightarrow> (\<forall>t irqs. tas_pcs s t \<in> {TasTest irqs, TasXchg irqs, TasIn irqs} \<longrightarrow> irqs = I t))"

lemma tas_inv_init: "tas_init I C s \<Longrightarrow> tas_inv k I C s"
  by (simp add: tas_init_def tas_inv_def tas_holds_def tas_cpu_def)

lemmas tas_lock_defs = spinlock_lock_def irqlock_lock_def preemptlock_lock_def tas_loop_def
  spinlock_unlock_def irqlock_unlock_def preemptlock_unlock_def tas_goto_def disable_preemption_def enable_preemption_def

lemma tas_cpu_step: "tas_step k s s' \<Longrightarrow> tas_inv k I C s \<Longrightarrow> tas_cpu k I C s' u"
  by (induction rule: tas_step.induct)
    (auto simp: tas_inv_def tas_cpu_def tas_lock_defs split: tas_pc.splits)

lemma tas_irqs_step:
  assumes "tas_step IrqLock s s'" "tas_inv IrqLock I C s" "tas_pcs s' t \<in> {TasTest irqs, TasXchg irqs, TasIn irqs}"
  shows "irqs = I t"
  using assms by cases (auto simp: tas_inv_def tas_cpu_def tas_lock_defs split: tas_pc.splits if_splits)

text \<open>A step of any kind moves one thread in, moves one out, or changes neither flag nor holder unless the lock is
  taken.\<close>

definition tas_move :: "tid \<Rightarrow> tas_state \<Rightarrow> tas_state \<Rightarrow> bool" where
  "tas_move t s s' \<longleftrightarrow>
     tas_flag s = 0 \<and> tas_flag s' = 1 \<and> tas_holds s' = (tas_holds s)(t := True) \<or>
     tas_holds s t \<and> tas_flag s' = 0 \<and> tas_holds s' = (tas_holds s)(t := False) \<or>
     tas_holds s' = tas_holds s \<and> (tas_flag s' = tas_flag s \<or> tas_flag s \<noteq> 0 \<and> tas_flag s' = 1)"

lemma tas_holds_goto: "tas_holds (tas_goto t p s) = (tas_holds s)(t := (\<exists>irqs. p = TasIn irqs))"
  by (auto simp: tas_goto_def tas_holds_def fun_eq_iff)

lemma tas_holds_frame [simp]:
  "tas_holds (s\<lparr>tas_flag := f\<rparr>) = tas_holds s" "tas_holds (s\<lparr>tas_irq := i\<rparr>) = tas_holds s"
  "tas_holds (s\<lparr>tas_preempt := c\<rparr>) = tas_holds s"
  by (auto simp: tas_holds_def fun_eq_iff)

lemma tas_flag_goto [simp]: "tas_flag (tas_goto t p s) = tas_flag s"
  by (simp add: tas_goto_def)

lemma tas_move_goto: "\<not> tas_holds s t \<Longrightarrow> (\<And>irqs. p \<noteq> TasIn irqs) \<Longrightarrow> tas_holds (tas_goto t p s) = tas_holds s"
  by (auto simp: tas_holds_goto fun_eq_iff)

lemma tas_move_loop: "\<not> tas_holds s t \<Longrightarrow> tas_move t s (tas_loop t s)"
  by (auto simp: tas_move_def tas_loop_def tas_holds_goto fun_eq_iff split: tas_pc.splits)

lemma tas_step_move: "tas_step k s s' \<Longrightarrow> \<exists>t. tas_move t s s'"
proof (induction rule: tas_step.cases)
  case (spin s t)
  hence h: "\<not> tas_holds s t" by (simp add: tas_holds_def)
  show ?case using tas_move_loop [OF h] spin h
    by (intro exI [of _ t]) (auto simp: spinlock_lock_def tas_move_def tas_move_goto)
next
  case (irq s t)
  hence h: "\<not> tas_holds s t" by (simp add: tas_holds_def)
  show ?case using tas_move_loop [OF h] irq h
    by (intro exI [of _ t]) (auto simp: irqlock_lock_def tas_move_def tas_move_goto)
next
  case (pre s t)
  hence h: "\<not> tas_holds s t" by (simp add: tas_holds_def)
  show ?case using tas_move_loop [OF h] pre h
    by (intro exI [of _ t]) (auto simp: preemptlock_lock_def tas_move_def tas_move_goto)
next
  case (unspin s t irqs)
  hence h: "tas_holds s t" by (simp add: tas_holds_def)
  show ?case using unspin h
    by (intro exI [of _ t]) (auto simp: spinlock_unlock_def tas_move_def tas_holds_goto)
next
  case (unirq s t irqs)
  hence h: "tas_holds s t" by (simp add: tas_holds_def)
  show ?case using unirq h
    by (intro exI [of _ t]) (auto simp: irqlock_unlock_def tas_move_def tas_holds_goto)
next
  case (unpre s t irqs)
  hence h: "tas_holds s t" by (simp add: tas_holds_def)
  show ?case using unpre h
    by (intro exI [of _ t]) (auto simp: preemptlock_unlock_def tas_move_def tas_holds_goto)
qed

lemma tas_inv_step:
  assumes "tas_step k s s'" "tas_inv k I C s"
  shows "tas_inv k I C s'"
proof -
  obtain t where t: "tas_move t s s'" using tas_step_move [OF assms(1)] by blast
  have i: "tas_flag s = 0 \<or> tas_flag s = 1" "tas_flag s = 0 \<longleftrightarrow> (\<forall>t. \<not> tas_holds s t)"
      "\<And>u v. tas_holds s u \<Longrightarrow> tas_holds s v \<Longrightarrow> u = v"
    using assms(2) unfolding tas_inv_def by blast+
  have f: "tas_flag s' = 0 \<or> tas_flag s' = 1" using t i(1) unfolding tas_move_def by auto
  have z: "tas_flag s' = 0 \<longleftrightarrow> (\<forall>t. \<not> tas_holds s' t)"
    using t i unfolding tas_move_def by (metis (full_types) fun_upd_apply zero_neq_one)
  have u: "\<forall>u v. tas_holds s' u \<longrightarrow> tas_holds s' v \<longrightarrow> u = v" using t i unfolding tas_move_def by (metis fun_upd_apply)
  show ?thesis unfolding tas_inv_def using f z u tas_cpu_step [OF assms] tas_irqs_step assms by blast
qed

lemma tas_inv_holds: "tas_inv k I C s \<Longrightarrow> tas_holds s t \<Longrightarrow> tas_holds s u \<Longrightarrow> t = u"
  unfolding tas_inv_def by blast

interpretation tas: exclusive_lock "tas_init I C" "tas_step k" tas_holds "tas_inv k I C" for I C k
  by unfold_locales (auto intro: tas_inv_init tas_inv_step tas_inv_holds)

text \<open>
  C35. The spin lock, the interrupt lock and the preemption lock are held by at most one thread under every
  interleaving, and their flag is 0 exactly when no thread holds them. The interrupt lock keeps interrupts disabled
  from the start of \<^verbatim>\<open>irqlock_lock\<close> to \<^verbatim>\<open>irqlock_unlock\<close>, which puts back the state the thread had; the preemption
  lock does the same with the preemption counter; the other locks leave them alone.
\<close>

theorem tas_locks_exclusive:
  assumes "tas_init I C s" "(tas_step k)\<^sup>*\<^sup>* s s'"
  shows "(tas_holds s' t \<longrightarrow> tas_holds s' u \<longrightarrow> t = u) \<and> (tas_flag s' = 0 \<longleftrightarrow> (\<forall>t. \<not> tas_holds s' t)) \<and> tas_cpu k I C s' t"
  using tas.reachable_inv [OF assms(2,1)] unfolding tas_inv_def by blast

text \<open>One thread takes and leaves an interrupt lock with interrupts enabled.\<close>

definition irqlock_example :: "nat \<Rightarrow> tas_state" where
  "irqlock_example n = (irqlock_lock 0 ^^ n) \<lparr>tas_flag = 0, tas_pcs = (\<lambda>_. TasOut), tas_irq = (\<lambda>_. True), tas_preempt = (\<lambda>_. 0)\<rparr>"

lemmas irqlock_example_simps = irqlock_example_def irqlock_lock_def tas_loop_def tas_goto_def

lemma irqlock_example_reach: "(tas_step IrqLock)\<^sup>*\<^sup>* (irqlock_example 0) (irqlock_example 3)"
proof -
  have "tas_step IrqLock (irqlock_example n) (irqlock_example (Suc n))" if "n < 3" for n
  proof -
    consider "n = 0" | "n = 1" | "n = 2" using \<open>n < 3\<close> by linarith
    hence "tas_pcs (irqlock_example n) 0 \<noteq> TasIn irqs" for irqs
      by cases (simp_all add: irqlock_example_simps numeral_2_eq_2)
    thus ?thesis using tas_step.irq [of "irqlock_example n" 0] by (simp add: irqlock_example_def)
  qed
  from this [of 0] this [of 1] this [of 2] show ?thesis by (simp add: numeral_3_eq_3 numeral_2_eq_2)
qed

theorem tas_locks_exclusive_witness:
  "tas_holds (irqlock_example 3) 0 \<and> \<not> tas_irq (irqlock_example 3) 0 \<and> tas_flag (irqlock_example 3) \<noteq> 0"
proof -
  have "tas_init (\<lambda>_. True) (\<lambda>_. 0) (irqlock_example 0)" by (simp add: tas_init_def irqlock_example_def)
  note t = tas_locks_exclusive [OF this irqlock_example_reach, of 0 0]
  have p: "tas_pcs (irqlock_example 3) 0 = TasIn True" by (simp add: irqlock_example_simps numeral_3_eq_3)
  hence "tas_holds (irqlock_example 3) 0" unfolding tas_holds_def by blast
  thus ?thesis using t p unfolding tas_cpu_def by auto
qed

end
