(* ===== verification/Mutex.thy ===== *)
theory Mutex
  imports Locks
begin

text \<open>
  The sleeping mutex of \<^verbatim>\<open>utils/locks/mutex.c\<close> with the part of \<^verbatim>\<open>sched/wait.c\<close> it uses: the waiters' list under its
  interrupt lock, the claim made under that lock, and the wake-up of the first waiter. A step is one atomic access
  by one thread. The theory shows mutual exclusion, that the assertion of \<^verbatim>\<open>mutex_unlock\<close> never fails, and that a
  sleeping thread always has another thread that will wake it.
\<close>

definition MUTEX_UNLOCKED :: u32 where "MUTEX_UNLOCKED = 0"
definition MUTEX_LOCKED :: u32 where "MUTEX_LOCKED = 1"
definition MUTEX_LOCKED_WAITERS :: u32 where "MUTEX_LOCKED_WAITERS = 2"
definition MUTEX_UNLOCKED_WAITERS :: u32 where "MUTEX_UNLOCKED_WAITERS = 3"

lemmas mutex_values = MUTEX_UNLOCKED_def MUTEX_LOCKED_def MUTEX_LOCKED_WAITERS_def MUTEX_UNLOCKED_WAITERS_def

text \<open>
  Where a thread is: \<open>MxFast\<close> before the compare-and-exchange of the fast path, \<open>MxWant\<close> before it takes the waiters'
  lock, \<open>MxClaim\<close>, \<open>MxGot\<close>, \<open>MxRel\<close> and \<open>MxFail\<close> while it holds it, \<open>MxSleep\<close> on the list or just woken, \<open>MxWoken\<close>
  before the last store of \<^verbatim>\<open>mutex_lock\<close>, \<open>MxHold\<close> in the critical section, \<open>MxU1\<close> to \<open>MxU4\<close> in the slow path of
  \<^verbatim>\<open>mutex_unlock\<close>.
\<close>

datatype mx_pc = MxIdle | MxFast | MxWant | MxClaim | MxGot | MxRel | MxFail | MxSleep | MxWoken | MxHold
  | MxU1 | MxU2 | MxU3 | MxU4

record mutex =
  mx_locked :: u32
  mx_wlock :: "tid option"
  mx_waiters :: "tid list"
  mx_pcs :: "tid \<Rightarrow> mx_pc"

definition mx_goto :: "tid \<Rightarrow> mx_pc \<Rightarrow> mutex \<Rightarrow> mutex" where
  "mx_goto t p s = s\<lparr>mx_pcs := (mx_pcs s)(t := p)\<rparr>"

text \<open>\<^verbatim>\<open>mutex_claim\<close>: the exchange, and the store when there is no waiter.\<close>

definition mutex_claim :: "tid \<Rightarrow> mutex \<Rightarrow> mutex" where
  "mutex_claim t s =
    (if mx_pcs s t = MxClaim
     then mx_goto t (if mx_locked s \<noteq> MUTEX_UNLOCKED then MxFail else MxGot) (s\<lparr>mx_locked := MUTEX_LOCKED_WAITERS\<rparr>)
     else if mx_waiters s = [] then mx_goto t MxRel (s\<lparr>mx_locked := MUTEX_LOCKED\<rparr>) else mx_goto t MxRel s)"

text \<open>\<^verbatim>\<open>wait_on_cond\<close> as the mutex uses it, with no timeout: take the list's lock, try the condition, else enter the
  list, release the lock and sleep; a woken thread takes the lock once more and finds itself no longer on the list.
  \<open>None\<close> stands for a thread that has to wait.\<close>

definition mx_wait :: "tid \<Rightarrow> mutex \<Rightarrow> mutex option" where
  "mx_wait t s = (case mx_pcs s t of
     MxWant \<Rightarrow> if mx_wlock s = None then Some (mx_goto t MxClaim (s\<lparr>mx_wlock := Some t\<rparr>)) else None
   | MxClaim \<Rightarrow> Some (mutex_claim t s)
   | MxGot \<Rightarrow> Some (mutex_claim t s)
   | MxRel \<Rightarrow> Some (mx_goto t MxHold (s\<lparr>mx_wlock := None\<rparr>))
   | MxFail \<Rightarrow> Some (mx_goto t MxSleep (s\<lparr>mx_waiters := mx_waiters s @ [t], mx_wlock := None\<rparr>))
   | MxSleep \<Rightarrow> if t \<in> set (mx_waiters s) \<or> mx_wlock s \<noteq> None then None else Some (mx_goto t MxWoken s)
   | _ \<Rightarrow> None)"

definition mutex_lock :: "tid \<Rightarrow> mutex \<Rightarrow> mutex option" where
  "mutex_lock t s = (case mx_pcs s t of
     MxIdle \<Rightarrow> Some (mx_goto t (if mx_locked s = MUTEX_UNLOCKED then MxFast else MxWant) s)
   | MxFast \<Rightarrow> Some (if mx_locked s = MUTEX_UNLOCKED then mx_goto t MxHold (s\<lparr>mx_locked := MUTEX_LOCKED\<rparr>)
                    else mx_goto t MxWant s)
   | MxWoken \<Rightarrow> Some (mx_goto t MxHold (s\<lparr>mx_locked := MUTEX_LOCKED_WAITERS\<rparr>))
   | _ \<Rightarrow> mx_wait t s)"

text \<open>\<^verbatim>\<open>sched_wakeup_n_threads\<close> for one thread: whether a thread was taken off the list.\<close>

definition mx_wakeup :: "mutex \<Rightarrow> (bool \<times> mutex) option" where
  "mx_wakeup s = (if mx_wlock s \<noteq> None then None
     else case mx_waiters s of [] \<Rightarrow> Some (False, s) | u # q \<Rightarrow> Some (True, s\<lparr>mx_waiters := q\<rparr>))"

text \<open>\<^verbatim>\<open>mutex_unlock\<close>; the assertion that fails is an error.\<close>

definition mutex_unlock :: "tid \<Rightarrow> mutex \<Rightarrow> mutex result option" where
  "mutex_unlock t s = (case mx_pcs s t of
     MxHold \<Rightarrow> Some (Inr (if mx_locked s = MUTEX_LOCKED then mx_goto t MxIdle (s\<lparr>mx_locked := MUTEX_UNLOCKED\<rparr>)
                    else mx_goto t MxU1 s))
   | MxU1 \<Rightarrow> Some (Inr (mx_goto t MxU2 (s\<lparr>mx_locked := MUTEX_UNLOCKED_WAITERS\<rparr>)))
   | MxU2 \<Rightarrow> map_option (\<lambda>(w, s'). Inr (mx_goto t (if w then MxIdle else MxU3) s')) (mx_wakeup s)
   | MxU3 \<Rightarrow> Some (if mx_locked s = MUTEX_UNLOCKED_WAITERS
                    then Inr (mx_goto t MxIdle (s\<lparr>mx_locked := MUTEX_UNLOCKED\<rparr>))
                    else if mx_locked s = MUTEX_LOCKED_WAITERS then Inr (mx_goto t MxU4 s)
                    else Inl AssertFailed)
   | MxU4 \<Rightarrow> map_option (\<lambda>(w, s'). Inr (mx_goto t MxIdle s')) (mx_wakeup s)
   | _ \<Rightarrow> None)"

inductive mx_step :: "mutex \<Rightarrow> mutex \<Rightarrow> bool" where
  lock: "mutex_lock t s = Some s' \<Longrightarrow> mx_step s s'"
| unlock: "mutex_unlock t s = Some (Inr s') \<Longrightarrow> mx_step s s'"

definition mx_init :: "mutex \<Rightarrow> bool" where
  "mx_init s \<longleftrightarrow> s = \<lparr>mx_locked = MUTEX_UNLOCKED, mx_wlock = None, mx_waiters = [], mx_pcs = (\<lambda>_. MxIdle)\<rparr>"

definition mx_holds :: "mutex \<Rightarrow> tid \<Rightarrow> bool" where
  "mx_holds s t \<longleftrightarrow> mx_pcs s t = MxHold"

text \<open>The threads responsible for the mutex: the one that has it, is getting it, is handing it on, or has been
  woken.\<close>

definition mx_token :: "mutex \<Rightarrow> tid \<Rightarrow> bool" where
  "mx_token s t \<longleftrightarrow> mx_pcs s t \<in> {MxGot, MxRel, MxHold, MxWoken, MxU1, MxU2, MxU3, MxU4} \<or>
     mx_pcs s t = MxSleep \<and> t \<notin> set (mx_waiters s)"

definition mx_failing :: "mutex \<Rightarrow> bool" where
  "mx_failing s \<longleftrightarrow> (\<exists>t. mx_pcs s t = MxFail)"

text \<open>What the value of the lock word says, for the thread that is responsible.\<close>

definition mx_word_ok :: "mutex \<Rightarrow> tid \<Rightarrow> bool" where
  "mx_word_ok s t \<longleftrightarrow> (case mx_pcs s t of
     MxGot \<Rightarrow> mx_locked s = 2
   | MxRel \<Rightarrow> mx_locked s \<in> {1, 2}
   | MxHold \<Rightarrow> mx_locked s \<in> {1, 2}
   | MxU1 \<Rightarrow> mx_locked s = 2
   | MxU2 \<Rightarrow> mx_locked s = 3 \<or> mx_locked s = 2 \<and> (mx_waiters s \<noteq> [] \<or> mx_failing s)
   | MxU3 \<Rightarrow> mx_locked s = 3 \<and> mx_waiters s = [] \<and> \<not> mx_failing s \<or>
            mx_locked s = 2 \<and> (mx_waiters s \<noteq> [] \<or> mx_failing s)
   | MxU4 \<Rightarrow> mx_locked s = 2 \<and> (mx_waiters s \<noteq> [] \<or> mx_failing s)
   | _ \<Rightarrow> mx_locked s \<in> {2, 3})"

definition mx_inv :: "mutex \<Rightarrow> bool" where
  "mx_inv s \<longleftrightarrow> distinct (mx_waiters s) \<and> (\<forall>t \<in> set (mx_waiters s). mx_pcs s t = MxSleep) \<and>
     (\<forall>t. mx_wlock s = Some t \<longleftrightarrow> mx_pcs s t \<in> {MxClaim, MxGot, MxRel, MxFail}) \<and>
     (\<forall>t u. mx_token s t \<longrightarrow> mx_token s u \<longrightarrow> t = u) \<and>
     (mx_locked s = 0 \<longleftrightarrow> (\<forall>t. \<not> mx_token s t)) \<and>
     (\<forall>t. mx_token s t \<longrightarrow> mx_word_ok s t) \<and>
     (mx_locked s \<in> {0, 1} \<longrightarrow> mx_waiters s = [] \<and> \<not> mx_failing s)"

lemma mx_sel_goto [simp]:
  "mx_locked (mx_goto t p s) = mx_locked s" "mx_wlock (mx_goto t p s) = mx_wlock s"
  "mx_waiters (mx_goto t p s) = mx_waiters s" "mx_pcs (mx_goto t p s) = (mx_pcs s)(t := p)"
  by (simp_all add: mx_goto_def)

lemma mx_invD:
  assumes "mx_inv s"
  shows "distinct (mx_waiters s)" "t \<in> set (mx_waiters s) \<Longrightarrow> mx_pcs s t = MxSleep"
    "mx_wlock s = Some t \<longleftrightarrow> mx_pcs s t \<in> {MxClaim, MxGot, MxRel, MxFail}"
    "mx_token s t \<Longrightarrow> mx_token s u \<Longrightarrow> t = u" "mx_token s t \<Longrightarrow> mx_word_ok s t" "mx_token s t \<Longrightarrow> mx_locked s \<noteq> 0"
    "mx_locked s \<in> {0, 1} \<Longrightarrow> mx_waiters s = [] \<and> \<not> mx_failing s"
  using assms unfolding mx_inv_def by blast+

lemma mx_token_exists: "mx_inv s \<Longrightarrow> mx_locked s \<noteq> 0 \<Longrightarrow> \<exists>t. mx_token s t"
  unfolding mx_inv_def by blast

lemma mx_inv_failing: "mx_inv s \<Longrightarrow> mx_failing s \<longleftrightarrow> (\<exists>t. mx_wlock s = Some t \<and> mx_pcs s t = MxFail)"
  using mx_invD(3) unfolding mx_failing_def by blast

lemma mx_locked_values: "mx_inv s \<Longrightarrow> mx_locked s \<in> {0, 1, 2, 3}"
proof (cases "mx_locked s = 0")
  case False
  assume i: "mx_inv s"
  then obtain t where "mx_token s t" using mx_token_exists False by blast
  hence "mx_word_ok s t" using mx_invD(5) [OF i] by blast
  thus ?thesis unfolding mx_word_ok_def by (auto split: mx_pc.splits)
qed simp

text \<open>The parts of the invariant after a move of thread \<open>t\<close>.\<close>

lemma mx_token_goto:
  "mx_token (mx_goto t p s) = (mx_token s)(t := p \<in> {MxGot, MxRel, MxHold, MxWoken, MxU1, MxU2, MxU3, MxU4} \<or>
     p = MxSleep \<and> t \<notin> set (mx_waiters s))"
  by (auto simp: mx_token_def fun_eq_iff)

lemma mx_failing_goto: "mx_failing (mx_goto t p s) \<longleftrightarrow> p = MxFail \<or> (\<exists>u. u \<noteq> t \<and> mx_pcs s u = MxFail)"
  unfolding mx_failing_def by (simp, metis)

lemma mx_failing_other: "mx_pcs s t \<noteq> MxFail \<Longrightarrow> (\<exists>u. u \<noteq> t \<and> mx_pcs s u = MxFail) \<longleftrightarrow> mx_failing s"
  unfolding mx_failing_def by metis

lemma mx_frame [simp]:
  "mx_token (s\<lparr>mx_locked := v\<rparr>) = mx_token s" "mx_token (s\<lparr>mx_wlock := w\<rparr>) = mx_token s"
  "mx_failing (s\<lparr>mx_locked := v\<rparr>) = mx_failing s" "mx_failing (s\<lparr>mx_wlock := w\<rparr>) = mx_failing s"
  "mx_failing (s\<lparr>mx_waiters := q\<rparr>) = mx_failing s"
  by (auto simp: mx_token_def mx_failing_def fun_eq_iff)

lemma mx_token_pc: "mx_token s t \<longleftrightarrow> (case mx_pcs s t of MxIdle \<Rightarrow> False | MxFast \<Rightarrow> False | MxWant \<Rightarrow> False
    | MxClaim \<Rightarrow> False | MxFail \<Rightarrow> False | MxSleep \<Rightarrow> t \<notin> set (mx_waiters s) | _ \<Rightarrow> True)"
  by (auto simp: mx_token_def split: mx_pc.splits)

text \<open>A move that leaves the responsibility where it is, at a thread \<open>t\<close> without it.\<close>

lemma mx_inv_bystander:
  assumes i: "mx_inv s" and t: "\<not> mx_token s t" "mx_pcs s t \<noteq> MxFail" "t \<notin> set (mx_waiters s)"
    and p: "p \<in> {MxIdle, MxFast, MxWant, MxClaim}"
    and w: "\<And>u. w = Some u \<longleftrightarrow> (mx_pcs (mx_goto t p s)) u \<in> {MxClaim, MxGot, MxRel, MxFail}"
  shows "mx_inv (mx_goto t p (s\<lparr>mx_wlock := w\<rparr>))"
proof -
  have tok: "mx_token (mx_goto t p (s\<lparr>mx_wlock := w\<rparr>)) = mx_token s"
    using t p by (auto simp: mx_token_goto fun_eq_iff)
  have f: "mx_failing (mx_goto t p (s\<lparr>mx_wlock := w\<rparr>)) = mx_failing s"
    using t p mx_failing_other [of s t] by (auto simp: mx_failing_goto)
  have ok: "mx_word_ok (mx_goto t p (s\<lparr>mx_wlock := w\<rparr>)) u = mx_word_ok s u" if "mx_token s u" for u
    using t(1) that unfolding mx_word_ok_def f by (cases "u = t") (auto split: mx_pc.splits)
  show ?thesis unfolding mx_inv_def tok f
    using i t(3) ok w unfolding mx_inv_def by auto
qed

text \<open>States with one responsible thread and with none.\<close>

definition mx_waiters_ok :: "mutex \<Rightarrow> bool" where
  "mx_waiters_ok s \<longleftrightarrow> distinct (mx_waiters s) \<and> (\<forall>t \<in> set (mx_waiters s). mx_pcs s t = MxSleep) \<and>
     (\<forall>t. mx_wlock s = Some t \<longleftrightarrow> mx_pcs s t \<in> {MxClaim, MxGot, MxRel, MxFail})"

lemma mx_inv_waiters_ok: "mx_inv s \<Longrightarrow> mx_waiters_ok s"
  unfolding mx_inv_def mx_waiters_ok_def by blast

lemma mx_inv_one:
  assumes "mx_waiters_ok s" "mx_token s = (\<lambda>u. u = h)" "mx_word_ok s h" "mx_locked s \<noteq> 0"
    and "mx_locked s = 1 \<Longrightarrow> mx_waiters s = [] \<and> \<not> mx_failing s"
  shows "mx_inv s"
  using assms unfolding mx_inv_def mx_waiters_ok_def by auto

lemma mx_inv_none:
  assumes "mx_waiters_ok s" "mx_token s = (\<lambda>_. False)" "mx_locked s = 0" "mx_waiters s = []" "\<not> mx_failing s"
  shows "mx_inv s"
  using assms unfolding mx_inv_def mx_waiters_ok_def by auto

lemma mx_inv_token: "mx_inv s \<Longrightarrow> mx_token s t \<Longrightarrow> mx_token s = (\<lambda>u. u = t)"
  using mx_invD(4) by blast

lemma mx_inv_no_token: "mx_inv s \<Longrightarrow> mx_locked s = 0 \<Longrightarrow> mx_token s = (\<lambda>_. False)"
  unfolding mx_inv_def by blast

text \<open>A move of the responsible thread \<open>t\<close> that keeps the waiters and their lock.\<close>

lemma mx_inv_holder:
  assumes i: "mx_inv s" and t: "mx_token s t" "mx_pcs s t \<notin> {MxGot, MxRel}"
    and p: "p \<in> {MxWoken, MxHold, MxU1, MxU2, MxU3, MxU4}"
    and v: "v \<noteq> 0" "v = 1 \<Longrightarrow> mx_locked s = 1" "mx_word_ok (mx_goto t p (s\<lparr>mx_locked := v\<rparr>)) t"
  shows "mx_inv (mx_goto t p (s\<lparr>mx_locked := v\<rparr>))"
proof (rule mx_inv_one)
  show "mx_token (mx_goto t p (s\<lparr>mx_locked := v\<rparr>)) = (\<lambda>u. u = t)"
    using p mx_inv_token [OF i t(1)] by (auto simp: mx_token_goto fun_eq_iff)
  have q: "t \<notin> set (mx_waiters s)" "mx_pcs s t \<notin> {MxClaim, MxFail}"
    using t(1) mx_invD(2) [OF i, of t] by (auto simp: mx_token_def)
  show "mx_waiters_ok (mx_goto t p (s\<lparr>mx_locked := v\<rparr>))"
    using mx_inv_waiters_ok [OF i] q t(2) p unfolding mx_waiters_ok_def by auto
  have "mx_failing (mx_goto t p (s\<lparr>mx_locked := v\<rparr>)) = mx_failing s"
    using q p mx_failing_other [of s t] by (auto simp: mx_failing_goto)
  thus "mx_waiters (mx_goto t p (s\<lparr>mx_locked := v\<rparr>)) = [] \<and> \<not> mx_failing (mx_goto t p (s\<lparr>mx_locked := v\<rparr>))"
    if "mx_locked (mx_goto t p (s\<lparr>mx_locked := v\<rparr>)) = 1"
    using that v(2) mx_invD(7) [OF i] by simp
qed (use v in simp_all)

text \<open>The steps that give the mutex back, and those that hand it to the first waiter.\<close>

lemma mx_inv_release:
  assumes i: "mx_inv s" and t: "mx_token s t" "mx_pcs s t \<in> {MxHold, MxU3}" and w: "mx_waiters s = []" "\<not> mx_failing s"
  shows "mx_inv (mx_goto t MxIdle (s\<lparr>mx_locked := 0\<rparr>))"
proof (rule mx_inv_none)
  show "mx_token (mx_goto t MxIdle (s\<lparr>mx_locked := 0\<rparr>)) = (\<lambda>_. False)"
    using mx_inv_token [OF i t(1)] by (auto simp: mx_token_goto fun_eq_iff)
  show "mx_waiters_ok (mx_goto t MxIdle (s\<lparr>mx_locked := 0\<rparr>))"
    using mx_inv_waiters_ok [OF i] t(2) w unfolding mx_waiters_ok_def by auto
  show "\<not> mx_failing (mx_goto t MxIdle (s\<lparr>mx_locked := 0\<rparr>))"
    using w t(2) mx_failing_other [of s t] by (auto simp: mx_failing_goto)
qed (use w in simp_all)

lemma mx_inv_handover:
  assumes i: "mx_inv s" and t: "mx_pcs s t \<in> {MxU2, MxU4}" and w: "mx_waiters s = u # q"
  shows "mx_inv (mx_goto t MxIdle (s\<lparr>mx_waiters := q\<rparr>))"
proof (rule mx_inv_one)
  have tok: "mx_token s t" using t by (auto simp: mx_token_def)
  have u: "mx_pcs s u = MxSleep" "u \<notin> set q" "u \<noteq> t" using mx_invD(1,2) [OF i] w t by auto
  have o: "\<not> mx_token s v" if "v \<noteq> t" for v using mx_inv_token [OF i tok] that by simp
  show "mx_token (mx_goto t MxIdle (s\<lparr>mx_waiters := q\<rparr>)) = (\<lambda>v. v = u)"
    using o u w by (auto simp: mx_token_def fun_eq_iff)
  show "mx_waiters_ok (mx_goto t MxIdle (s\<lparr>mx_waiters := q\<rparr>))"
    using mx_inv_waiters_ok [OF i] t w unfolding mx_waiters_ok_def by auto
  have "mx_locked s \<in> {2, 3}" using mx_invD(5) [OF i tok] t by (auto simp: mx_word_ok_def)
  thus "mx_word_ok (mx_goto t MxIdle (s\<lparr>mx_waiters := q\<rparr>)) u" "mx_locked (mx_goto t MxIdle (s\<lparr>mx_waiters := q\<rparr>)) \<noteq> 0"
    "mx_locked (mx_goto t MxIdle (s\<lparr>mx_waiters := q\<rparr>)) = 1 \<Longrightarrow>
      mx_waiters (mx_goto t MxIdle (s\<lparr>mx_waiters := q\<rparr>)) = [] \<and> \<not> mx_failing (mx_goto t MxIdle (s\<lparr>mx_waiters := q\<rparr>))"
    using u by (auto simp: mx_word_ok_def)
qed

text \<open>The claim: it takes a free mutex, or marks a taken one as contended.\<close>

lemma mx_inv_claim_free:
  assumes i: "mx_inv s" and t: "mx_pcs s t = MxClaim" and z: "mx_locked s = 0"
  shows "mx_inv (mx_goto t MxGot (s\<lparr>mx_locked := 2\<rparr>))"
proof (rule mx_inv_one)
  show "mx_token (mx_goto t MxGot (s\<lparr>mx_locked := 2\<rparr>)) = (\<lambda>u. u = t)"
    using mx_inv_no_token [OF i z] by (auto simp: mx_token_goto fun_eq_iff)
  show "mx_waiters_ok (mx_goto t MxGot (s\<lparr>mx_locked := 2\<rparr>))"
    using mx_inv_waiters_ok [OF i] t unfolding mx_waiters_ok_def by auto
qed (simp_all add: mx_word_ok_def)

lemma mx_inv_claim_taken:
  assumes i: "mx_inv s" and t: "mx_pcs s t = MxClaim" and z: "mx_locked s \<noteq> 0"
  shows "mx_inv (mx_goto t MxFail (s\<lparr>mx_locked := 2\<rparr>))"
proof -
  obtain h where h: "mx_token s h" using mx_token_exists [OF i z] by blast
  have ht: "h \<noteq> t" using h t by (auto simp: mx_token_def)
  have "mx_wlock s = Some t" using mx_invD(3) [OF i] t by simp
  hence g: "mx_pcs s h \<notin> {MxGot, MxRel}" using mx_invD(3) [OF i, of h] ht by auto
  have f: "mx_failing (mx_goto t MxFail (s\<lparr>mx_locked := 2\<rparr>))" by (simp add: mx_failing_goto)
  show ?thesis
  proof (rule mx_inv_one)
    show "mx_token (mx_goto t MxFail (s\<lparr>mx_locked := 2\<rparr>)) = (\<lambda>u. u = h)"
      using mx_inv_token [OF i h] ht by (auto simp: mx_token_goto fun_eq_iff)
    show "mx_waiters_ok (mx_goto t MxFail (s\<lparr>mx_locked := 2\<rparr>))"
      using mx_inv_waiters_ok [OF i] t unfolding mx_waiters_ok_def by auto
    show "mx_word_ok (mx_goto t MxFail (s\<lparr>mx_locked := 2\<rparr>)) h"
      using mx_invD(5) [OF i h] g ht f unfolding mx_word_ok_def by (auto split: mx_pc.splits)
  qed simp_all
qed

lemma mx_inv_got:
  assumes i: "mx_inv s" and t: "mx_pcs s t = MxGot" and v: "v \<in> {1, 2}" "v = 1 \<Longrightarrow> mx_waiters s = []"
  shows "mx_inv (mx_goto t MxRel (s\<lparr>mx_locked := v\<rparr>))"
proof (rule mx_inv_one)
  have tok: "mx_token s t" using t by (simp add: mx_token_def)
  show "mx_token (mx_goto t MxRel (s\<lparr>mx_locked := v\<rparr>)) = (\<lambda>u. u = t)"
    using mx_inv_token [OF i tok] by (auto simp: mx_token_goto fun_eq_iff)
  show "mx_waiters_ok (mx_goto t MxRel (s\<lparr>mx_locked := v\<rparr>))"
    using mx_inv_waiters_ok [OF i] t unfolding mx_waiters_ok_def by auto
  have "\<not> mx_failing s" using mx_invD(3) [OF i, of t] t mx_inv_failing [OF i] by auto
  thus "mx_locked (mx_goto t MxRel (s\<lparr>mx_locked := v\<rparr>)) = 1 \<Longrightarrow> mx_waiters (mx_goto t MxRel (s\<lparr>mx_locked := v\<rparr>)) = [] \<and>
      \<not> mx_failing (mx_goto t MxRel (s\<lparr>mx_locked := v\<rparr>))"
    using v t mx_failing_other [of s t] by (auto simp: mx_failing_goto)
qed (use v in \<open>auto simp: mx_word_ok_def\<close>)

lemma mx_inv_rel:
  assumes i: "mx_inv s" and t: "mx_pcs s t = MxRel"
  shows "mx_inv (mx_goto t MxHold (s\<lparr>mx_wlock := None\<rparr>))"
proof (rule mx_inv_one)
  have tok: "mx_token s t" using t by (simp add: mx_token_def)
  show "mx_token (mx_goto t MxHold (s\<lparr>mx_wlock := None\<rparr>)) = (\<lambda>u. u = t)"
    using mx_inv_token [OF i tok] by (auto simp: mx_token_goto fun_eq_iff)
  have w: "mx_wlock s = Some t" using mx_invD(3) [OF i] t by simp
  hence n: "mx_pcs s u \<notin> {MxClaim, MxGot, MxRel, MxFail}" if "u \<noteq> t" for u
    using mx_invD(3) [OF i, of u] that by auto
  thus "mx_waiters_ok (mx_goto t MxHold (s\<lparr>mx_wlock := None\<rparr>))"
    using mx_inv_waiters_ok [OF i] t unfolding mx_waiters_ok_def by auto
  have l: "mx_locked s \<in> {1, 2}" using mx_invD(5) [OF i tok] t by (simp add: mx_word_ok_def)
  thus "mx_word_ok (mx_goto t MxHold (s\<lparr>mx_wlock := None\<rparr>)) t" "mx_locked (mx_goto t MxHold (s\<lparr>mx_wlock := None\<rparr>)) \<noteq> 0"
    by (auto simp: mx_word_ok_def)
  show "mx_locked (mx_goto t MxHold (s\<lparr>mx_wlock := None\<rparr>)) = 1 \<Longrightarrow> mx_waiters (mx_goto t MxHold (s\<lparr>mx_wlock := None\<rparr>)) = [] \<and>
      \<not> mx_failing (mx_goto t MxHold (s\<lparr>mx_wlock := None\<rparr>))"
    using mx_invD(7) [OF i] n by (auto simp: mx_failing_goto)
qed

lemma mx_inv_push:
  assumes i: "mx_inv s" and t: "mx_pcs s t = MxFail"
  shows "mx_inv (mx_goto t MxSleep (s\<lparr>mx_waiters := mx_waiters s @ [t], mx_wlock := None\<rparr>))" (is "mx_inv ?s")
proof -
  have fs: "mx_failing s" using t by (auto simp: mx_failing_def)
  hence l: "mx_locked s \<notin> {0, 1}" using mx_invD(7) [OF i] by blast
  then obtain h where h: "mx_token s h" using mx_token_exists [OF i] by blast
  have ht: "h \<noteq> t" using h t by (auto simp: mx_token_def)
  have q: "t \<notin> set (mx_waiters s)" using mx_invD(2) [OF i] t by auto
  have "mx_wlock s = Some t" using mx_invD(3) [OF i] t by simp
  hence n: "mx_pcs s u \<notin> {MxClaim, MxGot, MxRel, MxFail}" if "u \<noteq> t" for u
    using mx_invD(3) [OF i, of u] that by auto
  show ?thesis
  proof (rule mx_inv_one)
    show "mx_token ?s = (\<lambda>u. u = h)"
    proof
      fix u
      have "mx_token ?s u \<longleftrightarrow> mx_token s u" using t by (cases "u = t") (auto simp: mx_token_def)
      thus "mx_token ?s u \<longleftrightarrow> u = h" using mx_inv_token [OF i h] by simp
    qed
    show "mx_waiters_ok ?s" using mx_inv_waiters_ok [OF i] t q n unfolding mx_waiters_ok_def by auto
    show "mx_word_ok ?s h" using mx_invD(5) [OF i h] ht l fs unfolding mx_word_ok_def by (auto split: mx_pc.splits)
  qed (use l in auto)
qed

text \<open>The steps of the two operations.\<close>

lemma mx_inv_bystander_goto:
  assumes "mx_inv s" "mx_pcs s t \<in> {MxIdle, MxFast}" "p \<in> {MxFast, MxWant}"
  shows "mx_inv (mx_goto t p s)"
proof -
  have "t \<notin> set (mx_waiters s)" "\<not> mx_token s t"
    using assms(2) mx_invD(2) [OF assms(1), of t] by (auto simp: mx_token_def)
  moreover have "mx_wlock s = Some u \<longleftrightarrow> mx_pcs (mx_goto t p s) u \<in> {MxClaim, MxGot, MxRel, MxFail}" for u
    using mx_invD(3) [OF assms(1), of u] assms(2,3) by auto
  ultimately show ?thesis using mx_inv_bystander [OF assms(1), of t p "mx_wlock s"] assms(2,3) by auto
qed

lemma mx_inv_want:
  assumes "mx_inv s" "mx_pcs s t = MxWant" "mx_wlock s = None"
  shows "mx_inv (mx_goto t MxClaim (s\<lparr>mx_wlock := Some t\<rparr>))"
proof (rule mx_inv_bystander [OF assms(1)])
  show "t \<notin> set (mx_waiters s)" "\<not> mx_token s t"
    using assms(2) mx_invD(2) [OF assms(1), of t] by (auto simp: mx_token_def)
  show "Some t = Some u \<longleftrightarrow> mx_pcs (mx_goto t MxClaim s) u \<in> {MxClaim, MxGot, MxRel, MxFail}" for u
    using mx_invD(3) [OF assms(1), of u] assms(3) by auto
qed (use assms(2) in simp_all)

lemma mx_inv_fast:
  assumes i: "mx_inv s" and t: "mx_pcs s t = MxFast" and z: "mx_locked s = 0"
  shows "mx_inv (mx_goto t MxHold (s\<lparr>mx_locked := 1\<rparr>))"
proof (rule mx_inv_one)
  show "mx_token (mx_goto t MxHold (s\<lparr>mx_locked := 1\<rparr>)) = (\<lambda>u. u = t)"
    using mx_inv_no_token [OF i z] by (auto simp: mx_token_goto fun_eq_iff)
  show "mx_waiters_ok (mx_goto t MxHold (s\<lparr>mx_locked := 1\<rparr>))"
    using mx_inv_waiters_ok [OF i] t unfolding mx_waiters_ok_def by auto
  show "mx_waiters (mx_goto t MxHold (s\<lparr>mx_locked := 1\<rparr>)) = [] \<and> \<not> mx_failing (mx_goto t MxHold (s\<lparr>mx_locked := 1\<rparr>))"
    using mx_invD(7) [OF i] z t mx_failing_other [of s t] by (auto simp: mx_failing_goto)
qed (simp_all add: mx_word_ok_def)

lemma mx_holder_goto:
  assumes "mx_inv s" "mx_token s t" "mx_pcs s t \<notin> {MxGot, MxRel}" "p \<in> {MxWoken, MxHold, MxU1, MxU2, MxU3, MxU4}"
    "mx_word_ok (mx_goto t p s) t"
  shows "mx_inv (mx_goto t p s)"
  using mx_inv_holder [OF assms(1-4), of "mx_locked s"] mx_invD(6) [OF assms(1,2)] assms(5) by simp

lemma mx_inv_wait:
  assumes i: "mx_inv s" and s: "mx_wait t s = Some s'"
  shows "mx_inv s'"
proof (cases "mx_pcs s t")
  case MxWant
  thus ?thesis using mx_inv_want [OF i MxWant] s by (auto simp: mx_wait_def split: if_splits)
next
  case MxClaim
  thus ?thesis using mx_inv_claim_free [OF i] mx_inv_claim_taken [OF i] s
    by (auto simp: mx_wait_def mutex_claim_def mutex_values split: if_splits)
next
  case MxGot
  have "mx_locked s = 2" using mx_invD(5) [OF i, of t] MxGot by (simp add: mx_token_def mx_word_ok_def)
  hence "s = s\<lparr>mx_locked := 2\<rparr>" by simp
  thus ?thesis using mx_inv_got [OF i MxGot, of 1] mx_inv_got [OF i MxGot, of 2] s MxGot
    by (auto simp: mx_wait_def mutex_claim_def mutex_values split: if_splits)
next
  case MxSleep
  hence t: "t \<notin> set (mx_waiters s)" "s' = mx_goto t MxWoken s" using s by (auto simp: mx_wait_def split: if_splits)
  hence "mx_token s t" using MxSleep by (simp add: mx_token_def)
  moreover have "mx_locked s \<in> {2, 3}" using mx_invD(5) [OF i calculation] MxSleep by (simp add: mx_word_ok_def)
  hence "mx_word_ok (mx_goto t MxWoken s) t" by (simp add: mx_word_ok_def)
  ultimately show ?thesis using mx_holder_goto [OF i, of t MxWoken] MxSleep t(2) by simp
qed (use s mx_inv_rel [OF i] mx_inv_push [OF i] in \<open>auto simp: mx_wait_def\<close>)

lemma mx_inv_lock:
  assumes i: "mx_inv s" and s: "mutex_lock t s = Some s'"
  shows "mx_inv s'"
proof (cases "mx_pcs s t \<in> {MxIdle, MxFast, MxWoken}")
  case True
  have w: "mx_inv (mx_goto t MxHold (s\<lparr>mx_locked := 2\<rparr>))" if "mx_pcs s t = MxWoken"
    using mx_inv_holder [OF i, of t MxHold 2] that by (simp add: mx_token_def mx_word_ok_def)
  show ?thesis using True s w mx_inv_bystander_goto [OF i, of t] mx_inv_fast [OF i, of t]
    by (auto simp: mutex_lock_def mutex_values split: if_splits)
qed (use mx_inv_wait [OF i, of t s'] s in \<open>auto simp: mutex_lock_def split: mx_pc.splits\<close>)

lemma mx_no_fail: "mx_inv s \<Longrightarrow> mx_wlock s = None \<Longrightarrow> \<not> mx_failing s"
  by (simp add: mx_inv_failing)

lemma mx_inv_unlock:
  assumes i: "mx_inv s" and s: "mutex_unlock t s = Some r"
  shows "\<exists>s'. r = Inr s' \<and> mx_inv s'"
proof (cases "mx_token s t")
  case False
  thus ?thesis using s by (auto simp: mutex_unlock_def mx_token_pc split: mx_pc.splits)
next
  case True
  note w = mx_invD(5) [OF i True] and h = mx_holder_goto [OF i True] and e = mx_inv_release [OF i True]
  have z: "mx_locked s = 1 \<Longrightarrow> mx_waiters s = [] \<and> \<not> mx_failing s" using mx_invD(7) [OF i] by blast
  show ?thesis
  proof (cases "mx_pcs s t")
    case MxHold
    thus ?thesis using s w z e h [of MxU1] by (auto simp: mutex_unlock_def mutex_values mx_word_ok_def)
  next
    case MxU1
    thus ?thesis using s mx_inv_holder [OF i True, of MxU2 3] by (auto simp: mutex_unlock_def mutex_values mx_word_ok_def)
  next
    case MxU2
    have f: "\<not> mx_failing s" if "mx_wlock s = None" using mx_no_fail [OF i that] .
    have g: "mx_failing (mx_goto t MxU3 s) = mx_failing s" using mx_failing_other [of s t] MxU2 by (simp add: mx_failing_goto)
    show ?thesis using s w f g h [of MxU3] mx_inv_handover [OF i, of t] MxU2
      by (auto simp: mutex_unlock_def mx_wakeup_def mx_word_ok_def split: if_splits list.splits)
  next
    case MxU3
    have g: "mx_failing (mx_goto t MxU4 s) = mx_failing s" using mx_failing_other [of s t] MxU3 by (simp add: mx_failing_goto)
    show ?thesis using s w e g h [of MxU4] MxU3 by (auto simp: mutex_unlock_def mutex_values mx_word_ok_def)
  next
    case MxU4
    thus ?thesis using s w mx_no_fail [OF i] mx_inv_handover [OF i, of t]
      by (auto simp: mutex_unlock_def mx_wakeup_def mx_word_ok_def split: if_splits list.splits)
  qed (use s in \<open>auto simp: mutex_unlock_def\<close>)
qed

lemma mx_inv_init: "mx_init s \<Longrightarrow> mx_inv s"
  by (simp add: mx_init_def mx_inv_def mx_token_def mx_failing_def mutex_values)

lemma mx_inv_step: "mx_step s s' \<Longrightarrow> mx_inv s \<Longrightarrow> mx_inv s'"
  by (erule mx_step.cases) (use mx_inv_lock mx_inv_unlock in blast)+

lemma mx_inv_holds: "mx_inv s \<Longrightarrow> mx_holds s t \<Longrightarrow> mx_holds s u \<Longrightarrow> t = u"
  using mx_invD(4) by (auto simp: mx_token_def mx_holds_def)

interpretation mutex: exclusive_lock mx_init mx_step mx_holds mx_inv
  by unfold_locales (auto intro: mx_inv_init mx_inv_step mx_inv_holds)


subsection \<open>Sleeping threads are woken\<close>

text \<open>The thread that holds the waiters' lock can give it back.\<close>

lemma mx_step_lock: "mutex_lock t s = Some s' \<Longrightarrow> mx_step\<^sup>*\<^sup>* s' s'' \<Longrightarrow> mx_step\<^sup>*\<^sup>* s s''"
  by (meson converse_rtranclp_into_rtranclp mx_step.lock)

lemma mx_step_unlock: "mutex_unlock t s = Some (Inr s') \<Longrightarrow> mx_step\<^sup>*\<^sup>* s' s'' \<Longrightarrow> mx_step\<^sup>*\<^sup>* s s''"
  by (meson converse_rtranclp_into_rtranclp mx_step.unlock)

definition mx_frees :: "tid \<Rightarrow> mutex \<Rightarrow> mutex \<Rightarrow> bool" where
  "mx_frees t s s' \<longleftrightarrow> mx_step\<^sup>*\<^sup>* s s' \<and> mx_wlock s' = None \<and> (\<exists>ws. mx_waiters s' = mx_waiters s @ ws \<and> set ws \<subseteq> {t}) \<and>
     (\<forall>h. h \<noteq> t \<longrightarrow> mx_pcs s' h = mx_pcs s h)"

lemma mx_frees_step:
  assumes "mutex_lock t s = Some s1" "mx_frees t s1 s'" "mx_waiters s1 = mx_waiters s" "mx_pcs s1 = (mx_pcs s)(t := p)"
  shows "mx_frees t s s'"
  using assms mx_step_lock [OF assms(1)] unfolding mx_frees_def by simp

lemma mx_wlock_fail:
  assumes "mx_pcs s t = MxFail"
  shows "\<exists>s'. mx_frees t s s'"
  unfolding mx_frees_def using mx_step_lock [of t s _ _] assms
  by (intro exI [of _ "mx_goto t MxSleep (s\<lparr>mx_waiters := mx_waiters s @ [t], mx_wlock := None\<rparr>)"])
    (auto simp: mutex_lock_def mx_wait_def)

lemma mx_wlock_rel:
  assumes "mx_pcs s t = MxRel"
  shows "\<exists>s'. mx_frees t s s'"
  unfolding mx_frees_def using mx_step_lock [of t s _ _] assms
  by (intro exI [of _ "mx_goto t MxHold (s\<lparr>mx_wlock := None\<rparr>)"]) (auto simp: mutex_lock_def mx_wait_def)

lemma mx_wlock_got:
  assumes "mx_pcs s t = MxGot"
  shows "\<exists>s'. mx_frees t s s'"
proof -
  have "mutex_lock t s = Some (mutex_claim t s)" using assms by (simp add: mutex_lock_def mx_wait_def)
  moreover have "mx_pcs (mutex_claim t s) = (mx_pcs s)(t := MxRel)" "mx_waiters (mutex_claim t s) = mx_waiters s"
    using assms by (auto simp: mutex_claim_def)
  moreover from this obtain s' where "mx_frees t (mutex_claim t s) s'" using mx_wlock_rel [of "mutex_claim t s" t] by auto
  ultimately show ?thesis using mx_frees_step by blast
qed

lemma mx_wlock_claim:
  assumes "mx_pcs s t = MxClaim"
  shows "\<exists>s'. mx_frees t s s'"
proof -
  have "mutex_lock t s = Some (mutex_claim t s)" using assms by (simp add: mutex_lock_def mx_wait_def)
  moreover have p: "mx_pcs (mutex_claim t s) = (mx_pcs s)(t := if mx_locked s \<noteq> 0 then MxFail else MxGot)"
    "mx_waiters (mutex_claim t s) = mx_waiters s"
    using assms by (auto simp: mutex_claim_def mutex_values)
  moreover have "\<exists>s'. mx_frees t (mutex_claim t s) s'"
    using p(1) mx_wlock_fail [of "mutex_claim t s" t] mx_wlock_got [of "mutex_claim t s" t]
    by (cases "mx_locked s = 0") auto
  ultimately show ?thesis using mx_frees_step by blast
qed

lemma mx_steps_inv: "mx_step\<^sup>*\<^sup>* s s' \<Longrightarrow> mx_inv s \<Longrightarrow> mx_inv s'"
  by (induction rule: rtranclp_induct) (auto intro: mx_inv_step)


lemma mx_wlock_free:
  assumes i: "mx_inv s" and h: "mx_token s h" "mx_pcs s h \<notin> {MxGot, MxRel}"
  shows "\<exists>s' ws. mx_step\<^sup>*\<^sup>* s s' \<and> mx_inv s' \<and> mx_wlock s' = None \<and> mx_waiters s' = mx_waiters s @ ws \<and>
    mx_token s' h \<and> mx_pcs s' h = mx_pcs s h"
proof (cases "mx_wlock s")
  case (Some t)
  hence p: "mx_pcs s t \<in> {MxClaim, MxGot, MxRel, MxFail}" using mx_invD(3) [OF i] by blast
  hence "\<exists>s'. mx_frees t s s'" using mx_wlock_claim mx_wlock_got mx_wlock_rel mx_wlock_fail by auto
  then obtain s' ws where s: "mx_step\<^sup>*\<^sup>* s s'" "mx_wlock s' = None" "mx_waiters s' = mx_waiters s @ ws" "set ws \<subseteq> {t}"
      "\<forall>h. h \<noteq> t \<longrightarrow> mx_pcs s' h = mx_pcs s h" unfolding mx_frees_def by blast
  have "h \<noteq> t" using h p by (auto simp: mx_token_def)
  hence "mx_pcs s' h = mx_pcs s h" "mx_token s' h" using s h(1) by (auto simp: mx_token_def)
  thus ?thesis using s mx_steps_inv [OF s(1) i] by blast
qed (use assms in auto)

text \<open>The responsible thread can go on until it has handed the mutex to the first waiter.\<close>

definition mx_hands :: "tid \<Rightarrow> tid list \<Rightarrow> mutex \<Rightarrow> mutex \<Rightarrow> bool" where
  "mx_hands u q s s' \<longleftrightarrow> mx_step\<^sup>*\<^sup>* s s' \<and> mx_token s' u \<and> mx_pcs s' u = MxSleep \<and> (\<exists>ws. mx_waiters s' = q @ ws)"

fun mx_rank :: "mx_pc \<Rightarrow> nat" where
  "mx_rank MxGot = 7" | "mx_rank MxSleep = 7" | "mx_rank MxRel = 6" | "mx_rank MxWoken = 6" | "mx_rank MxHold = 5"
| "mx_rank MxU1 = 4" | "mx_rank MxU2 = 3" | "mx_rank MxU3 = 2" | "mx_rank _ = 1"

lemma mx_hands_steps: "mx_step\<^sup>*\<^sup>* s s1 \<Longrightarrow> mx_hands u (q @ ws) s1 s' \<Longrightarrow> mx_hands u q s s'"
  unfolding mx_hands_def by (metis append.assoc rtranclp_trans)

lemma mx_hands_pop:
  assumes i: "mx_inv s" and h: "mx_pcs s h \<in> {MxU2, MxU4}" and w: "mx_wlock s = None" "mx_waiters s = u # q"
  shows "mx_hands u q s (mx_goto h MxIdle (s\<lparr>mx_waiters := q\<rparr>))"
proof -
  have "mutex_unlock h s = Some (Inr (mx_goto h MxIdle (s\<lparr>mx_waiters := q\<rparr>)))"
    using h w by (auto simp: mutex_unlock_def mx_wakeup_def)
  moreover have "mx_pcs s u = MxSleep" "u \<notin> set q" "u \<noteq> h" using mx_invD(1,2) [OF i] w h by auto
  ultimately show ?thesis unfolding mx_hands_def using mx_step_unlock by (auto simp: mx_token_def)
qed

text \<open>One step of the responsible thread towards the hand-over, when it does not need the waiters' lock.\<close>

lemma mx_rank_step:
  assumes i: "mx_inv s" and h: "mx_token s h" and w: "mx_waiters s \<noteq> []" and p: "mx_pcs s h \<notin> {MxSleep, MxU2, MxU4}"
  shows "\<exists>s1. mx_step s s1 \<and> mx_token s1 h \<and> mx_waiters s1 = mx_waiters s \<and> mx_rank (mx_pcs s1 h) < mx_rank (mx_pcs s h)"
proof -
  have l: "mx_locked s \<noteq> 1" using mx_invD(7) [OF i] w by blast
  have ok: "mx_word_ok s h" using mx_invD(5) [OF i h] .
  consider "mx_pcs s h = MxGot" | "mx_pcs s h = MxRel" | "mx_pcs s h = MxWoken" | "mx_pcs s h = MxHold" | "mx_pcs s h = MxU1"
    | "mx_pcs s h = MxU3" using h p by (auto simp: mx_token_def)
  thus ?thesis
  proof cases
    case 1
    thus ?thesis using mx_step.lock [of h s] w
      by (intro exI [of _ "mx_goto h MxRel s"]) (auto simp: mutex_lock_def mx_wait_def mutex_claim_def mx_token_def)
  next
    case 2
    thus ?thesis using mx_step.lock [of h s]
      by (intro exI [of _ "mx_goto h MxHold (s\<lparr>mx_wlock := None\<rparr>)"]) (auto simp: mutex_lock_def mx_wait_def mx_token_def)
  next
    case 3
    thus ?thesis using mx_step.lock [of h s]
      by (intro exI [of _ "mx_goto h MxHold (s\<lparr>mx_locked := 2\<rparr>)"]) (auto simp: mutex_lock_def mutex_values mx_token_def)
  next
    case 4
    thus ?thesis using mx_step.unlock [of h s] l
      by (intro exI [of _ "mx_goto h MxU1 s"]) (auto simp: mutex_unlock_def mutex_values mx_token_def)
  next
    case 5
    thus ?thesis using mx_step.unlock [of h s]
      by (intro exI [of _ "mx_goto h MxU2 (s\<lparr>mx_locked := 3\<rparr>)"]) (auto simp: mutex_unlock_def mutex_values mx_token_def)
  next
    case 6
    hence "mx_locked s = 2" using ok w by (auto simp: mx_word_ok_def)
    thus ?thesis using mx_step.unlock [of h s] 6
      by (intro exI [of _ "mx_goto h MxU4 s"]) (auto simp: mutex_unlock_def mutex_values mx_token_def)
  qed
qed

lemma mx_wakes:
  assumes "mx_inv s" "mx_token s h" "mx_pcs s h = MxSleep" "mx_wlock s = None"
  shows "mx_step s (mx_goto h MxWoken s)"
  using assms by (intro mx_step.lock [of h]) (auto simp: mutex_lock_def mx_wait_def mx_token_def)

lemma mx_hands_over:
  "mx_inv s \<Longrightarrow> mx_token s h \<Longrightarrow> mx_waiters s = u # q \<Longrightarrow> \<exists>s'. mx_hands u q s s'"
proof (induction "mx_rank (mx_pcs s h)" arbitrary: s q rule: less_induct)
  case less
  note i = less.prems(1) and h = less.prems(2) and w = less.prems(3)
  show ?case
  proof (cases "mx_pcs s h \<in> {MxSleep, MxU2, MxU4}")
    case False
    then obtain s1 where s1: "mx_step s s1" "mx_token s1 h" "mx_waiters s1 = mx_waiters s"
        "mx_rank (mx_pcs s1 h) < mx_rank (mx_pcs s h)" using mx_rank_step [OF i h] w by auto
    then obtain s' where "mx_hands u q s1 s'" using less.hyps [OF s1(4)] mx_inv_step [OF s1(1) i] w by auto
    thus ?thesis using mx_hands_steps [of s s1 u q "[]"] s1(1) by auto
  next
    case True
    hence "mx_pcs s h \<notin> {MxGot, MxRel}" by auto
    then obtain s1 ws where s1: "mx_step\<^sup>*\<^sup>* s s1" "mx_inv s1" "mx_wlock s1 = None" "mx_waiters s1 = u # (q @ ws)"
        "mx_token s1 h" "mx_pcs s1 h = mx_pcs s h" using mx_wlock_free [OF i h] w by auto
    have "\<exists>s'. mx_hands u (q @ ws) s1 s'"
    proof (cases "mx_pcs s1 h = MxSleep")
      case s: True
      note st = mx_wakes [OF s1(2,5) s s1(3)]
      have "\<exists>s'. mx_hands u (q @ ws) (mx_goto h MxWoken s1) s'"
        by (rule less.hyps) (use s s1 mx_inv_step [OF st s1(2)] in \<open>auto simp: mx_token_def\<close>)
      thus ?thesis using mx_hands_steps [of s1 "mx_goto h MxWoken s1" u "q @ ws" "[]"] st by auto
    next
      case False
      thus ?thesis using mx_hands_pop [OF s1(2) _ s1(3,4), of h] True s1(6) by auto
    qed
    thus ?thesis using mx_hands_steps [OF s1(1)] by blast
  qed
qed

lemma mx_woken_holds:
  assumes i: "mx_inv s" and h: "mx_token s h" "mx_pcs s h = MxSleep"
  shows "\<exists>s'. mx_step\<^sup>*\<^sup>* s s' \<and> mx_holds s' h"
proof -
  obtain s1 where s1: "mx_step\<^sup>*\<^sup>* s s1" "mx_inv s1" "mx_wlock s1 = None" "mx_token s1 h" "mx_pcs s1 h = MxSleep"
    using mx_wlock_free [OF i h(1)] h(2) by auto
  have "mx_step (mx_goto h MxWoken s1) (mx_goto h MxHold ((mx_goto h MxWoken s1)\<lparr>mx_locked := MUTEX_LOCKED_WAITERS\<rparr>))"
    by (rule mx_step.lock [of h]) (simp add: mutex_lock_def)
  hence "mx_step\<^sup>*\<^sup>* s (mx_goto h MxHold ((mx_goto h MxWoken s1)\<lparr>mx_locked := MUTEX_LOCKED_WAITERS\<rparr>))"
    using s1(1) mx_wakes [OF s1(2,4,5,3)] by (meson rtranclp.rtrancl_into_rtrancl)
  thus ?thesis by (auto simp: mx_holds_def)
qed

lemma mx_waiter_holds:
  "mx_inv s \<Longrightarrow> mx_waiters s = q1 @ t # q2 \<Longrightarrow> \<exists>s'. mx_step\<^sup>*\<^sup>* s s' \<and> mx_holds s' t"
proof (induction q1 arbitrary: s q2)
  case (Cons u q1)
  have "mx_locked s \<noteq> 0" using mx_invD(7) [OF Cons.prems(1)] Cons.prems(2) by auto
  then obtain h where "mx_token s h" using mx_token_exists [OF Cons.prems(1)] by blast
  then obtain s1 where "mx_hands u (q1 @ t # q2) s s1" using mx_hands_over [OF Cons.prems(1)] Cons.prems(2) by auto
  then obtain ws where s1: "mx_step\<^sup>*\<^sup>* s s1" "mx_waiters s1 = q1 @ t # (q2 @ ws)" unfolding mx_hands_def by auto
  then obtain s' where "mx_step\<^sup>*\<^sup>* s1 s'" "mx_holds s' t" using Cons.IH mx_steps_inv [OF s1(1) Cons.prems(1)] by blast
  thus ?case using s1(1) by (meson rtranclp_trans)
next
  case Nil
  have "mx_locked s \<noteq> 0" using mx_invD(7) [OF Nil.prems(1)] Nil.prems(2) by auto
  then obtain h where "mx_token s h" using mx_token_exists [OF Nil.prems(1)] by blast
  then obtain s1 where "mx_hands t q2 s s1" using mx_hands_over [OF Nil.prems(1)] Nil.prems(2) by auto
  then obtain ws where s1: "mx_step\<^sup>*\<^sup>* s s1" "mx_token s1 t" "mx_pcs s1 t = MxSleep" unfolding mx_hands_def by auto
  then obtain s' where "mx_step\<^sup>*\<^sup>* s1 s'" "mx_holds s' t" using mx_woken_holds mx_steps_inv [OF s1(1) Nil.prems(1)] by blast
  thus ?case using s1(1) by (meson rtranclp_trans)
qed


text \<open>A run of two threads: thread 0 takes the mutex on the fast path, thread 1 goes to sleep.\<close>

fun mx_locks :: "tid list \<Rightarrow> mutex \<Rightarrow> mutex option" where
  "mx_locks [] s = Some s"
| "mx_locks (t # ts) s = (case mutex_lock t s of None \<Rightarrow> None | Some s' \<Rightarrow> mx_locks ts s')"

lemma mx_locks_steps: "mx_locks ts s = Some s' \<Longrightarrow> mx_step\<^sup>*\<^sup>* s s'"
  by (induction ts arbitrary: s) (auto split: option.splits intro: mx_step_lock)

definition mx_start :: mutex where
  "mx_start = \<lparr>mx_locked = MUTEX_UNLOCKED, mx_wlock = None, mx_waiters = [], mx_pcs = (\<lambda>_. MxIdle)\<rparr>"

definition mx_contended :: mutex where
  "mx_contended = \<lparr>mx_locked = 2, mx_wlock = None, mx_waiters = [1], mx_pcs = (\<lambda>_. MxIdle)(0 := MxHold, 1 := MxSleep)\<rparr>"

lemma mx_contended_run: "mx_init mx_start" "mx_step\<^sup>*\<^sup>* mx_start mx_contended"
proof -
  show "mx_init mx_start" by (simp add: mx_init_def mx_start_def)
  have "mx_locks [0, 0, 1, 1, 1, 1] mx_start = Some mx_contended"
    by (simp add: mx_start_def mx_contended_def mutex_lock_def mx_wait_def mutex_claim_def mx_goto_def mutex_values fun_upd_twist)
  thus "mx_step\<^sup>*\<^sup>* mx_start mx_contended" by (rule mx_locks_steps)
qed



end
