(* ===== verification/Sched.thy ===== *)
theory Sched
  imports Locks
begin

text \<open>
  The scheduler of \<^verbatim>\<open>sched/scheduler.c\<close> and the waiting of \<^verbatim>\<open>sched/wait.c\<close>: the run queues of the processors, the
  change of threads, waiting on an object with a condition and a timeout, waking, the exit of a thread and the
  reaper. The lists and the heap are the abstract ones that the linked list and the pairing heap implement. A step
  is a section of code that runs under a lock with interrupts off, or one atomic access to the state of a thread;
  the steps of all processors interleave. The theory shows that no thread is lost and none is in two places.
\<close>

section \<open>Threads and processors\<close>

type_synonym cpu = nat
type_synonym wid = nat

datatype thread_state = THREAD_RUNNING | THREAD_RUNABLE | THREAD_REAPING | THREAD_BLOCKING | THREAD_BLOCKED
  | THREAD_IDLE_THREAD

datatype wait_status = WAIT_STATUS_WOKEN | WAIT_STATUS_TIMED_OUT | WAIT_STATUS_CONDITION_MET

text \<open>
  Where a thread is in \<^verbatim>\<open>wait_impl\<close>, with the object and the timeout it was called with: it has announced that it
  blocks, is past the object's list, is past the timeout heap, has enabled preemption again, has called
  \<^verbatim>\<open>schedule\<close>; or it is outside, or in \<^verbatim>\<open>thread_exit\<close>.
\<close>

datatype wait_phase = WNone | WSet "wid option" u64 | WListed "wid option" u64 | WTimed "wid option" u64
  | WArmed "wid option" u64 | WSlept "wid option" u64 | WExit

record sched =
  th_state :: "tid \<Rightarrow> thread_state"
  th_preempt :: "tid \<Rightarrow> u32"
  th_wakeup_time :: "tid \<Rightarrow> u64"
  th_addrspace :: "tid \<Rightarrow> u64 option"
  th_fpu_save :: "tid \<Rightarrow> nat"
  th_phase :: "tid \<Rightarrow> wait_phase"
  alive :: "tid set"
  waiters :: "wid \<Rightarrow> tid list"
  timeouts :: "tid set"
  run_queue :: "cpu \<Rightarrow> tid list"
  current :: "cpu \<Rightarrow> tid"
  idle_thread :: "cpu \<Rightarrow> tid"
  cpu_fpu :: "cpu \<Rightarrow> nat"
  cpu_page_table :: "cpu \<Rightarrow> u64"
  kernel_page_table :: u64
  reaper_list :: "tid list"
  reaper_waiter :: wid
  pending :: "tid list"

definition set_state :: "tid \<Rightarrow> thread_state \<Rightarrow> sched \<Rightarrow> sched" where
  "set_state t v s = s\<lparr>th_state := (th_state s)(t := v)\<rparr>"

definition set_phase :: "tid \<Rightarrow> wait_phase \<Rightarrow> sched \<Rightarrow> sched" where
  "set_phase t p s = s\<lparr>th_phase := (th_phase s)(t := p)\<rparr>"

definition set_preempt :: "((tid \<Rightarrow> u32) \<Rightarrow> tid \<Rightarrow> u32) \<Rightarrow> sched \<Rightarrow> sched" where
  "set_preempt f s = s\<lparr>th_preempt := f (th_preempt s)\<rparr>"

definition enqueue_thread :: "cpu \<Rightarrow> tid \<Rightarrow> sched \<Rightarrow> sched" where
  "enqueue_thread c t s = s\<lparr>run_queue := (run_queue s)(c := run_queue s c @ [t])\<rparr>"

text \<open>The exchange of a thread's state with \<open>THREAD_RUNABLE\<close>, and the enqueuing of a thread that was blocked. A thread
  that has been freed has no state.\<close>

definition wake_thread :: "cpu \<Rightarrow> tid \<Rightarrow> sched \<Rightarrow> sched result" where
  "wake_thread c t s =
    (if t \<notin> alive s then Inl Undefined
     else Inr (if th_state s t = THREAD_BLOCKED then enqueue_thread c t (set_state t THREAD_RUNABLE s)
               else set_state t THREAD_RUNABLE s))"

section \<open>The scheduler\<close>

text \<open>What \<^verbatim>\<open>schedule_finalize\<close> does with the previous thread, by its state.\<close>

definition finalize_prev :: "cpu \<Rightarrow> tid \<Rightarrow> sched \<Rightarrow> sched result" where
  "finalize_prev c prev s = (case th_state s prev of
     THREAD_RUNNING \<Rightarrow> Inr (enqueue_thread c prev (set_state prev THREAD_RUNABLE s))
   | THREAD_BLOCKING \<Rightarrow> Inr (set_state prev THREAD_BLOCKED s)
   | THREAD_RUNABLE \<Rightarrow> Inr (enqueue_thread c prev s)
   | THREAD_REAPING \<Rightarrow>
       (let s1 = s\<lparr>reaper_list := reaper_list s @ [prev]\<rparr>; w = reaper_waiter s in
        case waiters s1 w of
          [] \<Rightarrow> Inr s1
        | u # q \<Rightarrow> wake_thread c u (s1\<lparr>waiters := (waiters s1)(w := q)\<rparr>))
   | THREAD_IDLE_THREAD \<Rightarrow> Inr s
   | THREAD_BLOCKED \<Rightarrow> Inl Panicked)"

text \<open>The floating-point registers and the page table of the processor.\<close>

definition finalize_cpu :: "cpu \<Rightarrow> tid \<Rightarrow> tid \<Rightarrow> sched \<Rightarrow> sched" where
  "finalize_cpu c prev nxt s =
    (let s1 = (if th_addrspace s prev \<noteq> None then s\<lparr>th_fpu_save := (th_fpu_save s)(prev := cpu_fpu s c)\<rparr> else s) in
     case th_addrspace s1 nxt of
       Some pt \<Rightarrow> s1\<lparr>cpu_fpu := (cpu_fpu s1)(c := th_fpu_save s1 nxt), cpu_page_table := (cpu_page_table s1)(c := pt)\<rparr>
     | None \<Rightarrow> s1\<lparr>cpu_page_table := (cpu_page_table s1)(c := kernel_page_table s1)\<rparr>)"

definition schedule_finalize :: "cpu \<Rightarrow> tid \<Rightarrow> tid \<Rightarrow> sched \<Rightarrow> sched result" where
  "schedule_finalize c prev nxt s =
    (let s1 = s\<lparr>current := (current s)(c := nxt)\<rparr>;
         s2 = (if th_state s1 nxt \<noteq> THREAD_IDLE_THREAD then set_state nxt THREAD_RUNNING s1 else s1) in
     ebind (finalize_prev c prev s2) (\<lambda>s3. Inr (finalize_cpu c prev nxt s3)))"

definition schedule :: "cpu \<Rightarrow> sched \<Rightarrow> sched result" where
  "schedule c s =
    (let cur = current s c in
     if th_preempt s cur > 0 then Inr s
     else case run_queue s c of
       [] \<Rightarrow> if cur = idle_thread s c then Inr s else schedule_finalize c cur (idle_thread s c) s
     | nxt # q \<Rightarrow> schedule_finalize c cur nxt (s\<lparr>run_queue := (run_queue s)(c := q)\<rparr>))"

section \<open>Waiting and waking\<close>

text \<open>The parts of \<^verbatim>\<open>wait_impl\<close> between which other processors can act.\<close>

definition wait_announce :: "tid \<Rightarrow> wid option \<Rightarrow> u64 \<Rightarrow> sched \<Rightarrow> sched result" where
  "wait_announce t w timeout s =
    kassert (w \<noteq> None \<or> timeout \<noteq> 0)
    (kassert (th_preempt s t = 0)
    (Inr (set_phase t (WSet w timeout) (set_state t THREAD_BLOCKING (set_preempt (disable_preemption t) s)))))"

text \<open>Under the object's lock: the condition is met, or the thread enters the list. \<open>met\<close> is the value of
  \<^verbatim>\<open>cond(ctx)\<close>, false when there is no condition.\<close>

definition wait_list :: "tid \<Rightarrow> bool \<Rightarrow> wid option \<Rightarrow> u64 \<Rightarrow> sched \<Rightarrow> wait_status option \<times> sched" where
  "wait_list t met w timeout s = (case w of
     None \<Rightarrow> (None, set_phase t (WListed w timeout) s)
   | Some v \<Rightarrow>
       if met then (Some WAIT_STATUS_CONDITION_MET,
         set_phase t WNone (set_preempt (enable_preemption t) (set_state t THREAD_RUNNING s)))
       else (None, set_phase t (WListed w timeout) (s\<lparr>waiters := (waiters s)(v := waiters s v @ [t])\<rparr>)))"

definition wait_timeout :: "tid \<Rightarrow> u64 \<Rightarrow> wid option \<Rightarrow> u64 \<Rightarrow> sched \<Rightarrow> sched" where
  "wait_timeout t now w timeout s =
    set_phase t (WTimed w timeout)
      (if timeout \<noteq> 0
       then s\<lparr>th_wakeup_time := (th_wakeup_time s)(t := timeout + now), timeouts := insert t (timeouts s)\<rparr>
       else s)"

definition wait_arm :: "tid \<Rightarrow> wid option \<Rightarrow> u64 \<Rightarrow> sched \<Rightarrow> sched" where
  "wait_arm t w timeout s = set_phase t (WArmed w timeout) (set_preempt (enable_preemption t) s)"

definition wait_sleep :: "cpu \<Rightarrow> wid option \<Rightarrow> u64 \<Rightarrow> sched \<Rightarrow> sched result" where
  "wait_sleep c w timeout s = schedule c (set_phase (current s c) (WSlept w timeout) s)"

definition wait_cleanup :: "tid \<Rightarrow> wid option \<Rightarrow> u64 \<Rightarrow> sched \<Rightarrow> wait_status \<times> sched" where
  "wait_cleanup t w timeout s =
    (let timed_out = (timeout \<noteq> 0 \<and> t \<notin> timeouts s);
         s1 = (if timeout \<noteq> 0 then s\<lparr>timeouts := timeouts s - {t}\<rparr> else s);
         timed_out = (case w of None \<Rightarrow> timed_out | Some v \<Rightarrow> t \<in> set (waiters s1 v));
         s2 = (case w of None \<Rightarrow> s1 | Some v \<Rightarrow> s1\<lparr>waiters := (waiters s1)(v := remove1 t (waiters s1 v))\<rparr>) in
     (if timed_out then WAIT_STATUS_TIMED_OUT else WAIT_STATUS_WOKEN, set_phase t WNone s2))"

text \<open>\<^verbatim>\<open>sched_wakeup_n_threads\<close>: under the object's lock the first thread leaves the list, afterwards its state is
  exchanged; in between the wake-up is pending.\<close>

definition wakeup_pop :: "wid \<Rightarrow> sched \<Rightarrow> (tid \<times> sched) option" where
  "wakeup_pop w s = (case waiters s w of [] \<Rightarrow> None
     | t # q \<Rightarrow> Some (t, s\<lparr>waiters := (waiters s)(w := q), pending := t # pending s\<rparr>))"

definition wakeup_finish :: "cpu \<Rightarrow> tid \<Rightarrow> sched \<Rightarrow> sched result" where
  "wakeup_finish c t s = wake_thread c t (s\<lparr>pending := remove1 t (pending s)\<rparr>)"

fun sched_wakeup_n_threads :: "cpu \<Rightarrow> wid \<Rightarrow> nat \<Rightarrow> sched \<Rightarrow> (nat \<times> sched) result" where
  "sched_wakeup_n_threads c w 0 s = Inr (0, s)"
| "sched_wakeup_n_threads c w (Suc n) s = (case wakeup_pop w s of
     None \<Rightarrow> Inr (0, s)
   | Some (t, s1) \<Rightarrow> ebind (wakeup_finish c t s1) (\<lambda>s2.
       ebind (sched_wakeup_n_threads c w n s2) (\<lambda>(k, s3). Inr (Suc k, s3))))"

text \<open>\<^verbatim>\<open>sched_handle_timeouts\<close>: a thread with the least wake-up time leaves the heap when its time has come.\<close>

definition timeout_due :: "u64 \<Rightarrow> tid \<Rightarrow> sched \<Rightarrow> bool" where
  "timeout_due now t s \<longleftrightarrow> t \<in> timeouts s \<and> (\<forall>u \<in> timeouts s. th_wakeup_time s t \<le> th_wakeup_time s u) \<and>
     th_wakeup_time s t \<le> now"

definition timeout_pop :: "tid \<Rightarrow> sched \<Rightarrow> sched" where
  "timeout_pop t s = s\<lparr>timeouts := timeouts s - {t}, pending := t # pending s\<rparr>"

inductive sched_handle_timeouts :: "cpu \<Rightarrow> u64 \<Rightarrow> sched \<Rightarrow> sched \<Rightarrow> bool" for c now where
  none: "(\<And>t. \<not> timeout_due now t s) \<Longrightarrow> sched_handle_timeouts c now s s"
| wake: "timeout_due now t s \<Longrightarrow> wakeup_finish c t (timeout_pop t s) = Inr s1 \<Longrightarrow> sched_handle_timeouts c now s1 s' \<Longrightarrow>
    sched_handle_timeouts c now s s'"

section \<open>Start and end of a thread\<close>

definition create_thread :: "cpu \<Rightarrow> tid \<Rightarrow> u64 option \<Rightarrow> sched \<Rightarrow> sched" where
  "create_thread c t as s = enqueue_thread c t
    (s\<lparr>alive := insert t (alive s), th_state := (th_state s)(t := THREAD_RUNABLE), th_preempt := (th_preempt s)(t := 0),
       th_addrspace := (th_addrspace s)(t := as), th_phase := (th_phase s)(t := WNone)\<rparr>)"

definition thread_exit :: "tid \<Rightarrow> sched \<Rightarrow> sched" where
  "thread_exit t s = set_phase t WExit (set_state t THREAD_REAPING s)"

definition reaper_free :: "sched \<Rightarrow> sched option" where
  "reaper_free s = (case reaper_list s of [] \<Rightarrow> None
     | t # q \<Rightarrow> Some (s\<lparr>reaper_list := q, alive := alive s - {t}\<rparr>))"

section \<open>The interleaved steps\<close>

text \<open>Thread \<open>t\<close> runs on processor \<open>c\<close>, outside the idle thread.\<close>

definition runs :: "sched \<Rightarrow> cpu \<Rightarrow> tid \<Rightarrow> bool" where
  "runs s c t \<longleftrightarrow> current s c = t \<and> t \<in> alive s"

inductive sched_step :: "sched \<Rightarrow> sched \<Rightarrow> bool" where
  tick: "schedule c s = Inr s' \<Longrightarrow> sched_step s s'"
| locks: "runs s c t \<Longrightarrow> th_phase s t = WNone \<Longrightarrow> sched_step s (set_preempt (\<lambda>p. p(t := n)) s)"
| announce: "runs s c t \<Longrightarrow> th_phase s t = WNone \<Longrightarrow> wait_announce t w timeout s = Inr s' \<Longrightarrow> sched_step s s'"
| enlist: "runs s c t \<Longrightarrow> th_phase s t = WSet w timeout \<Longrightarrow> sched_step s (snd (wait_list t met w timeout s))"
| heap: "runs s c t \<Longrightarrow> th_phase s t = WListed w timeout \<Longrightarrow> sched_step s (wait_timeout t now w timeout s)"
| arm: "runs s c t \<Longrightarrow> th_phase s t = WTimed w timeout \<Longrightarrow> sched_step s (wait_arm t w timeout s)"
| sleep: "runs s c t \<Longrightarrow> th_phase s t = WArmed w timeout \<Longrightarrow> wait_sleep c w timeout s = Inr s' \<Longrightarrow> sched_step s s'"
| cleanup: "runs s c t \<Longrightarrow> th_phase s t = WSlept w timeout \<Longrightarrow> sched_step s (snd (wait_cleanup t w timeout s))"
| pop: "wakeup_pop w s = Some (t, s') \<Longrightarrow> sched_step s s'"
| due: "timeout_due now t s \<Longrightarrow> sched_step s (timeout_pop t s)"
| finish: "t \<in> set (pending s) \<Longrightarrow> wakeup_finish c t s = Inr s' \<Longrightarrow> sched_step s s'"
| create: "t \<notin> alive s \<Longrightarrow> t \<notin> range (idle_thread s) \<Longrightarrow> sched_step s (create_thread c t as s)"
| exit: "runs s c t \<Longrightarrow> th_phase s t = WNone \<Longrightarrow> sched_step s (thread_exit t s)"
| reap: "reaper_free s = Some s' \<Longrightarrow> sched_step s s'"

definition sched_init :: "sched \<Rightarrow> bool" where
  "sched_init s \<longleftrightarrow> alive s = {} \<and> inj (idle_thread s) \<and> current s = idle_thread s \<and> run_queue s = (\<lambda>_. []) \<and>
     (\<forall>c. th_state s (idle_thread s c) = THREAD_IDLE_THREAD) \<and> waiters s = (\<lambda>_. []) \<and> timeouts s = {} \<and>
     reaper_list s = [] \<and> pending s = []"

section \<open>The invariant\<close>

text \<open>The places where a thread is.\<close>

datatype place = OnCpu cpu | InQueue cpu | Reaped

definition places :: "sched \<Rightarrow> tid \<Rightarrow> place set" where
  "places s t = OnCpu ` {c. current s c = t} \<union> InQueue ` {c. t \<in> set (run_queue s c)} \<union>
     (if t \<in> set (reaper_list s) then {Reaped} else {})"

definition located :: "sched \<Rightarrow> tid \<Rightarrow> bool" where
  "located s t \<longleftrightarrow> (if th_state s t = THREAD_BLOCKED then places s t = {} else \<exists>p. places s t = {p})"

text \<open>Somebody will wake the thread: it is on a list or in the heap, or its wake-up is pending.\<close>

definition registered :: "sched \<Rightarrow> tid \<Rightarrow> bool" where
  "registered s t \<longleftrightarrow> (\<exists>w. t \<in> set (waiters s w)) \<or> t \<in> timeouts s \<or> t \<in> set (pending s)"

definition blocks :: "sched \<Rightarrow> tid \<Rightarrow> bool" where
  "blocks s t \<longleftrightarrow> th_state s t = THREAD_BLOCKING \<or> th_state s t = THREAD_BLOCKED"

definition phase_ok :: "sched \<Rightarrow> tid \<Rightarrow> bool" where
  "phase_ok s t \<longleftrightarrow> (case th_phase s t of
     WNone \<Rightarrow> \<not> blocks s t
   | WExit \<Rightarrow> \<not> blocks s t
   | WSet w timeout \<Rightarrow> th_preempt s t = 1 \<and> (w \<noteq> None \<or> timeout \<noteq> 0) \<and> t \<in> range (current s)
   | WListed w timeout \<Rightarrow> th_preempt s t = 1 \<and> (w \<noteq> None \<or> timeout \<noteq> 0) \<and> t \<in> range (current s) \<and>
       (w \<noteq> None \<longrightarrow> blocks s t \<longrightarrow> registered s t)
   | WTimed w timeout \<Rightarrow> th_preempt s t = 1 \<and> t \<in> range (current s) \<and> (blocks s t \<longrightarrow> registered s t)
   | WArmed w timeout \<Rightarrow> th_preempt s t = 0 \<and> (blocks s t \<longrightarrow> registered s t)
   | WSlept w timeout \<Rightarrow> th_preempt s t = 0 \<and> th_state s t \<noteq> THREAD_BLOCKING \<and> (blocks s t \<longrightarrow> registered s t))"

text \<open>The phases in which a thread can be on the list of object \<open>w\<close>, and in the heap.\<close>

fun listing :: "wid \<Rightarrow> wait_phase \<Rightarrow> bool" where
  "listing w (WListed v n) \<longleftrightarrow> v = Some w"
| "listing w (WTimed v n) \<longleftrightarrow> v = Some w"
| "listing w (WArmed v n) \<longleftrightarrow> v = Some w"
| "listing w (WSlept v n) \<longleftrightarrow> v = Some w"
| "listing w _ \<longleftrightarrow> False"

fun timing :: "wait_phase \<Rightarrow> bool" where
  "timing (WTimed v n) \<longleftrightarrow> n \<noteq> 0"
| "timing (WArmed v n) \<longleftrightarrow> n \<noteq> 0"
| "timing (WSlept v n) \<longleftrightarrow> n \<noteq> 0"
| "timing _ \<longleftrightarrow> False"

text \<open>A thread that is reaped has called \<^verbatim>\<open>thread_exit\<close>.\<close>

definition exit_ok :: "sched \<Rightarrow> tid \<Rightarrow> bool" where
  "exit_ok s t \<longleftrightarrow> (th_state s t = THREAD_REAPING \<or> Reaped \<in> places s t \<longrightarrow> th_phase s t = WExit)"

definition thread_ok :: "sched \<Rightarrow> tid \<Rightarrow> bool" where
  "thread_ok s t \<longleftrightarrow> located s t \<and> phase_ok s t \<and> exit_ok s t \<and> th_state s t \<noteq> THREAD_IDLE_THREAD"

definition lists_ok :: "sched \<Rightarrow> bool" where
  "lists_ok s \<longleftrightarrow> (\<forall>w. distinct (waiters s w) \<and> (\<forall>t \<in> set (waiters s w). t \<in> alive s \<and> listing w (th_phase s t))) \<and>
     (\<forall>t \<in> timeouts s. t \<in> alive s \<and> timing (th_phase s t))"

definition queues_ok :: "sched \<Rightarrow> bool" where
  "queues_ok s \<longleftrightarrow> (\<forall>c. distinct (run_queue s c)) \<and> distinct (reaper_list s) \<and>
     (\<forall>t. t \<notin> alive s \<longrightarrow> t \<notin> range (idle_thread s) \<longrightarrow> places s t = {})"

definition idle_ok :: "sched \<Rightarrow> bool" where
  "idle_ok s \<longleftrightarrow> inj (idle_thread s) \<and> (\<forall>c. idle_thread s c \<notin> alive s \<and> th_state s (idle_thread s c) = THREAD_IDLE_THREAD \<and>
     places s (idle_thread s c) \<subseteq> {OnCpu c})"

definition sched_inv :: "sched \<Rightarrow> bool" where
  "sched_inv s \<longleftrightarrow> (\<forall>t \<in> alive s. thread_ok s t) \<and> lists_ok s \<and> queues_ok s \<and> idle_ok s"

lemma sched_inv_init: "sched_init s \<Longrightarrow> sched_inv s"
  unfolding sched_init_def sched_inv_def thread_ok_def lists_ok_def queues_ok_def idle_ok_def places_def inj_def by auto

text \<open>How the places change.\<close>

lemma places_frame [simp]:
  "places (set_state t v s) = places s" "places (set_phase t p s) = places s" "places (set_preempt f s) = places s"
  "places (s\<lparr>waiters := w\<rparr>) = places s" "places (s\<lparr>timeouts := h\<rparr>) = places s" "places (s\<lparr>pending := q\<rparr>) = places s"
  "places (finalize_cpu c t u s) = places s"
  by (auto simp: places_def set_state_def set_phase_def set_preempt_def finalize_cpu_def fun_eq_iff Let_def split: option.splits)

lemma places_enqueue: "places (enqueue_thread c t s) u = places s u \<union> (if u = t then {InQueue c} else {})"
  by (auto simp: places_def enqueue_thread_def split: if_splits)

lemma places_mem:
  "OnCpu c \<in> places s t \<longleftrightarrow> current s c = t" "InQueue c \<in> places s t \<longleftrightarrow> t \<in> set (run_queue s c)"
  "Reaped \<in> places s t \<longleftrightarrow> t \<in> set (reaper_list s)"
  by (auto simp: places_def)

subsection \<open>Steps of one thread\<close>

lemma current_places: "t \<in> range (current s) \<longleftrightarrow> (\<exists>c. OnCpu c \<in> places s t)"
  by (auto simp: places_mem)

lemma thread_ok_frame:
  assumes "thread_ok s t" "th_state s' t = th_state s t" "th_phase s' t = th_phase s t" "th_preempt s' t = th_preempt s t"
    and "places s' t = places s t" "registered s t \<Longrightarrow> registered s' t"
  shows "thread_ok s' t"
  using assms unfolding thread_ok_def located_def phase_ok_def exit_ok_def blocks_def current_places
  by (auto split: wait_phase.splits)

text \<open>A step that changes the record of thread \<open>t\<close> only and moves no thread.\<close>

lemma sched_inv_own:
  assumes i: "sched_inv s"
    and eq: "alive s' = alive s" "places s' = places s" "run_queue s' = run_queue s" "reaper_list s' = reaper_list s"
      "idle_thread s' = idle_thread s"
    and o: "\<And>u. u \<noteq> t \<Longrightarrow> th_state s' u = th_state s u \<and> th_phase s' u = th_phase s u \<and> th_preempt s' u = th_preempt s u"
    and r: "\<And>u. u \<noteq> t \<Longrightarrow> registered s u \<Longrightarrow> registered s' u"
    and t: "t \<in> alive s" "thread_ok s' t" and l: "lists_ok s'"
  shows "sched_inv s'"
proof -
  have "thread_ok s' u" if "u \<in> alive s" for u
    using thread_ok_frame [of s u s'] i that o r t eq unfolding sched_inv_def by (cases "u = t") auto
  moreover have "queues_ok s'" using i eq unfolding sched_inv_def queues_ok_def by simp
  moreover have "idle_thread s c \<noteq> t" for c using i t(1) unfolding sched_inv_def idle_ok_def by auto
  hence "idle_ok s'" using i eq o unfolding sched_inv_def idle_ok_def by simp
  ultimately show ?thesis using l eq unfolding sched_inv_def by simp
qed

lemma sched_invD:
  assumes "sched_inv s"
  shows "t \<in> alive s \<Longrightarrow> thread_ok s t" "lists_ok s" "queues_ok s" "idle_ok s"
  using assms unfolding sched_inv_def by blast+

lemma sched_sel [simp]:
  "alive (set_state t v s) = alive s" "run_queue (set_state t v s) = run_queue s" "reaper_list (set_state t v s) = reaper_list s"
  "idle_thread (set_state t v s) = idle_thread s" "waiters (set_state t v s) = waiters s" "timeouts (set_state t v s) = timeouts s"
  "pending (set_state t v s) = pending s" "th_phase (set_state t v s) = th_phase s" "th_preempt (set_state t v s) = th_preempt s"
  "th_state (set_state t v s) = (th_state s)(t := v)" "current (set_state t v s) = current s"
  "reaper_waiter (set_state t v s) = reaper_waiter s" "th_addrspace (set_state t v s) = th_addrspace s"
  by (simp_all add: set_state_def)

lemma sched_sel_phase [simp]:
  "alive (set_phase t p s) = alive s" "run_queue (set_phase t p s) = run_queue s" "reaper_list (set_phase t p s) = reaper_list s"
  "idle_thread (set_phase t p s) = idle_thread s" "waiters (set_phase t p s) = waiters s" "timeouts (set_phase t p s) = timeouts s"
  "pending (set_phase t p s) = pending s" "th_phase (set_phase t p s) = (th_phase s)(t := p)" "th_preempt (set_phase t p s) = th_preempt s"
  "th_state (set_phase t p s) = th_state s" "current (set_phase t p s) = current s"
  by (simp_all add: set_phase_def)

lemma sched_sel_preempt [simp]:
  "alive (set_preempt f s) = alive s" "run_queue (set_preempt f s) = run_queue s" "reaper_list (set_preempt f s) = reaper_list s"
  "idle_thread (set_preempt f s) = idle_thread s" "waiters (set_preempt f s) = waiters s" "timeouts (set_preempt f s) = timeouts s"
  "pending (set_preempt f s) = pending s" "th_phase (set_preempt f s) = th_phase s" "th_preempt (set_preempt f s) = f (th_preempt s)"
  "th_state (set_preempt f s) = th_state s" "current (set_preempt f s) = current s"
  by (simp_all add: set_preempt_def)

lemma registered_frame [simp]:
  "registered (set_state t v s) = registered s" "registered (set_phase t p s) = registered s" "registered (set_preempt f s) = registered s"
  by (simp_all add: registered_def fun_eq_iff)

lemma runs_places: "runs s c t \<Longrightarrow> sched_inv s \<Longrightarrow> places s t = {OnCpu c} \<and> th_state s t \<noteq> THREAD_BLOCKED"
  using sched_invD(1) [of s t] places_mem(1) [of c s t] unfolding runs_def thread_ok_def located_def
  by (auto split: if_splits)

lemma lists_ok_phase:
  assumes "lists_ok s" "\<And>w. t \<notin> set (waiters s w)" "t \<notin> timeouts s"
    "alive s' = alive s" "waiters s' = waiters s" "timeouts s' = timeouts s" "\<And>u. u \<noteq> t \<Longrightarrow> th_phase s' u = th_phase s u"
  shows "lists_ok s'"
  using assms unfolding lists_ok_def by metis

lemma not_listed:
  assumes "lists_ok s" "th_phase s t = WNone \<or> th_phase s t = WSet w n"
  shows "t \<notin> set (waiters s v)" "t \<notin> timeouts s"
  using assms unfolding lists_ok_def by fastforce+

lemma lists_ok_push:
  assumes "lists_ok s" "t \<in> alive s" "listing v (th_phase s t)" "t \<notin> set (waiters s v)"
    "alive s' = alive s" "th_phase s' = th_phase s" "timeouts s' = timeouts s"
    "waiters s' = (waiters s)(v := waiters s v @ [t])"
  shows "lists_ok s'"
  using assms unfolding lists_ok_def by auto

lemma lists_ok_insert:
  assumes "lists_ok s" "t \<in> alive s" "timing (th_phase s t)"
    "alive s' = alive s" "th_phase s' = th_phase s" "timeouts s' = insert t (timeouts s)" "waiters s' = waiters s"
  shows "lists_ok s'"
  using assms unfolding lists_ok_def by auto

lemma registered_mono:
  assumes "registered s u" "\<And>w. u \<in> set (waiters s w) \<Longrightarrow> u \<in> set (waiters s' w)"
    "u \<in> timeouts s \<Longrightarrow> u \<in> timeouts s'" "u \<in> set (pending s) \<Longrightarrow> u \<in> set (pending s')"
  shows "registered s' u"
  using assms unfolding registered_def by blast

lemma lists_ok_move:
  assumes "lists_ok s" "alive s' = alive s" "waiters s' = waiters s" "timeouts s' = timeouts s"
    "\<And>u. u \<noteq> t \<Longrightarrow> th_phase s' u = th_phase s u"
    "\<And>w. listing w (th_phase s t) \<Longrightarrow> listing w (th_phase s' t)" "timing (th_phase s t) \<Longrightarrow> timing (th_phase s' t)"
  shows "lists_ok s'"
  using assms unfolding lists_ok_def by metis

lemmas own_defs = thread_ok_def located_def phase_ok_def exit_ok_def blocks_def current_places disable_preemption_def enable_preemption_def

lemma inv_locks:
  assumes i: "sched_inv s" and t: "runs s c t" "th_phase s t = WNone"
  shows "sched_inv (set_preempt (\<lambda>p. p(t := n)) s)"
proof (rule sched_inv_own [OF i, where t = t])
  show "t \<in> alive s" using t(1) by (simp add: runs_def)
  thus "thread_ok (set_preempt (\<lambda>p. p(t := n)) s) t" using sched_invD(1) [OF i, of t] t(2) by (auto simp: own_defs)
  show "lists_ok (set_preempt (\<lambda>p. p(t := n)) s)" using sched_invD(2) [OF i] by (simp add: lists_ok_def)
qed (use t in auto)

lemma inv_announce:
  assumes i: "sched_inv s" and t: "runs s c t" "th_phase s t = WNone" and s: "wait_announce t w n s = Inr s'"
  shows "sched_inv s'"
proof (rule sched_inv_own [OF i, where t = t])
  have s': "s' = set_phase t (WSet w n) (set_state t THREAD_BLOCKING (set_preempt (disable_preemption t) s))"
    "w \<noteq> None \<or> n \<noteq> 0" "th_preempt s t = 0" using s unfolding wait_announce_def by (auto simp: kassert_def split: if_splits)
  show "t \<in> alive s" using t(1) by (simp add: runs_def)
  show "thread_ok s' t" using runs_places [OF t(1) i] s' by (auto simp: own_defs)
  show "lists_ok s'"
    by (rule lists_ok_phase [OF sched_invD(2) [OF i], of t]) (use not_listed [OF sched_invD(2) [OF i], of t] t(2) s'(1) in auto)
qed (use s in \<open>auto simp: wait_announce_def kassert_def disable_preemption_def split: if_splits\<close>)

lemma inv_exit:
  assumes i: "sched_inv s" and t: "runs s c t" "th_phase s t = WNone"
  shows "sched_inv (thread_exit t s)"
proof (rule sched_inv_own [OF i, where t = t])
  show "t \<in> alive s" using t(1) by (simp add: runs_def)
  show "thread_ok (thread_exit t s) t" using runs_places [OF t(1) i] by (auto simp: thread_exit_def own_defs)
  show "lists_ok (thread_exit t s)"
    by (rule lists_ok_phase [OF sched_invD(2) [OF i], of t])
      (use not_listed [OF sched_invD(2) [OF i], of t] t(2) in \<open>auto simp: thread_exit_def\<close>)
qed (auto simp: thread_exit_def)

lemma inv_heap:
  assumes i: "sched_inv s" and t: "runs s c t" "th_phase s t = WListed w n"
  shows "sched_inv (wait_timeout t now w n s)"
proof (rule sched_inv_own [OF i, where t = t])
  show "t \<in> alive s" using t(1) by (simp add: runs_def)
  have k: "thread_ok s t" using sched_invD(1) [OF i] t(1) by (simp add: runs_def)
  have p: "places (wait_timeout t now w n s) = places s" by (simp add: wait_timeout_def places_def fun_eq_iff)
  thus "thread_ok (wait_timeout t now w n s) t" using k t(2)
    by (auto simp: own_defs wait_timeout_def registered_def)
  show "places (wait_timeout t now w n s) = places s" using p .
  have "lists_ok (set_phase t (WTimed w n) s)"
    by (rule lists_ok_move [OF sched_invD(2) [OF i], where t = t]) (use t(2) in auto)
  thus "lists_ok (wait_timeout t now w n s)"
    using \<open>t \<in> alive s\<close> lists_ok_insert [of "set_phase t (WTimed w n) s" t "wait_timeout t now w n s"]
    by (cases "n = 0") (auto simp: wait_timeout_def)
qed (auto simp: wait_timeout_def registered_def)

lemma inv_enlist:
  assumes i: "sched_inv s" and t: "runs s c t" "th_phase s t = WSet w n"
  shows "sched_inv (snd (wait_list t met w n s))"
proof (rule sched_inv_own [OF i, where t = t])
  note l = not_listed [OF sched_invD(2) [OF i], of t]
  show a: "t \<in> alive s" using t(1) by (simp add: runs_def)
  have k: "thread_ok s t" using sched_invD(1) [OF i a] .
  show p: "places (snd (wait_list t met w n s)) = places s"
    by (auto simp: wait_list_def places_def fun_eq_iff split: option.splits)
  show "thread_ok (snd (wait_list t met w n s)) t" using k t(2) p runs_places [OF t(1) i]
    by (cases w) (auto simp: own_defs wait_list_def registered_def)
  have "lists_ok (set_phase t (WListed w n) s)" "lists_ok (set_phase t WNone s)"
    by (rule lists_ok_phase [OF sched_invD(2) [OF i], of t]; use l t(2) in auto)+
  moreover have "lists_ok (set_phase t WNone (set_preempt f (set_state t v s)))" for f v
    using calculation(2) by (simp add: lists_ok_def)
  ultimately show "lists_ok (snd (wait_list t met w n s))"
    using a l t(2) lists_ok_push [of "set_phase t (WListed w n) s" t _ "snd (wait_list t met w n s)"]
    by (cases w) (auto simp: wait_list_def)
  show "registered (snd (wait_list t met w n s)) u" if "registered s u" for u
    by (rule registered_mono [OF that]) (auto simp: wait_list_def split: option.splits)
qed (auto simp: wait_list_def enable_preemption_def split: option.splits)

lemma inv_arm:
  assumes i: "sched_inv s" and t: "runs s c t" "th_phase s t = WTimed w n"
  shows "sched_inv (wait_arm t w n s)"
proof (rule sched_inv_own [OF i, where t = t])
  show a: "t \<in> alive s" using t(1) by (simp add: runs_def)
  thus "thread_ok (wait_arm t w n s) t" using sched_invD(1) [OF i a] t(2) by (auto simp: own_defs wait_arm_def)
  show "lists_ok (wait_arm t w n s)"
    by (rule lists_ok_move [OF sched_invD(2) [OF i], where t = t]) (use t(2) in \<open>auto simp: wait_arm_def\<close>)
qed (auto simp: wait_arm_def enable_preemption_def)

lemma inv_cleanup:
  assumes i: "sched_inv s" and t: "runs s c t" "th_phase s t = WSlept w n"
  shows "sched_inv (snd (wait_cleanup t w n s))"
proof (rule sched_inv_own [OF i, where t = t])
  show a: "t \<in> alive s" using t(1) by (simp add: runs_def)
  show p: "places (snd (wait_cleanup t w n s)) = places s"
    by (auto simp: wait_cleanup_def places_def fun_eq_iff Let_def split: option.splits)
  show "thread_ok (snd (wait_cleanup t w n s)) t" using sched_invD(1) [OF i a] t(2) p runs_places [OF t(1) i]
    by (cases w) (auto simp: own_defs wait_cleanup_def Let_def)
  have "t \<notin> set (waiters s v)" if "w \<noteq> Some v" for v
    using sched_invD(2) [OF i] t(2) that unfolding lists_ok_def by fastforce
  moreover have "t \<notin> timeouts s" if "n = 0" using sched_invD(2) [OF i] t(2) that unfolding lists_ok_def by fastforce
  ultimately show "lists_ok (snd (wait_cleanup t w n s))" using sched_invD(2) [OF i]
    by (cases w) (auto simp: wait_cleanup_def lists_ok_def Let_def set_remove1_eq)
  show "registered (snd (wait_cleanup t w n s)) u" if "u \<noteq> t" "registered s u" for u
    by (rule registered_mono [OF that(2)]) (use that(1) in \<open>auto simp: wait_cleanup_def Let_def split: option.splits\<close>)
qed (auto simp: wait_cleanup_def Let_def split: option.splits)

subsection \<open>Wake-ups\<close>

text \<open>The invariant for all threads but \<open>p\<close>.\<close>

definition inv_but :: "tid \<Rightarrow> sched \<Rightarrow> bool" where
  "inv_but p s \<longleftrightarrow> (\<forall>t \<in> alive s. t \<noteq> p \<longrightarrow> thread_ok s t) \<and> lists_ok s \<and> queues_ok s \<and> idle_ok s"

lemma inv_but_inv: "sched_inv s \<longleftrightarrow> inv_but p s \<and> (p \<in> alive s \<longrightarrow> thread_ok s p)"
  unfolding sched_inv_def inv_but_def by auto

lemma phase_ok_runable: "phase_ok s t \<Longrightarrow> phase_ok (set_state t THREAD_RUNABLE s) t"
  unfolding phase_ok_def blocks_def by (auto split: wait_phase.splits)

lemma phase_ok_lists:
  assumes "phase_ok (set_state t THREAD_RUNABLE s) t" "th_phase s' t = th_phase s t" "th_preempt s' t = th_preempt s t"
    "places s' t = places s t"
  shows "phase_ok (set_state t THREAD_RUNABLE s') t"
  using assms unfolding phase_ok_def blocks_def current_places by (auto split: wait_phase.splits)

lemma sel_enqueue [simp]:
  "alive (enqueue_thread c t s) = alive s" "th_state (enqueue_thread c t s) = th_state s" "th_phase (enqueue_thread c t s) = th_phase s"
  "th_preempt (enqueue_thread c t s) = th_preempt s" "idle_thread (enqueue_thread c t s) = idle_thread s"
  "waiters (enqueue_thread c t s) = waiters s" "timeouts (enqueue_thread c t s) = timeouts s" "pending (enqueue_thread c t s) = pending s"
  "reaper_list (enqueue_thread c t s) = reaper_list s" "run_queue (enqueue_thread c t s) = (run_queue s)(c := run_queue s c @ [t])"
  "registered (enqueue_thread c t s) = registered s"
  by (simp_all add: enqueue_thread_def registered_def fun_eq_iff)

text \<open>A thread that is nowhere can be put into a queue.\<close>

lemma inv_but_enqueue:
  assumes "inv_but p s" "p \<in> alive s" "places s p = {}"
  shows "inv_but p (enqueue_thread c p s)"
proof -
  have q: "p \<notin> set (run_queue s c)" using places_mem(2) [of c s p] assms(3) by blast
  have "thread_ok (enqueue_thread c p s) t" if "t \<in> alive s" "t \<noteq> p" for t
    using thread_ok_frame [of s t "enqueue_thread c p s"] assms(1) that unfolding inv_but_def by (simp add: places_enqueue)
  moreover have "queues_ok (enqueue_thread c p s)" using assms q unfolding inv_but_def queues_ok_def by (auto simp: places_enqueue)
  moreover have "idle_ok (enqueue_thread c p s)" using assms unfolding inv_but_def idle_ok_def by (auto simp: places_enqueue)
  moreover have "lists_ok (enqueue_thread c p s)" using assms unfolding inv_but_def lists_ok_def by simp
  ultimately show ?thesis unfolding inv_but_def by simp
qed

lemma inv_but_state:
  assumes "inv_but p s" "p \<in> alive s"
  shows "inv_but p (set_state p v s)"
proof -
  have "thread_ok (set_state p v s) t" if "t \<in> alive s" "t \<noteq> p" for t
    using thread_ok_frame [of s t "set_state p v s"] assms(1) that unfolding inv_but_def by simp
  moreover have "idle_ok (set_state p v s)" using assms unfolding inv_but_def idle_ok_def by auto
  ultimately show ?thesis using assms unfolding inv_but_def queues_ok_def lists_ok_def by simp
qed

lemma wake_inv:
  assumes i: "inv_but u s" and u: "u \<in> alive s" "located s u" "phase_ok (set_state u THREAD_RUNABLE s) u"
    "exit_ok s u"
  shows "\<exists>s'. wake_thread c u s = Inr s' \<and> sched_inv s'"
proof (cases "th_state s u = THREAD_BLOCKED")
  case True
  let ?s = "enqueue_thread c u (set_state u THREAD_RUNABLE s)"
  have p: "places s u = {}" using u(2) True by (simp add: located_def)
  have "inv_but u ?s" using inv_but_enqueue [OF inv_but_state [OF i u(1)]] u(1) p by simp
  moreover have "phase_ok ?s u" using u(3) p unfolding phase_ok_def blocks_def current_places
    by (auto simp: places_enqueue split: wait_phase.splits)
  hence "thread_ok ?s u" using p by (auto simp: thread_ok_def located_def exit_ok_def places_enqueue)
  ultimately show ?thesis using True u(1) by (auto simp: wake_thread_def inv_but_inv [of _ u])
next
  case False
  have "thread_ok (set_state u THREAD_RUNABLE s) u" using u(2-4) False by (auto simp: thread_ok_def located_def exit_ok_def)
  thus ?thesis using False u(1) inv_but_state [OF i u(1)] by (auto simp: wake_thread_def inv_but_inv [of _ u])
qed

text \<open>Taking a thread off a list or out of the heap, or its wake-up off the pending ones.\<close>

lemma inv_but_lists:
  assumes "inv_but p s" "lists_ok s'"
    "alive s' = alive s" "places s' = places s" "run_queue s' = run_queue s" "reaper_list s' = reaper_list s"
    "idle_thread s' = idle_thread s" "th_state s' = th_state s" "th_phase s' = th_phase s" "th_preempt s' = th_preempt s"
    "\<And>u. u \<noteq> p \<Longrightarrow> registered s u \<Longrightarrow> registered s' u"
  shows "inv_but p s'"
proof -
  have "thread_ok s' t" if "t \<in> alive s" "t \<noteq> p" for t
    using thread_ok_frame [of s t s'] assms that unfolding inv_but_def by simp
  thus ?thesis using assms unfolding inv_but_def queues_ok_def idle_ok_def by simp
qed

lemma inv_lists:
  assumes "sched_inv s" "lists_ok s'"
    "alive s' = alive s" "places s' = places s" "run_queue s' = run_queue s" "reaper_list s' = reaper_list s"
    "idle_thread s' = idle_thread s" "th_state s' = th_state s" "th_phase s' = th_phase s" "th_preempt s' = th_preempt s"
    "\<And>u. registered s u \<Longrightarrow> registered s' u"
  shows "sched_inv s'"
proof -
  have "thread_ok s' t" if "t \<in> alive s" for t
    using thread_ok_frame [of s t s'] assms that unfolding sched_inv_def by simp
  thus ?thesis using assms unfolding sched_inv_def queues_ok_def idle_ok_def by simp
qed

lemma lists_ok_sub:
  assumes "lists_ok s" "alive s' = alive s" "th_phase s' = th_phase s" "timeouts s' \<subseteq> timeouts s"
    "\<And>w. set (waiters s' w) \<subseteq> set (waiters s w)" "\<And>w. distinct (waiters s' w)"
  shows "lists_ok s'"
  using assms unfolding lists_ok_def by (metis (no_types, lifting) subset_iff)

lemma inv_pop:
  assumes i: "sched_inv s" and s: "wakeup_pop w s = Some (t, s')"
  shows "sched_inv s'"
proof -
  obtain q where q: "waiters s w = t # q" "s' = s\<lparr>waiters := (waiters s)(w := q), pending := t # pending s\<rparr>"
    using s by (auto simp: wakeup_pop_def split: list.splits)
  have d: "distinct (waiters s v)" for v using sched_invD(2) [OF i] by (simp add: lists_ok_def)
  have l: "lists_ok s'" by (rule lists_ok_sub [OF sched_invD(2) [OF i]]) (use q d [of w] d in auto)
  have r: "registered s' u" if "registered s u" for u using that unfolding registered_def q(2)
    by (simp, metis q(1) set_ConsD)
  show ?thesis by (rule inv_lists [OF i l _ _ _ _ _ _ _ _ r]) (use q in \<open>auto simp: places_def fun_eq_iff\<close>)
qed

lemma inv_due:
  assumes i: "sched_inv s"
  shows "sched_inv (timeout_pop t s)"
proof -
  have l: "lists_ok (timeout_pop t s)"
    by (rule lists_ok_sub [OF sched_invD(2) [OF i]]) (use sched_invD(2) [OF i] in \<open>auto simp: timeout_pop_def lists_ok_def\<close>)
  have r: "registered (timeout_pop t s) u" if "registered s u" for u
    using that unfolding registered_def timeout_pop_def by auto
  show ?thesis by (rule inv_lists [OF i l _ _ _ _ _ _ _ _ r]) (auto simp: timeout_pop_def places_def fun_eq_iff)
qed

lemma inv_finish:
  assumes i: "sched_inv s" and t: "t \<in> alive s"
  shows "\<exists>s'. wakeup_finish c t s = Inr s' \<and> sched_inv s'"
proof -
  let ?s = "s\<lparr>pending := remove1 t (pending s)\<rparr>"
  have k: "thread_ok s t" using sched_invD(1) [OF i t] .
  have "inv_but t ?s"
    by (rule inv_but_lists [of t s])
      (use i sched_invD(2) [OF i] in \<open>auto simp: inv_but_inv [of _ t] places_def fun_eq_iff registered_def lists_ok_def\<close>)
  moreover have "located ?s t" "exit_ok ?s t" using k by (simp_all add: thread_ok_def located_def exit_ok_def)
  moreover have "phase_ok (set_state t THREAD_RUNABLE ?s) t"
    by (rule phase_ok_lists [OF phase_ok_runable, of s]) (use k in \<open>auto simp: thread_ok_def\<close>)
  ultimately show ?thesis using wake_inv [of t ?s c] t unfolding wakeup_finish_def by simp
qed

subsection \<open>The change of threads\<close>

text \<open>What a thread that is not preempted satisfies when it leaves its processor.\<close>

definition leaves_ok :: "sched \<Rightarrow> tid \<Rightarrow> bool" where
  "leaves_ok s t \<longleftrightarrow> (case th_phase s t of
     WNone \<Rightarrow> \<not> blocks s t
   | WExit \<Rightarrow> \<not> blocks s t
   | WArmed w n \<Rightarrow> th_preempt s t = 0 \<and> (blocks s t \<longrightarrow> registered s t)
   | WSlept w n \<Rightarrow> th_preempt s t = 0 \<and> (blocks s t \<longrightarrow> registered s t)
   | _ \<Rightarrow> False)"

lemma leaves_phase_ok:
  assumes "leaves_ok s t" "th_phase s' t = th_phase s t" "th_preempt s' t = th_preempt s t"
    "th_state s' t \<noteq> THREAD_BLOCKING" "th_state s' t = THREAD_BLOCKED \<Longrightarrow> blocks s t \<and> registered s' t"
  shows "phase_ok s' t"
  using assms unfolding leaves_ok_def phase_ok_def by (auto simp: blocks_def split: wait_phase.splits)

lemma leaves_registered: "leaves_ok s t \<Longrightarrow> th_state s t = THREAD_BLOCKING \<Longrightarrow> registered s t"
  unfolding leaves_ok_def blocks_def by (auto split: wait_phase.splits)

lemma inv_but_reaped:
  assumes "inv_but p s" "p \<in> alive s" "places s p = {}"
  shows "inv_but p (s\<lparr>reaper_list := reaper_list s @ [p]\<rparr>)"
proof -
  let ?s = "s\<lparr>reaper_list := reaper_list s @ [p]\<rparr>"
  have q: "p \<notin> set (reaper_list s)" using places_mem(3) [of s p] assms(3) by blast
  have o: "places ?s t = places s t" if "t \<noteq> p" for t using that by (simp add: places_def)
  have "thread_ok ?s t" if "t \<in> alive s" "t \<noteq> p" for t
    using thread_ok_frame [of s t ?s] assms(1) that o unfolding inv_but_def by (simp add: registered_def)
  moreover have "places ?s t = places s t" if "t \<notin> alive s" for t using o that assms(2) by metis
  hence "queues_ok ?s" using assms q unfolding inv_but_def queues_ok_def by simp
  moreover have "idle_thread s c \<noteq> p" for c using assms unfolding inv_but_def idle_ok_def by auto
  hence "idle_ok ?s" using assms(1) o unfolding inv_but_def idle_ok_def by simp
  ultimately show ?thesis using assms unfolding inv_but_def lists_ok_def by simp
qed

lemma wake_first:
  assumes i: "sched_inv s" and w: "waiters s w = u # q"
  shows "\<exists>s'. wake_thread c u (s\<lparr>waiters := (waiters s)(w := q)\<rparr>) = Inr s' \<and> sched_inv s'"
proof -
  let ?s = "s\<lparr>waiters := (waiters s)(w := q)\<rparr>"
  have a: "u \<in> alive s" using sched_invD(2) [OF i] w unfolding lists_ok_def by (metis list.set_intros(1))
  have k: "thread_ok s u" using sched_invD(1) [OF i a] .
  have d: "distinct (waiters s v)" for v using sched_invD(2) [OF i] by (simp add: lists_ok_def)
  have l: "lists_ok ?s" by (rule lists_ok_sub [OF sched_invD(2) [OF i]]) (use w d [of w] d in auto)
  have "registered ?s t" if "t \<noteq> u" "registered s t" for t
    by (rule registered_mono [OF that(2)]) (use that(1) w in auto)
  hence "inv_but u ?s"
    by (intro inv_but_lists [of u s, OF _ l]) (use i in \<open>auto simp: inv_but_inv [of _ u] places_def fun_eq_iff\<close>)
  moreover have "located ?s u" "exit_ok ?s u" using k by (simp_all add: thread_ok_def located_def exit_ok_def)
  moreover have "phase_ok (set_state u THREAD_RUNABLE ?s) u"
    by (rule phase_ok_lists [OF phase_ok_runable, of s]) (use k in \<open>auto simp: thread_ok_def\<close>)
  ultimately show ?thesis using wake_inv [of u ?s c] a by simp
qed

lemma finalize_prev_inv:
  assumes i: "inv_but p s" and p: "p \<in> alive s" "places s p = {}" "leaves_ok s p"
    "th_state s p \<noteq> THREAD_BLOCKED" "th_state s p \<noteq> THREAD_IDLE_THREAD" "exit_ok s p"
  shows "\<exists>s'. finalize_prev c p s = Inr s' \<and> sched_inv s'"
proof -
  have b: "sched_inv s'" if "inv_but p s'" "thread_ok s' p" for s' using that inv_but_inv by blast
  have e: "sched_inv (enqueue_thread c p (set_state p THREAD_RUNABLE s))"
  proof (rule b)
    show "inv_but p (enqueue_thread c p (set_state p THREAD_RUNABLE s))"
      using inv_but_enqueue [OF inv_but_state [OF i p(1)]] p by simp
    have "phase_ok (enqueue_thread c p (set_state p THREAD_RUNABLE s)) p" by (rule leaves_phase_ok [OF p(3)]) simp_all
    thus "thread_ok (enqueue_thread c p (set_state p THREAD_RUNABLE s)) p"
      using p(2) by (simp add: thread_ok_def located_def exit_ok_def places_enqueue)
  qed
  consider "th_state s p = THREAD_RUNNING" | "th_state s p = THREAD_BLOCKING" | "th_state s p = THREAD_RUNABLE"
    | "th_state s p = THREAD_REAPING" using p(4,5) by (cases "th_state s p") auto
  thus ?thesis
  proof cases
    case 2
    have "phase_ok (set_state p THREAD_BLOCKED s) p"
      by (rule leaves_phase_ok [OF p(3)]) (use 2 leaves_registered [OF p(3)] in \<open>auto simp: blocks_def\<close>)
    hence "sched_inv (set_state p THREAD_BLOCKED s)"
      using b inv_but_state [OF i p(1)] p(2) by (simp add: thread_ok_def located_def exit_ok_def)
    thus ?thesis using 2 by (simp add: finalize_prev_def)
  next
    case 3
    hence "set_state p THREAD_RUNABLE s = s" by (simp add: set_state_def fun_upd_idem)
    thus ?thesis using 3 e by (simp add: finalize_prev_def)
  next
    case 4
    let ?s = "s\<lparr>reaper_list := reaper_list s @ [p]\<rparr>"
    have "phase_ok ?s p" by (rule leaves_phase_ok [OF p(3)]) (use 4 in simp_all)
    moreover have "places ?s p = {Reaped}" using p(2) by (auto simp: places_def)
    ultimately have "sched_inv ?s" using b inv_but_reaped [OF i p(1,2)] 4 p(6)
      by (simp add: thread_ok_def located_def exit_ok_def)
    thus ?thesis using 4 wake_first [of ?s "reaper_waiter s" _ _ c]
      by (auto simp: finalize_prev_def Let_def split: list.splits)
  qed (use e in \<open>simp add: finalize_prev_def\<close>)
qed

lemma sel_finalize_cpu [simp]:
  "alive (finalize_cpu c t u s) = alive s" "th_state (finalize_cpu c t u s) = th_state s" "th_phase (finalize_cpu c t u s) = th_phase s"
  "th_preempt (finalize_cpu c t u s) = th_preempt s" "idle_thread (finalize_cpu c t u s) = idle_thread s"
  "waiters (finalize_cpu c t u s) = waiters s" "timeouts (finalize_cpu c t u s) = timeouts s" "pending (finalize_cpu c t u s) = pending s"
  "reaper_list (finalize_cpu c t u s) = reaper_list s" "run_queue (finalize_cpu c t u s) = run_queue s"
  by (simp_all add: finalize_cpu_def Let_def split: option.splits)

lemma inv_finalize_cpu: "sched_inv s \<Longrightarrow> sched_inv (finalize_cpu c t u s)"
  by (rule inv_lists [of s]) (auto simp: lists_ok_def registered_def sched_inv_def)

text \<open>Bringing in thread \<open>n\<close> takes the previous one off the processor.\<close>

lemma places_switch:
  assumes "current s c = p" "n \<noteq> p"
  shows "places (s\<lparr>current := (current s)(c := n)\<rparr>) t =
    (if t = n then insert (OnCpu c) (places s n) else places s t - {OnCpu c})"
  using assms by (auto simp: places_def)

lemma places_dequeue:
  assumes "run_queue s c = n # q" "distinct (run_queue s c)"
  shows "places (s\<lparr>run_queue := (run_queue s)(c := q)\<rparr>) t = (if t = n then places s n - {InQueue c} else places s t)"
  using assms by (auto simp: places_def split: if_splits)

lemma on_cpu_only: "sched_inv s \<Longrightarrow> current s c = p \<Longrightarrow> p \<in> alive s \<or> p = idle_thread s c"
  using places_mem(1) [of c s p] sched_invD(3,4) [of s] unfolding queues_ok_def idle_ok_def by fastforce

lemma queued_leaves:
  assumes "thread_ok s n" "InQueue c \<in> places s n"
  shows "places s n = {InQueue c}" "leaves_ok s n" "th_state s n \<noteq> THREAD_BLOCKED"
proof -
  show p: "places s n = {InQueue c}" "th_state s n \<noteq> THREAD_BLOCKED"
    using assms unfolding thread_ok_def located_def by (auto split: if_splits)
  thus "leaves_ok s n" using assms(1) unfolding thread_ok_def phase_ok_def leaves_ok_def current_places
    by (auto split: wait_phase.splits)
qed

text \<open>The next thread comes from the queue.\<close>

lemma switch_in_queued:
  assumes i: "inv_but p s" and c: "current s c = p" and q: "run_queue s c = n # q" and n: "n \<noteq> p" "n \<in> alive s"
    and p: "p \<in> alive s \<Longrightarrow> places s p = {OnCpu c}"
  defines "s2 \<equiv> set_state n THREAD_RUNNING (s\<lparr>run_queue := (run_queue s)(c := q), current := (current s)(c := n)\<rparr>)"
  shows "inv_but p s2" "p \<in> alive s \<Longrightarrow> places s2 p = {}" "registered s2 = registered s"
proof -
  have d: "distinct (run_queue s c)" using i unfolding inv_but_def queues_ok_def by blast
  have k: "thread_ok s n" using i n unfolding inv_but_def by blast
  have qn: "InQueue c \<in> places s n" using q by (simp add: places_mem)
  note l = queued_leaves [OF k qn]
  have pl: "places s2 t = (if t = n then {OnCpu c} else places s t - {OnCpu c})" for t
    using places_switch [of "s\<lparr>run_queue := (run_queue s)(c := q)\<rparr>" c p n t] places_dequeue [OF q d, of t] c n(1) l(1)
    by (cases "t = n") (simp_all add: s2_def)
  have same: "places s2 t = places s t" if "t \<noteq> n" "t \<noteq> p" for t
    using pl [of t] that c places_mem(1) [of c s t] by auto
  show r: "registered s2 = registered s" by (simp add: s2_def registered_def fun_eq_iff)
  show "p \<in> alive s \<Longrightarrow> places s2 p = {}" using pl [of p] p n(1) by simp
  have "phase_ok s2 n" by (rule leaves_phase_ok [OF l(2)]) (simp_all add: s2_def)
  hence "thread_ok s2 n" using pl [of n] by (simp add: thread_ok_def located_def exit_ok_def s2_def)
  hence "thread_ok s2 t" if "t \<in> alive s" "t \<noteq> p" for t
    using thread_ok_frame [of s t s2] i that same r unfolding inv_but_def by (cases "t = n") (simp_all add: s2_def)
  moreover have "queues_ok s2"
  proof -
    have "places s2 t = {}" if "t \<notin> alive s" "t \<notin> range (idle_thread s)" for t
      using pl [of t] that n(2) i unfolding inv_but_def queues_ok_def by auto
    moreover have "distinct (run_queue s2 e)" for e
      using i q d unfolding inv_but_def queues_ok_def s2_def by simp
    ultimately show ?thesis using i unfolding inv_but_def queues_ok_def by (simp add: s2_def)
  qed
  moreover have "idle_ok s2" using i n(2) pl unfolding inv_but_def idle_ok_def s2_def by auto
  moreover have "lists_ok s2" using i unfolding inv_but_def lists_ok_def s2_def by simp
  ultimately show "inv_but p s2" unfolding inv_but_def by (simp add: s2_def)
qed

text \<open>The next thread is the idle thread of the processor.\<close>

lemma switch_in_idle:
  assumes i: "inv_but p s" and c: "current s c = p" and p: "p \<in> alive s" "places s p = {OnCpu c}"
  defines "s2 \<equiv> s\<lparr>current := (current s)(c := idle_thread s c)\<rparr>"
  shows "inv_but p s2" "places s2 p = {}" "registered s2 = registered s"
proof -
  have n: "idle_thread s d \<noteq> p" "idle_thread s c \<notin> alive s" for d using i p(1) unfolding inv_but_def idle_ok_def by auto
  have pl: "places s2 t = (if t = idle_thread s c then insert (OnCpu c) (places s t) else places s t - {OnCpu c})" for t
    using places_switch [OF c n(1) [of c]] by (simp add: s2_def)
  have same: "places s2 t = places s t" if "t \<noteq> idle_thread s c" "t \<noteq> p" for t
    using pl [of t] that c places_mem(1) [of c s t] by auto
  show r: "registered s2 = registered s" by (simp add: s2_def registered_def fun_eq_iff)
  show "places s2 p = {}" using pl [of p] p n(1) [of c] by auto
  have "thread_ok s2 t" if "t \<in> alive s" "t \<noteq> p" for t
    using thread_ok_frame [of s t s2] i that same [of t] r n(2) unfolding inv_but_def by (auto simp: s2_def)
  moreover have "places s2 t = {}" if "t \<notin> alive s" "t \<notin> range (idle_thread s)" for t
    using pl [of t] that i unfolding inv_but_def queues_ok_def by auto
  hence "queues_ok s2" using i unfolding inv_but_def queues_ok_def by (simp add: s2_def)
  moreover have "places s2 (idle_thread s d) \<subseteq> {OnCpu d}" for d
  proof -
    have "inj (idle_thread s)" "places s (idle_thread s d) \<subseteq> {OnCpu d}" using i unfolding inv_but_def idle_ok_def by blast+
    thus ?thesis using pl [of "idle_thread s d"] by (auto simp: inj_eq split: if_splits)
  qed
  hence "idle_ok s2" using i unfolding inv_but_def idle_ok_def by (simp add: s2_def)
  moreover have "lists_ok s2" using i unfolding inv_but_def lists_ok_def s2_def by simp
  ultimately show "inv_but p s2" unfolding inv_but_def by (simp add: s2_def)
qed

text \<open>A change of threads keeps the invariant and does not panic.\<close>

lemma schedule_inv:
  assumes i: "inv_but p s" and c: "current s c = p" "th_preempt s p = 0"
    and p: "p \<in> alive s \<Longrightarrow> places s p = {OnCpu c} \<and> leaves_ok s p \<and> exit_ok s p \<and>
        th_state s p \<notin> {THREAD_BLOCKED, THREAD_IDLE_THREAD}"
      "p \<in> alive s \<or> p = idle_thread s c"
  shows "\<exists>s'. schedule c s = Inr s' \<and> sched_inv s'"
proof -
  note io = i [unfolded inv_but_def idle_ok_def]
  have fin: "\<exists>s'. finalize_prev c p s2 = Inr s' \<and> sched_inv s'"
    if "inv_but p s2" "p \<in> alive s \<Longrightarrow> places s2 p = {}" "registered s2 = registered s" "alive s2 = alive s" "th_phase s2 = th_phase s"
      "th_preempt s2 = th_preempt s" "th_state s2 p = th_state s p" for s2
  proof (cases "p \<in> alive s")
    case True
    moreover have "leaves_ok s2 p" "exit_ok s2 p" using p(1) [OF True] that True
      unfolding leaves_ok_def blocks_def exit_ok_def by (simp_all split: wait_phase.splits)
    ultimately show ?thesis using finalize_prev_inv [OF that(1)] p(1) that by auto
  next
    case False
    hence "th_state s p = THREAD_IDLE_THREAD" using p(2) io by auto
    thus ?thesis using that False by (simp add: finalize_prev_def inv_but_inv [of _ p])
  qed
  have cont: "\<exists>s'. ebind (finalize_prev c p s2) (\<lambda>s3. Inr (finalize_cpu c p n s3)) = Inr s' \<and> sched_inv s'"
    if "\<exists>s'. finalize_prev c p s2 = Inr s' \<and> sched_inv s'" for s2 n
    using that inv_finalize_cpu by auto
  show ?thesis
  proof (cases "run_queue s c")
    case Nil
    show ?thesis
    proof (cases "p = idle_thread s c")
      case True
      hence "p \<notin> alive s" using io by auto
      thus ?thesis using c Nil True i by (auto simp: schedule_def inv_but_inv [of _ p])
    next
      case False
      hence a: "p \<in> alive s" using p(2) by blast
      note sw = switch_in_idle [OF i c(1) a] p(1) [OF a]
      have "th_state s (idle_thread s c) = THREAD_IDLE_THREAD" using io by blast
      thus ?thesis using cont [OF fin [OF sw(1-3)], of "idle_thread s c"] sw(4) c Nil False
        by (simp add: schedule_def schedule_finalize_def Let_def)
    qed
  next
    case (Cons n q)
    have qn: "InQueue c \<in> places s n" using Cons by (simp add: places_mem)
    have n: "n \<noteq> p" using qn p io by (cases "p \<in> alive s") auto
    have na: "n \<in> alive s" using qn i unfolding inv_but_def queues_ok_def idle_ok_def by fastforce
    have "th_state s n \<noteq> THREAD_IDLE_THREAD" using i n na unfolding inv_but_def thread_ok_def by blast
    thus ?thesis using cont [OF fin [OF switch_in_queued [OF i c(1) Cons n na]], of n] p n c Cons
      by (auto simp: schedule_def schedule_finalize_def Let_def)
  qed
qed

lemma inv_tick:
  assumes i: "sched_inv s"
  shows "\<exists>s'. schedule c s = Inr s' \<and> sched_inv s'"
proof (cases "th_preempt s (current s c) > 0")
  case False
  let ?p = "current s c"
  have p0: "th_preempt s ?p = 0" using False by (simp add: word_gt_0)
  have "places s ?p = {OnCpu c} \<and> leaves_ok s ?p \<and> exit_ok s ?p \<and> th_state s ?p \<notin> {THREAD_BLOCKED, THREAD_IDLE_THREAD}" if "?p \<in> alive s"
  proof -
    have k: "thread_ok s ?p" using sched_invD(1) [OF i that] .
    hence "leaves_ok s ?p" using p0 unfolding thread_ok_def phase_ok_def leaves_ok_def by (auto split: wait_phase.splits)
    thus ?thesis using k runs_places [of s c ?p, OF _ i] that by (auto simp: runs_def thread_ok_def)
  qed
  thus ?thesis using schedule_inv [of ?p s c] i p0 on_cpu_only [OF i] by (auto simp: inv_but_inv [of _ ?p])
qed (use i in \<open>simp add: schedule_def\<close>)

lemma inv_sleep:
  assumes i: "sched_inv s" and t: "runs s c t" "th_phase s t = WArmed w n"
  shows "\<exists>s'. wait_sleep c w n s = Inr s' \<and> sched_inv s'"
proof -
  let ?s = "set_phase t (WSlept w n) s"
  have a: "t \<in> alive s" "current s c = t" using t(1) by (auto simp: runs_def)
  have k: "thread_ok s t" using sched_invD(1) [OF i a(1)] .
  have l: "lists_ok ?s" by (rule lists_ok_move [OF sched_invD(2) [OF i], where t = t]) (use t(2) in auto)
  have "thread_ok ?s u" if "u \<in> alive s" "u \<noteq> t" for u
    using thread_ok_frame [of s u ?s] sched_invD(1) [OF i that(1)] that(2) by simp
  hence b: "inv_but t ?s" using l sched_invD(3,4) [OF i] unfolding inv_but_def queues_ok_def idle_ok_def by simp
  have "leaves_ok ?s t" "th_preempt ?s t = 0"
    using k t(2) unfolding thread_ok_def phase_ok_def leaves_ok_def blocks_def by auto
  moreover have "places ?s t = {OnCpu c} \<and> exit_ok ?s t \<and> th_state ?s t \<notin> {THREAD_BLOCKED, THREAD_IDLE_THREAD}"
    using runs_places [OF t(1) i] k t(2) by (auto simp: thread_ok_def exit_ok_def)
  ultimately show ?thesis unfolding wait_sleep_def using schedule_inv [OF b, of c] a by simp
qed

lemma inv_create:
  assumes i: "sched_inv s" and t: "t \<notin> alive s" "t \<notin> range (idle_thread s)"
  shows "sched_inv (create_thread c t as s)"
proof -
  let ?s = "s\<lparr>alive := insert t (alive s), th_state := (th_state s)(t := THREAD_RUNABLE), th_preempt := (th_preempt s)(t := 0),
       th_addrspace := (th_addrspace s)(t := as), th_phase := (th_phase s)(t := WNone)\<rparr>"
  have pl: "places ?s = places s" by (simp add: places_def fun_eq_iff)
  have p: "places s t = {}" using sched_invD(3) [OF i] t unfolding queues_ok_def by blast
  have "thread_ok ?s u" if "u \<in> alive s" for u
  proof -
    have "u \<noteq> t" using that t(1) by blast
    thus ?thesis using thread_ok_frame [of s u ?s] sched_invD(1) [OF i that] pl by (simp add: registered_def)
  qed
  moreover have "lists_ok ?s" using sched_invD(2) [OF i] t(1) unfolding lists_ok_def by auto
  moreover have "queues_ok ?s" using sched_invD(3) [OF i] pl unfolding queues_ok_def by simp
  moreover have "idle_ok ?s" using sched_invD(4) [OF i] pl t(2) unfolding idle_ok_def by auto
  ultimately have "inv_but t ?s" unfolding inv_but_def by simp
  hence "inv_but t (create_thread c t as s)" unfolding create_thread_def using inv_but_enqueue [of t ?s c] p pl by simp
  moreover have "thread_ok (create_thread c t as s) t" unfolding create_thread_def
    using p pl by (simp add: thread_ok_def located_def places_enqueue phase_ok_def exit_ok_def blocks_def)
  ultimately show ?thesis using inv_but_inv by blast
qed

lemma inv_reap:
  assumes i: "sched_inv s" and s: "reaper_free s = Some s'"
  shows "sched_inv s'"
proof -
  obtain t q where q: "reaper_list s = t # q" "s' = s\<lparr>reaper_list := q, alive := alive s - {t}\<rparr>"
    using s by (auto simp: reaper_free_def split: list.splits)
  have d: "t \<notin> set q" "distinct q" using sched_invD(3) [OF i] q(1) unfolding queues_ok_def by auto
  have rt: "Reaped \<in> places s t" using q(1) by (simp add: places_mem)
  have a: "t \<in> alive s" using rt sched_invD(3,4) [OF i] unfolding queues_ok_def idle_ok_def by fastforce
  have k: "thread_ok s t" using sched_invD(1) [OF i a] .
  hence p: "places s t = {Reaped}" "th_state s t \<noteq> THREAD_BLOCKED" using rt unfolding thread_ok_def located_def by (auto split: if_splits)
  have pl: "places s' u = (if u = t then {} else places s u)" for u using p(1) q d by (auto simp: places_def split: if_splits)
  have "thread_ok s' u" if "u \<in> alive s" "u \<noteq> t" for u
    using thread_ok_frame [of s u s'] sched_invD(1) [OF i that(1)] that(2) pl q(2) by (simp add: registered_def)
  moreover have "th_phase s t = WExit" using k rt unfolding thread_ok_def exit_ok_def by blast
  hence "t \<notin> set (waiters s w)" "t \<notin> timeouts s" for w using sched_invD(2) [OF i] unfolding lists_ok_def by fastforce+
  hence "lists_ok s'" using sched_invD(2) [OF i] q(2) unfolding lists_ok_def by auto
  moreover have "queues_ok s'" using sched_invD(3) [OF i] pl d q(2) unfolding queues_ok_def by auto
  moreover have "idle_ok s'" using sched_invD(4) [OF i] pl q(2) unfolding idle_ok_def by auto
  ultimately show ?thesis using q(2) unfolding sched_inv_def by simp
qed

lemma sched_inv_step: "sched_step s s' \<Longrightarrow> sched_inv s \<Longrightarrow> sched_inv s'"
proof (induction rule: sched_step.cases)
  case (tick c s s')
  thus ?case using inv_tick [of s c] by auto
next
  case (sleep s c t w n s')
  thus ?case using inv_sleep [of s c t w n] by auto
next
  case (finish t s c s')
  hence "t \<in> alive s" by (auto simp: wakeup_finish_def wake_thread_def split: if_splits)
  thus ?case using inv_finish [of s t c] finish by auto
qed (blast intro: inv_locks inv_announce inv_enlist inv_heap inv_arm inv_cleanup inv_pop inv_due inv_create inv_exit inv_reap)+

text \<open>\<^verbatim>\<open>sched_wakeup_n_threads\<close> and \<^verbatim>\<open>sched_handle_timeouts\<close> are made of these steps, and the former takes the threads off
  the list in the order in which they came.\<close>

lemma wakeup_finish_waiters: "wakeup_finish c t s = Inr s' \<Longrightarrow> waiters s' = waiters s"
  by (auto simp: wakeup_finish_def wake_thread_def split: if_splits)

lemma wakeup_n_steps:
  "sched_inv s \<Longrightarrow> \<exists>s'. sched_wakeup_n_threads c w n s = Inr (min n (length (waiters s w)), s') \<and> sched_step\<^sup>*\<^sup>* s s' \<and>
     waiters s' w = drop n (waiters s w)"
proof (induction n arbitrary: s)
  case (Suc n)
  show ?case
  proof (cases "waiters s w")
    case (Cons t q)
    let ?s1 = "s\<lparr>waiters := (waiters s)(w := q), pending := t # pending s\<rparr>"
    have pop: "wakeup_pop w s = Some (t, ?s1)" using Cons by (simp add: wakeup_pop_def)
    have i1: "sched_inv ?s1" using inv_pop [OF Suc.prems pop] .
    have "t \<in> alive ?s1" using sched_invD(2) [OF Suc.prems] Cons unfolding lists_ok_def
      by (metis list.set_intros(1) sched.ext_inject sched.surjective sched.update_convs(8) sched.update_convs(18))
    then obtain s2 where s2: "wakeup_finish c t ?s1 = Inr s2" "sched_inv s2" using inv_finish [OF i1] by blast
    have w: "waiters s2 w = q" using wakeup_finish_waiters [OF s2(1)] by simp
    obtain s' where s': "sched_wakeup_n_threads c w n s2 = Inr (min n (length q), s')" "sched_step\<^sup>*\<^sup>* s2 s'" "waiters s' w = drop n q"
      using Suc.IH [OF s2(2)] w by auto
    have "sched_step s ?s1" "sched_step ?s1 s2" using sched_step.pop [OF pop] sched_step.finish [OF _ s2(1)] by auto
    hence "sched_step\<^sup>*\<^sup>* s s'" using s'(2) by (meson converse_rtranclp_into_rtranclp)
    thus ?thesis using pop s2(1) s' Cons by auto
  qed (simp add: wakeup_pop_def)
qed auto

lemma handle_timeouts_steps: "sched_handle_timeouts c now s s' \<Longrightarrow> sched_step\<^sup>*\<^sup>* s s' \<and> (\<forall>t. \<not> timeout_due now t s')"
proof (induction rule: sched_handle_timeouts.induct)
  case (wake t s s1 s')
  have "sched_step s (timeout_pop t s)" using sched_step.due [OF wake.hyps(1)] .
  moreover have "sched_step (timeout_pop t s) s1" using sched_step.finish [OF _ wake.hyps(2)] by (simp add: timeout_pop_def)
  ultimately show ?case using wake.IH by (meson converse_rtranclp_into_rtranclp)
qed simp

text \<open>A wake-up that is still pending when its thread exits makes the scheduler queue the thread again.\<close>

lemma pending_wakeup_revives:
  assumes "t \<in> alive s" "th_state s t = THREAD_REAPING"
  shows "\<exists>s1. wakeup_finish c t s = Inr s1 \<and> finalize_prev d t s1 = Inr (enqueue_thread d t s1)"
  using assms by (simp add: wakeup_finish_def wake_thread_def finalize_prev_def)

lemma sched_reach_inv: "sched_step\<^sup>*\<^sup>* s s' \<Longrightarrow> sched_inv s \<Longrightarrow> sched_inv s'"
  by (induction rule: rtranclp_induct) (auto intro: sched_inv_step)

lemma blocked_registered: "thread_ok s t \<Longrightarrow> th_state s t = THREAD_BLOCKED \<Longrightarrow> registered s t"
  unfolding thread_ok_def located_def phase_ok_def blocks_def current_places by (auto split: wait_phase.splits)


text \<open>A system with one idle thread per processor, in which thread 0 is created on processor 0 and scheduled.\<close>

definition sched0 :: sched where
  "sched0 = \<lparr>th_state = (\<lambda>_. THREAD_IDLE_THREAD), th_preempt = (\<lambda>_. 0), th_wakeup_time = (\<lambda>_. 0), th_addrspace = (\<lambda>_. None),
     th_fpu_save = (\<lambda>_. 0), th_phase = (\<lambda>_. WNone), alive = {}, waiters = (\<lambda>_. []), timeouts = {}, run_queue = (\<lambda>_. []),
     current = Suc, idle_thread = Suc, cpu_fpu = (\<lambda>_. 0), cpu_page_table = (\<lambda>_. 0), kernel_page_table = 0,
     reaper_list = [], reaper_waiter = 0, pending = []\<rparr>"


end
