(* ===== verification/Kmalloc.thy ===== *)
theory Kmalloc
  imports Spalloc
begin

text \<open>
  The kernel's general allocator of \<^verbatim>\<open>libc/stdlib.c\<close>: \<^verbatim>\<open>kmalloc\<close> takes small sizes from one object allocator per
  power of two and large ones from the buddy allocator; \<^verbatim>\<open>malloc\<close> and \<^verbatim>\<open>malloc_aligned\<close> put a header before the
  block so that \<^verbatim>\<open>free\<close> needs no size. The theory shows that the eight object allocators and the page allocator
  below them, used together, hand out blocks that are large enough and never overlap.
\<close>

section \<open>Size classes\<close>

definition MAGIC :: u32 where "MAGIC = 0x9f37a967"
definition MIN_SHIFT :: nat where "MIN_SHIFT = 3"
definition MAX_SHIFT :: nat where "MAX_SHIFT = PAGE_SIZE_SHIFT - 2"
definition MAX_CLASS :: u64 where "MAX_CLASS = push_bit MAX_SHIFT 1"

record malloc_header =
  mh_magic :: u32
  mh_offset :: u32
  mh_size :: u64

definition size_class :: "u64 \<Rightarrow> nat" where
  "size_class sz =
    (let shift = log2ull sz;
         shift = (if push_bit shift 1 < sz then shift + 1 else shift)
     in if shift < MIN_SHIFT then MIN_SHIFT else shift)"

definition size_order :: "u64 \<Rightarrow> nat" where
  "size_order sz = log2ullceil (drop_bit PAGE_SIZE_SHIFT (ALIGN_UP sz PAGE_SIZE))"

section \<open>The allocator\<close>

text \<open>The object allocators, the memory they share, and the headers of \<^verbatim>\<open>malloc\<close> by their address.\<close>

record kmem =
  kmalloc_classes :: "spalloc_allocator list"
  km_heap :: kheap
  km_headers :: "addr \<Rightarrow> malloc_header"

fun init_classes :: "nat \<Rightarrow> spalloc_allocator list \<Rightarrow> spalloc_allocator list result" where
  "init_classes 0 cs = Inr cs"
| "init_classes (Suc n) cs = ebind (spalloc_init (push_bit (MIN_SHIFT + length cs) 1) 16) (\<lambda>al. init_classes n (cs @ [al]))"

definition malloc_init :: "kmem \<Rightarrow> kmem result" where
  "malloc_init s = ebind (init_classes (MAX_SHIFT - MIN_SHIFT + 1) []) (\<lambda>cs. Inr (s\<lparr>kmalloc_classes := cs\<rparr>))"

definition kmalloc :: "u64 \<Rightarrow> u64 \<Rightarrow> kmem \<Rightarrow> (addr \<times> kmem) result" where
  "kmalloc h sz s =
    (if sz = 0 then Inr (0, s)
     else if sz \<le> MAX_CLASS then
       let i = size_class sz - MIN_SHIFT in
       if i < length (kmalloc_classes s) then
         ebind (spalloc_malloc h (kmalloc_classes s ! i, km_heap s)) (\<lambda>(x, al, k).
           Inr (x, s\<lparr>kmalloc_classes := (kmalloc_classes s)[i := al], km_heap := k\<rparr>))
       else Inl OutOfBounds
     else
       ebind (buddy_allocate h (size_order sz) ALLOC_FLAG_NOFAIL (pmm (km_heap s))) (\<lambda>(p, b).
         Inr (TO_HHDM h p, s\<lparr>km_heap := (km_heap s)\<lparr>pmm := b\<rparr>\<rparr>)))"

definition kfree :: "u64 \<Rightarrow> addr \<Rightarrow> u64 \<Rightarrow> kmem \<Rightarrow> kmem result" where
  "kfree h ptr sz s =
    (if ptr = 0 then Inr s
     else if sz \<le> MAX_CLASS then
       let i = size_class sz - MIN_SHIFT in
       if i < length (kmalloc_classes s) then
         ebind (spalloc_free h ptr (kmalloc_classes s ! i, km_heap s)) (\<lambda>(al, k).
           Inr (s\<lparr>kmalloc_classes := (kmalloc_classes s)[i := al], km_heap := k\<rparr>))
       else Inl OutOfBounds
     else
       ebind (buddy_free h (FROM_HHDM h ptr) (size_order sz) (pmm (km_heap s))) (\<lambda>b.
         Inr (s\<lparr>km_heap := (km_heap s)\<lparr>pmm := b\<rparr>\<rparr>)))"

definition malloc :: "u64 \<Rightarrow> u64 \<Rightarrow> kmem \<Rightarrow> (addr \<times> kmem) result" where
  "malloc h sz s =
    (if sz = 0 then Inr (0, s)
     else ebind (kmalloc h (sz + 16) s) (\<lambda>(hdr, s).
       if hdr = 0 then Inr (0, s)
       else Inr (hdr + 16, s\<lparr>km_headers := (km_headers s)(hdr := \<lparr>mh_magic = MAGIC, mh_offset = 0, mh_size = sz + 16\<rparr>)\<rparr>)))"

definition malloc_aligned :: "u64 \<Rightarrow> u64 \<Rightarrow> u64 \<Rightarrow> kmem \<Rightarrow> (addr \<times> kmem) result" where
  "malloc_aligned h sz align s =
    (if sz = 0 then Inr (0, s)
     else let align = (if align < 16 then 16 else align) in
       kassert (isPow2ull align)
        (let total = sz + 16 + align - 1 in
         ebind (kmalloc h total s) (\<lambda>(raw, s).
           if raw = 0 then Inr (0, s)
           else let ptr = ALIGN_UP (raw + 16) align; hdr = ptr - 16 in
             Inr (ptr, s\<lparr>km_headers := (km_headers s)(hdr := \<lparr>mh_magic = MAGIC, mh_offset = ucast (hdr - raw), mh_size = total\<rparr>)\<rparr>))))"

definition free :: "u64 \<Rightarrow> addr \<Rightarrow> kmem \<Rightarrow> kmem result" where
  "free h ptr s =
    (if ptr = 0 then Inr s
     else let hdr = ptr - 16; H = km_headers s hdr in
       kassert (mh_magic H = MAGIC) (kfree h (hdr - ucast (mh_offset H)) (mh_size H) s))"

lemmas km_consts = MIN_SHIFT_def MAX_SHIFT_def

lemma MAX_CLASS_eq: "MAX_CLASS = 1024"
  by (simp add: MAX_CLASS_def MAX_SHIFT_def push_bit_eq_mult)

section \<open>Sizes\<close>

text \<open>The class of a small size is one of the eight, and its objects have room for the size.\<close>

lemma size_class_fits:
  assumes "sz \<noteq> 0" "sz \<le> MAX_CLASS"
  shows "MIN_SHIFT \<le> size_class sz" "size_class sz \<le> MAX_SHIFT" "unat sz \<le> 2 ^ size_class sz"
proof -
  have s: "unat sz \<le> 1024" using assms(2) unfolding MAX_CLASS_eq word_le_nat_alt by simp
  define l where "l = log2ull sz"
  note b = log2ull_bounds [OF assms(1), folded l_def]
  have "(2::nat) ^ l \<le> 2 ^ 10" using b(1) s by simp
  hence l: "l \<le> 10" using power_le_imp_le_exp [of 2 l 10] by simp
  have p: "push_bit l 1 < sz \<longleftrightarrow> 2 ^ l < unat sz"
    using b(3) by (simp add: word_less_nat_alt unat_push_bit_1)
  have k: "size_class sz = (let k = (if 2 ^ l < unat sz then l + 1 else l) in if k < 3 then 3 else k)"
    unfolding size_class_def MIN_SHIFT_def l_def [symmetric] Let_def p by simp
  have "l = 10 \<Longrightarrow> \<not> 2 ^ l < unat sz" using s by simp
  hence l10: "2 ^ l < unat sz \<Longrightarrow> l < 10" using l by (cases "l = 10") auto
  show "MIN_SHIFT \<le> size_class sz" "size_class sz \<le> MAX_SHIFT" unfolding k using l l10 by (auto simp: km_consts Let_def)
  have "unat sz \<le> 2 ^ (if 2 ^ l < unat sz then l + 1 else l)" using b(2) by simp
  also have "\<dots> \<le> 2 ^ size_class sz" unfolding k Let_def by (intro power_increasing) auto
  finally show "unat sz \<le> 2 ^ size_class sz" .
qed

text \<open>The order of a large size gives a block with room for it, when rounding it up does not wrap around.\<close>

lemma size_order_fits:
  assumes "unat sz \<le> 2 ^ 64 - 4096"
  shows "unat sz \<le> 4096 * 2 ^ size_order sz"
proof -
  have a: "unat (ALIGN_UP sz (2 ^ 12)) = (unat sz + (2 ^ 12 - 1)) div 2 ^ 12 * 2 ^ 12"
    by (rule unat_ALIGN_UP) (use assms in simp_all)
  hence "unat (drop_bit 12 (ALIGN_UP sz 0x1000)) = (unat sz + 4095) div 4096"
    using unat_drop_bit_eq [of 12 "ALIGN_UP sz 0x1000"] drop_bit_eq_div [of 12 "unat (ALIGN_UP sz 0x1000)"] by simp
  hence "(unat sz + 4095) div 4096 \<le> 2 ^ size_order sz"
    using le_exp_log2ullceil [of "drop_bit 12 (ALIGN_UP sz 0x1000)"] by (simp add: size_order_def)
  thus ?thesis by linarith
qed

section \<open>Regions of memory\<close>

lemma unat_small: "n < 4096 \<Longrightarrow> unat (word_of_nat n :: u64) = n"
  by (simp add: unat_of_nat)

definition region :: "addr \<Rightarrow> nat \<Rightarrow> addr set" where
  "region p n = (\<lambda>i. p + word_of_nat i) ` {..<n}"

text \<open>The pages of a block of the buddy allocator, and of an object.\<close>

lemma block_region_pages:
  assumes h: "IS_ALIGNED h 0x1000" and f: "f + 2 ^ ord \<le> 2 ^ 52" and n: "n \<le> 4096 * 2 ^ ord" and x: "x \<in> region (node_of h f) n"
  shows "SPALLOC_PAGE_OF x \<in> node_of h ` fr (f, ord)"
proof -
  obtain i where i: "i < n" "x = node_of h f + word_of_nat i" using x by (auto simp: region_def)
  define a b where "a = i div 4096" and "b = i mod 4096"
  have ab: "i = 4096 * a + b" "b < 4096" by (simp_all add: a_def b_def)
  have "i < 2 ^ ord * 4096" using i(1) n by linarith
  hence a: "a < 2 ^ ord" unfolding a_def by (rule less_mult_imp_div_less)
  have w: "word_of_nat i = pa a + (word_of_nat b :: u64)" unfolding ab(1) pa_def by (simp add: mult.commute)
  have q: "pa (f + a) = pa f + pa a" unfolding pa_def by (simp add: algebra_simps)
  have "x = node_of h (f + a) + word_of_nat b" unfolding i(2) node_of_def TO_HHDM_def w q by (simp only: ac_simps)
  moreover have "unat (word_of_nat b :: u64) < 4096" using ab(2) unat_small by metis
  moreover have "f + a < 2 ^ 52" using a f by linarith
  ultimately have "SPALLOC_PAGE_OF x = node_of h (f + a)" using page_of(1) [OF node_aligned [OF h]] by blast
  thus ?thesis using a by auto
qed

lemma slot_region:
  assumes ok: "al_ok al" "IS_ALIGNED hdr 0x1000" "j < unat (objs_per_page al)" and n: "n \<le> unat (obj_stride al)"
    and x: "x \<in> region (slot al hdr j) n"
  shows "\<exists>i < unat (obj_stride al). unat x = unat hdr + (unat (obj_offset al) + j * unat (obj_stride al) + i)"
    "SPALLOC_PAGE_OF x = hdr"
proof -
  obtain i where i: "i < n" "x = slot al hdr j + word_of_nat i" using x by (auto simp: region_def)
  let ?o = "unat (obj_offset al) + j * unat (obj_stride al) + i"
  have e: "x = hdr + word_of_nat ?o" unfolding i(2) slot_def by (simp add: add.assoc)
  have "?o < 4096" using slot_offset(1) [OF ok(1,3)] i(1) n by linarith
  hence u: "unat (word_of_nat ?o :: u64) = ?o" "unat (word_of_nat ?o :: u64) < 4096" using unat_small [of ?o] by metis+
  show "SPALLOC_PAGE_OF x = hdr" unfolding e using page_of(1) [OF ok(2) u(2)] .
  show "\<exists>i < unat (obj_stride al). unat x = unat hdr + (unat (obj_offset al) + j * unat (obj_stride al) + i)"
    using page_of(2) [OF ok(2) u(2)] u(1) e i(1) n by (intro exI [of _ i]) simp
qed

lemma slot_regions_disjoint:
  assumes ok: "al_ok al" "IS_ALIGNED hdr 0x1000" "j < unat (objs_per_page al)" "l < unat (objs_per_page al)" "j \<noteq> l"
    and n: "n \<le> unat (obj_stride al)" "m \<le> unat (obj_stride al)"
  shows "region (slot al hdr j) n \<inter> region (slot al hdr l) m = {}"
proof (rule ccontr)
  let ?s = "unat (obj_stride al)"
  assume "\<not> ?thesis"
  then obtain x where x: "x \<in> region (slot al hdr j) n" "x \<in> region (slot al hdr l) m" by blast
  obtain i i' where i: "i < ?s" "i' < ?s" "j * ?s + i = l * ?s + i'"
    using slot_region(1) [OF ok(1-3) n(1) x(1)] slot_region(1) [OF ok(1,2,4) n(2) x(2)] by auto
  have "(j * ?s + i) div ?s = j" "(l * ?s + i') div ?s = l" using i(1,2) by auto
  thus False using i(3) ok(5) by simp
qed

section \<open>The invariant\<close>

text \<open>
  The allocated blocks \<open>A\<close> of the buddy allocator are the pages \<open>P i\<close> of the object allocators and the large blocks;
  \<open>live\<close> are the blocks handed out, with the sizes they were asked for.
\<close>

definition class_of :: "u64 \<Rightarrow> nat" where
  "class_of sz = size_class sz - MIN_SHIFT"

definition class_ok :: "u64 \<Rightarrow> block set \<Rightarrow> (nat \<Rightarrow> nat set) \<Rightarrow> (nat \<Rightarrow> addr set) \<Rightarrow> kmem \<Rightarrow> nat \<Rightarrow> bool" where
  "class_ok h A P L s i \<longleftrightarrow>
     (\<exists>al0 xs. spalloc_init (push_bit (MIN_SHIFT + i) 1) 16 = Inr al0 \<and> kmalloc_classes s ! i = al0\<lparr>partial_list := xs\<rparr>) \<and>
     sp_inv h A (kmalloc_classes s ! i) (km_heap s) (P i) {} (L i)"

definition blocks_ok :: "u64 \<Rightarrow> (addr \<times> u64) set \<Rightarrow> (nat \<Rightarrow> addr set) \<Rightarrow> block set \<Rightarrow> bool" where
  "blocks_ok h live L B \<longleftrightarrow> (\<forall>(p, sz) \<in> live. sz \<noteq> 0 \<and> unat sz \<le> 2 ^ 64 - 4096 \<and>
     (if sz \<le> MAX_CLASS then p \<in> L (class_of sz) else \<exists>f. p = node_of h f \<and> (f, size_order sz) \<in> B))"

definition km_pages :: "u64 \<Rightarrow> nat set \<Rightarrow> kmem \<Rightarrow> block set \<Rightarrow> (nat \<Rightarrow> nat set) \<Rightarrow> (nat \<Rightarrow> addr set) \<Rightarrow> block set \<Rightarrow> bool" where
  "km_pages h M s A P L B \<longleftrightarrow> IS_ALIGNED h 0x1000 \<and> (\<forall>f \<in> M. node_of h f \<noteq> 0) \<and> buddy_reach h M A (pmm (km_heap s)) \<and>
     length (kmalloc_classes s) = 8 \<and> (\<forall>i < 8. class_ok h A P L s i) \<and>
     (\<forall>i < 8. \<forall>j < 8. i \<noteq> j \<longrightarrow> P i \<inter> P j = {}) \<and> B \<subseteq> A \<and> (\<forall>i < 8. \<forall>f \<in> P i. (f, 0) \<notin> B)"

definition km_inv :: "u64 \<Rightarrow> nat set \<Rightarrow> kmem \<Rightarrow> (addr \<times> u64) set \<Rightarrow> bool" where
  "km_inv h M s live \<longleftrightarrow> (\<exists>A P L B. km_pages h M s A P L B \<and> blocks_ok h live L B) \<and> inj_on fst live"

lemma allocated_disjoint: "buddy_reach h M A s \<Longrightarrow> a \<in> A \<Longrightarrow> b \<in> A \<Longrightarrow> a \<noteq> b \<Longrightarrow> fr a \<inter> fr b = {}"
proof -
  assume a: "buddy_reach h M A s" "a \<in> A" "b \<in> A" "a \<noteq> b"
  obtain R L where "binv h R A {} L s" using reach_binv [OF a(1)] by blast
  thus ?thesis using binvD(7) a(2-) unfolding sep_def by blast
qed

lemma allocated_ok: "buddy_reach h M A s \<Longrightarrow> (f, ord) \<in> A \<Longrightarrow> ord \<le> 14 \<and> f + 2 ^ ord \<le> 2 ^ 52"
proof -
  assume a: "buddy_reach h M A s" "(f, ord) \<in> A"
  obtain R L where "binv h R A {} L s" using reach_binv [OF a(1)] by blast
  hence "blk_ok (f, ord)" using binvD(2) a(2) unfolding geo_def inside_def by blast
  thus ?thesis by simp
qed

lemma class_of_less: "sz \<noteq> 0 \<Longrightarrow> sz \<le> MAX_CLASS \<Longrightarrow> class_of sz < 8"
  using size_class_fits [of sz] by (simp add: class_of_def km_consts)


lemma km_pagesD:
  assumes "km_pages h M s A P L B"
  shows "IS_ALIGNED h 0x1000" "f \<in> M \<Longrightarrow> node_of h f \<noteq> 0" "buddy_reach h M A (pmm (km_heap s))" "length (kmalloc_classes s) = 8"
    "i < 8 \<Longrightarrow> class_ok h A P L s i" "i < 8 \<Longrightarrow> j < 8 \<Longrightarrow> i \<noteq> j \<Longrightarrow> P i \<inter> P j = {}" "B \<subseteq> A" "i < 8 \<Longrightarrow> f \<in> P i \<Longrightarrow> (f, 0) \<notin> B"
  using assms unfolding km_pages_def by blast+

text \<open>Objects lie in the pages of their class, and these are neither shared nor part of a large block.\<close>

lemma class_slot:
  assumes k: "km_pages h M s A P L B" and i: "i < 8" and p: "p \<in> L i"
  obtains g j where "g \<in> P i" "g < 2 ^ 52" "(g, 0) \<in> A" "al_ok (kmalloc_classes s ! i)" "IS_ALIGNED (node_of h g) 0x1000"
    "j < unat (objs_per_page (kmalloc_classes s ! i))" "p = slot (kmalloc_classes s ! i) (node_of h g) j"
proof -
  have c: "sp_inv h A (kmalloc_classes s ! i) (km_heap s) (P i) {} (L i)" using km_pagesD(5) [OF k i] by (simp add: class_ok_def)
  obtain g j where g: "g \<in> P i" "g < 2 ^ 52" "j < unat (objs_per_page (kmalloc_classes s ! i))"
      "p = slot (kmalloc_classes s ! i) (node_of h g) j" using sp_live_slot [OF c p] by blast
  moreover have "al_ok (kmalloc_classes s ! i)" "(g, 0) \<in> A" using c g(1) by (auto simp: sp_inv_def)
  ultimately show ?thesis using that node_aligned [OF km_pagesD(1) [OF k] g(2)] by blast
qed

lemma class_stride:
  assumes k: "km_pages h M s A P L B" and sz: "sz \<noteq> 0" "sz \<le> MAX_CLASS"
  shows "unat sz \<le> unat (obj_stride (kmalloc_classes s ! class_of sz))"
proof -
  obtain al0 xs where a: "spalloc_init (push_bit (MIN_SHIFT + class_of sz) 1) 16 = Inr al0"
      "kmalloc_classes s ! class_of sz = al0\<lparr>partial_list := xs\<rparr>"
    using km_pagesD(5) [OF k class_of_less [OF sz]] by (auto simp: class_ok_def)
  have c: "MIN_SHIFT + class_of sz = size_class sz" "size_class sz < 64"
    using size_class_fits [OF sz] by (auto simp: class_of_def km_consts)
  have "unat sz \<le> 2 ^ size_class sz" using size_class_fits(3) [OF sz] .
  also have "\<dots> \<le> unat (obj_stride al0)" using spalloc_init_ok(3) [OF a(1)] c by (simp add: unat_push_bit_1)
  finally show ?thesis using a(2) by simp
qed

lemma page_in_block:
  assumes k: "km_pages h M s A P L B" and i: "i < 8" and g: "g \<in> P i" "(g, 0) \<in> A" and b: "(f, ord) \<in> B" "g \<in> fr (f, ord)"
  shows False
proof (cases "(g, 0) = (f, ord)")
  case True
  thus False using km_pagesD(8) [OF k i g(1)] b(1) by simp
next
  case False
  hence "fr (g, 0) \<inter> fr (f, ord) = {}"
    using allocated_disjoint [OF km_pagesD(3) [OF k] g(2)] km_pagesD(7) [OF k] b(1) by blast
  thus False using b(2) by auto
qed

lemma blocks_okD:
  assumes "blocks_ok h live L B" "(p, sz) \<in> live"
  shows "sz \<noteq> 0" "unat sz \<le> 2 ^ 64 - 4096" "sz \<le> MAX_CLASS \<Longrightarrow> p \<in> L (class_of sz)"
    "\<not> sz \<le> MAX_CLASS \<Longrightarrow> \<exists>f. p = node_of h f \<and> (f, size_order sz) \<in> B"
  using bspec [OF assms(1) [unfolded blocks_ok_def] assms(2)] by (simp_all split: if_splits)

text \<open>The frames of a live block: its page, or those of its large block.\<close>

lemma region_frames:
  assumes k: "km_pages h M s A P L B" and b: "blocks_ok h live L B" and p: "(p, sz) \<in> live" and x: "x \<in> region p (unat sz)"
  shows "\<exists>g < 2 ^ 52. SPALLOC_PAGE_OF x = node_of h g \<and>
    (if sz \<le> MAX_CLASS then g \<in> P (class_of sz) \<and> (g, 0) \<in> A
     else \<exists>f. p = node_of h f \<and> (f, size_order sz) \<in> B \<and> g \<in> fr (f, size_order sz))"
proof (cases "sz \<le> MAX_CLASS")
  case True
  have z: "sz \<noteq> 0" "p \<in> L (class_of sz)" using b p True by (auto simp: blocks_ok_def)
  obtain g j where g: "g \<in> P (class_of sz)" "g < 2 ^ 52" "(g, 0) \<in> A" "al_ok (kmalloc_classes s ! class_of sz)"
      "IS_ALIGNED (node_of h g) 0x1000" "j < unat (objs_per_page (kmalloc_classes s ! class_of sz))"
      "p = slot (kmalloc_classes s ! class_of sz) (node_of h g) j"
    using class_slot [OF k class_of_less [OF z(1) True] z(2)] by blast
  have "SPALLOC_PAGE_OF x = node_of h g" using slot_region(2) [OF g(4-6) class_stride [OF k z(1) True]] x g(7) by blast
  thus ?thesis using g(1-3) True by auto
next
  case False
  obtain f where f: "p = node_of h f" "(f, size_order sz) \<in> B" "unat sz \<le> 2 ^ 64 - 4096"
    using blocks_okD(2,4) [OF b p] False by blast
  have o: "f + 2 ^ size_order sz \<le> 2 ^ 52" using allocated_ok [OF km_pagesD(3) [OF k]] f(2) km_pagesD(7) [OF k] by blast
  obtain g where "g \<in> fr (f, size_order sz)" "SPALLOC_PAGE_OF x = node_of h g"
    using block_region_pages [OF km_pagesD(1) [OF k] o size_order_fits [OF f(3)]] x f(1) by blast
  moreover from this have "g < 2 ^ 52" using o by simp
  ultimately show ?thesis using False f by auto
qed

lemma region_self: "0 < n \<Longrightarrow> p \<in> region p n"
  unfolding region_def by (intro image_eqI [of _ _ 0]) simp_all

lemma live_regions_disjoint:
  assumes k: "km_pages h M s A P L B" and b: "blocks_ok h live L B" and p: "(p, sz) \<in> live" and q: "(q, sz') \<in> live" "p \<noteq> q"
  shows "region p (unat sz) \<inter> region q (unat sz') = {}"
proof (rule ccontr)
  assume "\<not> ?thesis"
  then obtain x where x: "x \<in> region p (unat sz)" "x \<in> region q (unat sz')" by blast
  obtain g where g: "g < 2 ^ 52" "SPALLOC_PAGE_OF x = node_of h g" "if sz \<le> MAX_CLASS then g \<in> P (class_of sz) \<and> (g, 0) \<in> A
     else \<exists>f. p = node_of h f \<and> (f, size_order sz) \<in> B \<and> g \<in> fr (f, size_order sz)" using region_frames [OF k b p x(1)] by blast
  obtain g' where g': "g' < 2 ^ 52" "SPALLOC_PAGE_OF x = node_of h g'" "if sz' \<le> MAX_CLASS then g' \<in> P (class_of sz') \<and> (g', 0) \<in> A
     else \<exists>f. q = node_of h f \<and> (f, size_order sz') \<in> B \<and> g' \<in> fr (f, size_order sz')" using region_frames [OF k b q(1) x(2)] by blast
  have e: "g' = g" using g g' node_of_inj by metis
  have z: "sz \<noteq> 0" "sz' \<noteq> 0" using b p q by (auto simp: blocks_ok_def)
  show False
  proof (cases "sz \<le> MAX_CLASS \<and> sz' \<le> MAX_CLASS")
    case True
    define i where "i = class_of sz"
    have c: "i < 8" "class_of sz' < 8" using True z class_of_less by (auto simp: i_def)
    have i: "class_of sz' = i" using km_pagesD(6) [OF k c(2,1)] g(3) g'(3) True e by (auto simp: i_def)
    have l: "p \<in> L i" "q \<in> L i" using b p q True i by (auto simp: blocks_ok_def i_def)
    obtain f j where f: "f < 2 ^ 52" "al_ok (kmalloc_classes s ! i)" "IS_ALIGNED (node_of h f) 0x1000" "j < unat (objs_per_page (kmalloc_classes s ! i))"
      "p = slot (kmalloc_classes s ! i) (node_of h f) j" using class_slot [OF k c(1) l(1)] by blast
    obtain f' j' where f': "f' < 2 ^ 52" "IS_ALIGNED (node_of h f') 0x1000" "j' < unat (objs_per_page (kmalloc_classes s ! i))"
      "q = slot (kmalloc_classes s ! i) (node_of h f') j'" using class_slot [OF k c(1) l(2)] by blast
    note st = class_stride [OF k z(1)] class_stride [OF k z(2)]
    have s: "unat sz \<le> unat (obj_stride (kmalloc_classes s ! i))" "unat sz' \<le> unat (obj_stride (kmalloc_classes s ! i))"
      using st True i by (auto simp: i_def)
    have "node_of h f = SPALLOC_PAGE_OF x" "node_of h f' = SPALLOC_PAGE_OF x"
      using slot_region(2) [OF f(2-4) s(1)] slot_region(2) [OF f(2) f'(2,3) s(2)] x unfolding f(5) f'(4) by metis+
    hence "f' = f" using node_of_inj [OF f'(1) f(1)] by metis
    thus False using slot_regions_disjoint [OF f(2,3,4) f'(3) _ s] x f(5) f'(4) q(2) by blast
  next
    case False
    then consider "sz \<le> MAX_CLASS" "\<not> sz' \<le> MAX_CLASS" | "\<not> sz \<le> MAX_CLASS" "sz' \<le> MAX_CLASS"
      | "\<not> sz \<le> MAX_CLASS" "\<not> sz' \<le> MAX_CLASS" by blast
    thus False
    proof cases
      case 1
      obtain f where "(f, size_order sz') \<in> B" "g \<in> fr (f, size_order sz')" using g'(3) 1 e by metis
      thus False using page_in_block [OF k class_of_less [OF z(1) 1(1)], of g] g(3) 1 by (simp del: fr.simps)
    next
      case 2
      obtain f where "(f, size_order sz) \<in> B" "g \<in> fr (f, size_order sz)" using g(3) 2 by metis
      thus False using page_in_block [OF k class_of_less [OF z(2) 2(2)], of g] g'(3) 2 e by (simp del: fr.simps)
    next
      case 3
      obtain f where f: "p = node_of h f" "(f, size_order sz) \<in> B" "g \<in> fr (f, size_order sz)" using g(3) 3 by metis
      obtain f' where f': "q = node_of h f'" "(f', size_order sz') \<in> B" "g \<in> fr (f', size_order sz')" using g'(3) 3 e by metis
      have "(f, size_order sz) \<noteq> (f', size_order sz')" using f(1) f'(1) q(2) by auto
      moreover have "(f, size_order sz) \<in> A" "(f', size_order sz') \<in> A" using f(2) f'(2) km_pagesD(7) [OF k] by auto
      ultimately show False using allocated_disjoint [OF km_pagesD(3) [OF k]] f(3) f'(3) by blast
    qed
  qed
qed

section \<open>The operations\<close>

lemma class_ok_other:
  assumes c: "class_ok h A P L s j" and j: "kmalloc_classes s' ! j = kmalloc_classes s ! j" "P' j = P j" "L' j = L j"
    and a: "\<And>f. f \<in> P j \<Longrightarrow> (f, 0) \<in> A \<Longrightarrow> (f, 0) \<in> A'"
    and hd: "\<And>f. f \<in> P j \<Longrightarrow> f < 2 ^ 52 \<Longrightarrow> headers (km_heap s') (node_of h f) = headers (km_heap s) (node_of h f)"
  shows "class_ok h A' P' L' s' j"
proof -
  have i: "sp_inv h A (kmalloc_classes s ! j) (km_heap s) (P j) {} (L j)" using c by (simp add: class_ok_def)
  have "{f \<in> P j. ph_free_objs (headers (km_heap s') (node_of h f)) \<noteq> []} = {f \<in> P j. ph_free_objs (headers (km_heap s) (node_of h f)) \<noteq> []}"
    using i hd by (auto simp: sp_inv_def)
  hence "sp_inv h A' (kmalloc_classes s ! j) (km_heap s') (P j) {} (L j)" using i a hd unfolding sp_inv_def by simp
  thus ?thesis using c j by (simp add: class_ok_def)
qed

lemma kmalloc_small:
  assumes k: "km_pages h M s A P L B" and z: "sz \<noteq> 0" "sz \<le> MAX_CLASS"
  shows "kmalloc h sz s = Inl Panicked \<or> (\<exists>p s' A' P' L'. kmalloc h sz s = Inr (p, s') \<and> km_pages h M s' A' P' L' B \<and>
    (\<forall>i. L i \<subseteq> L' i) \<and> p \<in> L' (class_of sz) \<and> p \<notin> L (class_of sz) \<and> p \<noteq> 0)"
proof -
  let ?i = "class_of sz"
  note i8 = class_of_less [OF z]
  have c: "sp_inv h A (kmalloc_classes s ! ?i) (km_heap s) (P ?i) {} (L ?i)" using km_pagesD(5) [OF k i8] by (simp add: class_ok_def)
  have run: "kmalloc h sz s = ebind (spalloc_malloc h (kmalloc_classes s ! ?i, km_heap s)) (\<lambda>(x, al, k).
      Inr (x, s\<lparr>kmalloc_classes := (kmalloc_classes s)[?i := al], km_heap := k\<rparr>))"
    using z i8 km_pagesD(4) [OF k] by (simp add: kmalloc_def class_of_def Let_def)
  from spalloc_malloc_rep [OF km_pagesD(1,3) [OF k] c] show ?thesis
  proof (elim disjE exE conjE, goal_cases)
    case 1
    thus ?case using run by simp
  next
    case r: (2 p al k' P1 A' ys)
    define s' where "s' = s\<lparr>kmalloc_classes := (kmalloc_classes s)[?i := al], km_heap := k'\<rparr>"
    define P' where "P' = P(?i := P1)"
    define L' where "L' = L(?i := insert p (L ?i))"
    have AA: "A \<subseteq> A'" using r(7) by (auto simp: grows_def)
    have P1: "g \<in> P ?i \<or> (g, 0) \<notin> A" if "g \<in> P1" for g using r(7) that by (auto simp: grows_def)
    have own: "class_ok h A' P' L' s' ?i"
      using km_pagesD(5) [OF k i8] km_pagesD(4) [OF k] i8 r(3,5) by (auto simp: class_ok_def s'_def P'_def L'_def)
    have inA: "(g, 0) \<in> A" "g < 2 ^ 52" if "j < 8" "g \<in> P j" for g j
      using km_pagesD(5) [OF k that(1)] that(2) by (auto simp: class_ok_def sp_inv_def)
    have P1lt: "g < 2 ^ 52" if "g \<in> P1" for g using r(3) that by (auto simp: sp_inv_def)
    have sep: "P j \<inter> P1 = {}" if "j < 8" "j \<noteq> ?i" for j
      using P1 inA [OF that(1)] km_pagesD(6) [OF k that(1) i8 that(2)] by blast
    have other: "class_ok h A' P' L' s' j" if j: "j < 8" "j \<noteq> ?i" for j
    proof (rule class_ok_other [OF km_pagesD(5) [OF k j(1)]])
      fix f assume f: "f \<in> P j" "f < 2 ^ 52"
      hence "f \<notin> P1" using sep [OF j] by blast
      hence "node_of h f \<notin> node_of h ` P1" using node_of_inj [OF f(2)] P1lt by auto
      thus "headers (km_heap s') (node_of h f) = headers (km_heap s) (node_of h f)" using r(6) by (simp add: s'_def)
    qed (use j AA in \<open>auto simp: s'_def P'_def L'_def\<close>)
    have "km_pages h M s' A' P' L' B"
      unfolding km_pages_def
    proof (intro conjI allI impI ballI)
      show "class_ok h A' P' L' s' j" if "j < 8" for j using own other that by (cases "j = ?i") auto
      show "P' j \<inter> P' l = {}" if "j < 8" "l < 8" "j \<noteq> l" for j l
        using sep [of j] sep [of l] km_pagesD(6) [OF k that] that by (auto simp: P'_def)
      show "(f, 0) \<notin> B" if "j < 8" "f \<in> P' j" for j f
        using that P1 [of f] km_pagesD(8) [OF k] km_pagesD(7) [OF k] by (auto simp: P'_def split: if_splits)
    qed (use km_pagesD [OF k] AA r(4) in \<open>auto simp: s'_def\<close>)
    moreover have "p \<noteq> 0" using r(3) slots_page [OF _ node_aligned [OF km_pagesD(1) [OF k]]] unfolding sp_inv_def by blast
    moreover have "kmalloc h sz s = Inr (p, s')" using run r(1) by (simp add: s'_def)
    moreover have "\<forall>i. L i \<subseteq> L' i" "p \<in> L' ?i" by (auto simp: L'_def)
    ultimately show ?case using r(2) by blast
  qed
qed

lemma kmalloc_big:
  assumes k: "km_pages h M s A P L B" and z: "\<not> sz \<le> MAX_CLASS" and o: "size_order sz \<le> 14"
  shows "kmalloc h sz s = Inl Panicked \<or> (\<exists>f s' A'. kmalloc h sz s = Inr (node_of h f, s') \<and>
    km_pages h M s' A' P L (insert (f, size_order sz) B) \<and> (\<forall>a \<in> A. fr (f, size_order sz) \<inter> fr a = {}) \<and> node_of h f \<noteq> 0 \<and> f < 2 ^ 52)"
proof -
  let ?o = "size_order sz"
  have z0: "sz \<noteq> 0" using z by auto
  have run: "kmalloc h sz s = ebind (buddy_allocate h ?o ALLOC_FLAG_NOFAIL (pmm (km_heap s))) (\<lambda>(p, b).
      Inr (TO_HHDM h p, s\<lparr>km_heap := (km_heap s)\<lparr>pmm := b\<rparr>\<rparr>))" using z z0 by (simp add: kmalloc_def)
  from allocate_reach [OF km_pagesD(3) [OF k] o, of ALLOC_FLAG_NOFAIL] show ?thesis
  proof (elim disjE exE conjE, goal_cases)
    case r: (1 f b)
    define s' where "s' = s\<lparr>km_heap := (km_heap s)\<lparr>pmm := b\<rparr>\<rparr>"
    have "f + 2 ^ ?o \<le> 2 ^ 52" "(0::nat) < 2 ^ ?o" using allocated_ok [OF r(7), of f ?o] by auto
    hence f: "f \<in> M" "f < 2 ^ 52" using r(5) by (auto, linarith)
    have new: "(f, 0) \<notin> A" using r(6) by fastforce
    have "km_pages h M s' (insert (f, ?o) A) P L (insert (f, ?o) B)"
      unfolding km_pages_def
    proof (intro conjI allI impI ballI)
      show "class_ok h (insert (f, ?o) A) P L s' j" if "j < 8" for j
        by (rule class_ok_other [OF km_pagesD(5) [OF k that]]) (auto simp: s'_def)
      show "(g, 0) \<notin> insert (f, ?o) B" if "j < 8" "g \<in> P j" for j g
      proof -
        have "(g, 0) \<in> A" using km_pagesD(5) [OF k that(1)] that(2) by (auto simp: class_ok_def sp_inv_def)
        thus ?thesis using new km_pagesD(8) [OF k that] by auto
      qed
    qed (use km_pagesD [OF k] r(7) in \<open>auto simp: s'_def\<close>)
    moreover have "kmalloc h sz s = Inr (node_of h f, s')" using run r(1) by (simp add: s'_def node_of_def)
    ultimately show ?case using r(6) km_pagesD(2) [OF k f(1)] f(2) by blast
  next
    case 2
    thus ?case using run by (simp add: ALLOC_FLAG_NOFAIL_def)
  qed
qed

lemma kfree_small:
  assumes k: "km_pages h M s A P L B" and z: "sz \<noteq> 0" "sz \<le> MAX_CLASS" and p: "p \<in> L (class_of sz)"
  shows "\<exists>s' A' P'. kfree h p sz s = Inr s' \<and> km_pages h M s' A' P' (L(class_of sz := L (class_of sz) - {p})) B"
proof -
  let ?i = "class_of sz"
  note i8 = class_of_less [OF z]
  have c: "sp_inv h A (kmalloc_classes s ! ?i) (km_heap s) (P ?i) {} (L ?i)" using km_pagesD(5) [OF k i8] by (simp add: class_ok_def)
  have "p \<noteq> 0" using c p slots_page [OF _ node_aligned [OF km_pagesD(1) [OF k]]] unfolding sp_inv_def by blast
  hence run: "kfree h p sz s = ebind (spalloc_free h p (kmalloc_classes s ! ?i, km_heap s)) (\<lambda>(al, k).
      Inr (s\<lparr>kmalloc_classes := (kmalloc_classes s)[?i := al], km_heap := k\<rparr>))"
    using z i8 km_pagesD(4) [OF k] by (simp add: kfree_def class_of_def Let_def)
  obtain al k' P1 A' where r: "spalloc_free h p (kmalloc_classes s ! ?i, km_heap s) = Inr (al, k')"
      "sp_inv h A' al k' P1 {} (L ?i - {p})" "buddy_reach h M A' (pmm k')" "\<exists>xs. al = (kmalloc_classes s ! ?i)\<lparr>partial_list := xs\<rparr>"
      "\<forall>a. a \<notin> node_of h ` P ?i \<longrightarrow> headers k' a = headers (km_heap s) a" "shrinks A (P ?i) A' P1"
    using spalloc_free_rep [OF km_pagesD(1,3) [OF k] c p] by blast
  define s' where "s' = s\<lparr>kmalloc_classes := (kmalloc_classes s)[?i := al], km_heap := k'\<rparr>"
  define P' where "P' = P(?i := P1)"
  define L' where "L' = L(?i := L ?i - {p})"
  have P1: "P1 \<subseteq> P ?i" "\<And>b. b \<in> A \<Longrightarrow> b \<in> A' \<or> (\<exists>f \<in> P ?i. b = (f, 0))" using r(6) by (auto simp: shrinks_def)
  have lt: "g < 2 ^ 52" if "j < 8" "g \<in> P j" for g j
    using km_pagesD(5) [OF k that(1)] that(2) by (auto simp: class_ok_def sp_inv_def)
  have own: "class_ok h A' P' L' s' ?i"
    using km_pagesD(5) [OF k i8] km_pagesD(4) [OF k] i8 r(2,4) by (auto simp: class_ok_def s'_def P'_def L'_def)
  have other: "class_ok h A' P' L' s' j" if j: "j < 8" "j \<noteq> ?i" for j
  proof (rule class_ok_other [OF km_pagesD(5) [OF k j(1)]])
    fix f assume f: "f \<in> P j" "f < 2 ^ 52"
    have n: "f \<notin> P ?i" using km_pagesD(6) [OF k j(1) i8 j(2)] f(1) by blast
    hence "node_of h f \<notin> node_of h ` P ?i" using node_of_inj [OF f(2)] lt [OF i8] by auto
    thus "headers (km_heap s') (node_of h f) = headers (km_heap s) (node_of h f)" using r(5) by (simp add: s'_def)
  next
    fix f assume f: "f \<in> P j" "(f, 0) \<in> A"
    have "f \<notin> P ?i" using km_pagesD(6) [OF k j(1) i8 j(2)] f(1) by blast
    thus "(f, 0) \<in> A'" using P1(2) [OF f(2)] by blast
  qed (use j in \<open>auto simp: s'_def P'_def L'_def\<close>)
  have "km_pages h M s' A' P' L' B"
    unfolding km_pages_def
  proof (intro conjI allI impI ballI)
    show "class_ok h A' P' L' s' j" if "j < 8" for j using own other that by (cases "j = ?i") auto
    show "P' j \<inter> P' l = {}" if "j < 8" "l < 8" "j \<noteq> l" for j l
      using P1(1) km_pagesD(6) [OF k that] that by (auto simp: P'_def)
    show "(f, 0) \<notin> B" if "j < 8" "f \<in> P' j" for j f
      using that P1(1) km_pagesD(8) [OF k] by (auto simp: P'_def split: if_splits)
    show "B \<subseteq> A'" using P1(2) km_pagesD(7) [OF k] km_pagesD(8) [OF k i8] by blast
  qed (use km_pagesD [OF k] r(3) in \<open>auto simp: s'_def\<close>)
  thus ?thesis using run r(1) by (auto simp: s'_def L'_def)
qed

lemma kfree_big:
  assumes k: "km_pages h M s A P L B" and z: "\<not> sz \<le> MAX_CLASS" and p: "(f, size_order sz) \<in> B"
  shows "\<exists>s' A'. kfree h (node_of h f) sz s = Inr s' \<and> km_pages h M s' A' P L (B - {(f, size_order sz)})"
proof -
  let ?b = "(f, size_order sz)"
  have a: "?b \<in> A" using p km_pagesD(7) [OF k] by blast
  obtain R Q where "binv h R A {} Q (pmm (km_heap s))" "\<Union> (fr ` R) = M" using reach_binv [OF km_pagesD(3) [OF k]] by blast
  hence "f \<in> M" using binv_frame [of h R f "size_order sz" "A - {?b}"] a by (simp add: insert_absorb)
  hence "node_of h f \<noteq> 0" using km_pagesD(2) [OF k] by blast
  hence run: "kfree h (node_of h f) sz s = ebind (buddy_free h (pa f) (size_order sz) (pmm (km_heap s))) (\<lambda>b.
      Inr (s\<lparr>km_heap := (km_heap s)\<lparr>pmm := b\<rparr>\<rparr>))" using z by (simp add: kfree_def)
  obtain b where b: "buddy_free h (pa f) (size_order sz) (pmm (km_heap s)) = Inr b" "buddy_reach h M (A - {?b}) b"
    using free_reach [OF km_pagesD(3) [OF k] a] by blast
  define s' where "s' = s\<lparr>km_heap := (km_heap s)\<lparr>pmm := b\<rparr>\<rparr>"
  have "km_pages h M s' (A - {?b}) P L (B - {?b})"
    unfolding km_pages_def
  proof (intro conjI allI impI ballI)
    show "class_ok h (A - {?b}) P L s' j" if "j < 8" for j
    proof (rule class_ok_other [OF km_pagesD(5) [OF k that]])
      fix g assume "g \<in> P j" "(g, 0) \<in> A"
      moreover have "(g, 0) \<noteq> ?b" using km_pagesD(8) [OF k that] calculation(1) p by metis
      ultimately show "(g, 0) \<in> A - {?b}" by blast
    qed (auto simp: s'_def)
  qed (use km_pagesD [OF k] b(2) in \<open>auto simp: s'_def\<close>)
  thus ?thesis using run b(1) by (auto simp: s'_def)
qed

section \<open>The allocator in use\<close>

text \<open>
  The states that \<^verbatim>\<open>kmalloc\<close> and \<^verbatim>\<open>kfree\<close> reach after \<^verbatim>\<open>malloc_init\<close>, for sizes whose rounding up to pages does not
  wrap around; \<open>live\<close> are the blocks handed out with their sizes.
\<close>

inductive km_reach :: "u64 \<Rightarrow> nat set \<Rightarrow> kmem \<Rightarrow> (addr \<times> u64) set \<Rightarrow> bool" for h M where
  init: "buddy_reach h M A (pmm (km_heap s)) \<Longrightarrow> malloc_init s = Inr s' \<Longrightarrow> km_reach h M s' {}"
| alloc: "km_reach h M s live \<Longrightarrow> sz \<noteq> 0 \<Longrightarrow> unat sz \<le> 2 ^ 64 - 4096 \<Longrightarrow> kmalloc h sz s = Inr (p, s') \<Longrightarrow>
    km_reach h M s' (insert (p, sz) live)"
| release: "km_reach h M s live \<Longrightarrow> (p, sz) \<in> live \<Longrightarrow> kfree h p sz s = Inr s' \<Longrightarrow> km_reach h M s' (live - {(p, sz)})"

definition hhdm_ok :: "u64 \<Rightarrow> nat set \<Rightarrow> bool" where
  "hhdm_ok h M \<longleftrightarrow> IS_ALIGNED h 0x1000 \<and> (\<forall>f \<in> M. node_of h f \<noteq> 0)"

lemma km_inv_kmalloc:
  assumes i: "km_inv h M s live" and z: "sz \<noteq> 0" "unat sz \<le> 2 ^ 64 - 4096"
  shows "(kmalloc h sz s = Inl Panicked \<or> \<not> sz \<le> MAX_CLASS \<and> size_order sz > 14 \<and> kmalloc h sz s = Inl OutOfBounds) \<or>
    (\<exists>p s'. kmalloc h sz s = Inr (p, s') \<and> p \<noteq> 0 \<and> p \<notin> fst ` live \<and> km_inv h M s' (insert (p, sz) live))"
proof -
  obtain A P L B where k: "km_pages h M s A P L B" and b: "blocks_ok h live L B" and inj: "inj_on fst live"
    using i unfolding km_inv_def by blast
  consider "sz \<le> MAX_CLASS" | "\<not> sz \<le> MAX_CLASS" "size_order sz \<le> 14" | "\<not> sz \<le> MAX_CLASS" "size_order sz > 14" by linarith
  thus ?thesis
  proof cases
    case 1
    show ?thesis using kmalloc_small [OF k z(1) 1]
    proof (elim disjE exE conjE, goal_cases)
      case r: (2 p s' A' P' L')
      have b': "blocks_ok h (insert (p, sz) live) L' B"
        using b r(3,4) z 1 unfolding blocks_ok_def by (fastforce split: if_splits)
      have fresh: "p \<notin> fst ` live"
      proof
        assume "p \<in> fst ` live"
        then obtain m where m: "(p, m) \<in> live" by auto
        have x: "p \<in> region p (unat sz)" "p \<in> region p (unat m)"
          using region_self z(1) blocks_okD(1) [OF b m] by (auto simp: unat_gt_0)
        obtain g where g: "g < 2 ^ 52" "SPALLOC_PAGE_OF p = node_of h g" "g \<in> P' (class_of sz)" "(g, 0) \<in> A'"
          using region_frames [OF r(2) b' insertI1 x(1)] 1 by auto
        obtain g' where g': "g' < 2 ^ 52" "SPALLOC_PAGE_OF p = node_of h g'" "if m \<le> MAX_CLASS then g' \<in> P' (class_of m) \<and> (g', 0) \<in> A'
           else \<exists>f. p = node_of h f \<and> (f, size_order m) \<in> B \<and> g' \<in> fr (f, size_order m)"
          using region_frames [OF r(2) b' _ x(2)] m by auto
        have e: "g' = g" using g(1,2) g'(1,2) node_of_inj by metis
        show False
        proof (cases "m \<le> MAX_CLASS")
          case True
          hence "class_of m = class_of sz" using km_pagesD(6) [OF r(2) class_of_less class_of_less] blocks_okD(1) [OF b m] z(1) 1 g(3) g'(3) e
            by (metis disjoint_iff)
          thus False using r(5) blocks_okD(3) [OF b m True] by simp
        next
          case False
          then obtain f where "(f, size_order m) \<in> B" "g \<in> fr (f, size_order m)" using g'(3) e by metis
          thus False using page_in_block [OF r(2) class_of_less [OF z(1) 1] g(3,4)] by blast
        qed
      qed
      hence "inj_on fst (insert (p, sz) live)" using inj by (auto simp: inj_on_def image_iff)
      thus ?case using r(1,2,6) b' fresh unfolding km_inv_def by blast
    qed simp
  next
    case 2
    show ?thesis using kmalloc_big [OF k 2]
    proof (elim disjE exE conjE, goal_cases)
      case r: (2 f s' A')
      have b': "blocks_ok h (insert (node_of h f, sz) live) L (insert (f, size_order sz) B)"
        using b z 2 unfolding blocks_ok_def by (fastforce split: if_splits)
      have fresh: "node_of h f \<notin> fst ` live"
      proof
        assume "node_of h f \<in> fst ` live"
        then obtain m where m: "(node_of h f, m) \<in> live" by auto
        have x: "node_of h f \<in> region (node_of h f) (unat m)" using region_self blocks_okD(1) [OF b m] by (auto simp: unat_gt_0)
        obtain g where g: "g < 2 ^ 52" "SPALLOC_PAGE_OF (node_of h f) = node_of h g" "if m \<le> MAX_CLASS then g \<in> P (class_of m) \<and> (g, 0) \<in> A
           else \<exists>f'. node_of h f = node_of h f' \<and> (f', size_order m) \<in> B \<and> g \<in> fr (f', size_order m)"
          using region_frames [OF k b m x] by blast
        have "SPALLOC_PAGE_OF (node_of h f) = node_of h f"
          using page_of(1) [OF node_aligned [OF km_pagesD(1) [OF k] r(5)], of 0] by simp
        hence "g = f" using g(1,2) node_of_inj [OF g(1) r(5)] by simp
        hence "\<exists>a \<in> A. f \<in> fr a" using g(3) km_pagesD(7) [OF k] by (cases "m \<le> MAX_CLASS") (force, metis subset_iff)
        moreover have "f \<in> fr (f, size_order sz)" by simp
        ultimately show False using r(3) by blast
      qed
      hence "inj_on fst (insert (node_of h f, sz) live)" using inj by (auto simp: inj_on_def image_iff)
      thus ?case using r(1,2,4) b' fresh unfolding km_inv_def by blast
    qed simp
  next
    case 3
    hence "kmalloc h sz s = Inl OutOfBounds" using z by (auto simp: kmalloc_def buddy_allocate_def pop_order_def)
    thus ?thesis using 3 by simp
  qed
qed

lemma km_inv_kfree:
  assumes i: "km_inv h M s live" and p: "(p, sz) \<in> live"
  shows "\<exists>s'. kfree h p sz s = Inr s' \<and> km_inv h M s' (live - {(p, sz)})"
proof -
  obtain A P L B where k: "km_pages h M s A P L B" and b: "blocks_ok h live L B" and inj: "inj_on fst live"
    using i unfolding km_inv_def by blast
  have ne: "q \<noteq> p" if "(q, m) \<in> live - {(p, sz)}" for q m using inj that p by (fastforce simp: inj_on_def)
  have inj': "inj_on fst (live - {(p, sz)})" using inj by (rule inj_on_subset) blast
  show ?thesis
  proof (cases "sz \<le> MAX_CLASS")
    case True
    obtain s' A' P' where s': "kfree h p sz s = Inr s'" "km_pages h M s' A' P' (L(class_of sz := L (class_of sz) - {p})) B"
      using kfree_small [OF k blocks_okD(1) [OF b p] True blocks_okD(3) [OF b p True]] by blast
    have "blocks_ok h (live - {(p, sz)}) (L(class_of sz := L (class_of sz) - {p})) B"
      using b ne unfolding blocks_ok_def by (fastforce split: if_splits)
    thus ?thesis using s' inj' unfolding km_inv_def by blast
  next
    case False
    obtain f where f: "p = node_of h f" "(f, size_order sz) \<in> B" using blocks_okD(4) [OF b p False] by blast
    obtain s' A' where s': "kfree h p sz s = Inr s'" "km_pages h M s' A' P L (B - {(f, size_order sz)})"
      using kfree_big [OF k False f(2)] f(1) by blast
    have "blocks_ok h (live - {(p, sz)}) L (B - {(f, size_order sz)})"
      unfolding blocks_ok_def
    proof (rule ballI)
      fix x assume "x \<in> live - {(p, sz)}"
      moreover obtain q m where x: "x = (q, m)" by (cases x)
      ultimately have "(q, m) \<in> live - {(p, sz)}" by simp
      hence m: "(q, m) \<in> live" "q \<noteq> p" using ne by blast+
      show "case x of (q, m) \<Rightarrow> m \<noteq> 0 \<and> unat m \<le> 2 ^ 64 - 4096 \<and>
          (if m \<le> MAX_CLASS then q \<in> L (class_of m) else \<exists>f'. q = node_of h f' \<and> (f', size_order m) \<in> B - {(f, size_order sz)})"
        using blocks_okD [OF b m(1)] m(2) f(1) unfolding x by (cases "m \<le> MAX_CLASS") auto
    qed
    thus ?thesis using s' inj' unfolding km_inv_def by blast
  qed
qed

lemma init_classes_nth:
  "init_classes n cs = Inr cs' \<Longrightarrow> length cs' = length cs + n \<and> (\<forall>i < length cs. cs' ! i = cs ! i) \<and>
    (\<forall>i < n. spalloc_init (push_bit (MIN_SHIFT + (length cs + i)) 1) 16 = Inr (cs' ! (length cs + i)))"
proof (induction n arbitrary: cs)
  case (Suc n)
  obtain al where al: "spalloc_init (push_bit (MIN_SHIFT + length cs) 1) 16 = Inr al" "init_classes n (cs @ [al]) = Inr cs'"
    using Suc.prems by (cases "spalloc_init (push_bit (MIN_SHIFT + length cs) 1) 16") auto
  note ih = Suc.IH [OF al(2)]
  have "spalloc_init (push_bit (MIN_SHIFT + (length cs + i)) 1) 16 = Inr (cs' ! (length cs + i))" if "i < Suc n" for i
    using ih al(1) that by (cases i) (auto simp: nth_append)
  thus ?case using ih by (auto simp: nth_append)
qed simp

lemma km_inv_init:
  assumes h: "hhdm_ok h M" and r: "buddy_reach h M A (pmm (km_heap s))" and s: "malloc_init s = Inr s'"
  shows "km_inv h M s' {}"
proof -
  obtain cs where cs: "init_classes 8 [] = Inr cs" "s' = s\<lparr>kmalloc_classes := cs\<rparr>"
    using s by (cases "init_classes 8 []") (auto simp: malloc_init_def km_consts)
  have n: "length cs = 8" "\<And>i. i < 8 \<Longrightarrow> spalloc_init (push_bit (MIN_SHIFT + i) 1) 16 = Inr (cs ! i)"
    using init_classes_nth [OF cs(1)] by (simp_all only: list.size add_0)
  have "class_ok h A (\<lambda>_. {}) (\<lambda>_. {}) s' i" if "i < 8" for i
  proof -
    note a = n(2) [OF that]
    have e: "cs ! i = (cs ! i)\<lparr>partial_list := partial_list (cs ! i)\<rparr>" by simp
    have "sp_inv h A (cs ! i) (km_heap s) {} {} {}" using spalloc_init_ok(1,2) [OF a] by (simp add: sp_inv_def)
    thus ?thesis unfolding class_ok_def cs(2) using a e by (simp, metis)
  qed
  hence "km_pages h M s' A (\<lambda>_. {}) (\<lambda>_. {}) {}" using h r n(1) unfolding km_pages_def hhdm_ok_def cs(2) by simp
  moreover have "blocks_ok h {} (\<lambda>_. {}) {}" by (simp add: blocks_ok_def)
  ultimately show ?thesis unfolding km_inv_def by blast
qed

lemma km_reach_inv: "km_reach h M s live \<Longrightarrow> hhdm_ok h M \<Longrightarrow> km_inv h M s live"
proof (induction rule: km_reach.induct)
  case (alloc s live sz p s')
  thus ?case using km_inv_kmalloc [of h M s live sz] by auto
next
  case (release s live p sz s')
  thus ?case using km_inv_kfree [of h M s live p sz] by auto
qed (rule km_inv_init)

text \<open>\<^verbatim>\<open>malloc_init\<close> meets the requirements of the object allocator for every class.\<close>

lemma malloc_init_succeeds: "\<exists>s'. malloc_init s = Inr s'"
proof -
  have "case init_classes 8 [] of Inl _ \<Rightarrow> False | Inr cs \<Rightarrow> True" by code_simp
  thus ?thesis by (cases "init_classes 8 []") (auto simp: malloc_init_def km_consts)
qed

text \<open>
  C39. Whatever blocks the kernel allocates with \<^verbatim>\<open>kmalloc\<close> and releases with \<^verbatim>\<open>kfree\<close>, small ones from the eight object
  allocators and large ones from the page allocator below them, the live blocks never overlap: no byte of the size
  asked for is in two of them. A live block can be released; an allocation returns a block at a new address, panics
  when memory is exhausted, or asks for a block beyond the largest order.
\<close>

theorem kmalloc_blocks_disjoint:
  assumes "hhdm_ok h M" "km_reach h M s live"
  shows "(\<forall>(p, n) \<in> live. \<forall>(q, m) \<in> live. (p, n) \<noteq> (q, m) \<longrightarrow> region p (unat n) \<inter> region q (unat m) = {}) \<and>
    (\<forall>(p, n) \<in> live. \<exists>s'. kfree h p n s = Inr s' \<and> km_reach h M s' (live - {(p, n)})) \<and>
    (\<forall>n. n \<noteq> 0 \<longrightarrow> unat n \<le> 2 ^ 64 - 4096 \<longrightarrow>
      (\<exists>p s'. kmalloc h n s = Inr (p, s') \<and> p \<noteq> 0 \<and> p \<notin> fst ` live \<and> km_reach h M s' (insert (p, n) live)) \<or>
      kmalloc h n s = Inl Panicked \<or> size_order n > MAX_ORDER \<and> kmalloc h n s = Inl OutOfBounds)"
proof (intro conjI)
  have i: "km_inv h M s live" using km_reach_inv [OF assms(2,1)] .
  then obtain A P L B where k: "km_pages h M s A P L B" "blocks_ok h live L B" and inj: "inj_on fst live"
    unfolding km_inv_def by blast
  show "\<forall>(p, n) \<in> live. \<forall>(q, m) \<in> live. (p, n) \<noteq> (q, m) \<longrightarrow> region p (unat n) \<inter> region q (unat m) = {}"
    using live_regions_disjoint [OF k] inj by (fastforce simp: inj_on_def)
  show "\<forall>(p, n) \<in> live. \<exists>s'. kfree h p n s = Inr s' \<and> km_reach h M s' (live - {(p, n)})"
    using km_inv_kfree [OF i] km_reach.release [OF assms(2)] by blast
  show "\<forall>n. n \<noteq> 0 \<longrightarrow> unat n \<le> 2 ^ 64 - 4096 \<longrightarrow>
      (\<exists>p s'. kmalloc h n s = Inr (p, s') \<and> p \<noteq> 0 \<and> p \<notin> fst ` live \<and> km_reach h M s' (insert (p, n) live)) \<or>
      kmalloc h n s = Inl Panicked \<or> size_order n > MAX_ORDER \<and> kmalloc h n s = Inl OutOfBounds"
    using km_inv_kmalloc [OF i] km_reach.alloc [OF assms(2)] by metis
qed

text \<open>A block of 100 bytes in a system with four pages.\<close>

definition km0 :: kmem where
  "km0 = (case malloc_init \<lparr>kmalloc_classes = [], km_heap = \<lparr>headers = \<lambda>_. \<lparr>ph_magic = 0, ph_freecount = 0, ph_free_objs = []\<rparr>,
     pmm = buddy1\<rparr>, km_headers = \<lambda>_. \<lparr>mh_magic = 0, mh_offset = 0, mh_size = 0\<rparr>\<rparr> of Inr s \<Rightarrow> s)"

lemma km0_reach: "km_reach 0 {256..<260} km0 {}"
proof -
  let ?s = "\<lparr>kmalloc_classes = [], km_heap = \<lparr>headers = \<lambda>_. \<lparr>ph_magic = 0, ph_freecount = 0, ph_free_objs = []\<rparr>,
     pmm = buddy1\<rparr>, km_headers = \<lambda>_. \<lparr>mh_magic = 0, mh_offset = 0, mh_size = 0\<rparr>\<rparr>"
  obtain s where s: "malloc_init ?s = Inr s" using malloc_init_succeeds by blast
  hence "km_reach 0 {256..<260} s {}" using km_reach.init [of 0 "{256..<260}" "{}" ?s s] reach1 by simp
  thus ?thesis using s by (simp add: km0_def)
qed

lemma hhdm0: "hhdm_ok 0 {256..<260}"
proof -
  have "node_of 0 f \<noteq> 0" if "f \<in> {256..<260}" for f
    using that pa_inj [of f 0] by (auto simp: node_of_def TO_HHDM_def pa_def)
  thus ?thesis by (simp add: hhdm_ok_def IS_ALIGNED_def)
qed

definition km1 :: kmem where
  "km1 = (case kmalloc 0 100 km0 of Inr (p, s) \<Rightarrow> s)"

lemma km1_run: "kmalloc 0 100 km0 = Inr (0x100f20, km1)"
proof -
  have "case kmalloc 0 100 km0 of Inr (p, s) \<Rightarrow> p = 0x100f20 | Inl _ \<Rightarrow> False" by code_simp
  thus ?thesis by (cases "kmalloc 0 100 km0") (auto simp: km1_def)
qed

theorem kmalloc_blocks_disjoint_witness:
  "\<exists>s'. kfree 0 0x100f20 100 km1 = Inr s' \<and> km_reach 0 {256..<260} s' {}"
  using kmalloc_blocks_disjoint [OF hhdm0 km_reach.alloc [OF km0_reach _ _ km1_run]] by auto

section \<open>Headers\<close>

text \<open>\<^verbatim>\<open>free\<close> finds the block and the size in the header that \<^verbatim>\<open>malloc\<close> and \<^verbatim>\<open>malloc_aligned\<close> wrote; the offset fits its
  32-bit field when the alignment does.\<close>

lemma kmalloc_headers: "kmalloc h sz s = Inr (p, s') \<Longrightarrow> km_headers s' = km_headers s"
  by (auto simp: kmalloc_def Let_def ebind_def split: if_splits sum.splits)

lemma free_malloc:
  assumes "malloc h sz s = Inr (p, s')" "p \<noteq> 0"
  shows "free h p s' = kfree h (p - 16) (sz + 16) s'"
  using assms by (auto simp: malloc_def free_def ebind_def Let_def kassert_def split: if_splits sum.splits)

lemma free_malloc_aligned:
  assumes m: "malloc_aligned h sz align s = Inr (p, s')" "p \<noteq> 0"
  obtains raw s1 where "kmalloc h (sz + 16 + max 16 align - 1) s = Inr (raw, s1)" "p = ALIGN_UP (raw + 16) (max 16 align)"
    "unat (p - 16 - raw) < 2 ^ 32 \<Longrightarrow> free h p s' = kfree h raw (sz + 16 + max 16 align - 1) s'"
proof -
  let ?al = "if align < 16 then 16 else align"
  have e: "?al = max 16 align" by (auto simp: max_def)
  obtain raw s1 where r: "kmalloc h (sz + 16 + ?al - 1) s = Inr (raw, s1)" "raw \<noteq> 0" "p = ALIGN_UP (raw + 16) ?al"
      "s' = s1\<lparr>km_headers := (km_headers s1)(p - 16 := \<lparr>mh_magic = MAGIC, mh_offset = ucast (p - 16 - raw), mh_size = sz + 16 + ?al - 1\<rparr>)\<rparr>"
    using m unfolding malloc_aligned_def Let_def kassert_def ebind_def by (auto split: if_splits sum.splits)
  have "ucast (ucast (p - 16 - raw) :: u32) = p - 16 - raw" if "unat (p - 16 - raw) < 2 ^ 32"
    using that by (simp add: word_unat_eq_iff unsigned_ucast_eq unsigned_take_bit_eq take_bit_nat_eq_self)
  hence "unat (p - 16 - raw) < 2 ^ 32 \<Longrightarrow> free h p s' = kfree h raw (sz + 16 + ?al - 1) s'"
    using m(2) unfolding free_def Let_def kassert_def r(4) by simp
  thus ?thesis using that r(1,3) unfolding e by blast
qed

end
