(* ===== verification/Nanoprintf.thy ===== *)
theory Nanoprintf
  imports Prelude LibMath
begin

unbundle bit_operations_syntax

text \<open>
  The formatted printing of the kernel: \<^verbatim>\<open>npf_parse_format_spec\<close>, \<^verbatim>\<open>npf_utoa_rev\<close>, \<^verbatim>\<open>npf_vpprintf\<close> and
  \<^verbatim>\<open>npf_vsnprintf\<close> of \<^verbatim>\<open>kernel/deps/nanoprintf.h\<close> in the configuration that \<^verbatim>\<open>kernel/src/libc/stdio.c\<close>
  selects (no floating point, everything else enabled), and \<^verbatim>\<open>printf\<close>, \<^verbatim>\<open>snprintf\<close> and
  \<^verbatim>\<open>internal_putc\<close> of that file.

  A C string is the list of its characters before the terminating zero. A \<^verbatim>\<open>va_list\<close> is the list of the
  arguments that are left, each tagged with the promoted type it was passed with; reading one at another
  type, or one more than were passed, is undefined behaviour and gives \<open>Undefined\<close>, as do the signed
  overflows the code can run into. A write beyond the conversion buffer gives \<open>OutOfBounds\<close>.
\<close>

section \<open>Format specifications\<close>

datatype npf_opt = NPF_FMT_SPEC_OPT_NONE | NPF_FMT_SPEC_OPT_LITERAL | NPF_FMT_SPEC_OPT_STAR

datatype npf_len_mod =
    NPF_FMT_SPEC_LEN_MOD_NONE
  | NPF_FMT_SPEC_LEN_MOD_SHORT
  | NPF_FMT_SPEC_LEN_MOD_CHAR
  | NPF_FMT_SPEC_LEN_MOD_LONG
  | NPF_FMT_SPEC_LEN_MOD_LONG_DOUBLE
  | NPF_FMT_SPEC_LEN_MOD_LARGE_LONG_LONG
  | NPF_FMT_SPEC_LEN_MOD_LARGE_INTMAX
  | NPF_FMT_SPEC_LEN_MOD_LARGE_SIZET
  | NPF_FMT_SPEC_LEN_MOD_LARGE_PTRDIFFT

datatype npf_conv_spec =
    NPF_FMT_SPEC_CONV_NONE
  | NPF_FMT_SPEC_CONV_PERCENT
  | NPF_FMT_SPEC_CONV_CHAR
  | NPF_FMT_SPEC_CONV_STRING
  | NPF_FMT_SPEC_CONV_SIGNED_INT
  | NPF_FMT_SPEC_CONV_BINARY
  | NPF_FMT_SPEC_CONV_OCTAL
  | NPF_FMT_SPEC_CONV_HEX_INT
  | NPF_FMT_SPEC_CONV_UNSIGNED_INT
  | NPF_FMT_SPEC_CONV_POINTER
  | NPF_FMT_SPEC_CONV_WRITEBACK

text \<open>The character 0 in \<^verbatim>\<open>prepend\<close> (no sign character) is \<open>None\<close>; \<^verbatim>\<open>int\<close> fields are integers whose
  bounds the operations check.\<close>

record npf_format_spec =
  field_width :: int
  prec :: int
  prec_opt :: npf_opt
  field_width_opt :: npf_opt
  left_justified :: bool
  leading_zero_pad :: bool
  prepend :: "char option"
  alt_form :: bool
  case_adjust :: nat
  length_modifier :: npf_len_mod
  conv_spec :: npf_conv_spec

definition npf_spec0 :: npf_format_spec where
  "npf_spec0 =
    \<lparr> field_width = 0, prec = 0, prec_opt = NPF_FMT_SPEC_OPT_NONE, field_width_opt = NPF_FMT_SPEC_OPT_NONE,
      left_justified = False, leading_zero_pad = False, prepend = None, alt_form = False, case_adjust = 32,
      length_modifier = NPF_FMT_SPEC_LEN_MOD_NONE, conv_spec = NPF_FMT_SPEC_CONV_NONE \<rparr>"

definition INT_MAX :: int where
  "INT_MAX = 2147483647"

text \<open>The optional flags after the percent sign.\<close>

fun npf_parse_flags :: "npf_format_spec \<Rightarrow> string \<Rightarrow> npf_format_spec \<times> string" where
  "npf_parse_flags fs [] = (fs, [])"
| "npf_parse_flags fs (c # cur) =
    (if c = CHR ''-'' then npf_parse_flags (fs\<lparr>left_justified := True\<rparr>) cur
     else if c = CHR ''0'' then npf_parse_flags (fs\<lparr>leading_zero_pad := True\<rparr>) cur
     else if c = CHR ''+'' then npf_parse_flags (fs\<lparr>prepend := Some (CHR ''+'')\<rparr>) cur
     else if c = CHR '' '' then
       npf_parse_flags (if prepend fs = None then fs\<lparr>prepend := Some (CHR '' '')\<rparr> else fs) cur
     else if c = CHR ''#'' then npf_parse_flags (fs\<lparr>alt_form := True\<rparr>) cur
     else (fs, c # cur))"

definition npf_isdigit :: "char \<Rightarrow> bool" where
  "npf_isdigit c = (48 \<le> (of_char c :: nat) \<and> (of_char c :: nat) \<le> 57)"

fun npf_parse_digits :: "int \<Rightarrow> string \<Rightarrow> (int \<times> string) result" where
  "npf_parse_digits n [] = Inr (n, [])"
| "npf_parse_digits n (c # cur) =
    (if npf_isdigit c then
       (let n' = n * 10 + (int (of_char c) - 48)
        in if n' \<le> INT_MAX then npf_parse_digits n' cur else Inl Undefined)
     else Inr (n, c # cur))"

definition npf_parse_width :: "npf_format_spec \<Rightarrow> string \<Rightarrow> (npf_format_spec \<times> string) result" where
  "npf_parse_width fs cur =
    (if take 1 cur = ''*'' then
       Inr (fs\<lparr>field_width := 0, field_width_opt := NPF_FMT_SPEC_OPT_STAR\<rparr>, tl cur)
     else
       ebind (npf_parse_digits 0 cur) (\<lambda>(n, rest).
         Inr (fs\<lparr>field_width := n,
                field_width_opt := (if list_ex npf_isdigit (take 1 cur) then NPF_FMT_SPEC_OPT_LITERAL
                                    else NPF_FMT_SPEC_OPT_NONE)\<rparr>, rest)))"

definition npf_parse_prec :: "npf_format_spec \<Rightarrow> string \<Rightarrow> (npf_format_spec \<times> string) result" where
  "npf_parse_prec fs cur =
    (let fs = fs\<lparr>prec := 0, prec_opt := NPF_FMT_SPEC_OPT_NONE\<rparr>
     in if take 1 cur = ''.'' then
          (let cur = tl cur
           in if take 1 cur = ''*'' then Inr (fs\<lparr>prec_opt := NPF_FMT_SPEC_OPT_STAR\<rparr>, tl cur)
              else
                (let minus = (take 1 cur = ''-'');
                     cur = (if minus then tl cur else cur);
                     fs = (if minus then fs else fs\<lparr>prec_opt := NPF_FMT_SPEC_OPT_LITERAL\<rparr>)
                 in ebind (npf_parse_digits 0 cur) (\<lambda>(n, rest). Inr (fs\<lparr>prec := n\<rparr>, rest))))
        else Inr (fs, cur))"

definition npf_parse_length :: "string \<Rightarrow> npf_len_mod \<times> string" where
  "npf_parse_length cur =
    (if take 1 cur = ''h'' then
       (if take 1 (tl cur) = ''h'' then (NPF_FMT_SPEC_LEN_MOD_CHAR, tl (tl cur))
        else (NPF_FMT_SPEC_LEN_MOD_SHORT, tl cur))
     else if take 1 cur = ''l'' then
       (if take 1 (tl cur) = ''l'' then (NPF_FMT_SPEC_LEN_MOD_LARGE_LONG_LONG, tl (tl cur))
        else (NPF_FMT_SPEC_LEN_MOD_LONG, tl cur))
     else if take 1 cur = ''j'' then (NPF_FMT_SPEC_LEN_MOD_LARGE_INTMAX, tl cur)
     else if take 1 cur = ''z'' then (NPF_FMT_SPEC_LEN_MOD_LARGE_SIZET, tl cur)
     else if take 1 cur = ''t'' then (NPF_FMT_SPEC_LEN_MOD_LARGE_PTRDIFFT, tl cur)
     else (NPF_FMT_SPEC_LEN_MOD_NONE, cur))"

definition npf_parse_conv :: "npf_format_spec \<Rightarrow> char \<Rightarrow> npf_format_spec option" where
  "npf_parse_conv fs c =
    (if c = CHR ''%'' then Some (fs\<lparr>conv_spec := NPF_FMT_SPEC_CONV_PERCENT\<rparr>)
     else if c = CHR ''c'' then Some (fs\<lparr>conv_spec := NPF_FMT_SPEC_CONV_CHAR\<rparr>)
     else if c = CHR ''s'' then Some (fs\<lparr>conv_spec := NPF_FMT_SPEC_CONV_STRING\<rparr>)
     else if c = CHR ''i'' \<or> c = CHR ''d'' then Some (fs\<lparr>conv_spec := NPF_FMT_SPEC_CONV_SIGNED_INT\<rparr>)
     else if c = CHR ''o'' then Some (fs\<lparr>conv_spec := NPF_FMT_SPEC_CONV_OCTAL\<rparr>)
     else if c = CHR ''u'' then Some (fs\<lparr>conv_spec := NPF_FMT_SPEC_CONV_UNSIGNED_INT\<rparr>)
     else if c = CHR ''X'' then Some (fs\<lparr>case_adjust := 0, conv_spec := NPF_FMT_SPEC_CONV_HEX_INT\<rparr>)
     else if c = CHR ''x'' then Some (fs\<lparr>conv_spec := NPF_FMT_SPEC_CONV_HEX_INT\<rparr>)
     else if c = CHR ''n'' then Some (fs\<lparr>conv_spec := NPF_FMT_SPEC_CONV_WRITEBACK\<rparr>)
     else if c = CHR ''p'' then Some (fs\<lparr>conv_spec := NPF_FMT_SPEC_CONV_POINTER\<rparr>)
     else if c = CHR ''B'' then Some (fs\<lparr>case_adjust := 0, conv_spec := NPF_FMT_SPEC_CONV_BINARY\<rparr>)
     else if c = CHR ''b'' then Some (fs\<lparr>conv_spec := NPF_FMT_SPEC_CONV_BINARY\<rparr>)
     else None)"

text \<open>The argument is the text after the percent sign. \<open>Inr None\<close> is the return value 0, no specification;
  otherwise the result carries the text behind the specification, which is the format pointer
  advanced by the returned length.\<close>

definition npf_parse_format_spec :: "string \<Rightarrow> (npf_format_spec \<times> string) option result" where
  "npf_parse_format_spec format =
    (let (fs, cur) = npf_parse_flags npf_spec0 format
     in ebind (npf_parse_width fs cur) (\<lambda>(fs, cur).
        ebind (npf_parse_prec fs cur) (\<lambda>(fs, cur).
          (let (lm, cur) = npf_parse_length cur
           in case cur of
                [] \<Rightarrow> Inr None
              | c # rest \<Rightarrow>
                  (case npf_parse_conv (fs\<lparr>length_modifier := lm\<rparr>) c of
                     None \<Rightarrow> Inr None
                   | Some fs \<Rightarrow> Inr (Some (fs, rest)))))))"

section \<open>Conversions\<close>

text \<open>\<^verbatim>\<open>npf_utoa_rev\<close> fills the buffer with the digits, the least significant one first; the list is the
  part of the buffer it has written.\<close>

definition npf_digit :: "nat \<Rightarrow> nat \<Rightarrow> char" where
  "npf_digit case_adj d = char_of ((if d < 10 then 48 else 65 - 10 + case_adj) + d)"

function npf_utoa_rev :: "nat \<Rightarrow> nat \<Rightarrow> nat \<Rightarrow> string" where
  "npf_utoa_rev val base case_adj =
    npf_digit case_adj (val mod base) #
      (if base < 2 \<or> val div base = 0 then [] else npf_utoa_rev (val div base) base case_adj)"

  by pat_completeness auto
termination
  by (relation "measure (\<lambda>(val, _). val)") (auto simp: div_greater_zero_iff intro!: div_less_dividend)

declare npf_utoa_rev.simps [simp del]

definition npf_bin_len :: "u64 \<Rightarrow> nat" where
  "npf_bin_len u = (if u = 0 then 1 else 64 - clzll u)"

datatype va_arg = VInt u32 | VLong u64 | VStr "string option" | VRef nat

type_synonym va_list = "va_arg list"

fun va_int :: "va_list \<Rightarrow> (u32 \<times> va_list) result" where
  "va_int (VInt i # args) = Inr (i, args)"
| "va_int args = Inl Undefined"

fun va_long :: "va_list \<Rightarrow> (u64 \<times> va_list) result" where
  "va_long (VLong w # args) = Inr (w, args)"
| "va_long args = Inl Undefined"

fun va_str :: "va_list \<Rightarrow> (string option \<times> va_list) result" where
  "va_str (VStr s # args) = Inr (s, args)"
| "va_str args = Inl Undefined"

fun va_ref :: "va_list \<Rightarrow> (nat \<times> va_list) result" where
  "va_ref (VRef r # args) = Inr (r, args)"
| "va_ref args = Inl Undefined"

text \<open>The arguments given for \<^verbatim>\<open>*\<close>, extracted before the value.\<close>

definition npf_star_width :: "npf_format_spec \<Rightarrow> va_list \<Rightarrow> (npf_format_spec \<times> va_list) result" where
  "npf_star_width fs args =
    (if field_width_opt fs = NPF_FMT_SPEC_OPT_STAR then
       ebind (va_int args) (\<lambda>(i, args).
         if sint i < 0 then
           (if - sint i \<le> INT_MAX then Inr (fs\<lparr>field_width := - sint i, left_justified := True\<rparr>, args)
            else Inl Undefined)
         else Inr (fs\<lparr>field_width := sint i\<rparr>, args))
     else Inr (fs, args))"

definition npf_star_prec :: "npf_format_spec \<Rightarrow> va_list \<Rightarrow> (npf_format_spec \<times> va_list) result" where
  "npf_star_prec fs args =
    (if prec_opt fs = NPF_FMT_SPEC_OPT_STAR then
       ebind (va_int args) (\<lambda>(i, args).
         if sint i < 0 then Inr (fs\<lparr>prec := 0, prec_opt := NPF_FMT_SPEC_OPT_NONE\<rparr>, args)
         else Inr (fs\<lparr>prec := sint i\<rparr>, args))
     else Inr (fs, args))"

definition npf_defaults :: "npf_format_spec \<Rightarrow> npf_format_spec" where
  "npf_defaults fs =
    (let fs = (if prec_opt fs = NPF_FMT_SPEC_OPT_NONE \<and> conv_spec fs = NPF_FMT_SPEC_CONV_POINTER
               then fs\<lparr>prec := (8 * 8 + 3) div 4\<rparr> else fs)
     in if prec_opt fs \<noteq> NPF_FMT_SPEC_OPT_NONE then
          (case conv_spec fs of
             NPF_FMT_SPEC_CONV_SIGNED_INT \<Rightarrow> fs\<lparr>leading_zero_pad := False\<rparr>
           | NPF_FMT_SPEC_CONV_OCTAL \<Rightarrow> fs\<lparr>leading_zero_pad := False\<rparr>
           | NPF_FMT_SPEC_CONV_HEX_INT \<Rightarrow> fs\<lparr>leading_zero_pad := False\<rparr>
           | NPF_FMT_SPEC_CONV_UNSIGNED_INT \<Rightarrow> fs\<lparr>leading_zero_pad := False\<rparr>
           | _ \<Rightarrow> fs)
        else fs)"

text \<open>The locals of one conversion: the text (in \<^verbatim>\<open>u.cbuf_mem\<close>, or the caller's string), \<^verbatim>\<open>u.binval\<close>, its
  length, the sign, the letter of the \<^verbatim>\<open>0x\<close> prefix and whether the value is zero.\<close>

record npf_conv =
  cv_fs :: npf_format_spec
  cbuf :: string
  binval :: u64
  cbuf_len :: int
  sign_c :: "char option"
  need_0x :: "char option"
  zero_val :: bool

definition npf_conv0 :: "npf_format_spec \<Rightarrow> npf_conv" where
  "npf_conv0 fs = \<lparr> cv_fs = fs, cbuf = [], binval = 0, cbuf_len = 0, sign_c = None, need_0x = None,
                    zero_val = False \<rparr>"

definition NANOPRINTF_CONVERSION_BUFFER_SIZE :: nat where
  "NANOPRINTF_CONVERSION_BUFFER_SIZE = 23"

definition cbuf_store :: "string \<Rightarrow> npf_conv \<Rightarrow> npf_conv result" where
  "cbuf_store text cv =
    (if length text \<le> NANOPRINTF_CONVERSION_BUFFER_SIZE
     then Inr (cv\<lparr>cbuf := text, cbuf_len := int (length text)\<rparr>) else Inl OutOfBounds)"

definition npf_extract_signed :: "npf_len_mod \<Rightarrow> va_list \<Rightarrow> (int \<times> va_list) result" where
  "npf_extract_signed lm args =
    (case lm of
       NPF_FMT_SPEC_LEN_MOD_NONE \<Rightarrow> ebind (va_int args) (\<lambda>(i, args). Inr (sint i, args))
     | NPF_FMT_SPEC_LEN_MOD_SHORT \<Rightarrow> ebind (va_int args) (\<lambda>(i, args). Inr (sint (ucast i :: u16), args))
     | NPF_FMT_SPEC_LEN_MOD_CHAR \<Rightarrow> ebind (va_int args) (\<lambda>(i, args). Inr (sint (ucast i :: u8), args))
     | NPF_FMT_SPEC_LEN_MOD_LONG_DOUBLE \<Rightarrow> Inr (0, args)
     | _ \<Rightarrow> ebind (va_long args) (\<lambda>(w, args). Inr (sint w, args)))"

definition npf_extract_unsigned :: "npf_format_spec \<Rightarrow> va_list \<Rightarrow> (u64 \<times> va_list) result" where
  "npf_extract_unsigned fs args =
    (if conv_spec fs = NPF_FMT_SPEC_CONV_POINTER then va_long args
     else case length_modifier fs of
       NPF_FMT_SPEC_LEN_MOD_NONE \<Rightarrow> ebind (va_int args) (\<lambda>(i, args). Inr (ucast i, args))
     | NPF_FMT_SPEC_LEN_MOD_SHORT \<Rightarrow> ebind (va_int args) (\<lambda>(i, args). Inr (ucast (ucast i :: u16), args))
     | NPF_FMT_SPEC_LEN_MOD_CHAR \<Rightarrow> ebind (va_int args) (\<lambda>(i, args). Inr (ucast (ucast i :: u8), args))
     | NPF_FMT_SPEC_LEN_MOD_LONG_DOUBLE \<Rightarrow> Inr (0, args)
     | _ \<Rightarrow> va_long args)"

definition npf_conv_signed :: "npf_format_spec \<Rightarrow> va_list \<Rightarrow> (npf_conv \<times> va_list) result" where
  "npf_conv_signed fs args =
    ebind (npf_extract_signed (length_modifier fs) args) (\<lambda>(val, args).
      let cv = (npf_conv0 fs)\<lparr>sign_c := (if val < 0 then Some (CHR ''-'') else prepend fs),
                              zero_val := (val = 0)\<rparr>
      in if val = 0 \<and> prec_opt fs \<noteq> NPF_FMT_SPEC_OPT_NONE \<and> prec fs = 0 then Inr (cv, args)
         else
           (let uval = (word_of_int val :: u64);
                uval = (if val < 0 then 0 - uval else uval)
            in ebind (cbuf_store (npf_utoa_rev (unat uval) 10 (case_adjust fs)) cv) (\<lambda>cv. Inr (cv, args))))"

definition npf_base :: "npf_conv_spec \<Rightarrow> nat" where
  "npf_base conv =
    (if conv = NPF_FMT_SPEC_CONV_OCTAL then 8 else if conv = NPF_FMT_SPEC_CONV_UNSIGNED_INT then 10 else 16)"

text \<open>The digits of an unsigned conversion, before the alternative form.\<close>

definition npf_unsigned_digits :: "npf_format_spec \<Rightarrow> u64 \<Rightarrow> npf_conv result" where
  "npf_unsigned_digits fs val =
    (let cv = (npf_conv0 fs)\<lparr>zero_val := (val = 0)\<rparr>
     in if val = 0 \<and> prec_opt fs \<noteq> NPF_FMT_SPEC_OPT_NONE \<and> prec fs = 0 then
          (if conv_spec fs = NPF_FMT_SPEC_CONV_OCTAL \<and> alt_form fs then Inr (cv\<lparr>cv_fs := fs\<lparr>prec := 1\<rparr>\<rparr>)
           else Inr cv)
        else if conv_spec fs = NPF_FMT_SPEC_CONV_BINARY then
          Inr (cv\<lparr>cbuf_len := int (npf_bin_len val), binval := val\<rparr>)
        else cbuf_store (npf_utoa_rev (unat val) (npf_base (conv_spec fs)) (case_adjust fs)) cv)"

definition npf_alt_form :: "npf_format_spec \<Rightarrow> u64 \<Rightarrow> npf_conv \<Rightarrow> npf_conv result" where
  "npf_alt_form fs val cv =
    (if val \<noteq> 0 \<and> alt_form fs then
       (if conv_spec fs = NPF_FMT_SPEC_CONV_OCTAL then cbuf_store (cbuf cv @ ''0'') cv
        else if conv_spec fs = NPF_FMT_SPEC_CONV_HEX_INT \<or> conv_spec fs = NPF_FMT_SPEC_CONV_POINTER then
          Inr (cv\<lparr>need_0x := Some (char_of (88 + case_adjust fs))\<rparr>)
        else if conv_spec fs = NPF_FMT_SPEC_CONV_BINARY then
          Inr (cv\<lparr>need_0x := Some (char_of (66 + case_adjust fs))\<rparr>)
        else Inr cv)
     else Inr cv)"

definition npf_conv_unsigned :: "npf_format_spec \<Rightarrow> va_list \<Rightarrow> (npf_conv \<times> va_list) result" where
  "npf_conv_unsigned fs args =
    ebind (npf_extract_unsigned fs args) (\<lambda>(val, args).
    ebind (npf_unsigned_digits fs val) (\<lambda>cv.
    ebind (npf_alt_form fs val cv) (\<lambda>cv. Inr (cv, args))))"

definition npf_conv_string :: "npf_format_spec \<Rightarrow> va_list \<Rightarrow> (npf_conv \<times> va_list) result" where
  "npf_conv_string fs args =
    ebind (va_str args) (\<lambda>(s, args).
      let text = (case s of None \<Rightarrow> [] | Some cs \<Rightarrow> cs);
          shown = (if prec_opt fs = NPF_FMT_SPEC_OPT_NONE then text else take (nat (prec fs)) text)
      in Inr ((npf_conv0 fs)\<lparr>cbuf := shown, cbuf_len := int (length shown)\<rparr>, args))"

text \<open>What has been printed, and the values stored by \<^verbatim>\<open>%n\<close>.\<close>

record npf_out =
  out_chars :: string
  out_refs :: "(nat \<times> int) list"

definition npf_writeback :: "npf_len_mod \<Rightarrow> va_list \<Rightarrow> npf_out \<Rightarrow> (va_list \<times> npf_out) result" where
  "npf_writeback lm args out =
    (let n = int (length (out_chars out));
         store = (\<lambda>v. ebind (va_ref args) (\<lambda>(r, args). Inr (args, out\<lparr>out_refs := out_refs out @ [(r, v)]\<rparr>)))
     in case lm of
          NPF_FMT_SPEC_LEN_MOD_SHORT \<Rightarrow> store (sint (word_of_int n :: u16))
        | NPF_FMT_SPEC_LEN_MOD_CHAR \<Rightarrow> store (sint (word_of_int n :: u8))
        | NPF_FMT_SPEC_LEN_MOD_LONG_DOUBLE \<Rightarrow> Inr (args, out)
        | _ \<Rightarrow> store n)"

definition npf_convert :: "npf_format_spec \<Rightarrow> va_list \<Rightarrow> npf_out \<Rightarrow> (npf_conv \<times> va_list \<times> npf_out) result" where
  "npf_convert fs args out =
    (let keep = (\<lambda>r. ebind r (\<lambda>(cv, args). Inr (cv, args, out)))
     in case conv_spec fs of
          NPF_FMT_SPEC_CONV_NONE \<Rightarrow> Inr (npf_conv0 fs, args, out)
        | NPF_FMT_SPEC_CONV_PERCENT \<Rightarrow> Inr ((npf_conv0 fs)\<lparr>cbuf := ''%'', cbuf_len := 1\<rparr>, args, out)
        | NPF_FMT_SPEC_CONV_CHAR \<Rightarrow>
            keep (ebind (va_int args) (\<lambda>(i, args).
              Inr ((npf_conv0 fs)\<lparr>cbuf := [char_of (unat (ucast i :: u8))], cbuf_len := 1\<rparr>, args)))
        | NPF_FMT_SPEC_CONV_STRING \<Rightarrow> keep (npf_conv_string fs args)
        | NPF_FMT_SPEC_CONV_SIGNED_INT \<Rightarrow> keep (npf_conv_signed fs args)
        | NPF_FMT_SPEC_CONV_WRITEBACK \<Rightarrow>
            ebind (npf_writeback (length_modifier fs) args out) (\<lambda>(args, out). Inr (npf_conv0 fs, args, out))
        | _ \<Rightarrow> keep (npf_conv_unsigned fs args))"

section \<open>Printing\<close>

definition npf_pad_c :: "npf_conv \<Rightarrow> char option" where
  "npf_pad_c cv =
    (let fs = cv_fs cv
     in if field_width_opt fs \<noteq> NPF_FMT_SPEC_OPT_NONE then
          (if leading_zero_pad fs \<and> \<not> left_justified fs then
             (if prec_opt fs \<noteq> NPF_FMT_SPEC_OPT_NONE \<and> prec fs = 0 \<and> zero_val cv then Some (CHR '' '')
              else Some (CHR ''0''))
           else Some (CHR '' ''))
        else None)"

definition npf_prec_pad :: "npf_conv \<Rightarrow> int" where
  "npf_prec_pad cv =
    (if conv_spec (cv_fs cv) \<noteq> NPF_FMT_SPEC_CONV_STRING then max 0 (prec (cv_fs cv) - cbuf_len cv) else 0)"

definition npf_field_pad :: "npf_conv \<Rightarrow> int" where
  "npf_field_pad cv =
    max 0 (field_width (cv_fs cv) - cbuf_len cv - (if sign_c cv = None then 0 else 1)
           - (if need_0x cv = None then 0 else 2) - npf_prec_pad cv)"

definition npf_sign :: "npf_conv \<Rightarrow> string" where
  "npf_sign cv = (case sign_c cv of None \<Rightarrow> [] | Some c \<Rightarrow> [c])"

definition npf_0x :: "npf_conv \<Rightarrow> string" where
  "npf_0x cv = (case need_0x cv of None \<Rightarrow> [] | Some x \<Rightarrow> [CHR ''0'', x])"

text \<open>What is printed before the payload, and the sign that is left for the payload to print.\<close>

definition npf_leading :: "npf_conv \<Rightarrow> string \<times> string" where
  "npf_leading cv =
    (case (if left_justified (cv_fs cv) then None else npf_pad_c cv) of
       Some pad_c \<Rightarrow>
         (if pad_c = CHR ''0'' then (npf_sign cv @ npf_0x cv @ replicate (nat (npf_field_pad cv)) pad_c, [])
          else if need_0x cv \<noteq> None then
            (replicate (nat (npf_field_pad cv)) pad_c @ npf_sign cv @ npf_0x cv, [])
          else (replicate (nat (npf_field_pad cv)) pad_c, npf_sign cv))
     | None \<Rightarrow>
         (if need_0x cv \<noteq> None then (npf_sign cv @ npf_0x cv, []) else ([], npf_sign cv)))"

definition npf_payload :: "npf_conv \<Rightarrow> string \<Rightarrow> string" where
  "npf_payload cv sign =
    (if conv_spec (cv_fs cv) = NPF_FMT_SPEC_CONV_STRING then take (nat (cbuf_len cv)) (cbuf cv)
     else
       sign @ replicate (nat (npf_prec_pad cv)) (CHR ''0'') @
       (if conv_spec (cv_fs cv) = NPF_FMT_SPEC_CONV_BINARY then
          map (\<lambda>i. char_of (48 + unat (drop_bit i (binval cv) AND 1))) (rev [0..<nat (cbuf_len cv)])
        else rev (take (nat (cbuf_len cv)) (cbuf cv))))"

definition npf_trailing :: "npf_conv \<Rightarrow> string" where
  "npf_trailing cv =
    (case (if left_justified (cv_fs cv) then npf_pad_c cv else None) of
       Some pad_c \<Rightarrow> replicate (nat (npf_field_pad cv)) pad_c | None \<Rightarrow> [])"

definition npf_render :: "npf_conv \<Rightarrow> string" where
  "npf_render cv =
    (let (lead, sign) = npf_leading cv in lead @ npf_payload cv sign @ npf_trailing cv)"

text \<open>A sequence of \<^verbatim>\<open>NPF_PUTC\<close> calls; each increments the signed counter \<^verbatim>\<open>pc_cnt.n\<close>.\<close>

definition npf_putc_cnt :: "string \<Rightarrow> npf_out \<Rightarrow> npf_out result" where
  "npf_putc_cnt cs out =
    (if int (length (out_chars out) + length cs) \<le> INT_MAX
     then Inr (out\<lparr>out_chars := out_chars out @ cs\<rparr>) else Inl Undefined)"

definition npf_spec_step :: "npf_format_spec \<Rightarrow> va_list \<Rightarrow> npf_out \<Rightarrow> (va_list \<times> npf_out) result" where
  "npf_spec_step fs args out =
    ebind (npf_star_width fs args) (\<lambda>(fs, args).
    ebind (npf_star_prec fs args) (\<lambda>(fs, args).
    ebind (npf_convert (npf_defaults fs) args out) (\<lambda>(cv, args, out).
    ebind (npf_putc_cnt (npf_render cv) out) (\<lambda>out. Inr (args, out)))))"

lemma npf_parse_flags_length: "length (snd (npf_parse_flags fs cur)) \<le> length cur"
  by (induction fs cur rule: npf_parse_flags.induct) auto

lemma npf_parse_digits_length: "npf_parse_digits n cur = Inr (m, rest) \<Longrightarrow> length rest \<le> length cur"
  by (induction n cur rule: npf_parse_digits.induct) (auto simp: Let_def split: if_splits)

lemma npf_parse_width_length: "npf_parse_width fs cur = Inr (fs', rest) \<Longrightarrow> length rest \<le> length cur"
  by (auto simp: npf_parse_width_def ebind_Inr_iff dest: npf_parse_digits_length split: if_splits)

lemma npf_parse_prec_length: "npf_parse_prec fs cur = Inr (fs', rest) \<Longrightarrow> length rest \<le> length cur"
  by (auto simp: npf_parse_prec_def Let_def ebind_Inr_iff dest!: npf_parse_digits_length split: if_splits)

lemma npf_parse_length_length: "length (snd (npf_parse_length cur)) \<le> length cur"
  by (simp add: npf_parse_length_def)

lemma npf_parse_format_spec_length:
  assumes "npf_parse_format_spec format = Inr (Some (fs, rest))"
  shows "length rest < length format"
proof -
  obtain fs1 c1 where 1: "npf_parse_flags npf_spec0 format = (fs1, c1)" by fastforce
  from assms 1 obtain fs2 c2 fs3 c3 where 2: "npf_parse_width fs1 c1 = Inr (fs2, c2)"
    and 3: "npf_parse_prec fs2 c2 = Inr (fs3, c3)"
    by (auto simp: npf_parse_format_spec_def ebind_Inr_iff)
  obtain lm c4 where 4: "npf_parse_length c3 = (lm, c4)" by fastforce
  from assms 1 2 3 4 obtain c where "c4 = c # rest"
    by (auto simp: npf_parse_format_spec_def split: list.splits option.splits)
  then show ?thesis
    using npf_parse_flags_length [of npf_spec0 format] npf_parse_width_length [OF 2]
      npf_parse_prec_length [OF 3] npf_parse_length_length [of c3] 1 4 by simp
qed

text \<open>The loop of \<^verbatim>\<open>npf_vpprintf\<close>: a character that starts no specification is printed as it is.\<close>

function npf_loop :: "string \<Rightarrow> va_list \<Rightarrow> npf_out \<Rightarrow> npf_out result" where
  "npf_loop [] args out = Inr out"
| "npf_loop (c # cur) args out =
    ebind (if c \<noteq> CHR ''%'' then Inr None else npf_parse_format_spec cur) (\<lambda>spec.
      case spec of
        None \<Rightarrow> ebind (npf_putc_cnt [c] out) (\<lambda>out. npf_loop cur args out)
      | Some (fs, rest) \<Rightarrow> ebind (npf_spec_step fs args out) (\<lambda>(args, out). npf_loop rest args out))"
  by pat_completeness auto
termination
  by (relation "measure (\<lambda>(cur, _). length cur)")
    (auto dest: npf_parse_format_spec_length split: if_splits)

text \<open>The characters handed to the output function, in order, and the values stored by \<^verbatim>\<open>%n\<close>; the return
  value \<^verbatim>\<open>pc_cnt.n\<close> is the number of those characters.\<close>

definition npf_vpprintf :: "string \<Rightarrow> va_list \<Rightarrow> npf_out result" where
  "npf_vpprintf format args = npf_loop format args \<lparr> out_chars = [], out_refs = [] \<rparr>"

record npf_bufputc_ctx =
  dst :: string
  blen :: nat
  bcur :: nat

text \<open>A store into the caller's buffer.\<close>

definition buf_store :: "string \<Rightarrow> nat \<Rightarrow> char \<Rightarrow> string result" where
  "buf_store buf i c = (if i < length buf then Inr (buf[i := c]) else Inl OutOfBounds)"

definition npf_bufputc :: "char \<Rightarrow> npf_bufputc_ctx \<Rightarrow> npf_bufputc_ctx result" where
  "npf_bufputc c bpc =
    (if bcur bpc < blen bpc
     then ebind (buf_store (dst bpc) (bcur bpc) c) (\<lambda>buf. Inr (bpc\<lparr>dst := buf, bcur := bcur bpc + 1\<rparr>))
     else Inr bpc)"

definition npf_bufputc_nop :: "char \<Rightarrow> npf_bufputc_ctx \<Rightarrow> npf_bufputc_ctx result" where
  "npf_bufputc_nop c bpc = Inr bpc"

fun put_all :: "(char \<Rightarrow> 'c \<Rightarrow> 'c result) \<Rightarrow> string \<Rightarrow> 'c \<Rightarrow> 'c result" where
  "put_all pc [] ctx = Inr ctx"
| "put_all pc (c # cs) ctx = ebind (pc c ctx) (put_all pc cs)"

text \<open>\<^verbatim>\<open>npf_vsnprintf\<close>: the output function receives the characters one by one, and the terminator goes to the
  smaller of the length of the text and the last index.\<close>

definition npf_vsnprintf :: "string option \<Rightarrow> nat \<Rightarrow> string \<Rightarrow> va_list \<Rightarrow> (nat \<times> string option) result" where
  "npf_vsnprintf buffer bufsz format args =
    ebind (npf_vpprintf format args) (\<lambda>out.
      let n = length (out_chars out)
      in case buffer of
           None \<Rightarrow>
             ebind (put_all npf_bufputc_nop (out_chars out) \<lparr>dst = [], blen = bufsz, bcur = 0\<rparr>) (\<lambda>ctx.
               Inr (n, None))
         | Some b \<Rightarrow>
             ebind (put_all npf_bufputc (out_chars out) \<lparr>dst = b, blen = bufsz, bcur = 0\<rparr>) (\<lambda>ctx.
               if bufsz \<noteq> 0 then ebind (buf_store (dst ctx) (min n (bufsz - 1)) (CHR 0x00)) (\<lambda>b. Inr (n, Some b))
               else Inr (n, Some (dst ctx))))"

section \<open>stdio\<close>

text \<open>The sinks of \<^verbatim>\<open>internal_putc\<close> on x86-64, with the bytes each has been sent: the framebuffer terminal
  (\<open>None\<close> before \<^verbatim>\<open>stdio_init\<close>), the early serial console (\<open>None\<close> when it does not work) and the debug port
  of the hypervisor (\<open>None\<close> on bare hardware).\<close>

record console =
  ft_ctx :: "string option"
  earlycon_serial :: "string option"
  port_e9 :: "string option"

definition crlf :: "char \<Rightarrow> string" where
  "crlf c = (if c = CHR 0x0A then [CHR 0x0D, c] else [c])"

definition internal_putc :: "char \<Rightarrow> console \<Rightarrow> console" where
  "internal_putc c k =
    k\<lparr>ft_ctx := map_option (\<lambda>s. s @ crlf c) (ft_ctx k),
      earlycon_serial := map_option (\<lambda>s. s @ crlf c) (earlycon_serial k),
      port_e9 := map_option (\<lambda>s. s @ [c]) (port_e9 k)\<rparr>"

definition printf :: "string \<Rightarrow> va_list \<Rightarrow> console \<Rightarrow> (nat \<times> console) result" where
  "printf fmt args k =
    ebind (npf_vpprintf fmt args) (\<lambda>out. Inr (length (out_chars out), fold internal_putc (out_chars out) k))"

definition snprintf :: "string option \<Rightarrow> nat \<Rightarrow> string \<Rightarrow> va_list \<Rightarrow> (nat \<times> string option) result" where
  "snprintf buf sz fmt args = ebind (npf_vsnprintf buf sz fmt args) (\<lambda>(n, b). Inr (0, b))"

section \<open>Digits\<close>

text \<open>The value of a digit string, the least significant digit first.\<close>

definition digit_of :: "char \<Rightarrow> nat" where
  "digit_of c = (let n = (of_char c :: nat) in if n < 58 then n - 48 else if n < 91 then n - 55 else n - 87)"

primrec digits_val :: "nat \<Rightarrow> string \<Rightarrow> nat" where
  "digits_val base [] = 0"
| "digits_val base (c # cs) = digit_of c + base * digits_val base cs"

lemma npf_digit_inverse: "d < 16 \<Longrightarrow> a = 0 \<or> a = 32 \<Longrightarrow> digit_of (npf_digit a d) = d"
  by (auto simp: digit_of_def npf_digit_def Let_def)

lemma npf_utoa_rev_val:
  "2 \<le> base \<Longrightarrow> base \<le> 16 \<Longrightarrow> a = 0 \<or> a = 32 \<Longrightarrow> digits_val base (npf_utoa_rev v base a) = v"
proof (induction v base a rule: npf_utoa_rev.induct)
  case (1 v base a)
  have "v mod base < 16" using "1.prems" mod_less_divisor [of base v] by linarith
  then have d: "digit_of (npf_digit a (v mod base)) = v mod base"
    using "1.prems" npf_digit_inverse by blast
  show ?case
  proof (cases "v div base = 0")
    case True
    then show ?thesis using d "1.prems" by (simp add: npf_utoa_rev.simps [of v] div_eq_0_iff)
  next
    case False
    then have "digits_val base (npf_utoa_rev (v div base) base a) = v div base"
      using "1.IH" "1.prems" by auto
    then show ?thesis using d False "1.prems" by (simp add: npf_utoa_rev.simps [of v])
  qed
qed

lemma npf_utoa_rev_length: "v < base ^ Suc k \<Longrightarrow> length (npf_utoa_rev v base a) \<le> Suc k"
proof (induction k arbitrary: v)
  case 0
  then show ?case by (simp add: npf_utoa_rev.simps [of v])
next
  case (Suc k)
  then have "v div base < base ^ Suc k" by (simp add: less_mult_imp_div_less mult.commute)
  from Suc.IH [OF this] show ?case by (simp add: npf_utoa_rev.simps [of v])
qed

lemma npf_utoa_rev_fits:
  "length (npf_utoa_rev (unat (v :: u64)) 8 a) \<le> 22"
  "length (npf_utoa_rev (unat v) 10 a) \<le> 22"
  "length (npf_utoa_rev (unat v) 16 a) \<le> 22"
proof -
  have v: "unat v < 18446744073709551616" using unsigned_less [of v] by simp
  show "length (npf_utoa_rev (unat v) 8 a) \<le> 22"
    by (rule npf_utoa_rev_length [of _ 8 21, simplified]) (use v in simp)
  show "length (npf_utoa_rev (unat v) 10 a) \<le> 22"
    by (rule npf_utoa_rev_length [of _ 10 21, simplified]) (use v in simp)
  show "length (npf_utoa_rev (unat v) 16 a) \<le> 22"
    by (rule npf_utoa_rev_length [of _ 16 21, simplified]) (use v in simp)
qed

section \<open>Errors\<close>

text \<open>\<open>ub_only r\<close>: the computation fails at most by undefined behaviour of the call, never by a write
  outside the conversion buffer.\<close>

definition ub_only :: "'a result \<Rightarrow> bool" where
  "ub_only r = (case r of Inl e \<Rightarrow> e = Undefined | Inr _ \<Rightarrow> True)"

named_theorems ub_intro \<open>steps that fail at most by undefined behaviour\<close>

lemma ub_only_simps [simp]: "ub_only (Inr x)" "ub_only (Inl e) \<longleftrightarrow> e = Undefined"
  by (simp_all add: ub_only_def)

lemma ub_only_ebind: "ub_only r \<Longrightarrow> (\<And>x. r = Inr x \<Longrightarrow> ub_only (f x)) \<Longrightarrow> ub_only (ebind r f)"
  by (cases r) simp_all

lemma va_ub [ub_intro]: "ub_only (va_int args)" "ub_only (va_long args)" "ub_only (va_str args)" "ub_only (va_ref args)"
  subgoal by (cases args rule: va_int.cases) simp_all
  subgoal by (cases args rule: va_long.cases) simp_all
  subgoal by (cases args rule: va_str.cases) simp_all
  subgoal by (cases args rule: va_ref.cases) simp_all
  done

lemma npf_parse_digits_ub [ub_intro]: "ub_only (npf_parse_digits n cur)"
  by (induction n cur rule: npf_parse_digits.induct) (simp_all add: Let_def)

lemma npf_parse_width_ub [ub_intro]: "ub_only (npf_parse_width fs cur)"
  by (auto simp: npf_parse_width_def intro!: ub_only_ebind npf_parse_digits_ub)

lemma npf_parse_prec_ub [ub_intro]: "ub_only (npf_parse_prec fs cur)"
  by (auto simp: npf_parse_prec_def Let_def simp del: One_nat_def intro!: ub_only_ebind npf_parse_digits_ub)

lemma npf_parse_format_spec_ub [ub_intro]: "ub_only (npf_parse_format_spec format)"
  by (auto simp: npf_parse_format_spec_def split: prod.splits list.splits option.splits
      intro!: ub_only_ebind npf_parse_width_ub npf_parse_prec_ub)

lemma npf_star_ub [ub_intro]: "ub_only (npf_star_width fs args)" "ub_only (npf_star_prec fs args)"
  by (auto simp: npf_star_width_def npf_star_prec_def intro!: ub_only_ebind va_ub)

lemma cbuf_store_Inr: "length text \<le> 23 \<Longrightarrow> cbuf_store text cv = Inr (cv\<lparr>cbuf := text, cbuf_len := int (length text)\<rparr>)"
  by (simp add: cbuf_store_def NANOPRINTF_CONVERSION_BUFFER_SIZE_def)

lemma cbuf_store_utoa:
  assumes "base = 8 \<or> base = 10 \<or> base = 16"
  shows "cbuf_store (npf_utoa_rev (unat (v :: u64)) base a) cv =
    Inr (cv\<lparr>cbuf := npf_utoa_rev (unat v) base a, cbuf_len := int (length (npf_utoa_rev (unat v) base a))\<rparr>)"
proof -
  have "length (npf_utoa_rev (unat v) base a) \<le> 22" using assms npf_utoa_rev_fits by auto
  then show ?thesis by (intro cbuf_store_Inr) simp
qed

lemma npf_conv_signed_ub [ub_intro]: "ub_only (npf_conv_signed fs args)"
  by (auto simp: npf_conv_signed_def npf_extract_signed_def Let_def cbuf_store_utoa
      split: npf_len_mod.splits intro!: ub_only_ebind va_ub)

lemma npf_extract_unsigned_ub [ub_intro]: "ub_only (npf_extract_unsigned fs args)"
  by (auto simp: npf_extract_unsigned_def split: npf_len_mod.splits intro!: ub_only_ebind va_ub)

lemma npf_unsigned_digits_cbuf:
  "\<exists>cv. npf_unsigned_digits fs val = Inr cv \<and> length (cbuf cv) \<le> 22"
proof -
  have b: "npf_base (conv_spec fs) = 8 \<or> npf_base (conv_spec fs) = 10 \<or> npf_base (conv_spec fs) = 16"
    by (simp add: npf_base_def)
  then have "length (npf_utoa_rev (unat val) (npf_base (conv_spec fs)) (case_adjust fs)) \<le> 22"
    using npf_utoa_rev_fits [of val "case_adjust fs"] by auto
  then show ?thesis by (auto simp: npf_unsigned_digits_def Let_def npf_conv0_def cbuf_store_utoa [OF b])
qed

lemma npf_conv_unsigned_ub [ub_intro]: "ub_only (npf_conv_unsigned fs args)"
proof -
  have "ub_only (npf_unsigned_digits fs val)" for val
    using npf_unsigned_digits_cbuf [of fs val] by auto
  moreover have "ub_only (npf_alt_form fs val cv)" if "npf_unsigned_digits fs val = Inr cv" for val cv
    using npf_unsigned_digits_cbuf [of fs val] that by (auto simp: npf_alt_form_def cbuf_store_Inr)
  ultimately show ?thesis by (auto simp: npf_conv_unsigned_def intro!: ub_only_ebind npf_extract_unsigned_ub)
qed

lemma npf_convert_ub [ub_intro]: "ub_only (npf_convert fs args out)"
  by (auto simp: npf_convert_def npf_conv_string_def npf_writeback_def Let_def
      split: npf_conv_spec.splits npf_len_mod.splits intro!: ub_only_ebind ub_intro)

lemma npf_putc_cnt_ub [ub_intro]: "ub_only (npf_putc_cnt cs out)"
  by (simp add: npf_putc_cnt_def)

lemma npf_spec_step_ub [ub_intro]: "ub_only (npf_spec_step fs args out)"
  by (auto simp: npf_spec_step_def intro!: ub_only_ebind ub_intro)

lemma npf_loop_ub: "ub_only (npf_loop cur args out)"
proof (induction cur arbitrary: args out rule: length_induct)
  case (1 cur)
  then have IH: "ub_only (npf_loop rest args out)" if "length rest < length cur" for rest args out
    using that by blast
  show ?case
  proof (cases cur)
    case (Cons c cs)
    have "ub_only (npf_loop cs args out)" for args out by (rule IH) (simp add: Cons)
    moreover have "ub_only (npf_loop rest args out)"
      if "npf_parse_format_spec cs = Inr (Some (fs, rest))" for fs rest args out
      by (rule IH) (use npf_parse_format_spec_length [OF that] Cons in simp)
    ultimately show ?thesis
      by (auto simp: Cons split: option.splits if_splits intro!: ub_only_ebind ub_intro)
  qed simp
qed

section \<open>The output buffer\<close>

lemma put_all_bufputc:
  "bcur b \<le> blen b \<Longrightarrow> blen b \<le> length (dst b) \<Longrightarrow>
   \<exists>b'. put_all npf_bufputc cs b = Inr b' \<and>
     dst b' = take (bcur b) (dst b) @ take (blen b - bcur b) cs @
       drop (bcur b + min (length cs) (blen b - bcur b)) (dst b)"
proof (induction cs arbitrary: b)
  case (Cons c cs)
  show ?case
  proof (cases "bcur b < blen b")
    case True
    then obtain k where k: "blen b - bcur b = Suc k" "blen b - Suc (bcur b) = k"
      by (metis Suc_diff_Suc)
    let ?b = "b\<lparr>dst := (dst b)[bcur b := c], bcur := bcur b + 1\<rparr>"
    have "npf_bufputc c b = Inr ?b" using True Cons.prems by (simp add: npf_bufputc_def buf_store_def)
    moreover have "take (Suc (bcur b)) ((dst b)[bcur b := c]) = take (bcur b) (dst b) @ [c]"
      using True Cons.prems by (simp add: take_Suc_conv_app_nth)
    ultimately show ?thesis using True Cons.prems Cons.IH [of ?b] k by simp
  next
    case False
    then show ?thesis using Cons.IH [of b] Cons.prems by (simp add: npf_bufputc_def)
  qed
qed simp

lemma put_all_nop: "put_all npf_bufputc_nop cs b = Inr b"
  by (induction cs) (simp_all add: npf_bufputc_nop_def)

lemma terminate_text:
  assumes "0 < sz" "sz \<le> length buf"
  shows "(take sz cs @ drop (min (length cs) sz) buf)[min (length cs) (sz - 1) := z] =
    take (sz - 1) cs @ [z] @ drop (Suc (min (length cs) (sz - 1))) buf"
proof (cases "length cs < sz")
  case True
  then have "min (length cs) sz = length cs" "min (length cs) (sz - 1) = length cs" "take (sz - 1) cs = cs"
    "take sz cs = cs" by simp_all
  then show ?thesis using assms True by (simp add: list_update_append Cons_nth_drop_Suc [symmetric])
next
  case False
  then obtain k where k: "sz = Suc k" "k < length cs" using assms(1) by (cases sz) auto
  then show ?thesis using False by (simp add: list_update_append take_Suc_conv_app_nth min_def)
qed

text \<open>\<open>fitted sz cs buf\<close>: the buffer after the text has been printed into its first \<open>sz\<close> bytes.\<close>

definition fitted :: "nat \<Rightarrow> string \<Rightarrow> string \<Rightarrow> string" where
  "fitted sz cs buf =
    (if sz = 0 then buf
     else take (sz - 1) cs @ [CHR 0x00] @ drop (Suc (min (length cs) (sz - 1))) buf)"

lemma fitted_length: "sz \<le> length buf \<Longrightarrow> length (fitted sz cs buf) = length buf"
  by (auto simp: fitted_def)

lemma npf_vsnprintf_buffer:
  assumes "npf_vpprintf format args = Inr out" "sz \<le> length buf"
  shows "npf_vsnprintf (Some buf) sz format args =
    Inr (length (out_chars out), Some (fitted sz (out_chars out) buf))"
proof -
  let ?cs = "out_chars out"
  obtain b where "put_all npf_bufputc ?cs \<lparr>dst = buf, blen = sz, bcur = 0\<rparr> = Inr b"
    and "dst b = take sz ?cs @ drop (min (length ?cs) sz) buf"
    using put_all_bufputc [of "\<lparr>dst = buf, blen = sz, bcur = 0\<rparr>" ?cs] assms(2) by auto
  then show ?thesis using assms terminate_text [of sz buf ?cs "CHR 0x00"]
    by (auto simp: npf_vsnprintf_def Let_def buf_store_def fitted_def)
qed

lemma npf_vsnprintf_null:
  "npf_vpprintf format args = Inr out \<Longrightarrow>
   npf_vsnprintf None sz format args = Inr (length (out_chars out), None)"
  by (simp add: npf_vsnprintf_def put_all_nop)

lemma snprintf_buffer:
  "npf_vpprintf format args = Inr out \<Longrightarrow> sz \<le> length buf \<Longrightarrow>
   snprintf (Some buf) sz format args = Inr (0, Some (fitted sz (out_chars out) buf))"
  by (simp add: snprintf_def npf_vsnprintf_buffer)

section \<open>The text of the consoles\<close>

lemma fold_internal_putc:
  "fold internal_putc cs k =
    k\<lparr>ft_ctx := map_option (\<lambda>s. s @ concat (map crlf cs)) (ft_ctx k),
      earlycon_serial := map_option (\<lambda>s. s @ concat (map crlf cs)) (earlycon_serial k),
      port_e9 := map_option (\<lambda>s. s @ cs) (port_e9 k)\<rparr>"
  by (induction cs arbitrary: k) (simp_all add: internal_putc_def option.map_comp comp_def option.map_ident)

lemma printf_text:
  assumes "npf_vpprintf fmt args = Inr out"
  shows "printf fmt args k =
    Inr (length (out_chars out),
         k\<lparr>ft_ctx := map_option (\<lambda>s. s @ concat (map crlf (out_chars out))) (ft_ctx k),
           earlycon_serial := map_option (\<lambda>s. s @ concat (map crlf (out_chars out))) (earlycon_serial k),
           port_e9 := map_option (\<lambda>s. s @ out_chars out) (port_e9 k)\<rparr>)"
  using assms by (simp add: printf_def fold_internal_putc)

text \<open>Plain text is printed as it is.\<close>

lemma npf_loop_plain:
  "CHR ''%'' \<notin> set cur \<Longrightarrow> int (length (out_chars out) + length cur) \<le> INT_MAX \<Longrightarrow>
   npf_loop cur args out = Inr (out\<lparr>out_chars := out_chars out @ cur\<rparr>)"
  by (induction cur arbitrary: out) (auto simp: npf_putc_cnt_def)

text \<open>A conversion without flags, width or precision prints the digits of the value, the most significant
  one first.\<close>

lemma npf_render_digits:
  assumes "field_width_opt fs = NPF_FMT_SPEC_OPT_NONE" "prec fs = 0"
    "conv_spec fs \<notin> {NPF_FMT_SPEC_CONV_STRING, NPF_FMT_SPEC_CONV_BINARY}"
  shows "npf_render ((npf_conv0 fs)\<lparr>sign_c := sg, zero_val := z, cbuf := text, cbuf_len := int (length text)\<rparr>) =
    (case sg of None \<Rightarrow> [] | Some c \<Rightarrow> [c]) @ rev text"
  using assms
  by (simp add: npf_render_def npf_leading_def npf_payload_def npf_trailing_def npf_pad_c_def npf_prec_pad_def
      npf_sign_def npf_conv0_def)

lemma npf_spec_step_digits:
  assumes "field_width_opt fs = NPF_FMT_SPEC_OPT_NONE" "prec_opt fs = NPF_FMT_SPEC_OPT_NONE" "prec fs = 0"
    "conv_spec fs \<in> {NPF_FMT_SPEC_CONV_UNSIGNED_INT, NPF_FMT_SPEC_CONV_HEX_INT, NPF_FMT_SPEC_CONV_OCTAL}"
    "length_modifier fs = NPF_FMT_SPEC_LEN_MOD_LONG" "\<not> alt_form fs"
  shows "npf_spec_step fs (VLong v # args) \<lparr>out_chars = [], out_refs = []\<rparr> =
    Inr (args, \<lparr>out_chars = rev (npf_utoa_rev (unat v) (npf_base (conv_spec fs)) (case_adjust fs)), out_refs = []\<rparr>)"
proof -
  have b: "npf_base (conv_spec fs) \<in> {8, 10, 16}" by (simp add: npf_base_def)
  then have l: "length (npf_utoa_rev (unat v) (npf_base (conv_spec fs)) (case_adjust fs)) \<le> 22"
    using npf_utoa_rev_fits [of v "case_adjust fs"] by auto
  have "npf_defaults fs = fs" using assms by (auto simp: npf_defaults_def)
  moreover have "npf_conv_unsigned fs (VLong v # args) =
      Inr ((npf_conv0 fs)\<lparr>sign_c := None, zero_val := (v = 0),
             cbuf := npf_utoa_rev (unat v) (npf_base (conv_spec fs)) (case_adjust fs),
             cbuf_len := int (length (npf_utoa_rev (unat v) (npf_base (conv_spec fs)) (case_adjust fs)))\<rparr>, args)"
    using assms l
    by (auto simp: npf_conv_unsigned_def npf_extract_unsigned_def npf_unsigned_digits_def npf_alt_form_def
        cbuf_store_Inr npf_conv0_def)
  moreover have "npf_render ((npf_conv0 fs)\<lparr>sign_c := None, zero_val := (v = 0),
             cbuf := npf_utoa_rev (unat v) (npf_base (conv_spec fs)) (case_adjust fs),
             cbuf_len := int (length (npf_utoa_rev (unat v) (npf_base (conv_spec fs)) (case_adjust fs)))\<rparr>) =
      rev (npf_utoa_rev (unat v) (npf_base (conv_spec fs)) (case_adjust fs))"
    using npf_render_digits [of fs, where sg = None] assms by auto
  ultimately show ?thesis
    using assms l
    by (auto simp: npf_spec_step_def npf_star_width_def npf_star_prec_def npf_convert_def npf_putc_cnt_def INT_MAX_def)
qed

lemma npf_vpprintf_digits:
  assumes "npf_parse_format_spec cur = Inr (Some (fs, []))"
    "field_width_opt fs = NPF_FMT_SPEC_OPT_NONE" "prec_opt fs = NPF_FMT_SPEC_OPT_NONE" "prec fs = 0"
    "conv_spec fs \<in> {NPF_FMT_SPEC_CONV_UNSIGNED_INT, NPF_FMT_SPEC_CONV_HEX_INT, NPF_FMT_SPEC_CONV_OCTAL}"
    "length_modifier fs = NPF_FMT_SPEC_LEN_MOD_LONG" "\<not> alt_form fs" "case_adjust fs = 0 \<or> case_adjust fs = 32"
  shows "\<exists>out. npf_vpprintf (CHR ''%'' # cur) [VLong v] = Inr out \<and>
    digits_val (npf_base (conv_spec fs)) (rev (out_chars out)) = unat v"
proof -
  have "2 \<le> npf_base (conv_spec fs)" "npf_base (conv_spec fs) \<le> 16" by (simp_all add: npf_base_def)
  then show ?thesis using assms
    by (simp add: npf_vpprintf_def npf_spec_step_digits npf_utoa_rev_val)
qed

lemmas npf_parse_defs =
  npf_parse_format_spec_def npf_parse_width_def npf_parse_prec_def npf_parse_length_def npf_parse_conv_def
  npf_spec0_def npf_isdigit_def

lemma npf_vpprintf_unsigned:
  "\<exists>out. npf_vpprintf ''%lu'' [VLong v] = Inr out \<and> digits_val 10 (rev (out_chars out)) = unat v"
  "\<exists>out. npf_vpprintf ''%lx'' [VLong v] = Inr out \<and> digits_val 16 (rev (out_chars out)) = unat v"
  "\<exists>out. npf_vpprintf ''%lo'' [VLong v] = Inr out \<and> digits_val 8 (rev (out_chars out)) = unat v"
  using npf_vpprintf_digits [of "''lu''" "npf_spec0\<lparr>length_modifier := NPF_FMT_SPEC_LEN_MOD_LONG,
      conv_spec := NPF_FMT_SPEC_CONV_UNSIGNED_INT\<rparr>" v]
    npf_vpprintf_digits [of "''lx''" "npf_spec0\<lparr>length_modifier := NPF_FMT_SPEC_LEN_MOD_LONG,
      conv_spec := NPF_FMT_SPEC_CONV_HEX_INT\<rparr>" v]
    npf_vpprintf_digits [of "''lo''" "npf_spec0\<lparr>length_modifier := NPF_FMT_SPEC_LEN_MOD_LONG,
      conv_spec := NPF_FMT_SPEC_CONV_OCTAL\<rparr>" v]
  by (simp_all add: npf_parse_defs npf_base_def)

text \<open>C40. Formatted printing is safe and exact. For every format and every argument list the conversion
  buffer of 23 bytes is never overrun: the only failure is undefined behaviour that the call itself asks
  for (an argument of another type than the format names, a number beyond the range of \<^verbatim>\<open>int\<close>).
  \<^verbatim>\<open>npf_vsnprintf\<close> with a size within the buffer writes only inside the buffer, returns the length of the whole
  text, stores the part of it that fits into the size, ends it with a zero byte and leaves every byte behind
  that unchanged; with size zero the buffer is not touched. The digits printed for an unsigned
  64-bit value in base ten, sixteen and eight read back as the value.\<close>

theorem npf_vsnprintf_correct:
  assumes "sz \<le> length buf"
  shows "(case npf_vpprintf format args of
       Inl e \<Rightarrow> e = Undefined \<and> npf_vsnprintf (Some buf) sz format args = Inl Undefined
     | Inr out \<Rightarrow>
         (\<exists>buf'. npf_vsnprintf (Some buf) sz format args = Inr (length (out_chars out), Some buf') \<and>
            length buf' = length buf \<and>
            (if sz = 0 then buf' = buf
             else buf' = take (sz - 1) (out_chars out) @ [CHR 0x00] @
                    drop (Suc (min (length (out_chars out)) (sz - 1))) buf))) \<and>
    (\<exists>out. npf_vpprintf ''%lu'' [VLong v] = Inr out \<and> digits_val 10 (rev (out_chars out)) = unat v) \<and>
    (\<exists>out. npf_vpprintf ''%lx'' [VLong v] = Inr out \<and> digits_val 16 (rev (out_chars out)) = unat v) \<and>
    (\<exists>out. npf_vpprintf ''%lo'' [VLong v] = Inr out \<and> digits_val 8 (rev (out_chars out)) = unat v)"
proof -
  have ub: "ub_only (npf_vpprintf format args)" by (simp add: npf_vpprintf_def npf_loop_ub)
  show ?thesis
  proof (cases "npf_vpprintf format args")
    case (Inl e)
    then show ?thesis using ub npf_vpprintf_unsigned by (simp add: npf_vsnprintf_def Let_def)
  next
    case (Inr out)
    then show ?thesis
      using npf_vpprintf_unsigned npf_vsnprintf_buffer [OF Inr assms] fitted_length [OF assms]
      by (auto simp: fitted_def)
  qed
qed

text \<open>Two decimal numbers into a buffer that is too short for the text.\<close>

lemma npf_vsnprintf_correct_witness:
  "(\<exists>out. npf_vpprintf ''%5d|'' [VInt 42] = Inr out \<and> out_chars out = ''   42|'') \<and>
   npf_vsnprintf (Some ''abcdefgh'') 6 ''%5d|'' [VInt 42] = Inr (6, Some (''   42'' @ [CHR 0x00] @ ''gh''))"
proof -
  have out: "npf_vpprintf ''%5d|'' [VInt 42] = Inr \<lparr>out_chars = ''   42|'', out_refs = []\<rparr>" by code_simp
  show ?thesis
    using npf_vsnprintf_correct [of 6 "''abcdefgh''" "''%5d|''" "[VInt 42]" 7] by (simp add: out)
qed

end
