(* ===== verification/Timer.thy ===== *)
theory Timer
  imports Prelude LibMath
begin

unbundle bit_operations_syntax

text \<open>
  The clocks: the wall clocks of x86-64 (\<^verbatim>\<open>arch/x86_64/timer\<close>) with the extension of short counters and the
  conversion of ticks to nanoseconds, the timer of the local interrupt controller (\<^verbatim>\<open>arch/x86_64/apic/timer.c\<close>), the timers of RISC-V and LoongArch,
  and the paravirtual clocks of KVM and Hyper-V (\<^verbatim>\<open>arch/x86_64/drivers/pvclock\<close>). What the hardware returns (a counter, a register) is an argument; a loop
  that reads it again and again takes the sequence of readings.
\<close>

section \<open>Scaling\<close>

text \<open>The multiplier and the shift of a conversion: the rounded quotient of the shifted numerator and the
  denominator. Every architecture computes its conversions with these three expressions.\<close>

record scale =
  sc_shift :: nat
  sc_mult :: u64

definition make_scale :: "u64 \<Rightarrow> u64 \<Rightarrow> scale result" where
  "make_scale numerator denominator =
    (if denominator = 0 then Inl Undefined
     else
       (let shift = find_reciprocal_shift numerator denominator
        in Inr \<lparr> sc_shift = shift,
                 sc_mult = ucast (push_bit shift (ucast numerator :: u128) div ucast denominator) \<rparr>))"

definition apply_scale :: "scale \<Rightarrow> u128 \<Rightarrow> u64" where
  "apply_scale c x = ucast (drop_bit (sc_shift c) (x * ucast (sc_mult c)))"

section \<open>The clocks of x86-64\<close>

datatype x86_wallclock =
  x86_WALLCLOCK_TSC | x86_WALLCLOCK_ACPI_PMT | x86_WALLCLOCK_HPET | x86_WALLCLOCK_PVCLOCK

definition ACPI_TIMER_FREQUENCY :: u64 where "ACPI_TIMER_FREQUENCY = 3579545"

definition HPET_TIMER_ROLLOVER :: u64 where "HPET_TIMER_ROLLOVER = push_bit 32 1"

definition ACPI_TIMER_ROLLOVER :: u64 where "ACPI_TIMER_ROLLOVER = push_bit 24 1"

definition timer_rollover_point :: "x86_wallclock \<Rightarrow> u64" where
  "timer_rollover_point w = (case w of
     x86_WALLCLOCK_ACPI_PMT \<Rightarrow> ACPI_TIMER_ROLLOVER
   | x86_WALLCLOCK_HPET \<Rightarrow> HPET_TIMER_ROLLOVER
   | x86_WALLCLOCK_TSC \<Rightarrow> 0
   | x86_WALLCLOCK_PVCLOCK \<Rightarrow> 0)"

definition acpi_pmt_get_ticks :: "u32 \<Rightarrow> u32" where
  "acpi_pmt_get_ticks port = port AND 0xFFFFFF"

definition hpet_get_ticks :: "u64 \<Rightarrow> u32" where
  "hpet_get_ticks counter = ucast (counter AND 0xFFFFFFFF)"

definition hpet_get_frequency :: "u64 \<Rightarrow> u64 \<Rightarrow> u64 result" where
  "hpet_get_frequency hpet_vbase hpet_caps =
    (if hpet_vbase = 0 then Inr 0
     else
       (let tick_period = drop_bit 32 hpet_caps
        in if tick_period = 0 then Inl Undefined else Inr (1000000000000000 div tick_period)))"

text \<open>The I/O port of the power management timer from the two fields of the firmware table.\<close>

definition setup_acpi_pmt :: "u64 \<Rightarrow> bool \<Rightarrow> u32 \<Rightarrow> u64 result" where
  "setup_acpi_pmt x_address is_port_io pmTimerBlock =
    (let port = (if x_address \<noteq> 0 then kassert is_port_io (Inr x_address) else Inr (ucast pmTimerBlock))
     in ebind port (\<lambda>io_port. kassert (io_port < 0xFFFF + 1) (kassert (io_port \<noteq> 0) (Inr io_port))))"

text \<open>\<^verbatim>\<open>timer_spin_wait_ms\<close>; the product is computed in \<^verbatim>\<open>int\<close>. \<open>readings n\<close> is the result of the \<open>n\<close>-th read of the counter.\<close>

partial_function (option) pmt_wait :: "(nat \<Rightarrow> u32) \<Rightarrow> u32 \<Rightarrow> u64 \<Rightarrow> nat \<Rightarrow> nat option" where
  "pmt_wait readings start ticks_needed n =
    (if ucast (acpi_pmt_get_ticks (readings n) - start) < ticks_needed
     then pmt_wait readings start ticks_needed (n + 1) else Some (n + 1))"

definition pmt_ticks_needed :: "int \<Rightarrow> u64 result" where
  "pmt_ticks_needed ms =
    (let p = int (unat ACPI_TIMER_FREQUENCY) * ms + 999
     in if \<bar>p\<bar> < 2 ^ 31 then Inr (word_of_int (sgn p * (\<bar>p\<bar> div 1000))) else Inl Undefined)"

definition pmt_spin_wait_ms :: "int \<Rightarrow> (nat \<Rightarrow> u32) \<Rightarrow> nat option result" where
  "pmt_spin_wait_ms ms readings =
    ebind (pmt_ticks_needed ms) (\<lambda>ticks_needed.
      Inr (pmt_wait readings (acpi_pmt_get_ticks (readings 0)) ticks_needed 1))"

text \<open>The frequency of the time stamp counter: from the processor's own description, or the mean of three
  measurements of ten milliseconds.\<close>

definition tsc_from_cpuid :: "u32 \<times> u32 \<times> u32 \<Rightarrow> u64 option" where
  "tsc_from_cpuid r = (case r of (eax, ebx, ecx) \<Rightarrow>
     if eax \<noteq> 0 \<and> ebx \<noteq> 0 \<and> ecx \<noteq> 0 then Some ((ucast ecx * ucast ebx) div ucast eax) else None)"

definition setup_tsc :: "(u32 \<times> u32 \<times> u32) option \<Rightarrow> (u64 \<times> u64) list \<Rightarrow> u64" where
  "setup_tsc info samples =
    (case Option.bind info tsc_from_cpuid of
       Some f \<Rightarrow> f
     | None \<Rightarrow> fold (\<lambda>(start, stop) total. total + (stop - start) * 100) (take 3 samples) 0 div 3)"

record x86_timer =
  current_wallclock :: x86_wallclock
  freq_scale :: scale

text \<open>\<^verbatim>\<open>setup_timers\<close> on the boot processor: the port of the power management timer,
  the first clock that is present, and its conversion to nanoseconds.\<close>

definition setup_timers :: "u64 result \<Rightarrow> bool \<Rightarrow> bool \<Rightarrow> u64 \<Rightarrow> u64 result option \<Rightarrow> x86_timer result" where
  "setup_timers pmt has_pvclock has_invariant_tsc tsc_freq hpet_freq = ebind pmt (\<lambda>io_port.
     if has_pvclock then
       Inr \<lparr> current_wallclock = x86_WALLCLOCK_PVCLOCK, freq_scale = \<lparr> sc_shift = 0, sc_mult = 0 \<rparr> \<rparr>
     else
       (let (w, freq) = (if has_invariant_tsc then (x86_WALLCLOCK_TSC, Inr tsc_freq)
                         else case hpet_freq of
                           Some f \<Rightarrow> (x86_WALLCLOCK_HPET, f)
                         | None \<Rightarrow> (x86_WALLCLOCK_ACPI_PMT, Inr ACPI_TIMER_FREQUENCY))
        in ebind freq (\<lambda>freq. ebind (make_scale 1000000000 freq) (\<lambda>c.
             Inr \<lparr> current_wallclock = w, freq_scale = c \<rparr>))))"

text \<open>The processor's share of the state of the clock, and a read of the ticks: \<open>hw\<close> is what the counter of
  the clock returns.\<close>

record cpu_clock =
  last_tick :: u64
  rollover :: u64

definition timer_get_ticks :: "x86_wallclock \<Rightarrow> u64 \<Rightarrow> cpu_clock \<Rightarrow> u64 \<times> cpu_clock" where
  "timer_get_ticks w hw k = (case w of
     x86_WALLCLOCK_TSC \<Rightarrow> (hw, k)
   | x86_WALLCLOCK_PVCLOCK \<Rightarrow> (0, k)
   | _ \<Rightarrow>
       (let curr_tick = (if w = x86_WALLCLOCK_HPET then ucast (hpet_get_ticks hw)
                         else ucast (acpi_pmt_get_ticks (ucast hw)));
            k = (if curr_tick < last_tick k then k\<lparr>rollover := rollover k + timer_rollover_point w\<rparr> else k);
            k = k\<lparr>last_tick := curr_tick\<rparr>
        in (rollover k + curr_tick, k)))"

definition timer_get_ns :: "x86_timer \<Rightarrow> u64 \<Rightarrow> u64 \<Rightarrow> cpu_clock \<Rightarrow> u64 \<times> cpu_clock" where
  "timer_get_ns tm pv_ns hw k =
    (if current_wallclock tm = x86_WALLCLOCK_PVCLOCK then (pv_ns, k)
     else
       (let (ticks, k) = timer_get_ticks (current_wallclock tm) hw k
        in (apply_scale (freq_scale tm) (ucast ticks), k)))"

text \<open>The timer of the local interrupt controller: its frequency from three countdowns of ten milliseconds,
  and the initial count for a timeout. The register has 32 bits.\<close>

definition calibrate_lapic_timer :: "u32 list \<Rightarrow> scale result" where
  "calibrate_lapic_timer remaining =
    make_scale (fold (\<lambda>r total. total + ucast (0xFFFFFFFF - r) * 100) (take 3 remaining) 0 div 3) 1000"

definition lapic_timeout_ticks :: "scale \<Rightarrow> int \<Rightarrow> u32" where
  "lapic_timeout_ticks c ms = ucast (apply_scale c (word_of_int ms))"

section \<open>RISC-V and LoongArch\<close>

datatype timer_interface =
    TIMER_INTERFACE_UNKNOWN | TIMER_INTERFACE_MODERN_SBI | TIMER_INTERFACE_LEGACY_SBI | TIMER_INTERFACE_STIMECMP

record arch_timer =
  ns_scale :: scale
  tick_scale :: scale

definition riscv64_timer_interface :: "bool \<Rightarrow> bool \<Rightarrow> timer_interface" where
  "riscv64_timer_interface has_extension legacy_works =
    (if has_extension then TIMER_INTERFACE_MODERN_SBI
     else if legacy_works then TIMER_INTERFACE_LEGACY_SBI else TIMER_INTERFACE_UNKNOWN)"

definition riscv64_setup_timer :: "timer_interface \<Rightarrow> u64 \<Rightarrow> arch_timer result" where
  "riscv64_setup_timer type timebase_frequency =
    (if timebase_frequency = 0 then Inl Panicked
     else
       ebind (make_scale 1000000000 timebase_frequency) (\<lambda>f.
       ebind (make_scale timebase_frequency 1000) (\<lambda>t.
         if type = TIMER_INTERFACE_UNKNOWN then Inl Panicked else Inr \<lparr> ns_scale = f, tick_scale = t \<rparr>)))"

definition loongarch64_timer_frequency :: "u32 \<Rightarrow> u32 \<Rightarrow> u64 result" where
  "loongarch64_timer_frequency freq mudv =
    (let mul = (ucast (mudv AND 0xFFFF) :: u16); dv = (ucast (drop_bit 16 mudv) :: u16)
     in if freq = 0 \<or> mul = 0 \<or> dv = 0 then Inl Panicked else Inr ((ucast freq * ucast mul) div ucast dv))"

definition loongarch64_setup_timer :: "bool \<Rightarrow> u32 \<Rightarrow> u32 \<Rightarrow> arch_timer result" where
  "loongarch64_setup_timer has_timer freq mudv =
    (if \<not> has_timer then Inl Panicked
     else
       ebind (loongarch64_timer_frequency freq mudv) (\<lambda>timer_frequency.
       ebind (make_scale 1000000000 timer_frequency) (\<lambda>f.
       ebind (make_scale timer_frequency 1000) (\<lambda>t. Inr \<lparr> ns_scale = f, tick_scale = t \<rparr>))))"

definition arch_timer_get_ns :: "arch_timer \<Rightarrow> u64 \<Rightarrow> u64" where
  "arch_timer_get_ns tm rdtime = apply_scale (ns_scale tm) (ucast rdtime)"

definition riscv64_timer_deadline :: "arch_timer \<Rightarrow> u64 \<Rightarrow> int \<Rightarrow> u64" where
  "riscv64_timer_deadline tm rdtime ms = rdtime + apply_scale (tick_scale tm) (word_of_int ms)"

text \<open>The value of the configuration register of LoongArch: the count, a multiple of four, and the enable bit.\<close>

definition loongarch64_timer_config :: "arch_timer \<Rightarrow> int \<Rightarrow> u64" where
  "loongarch64_timer_config tm ms = ALIGN_UP (apply_scale (tick_scale tm) (word_of_int ms)) 4 OR 1"

partial_function (option) arch_wait :: "(nat \<Rightarrow> u64) \<Rightarrow> u64 \<Rightarrow> u64 \<Rightarrow> nat \<Rightarrow> nat option" where
  "arch_wait rdtime start ticks n =
    (if rdtime n - start < ticks then arch_wait rdtime start ticks (n + 1) else Some (n + 1))"

definition arch_spin_wait_ms :: "arch_timer \<Rightarrow> int \<Rightarrow> (nat \<Rightarrow> u64) \<Rightarrow> nat option" where
  "arch_spin_wait_ms tm ms rdtime = arch_wait rdtime (rdtime 0) (apply_scale (tick_scale tm) (word_of_int ms)) 1"

section \<open>Paravirtual clocks\<close>

record kvm_pvclock =
  pv_version :: u32
  tsc_timestamp :: u64
  system_time :: u64
  tsc_to_system_mul :: u32
  tsc_shift :: "8 word"

definition kvm_scale :: "kvm_pvclock \<Rightarrow> u64 \<Rightarrow> u64" where
  "kvm_scale p tsc =
    (let delta = tsc - tsc_timestamp p;
         shift = sint (tsc_shift p);
         delta = (if shift \<ge> 0 then push_bit (nat shift) delta else drop_bit (nat (- shift)) delta)
     in system_time p + ucast (drop_bit 32 ((ucast delta :: u128) * ucast (tsc_to_system_mul p))))"

text \<open>A shift count of 64 or more, which the interface does not use, gives 0 here. The page is shared with the hypervisor: \<open>page t\<close> is its contents at time \<open>t\<close>, and every access of the
  loop happens at a time of its own, \<open>t\<close> to \<open>t + 6\<close> for the six accesses of one iteration in the order of the code.\<close>

definition kvm_attempt :: "(nat \<Rightarrow> kvm_pvclock) \<Rightarrow> nat \<Rightarrow> kvm_pvclock" where
  "kvm_attempt page t =
    \<lparr> pv_version = pv_version (page t), tsc_timestamp = tsc_timestamp (page (t + 2)),
      system_time = system_time (page (t + 1)), tsc_to_system_mul = tsc_to_system_mul (page (t + 3)),
      tsc_shift = tsc_shift (page (t + 4)) \<rparr>"

definition kvm_success :: "(nat \<Rightarrow> kvm_pvclock) \<Rightarrow> nat \<Rightarrow> bool" where
  "kvm_success page t \<longleftrightarrow> pv_version (page t) = pv_version (page (t + 5)) \<and> \<not> bit (pv_version (page t)) 0"

partial_function (option) kvm_pvclock_get_ns :: "(nat \<Rightarrow> kvm_pvclock) \<Rightarrow> (nat \<Rightarrow> u64) \<Rightarrow> nat \<Rightarrow> (u64 \<times> nat) option" where
  "kvm_pvclock_get_ns page rdtsc t =
    (if kvm_success page t then Some (kvm_scale (kvm_attempt page t) (rdtsc (t + 6)), t)
     else kvm_pvclock_get_ns page rdtsc (t + 6))"

record hyperv_pvclock =
  tsc_sequence :: u32
  tsc_scale :: u64
  tsc_offset :: u64

definition hyperv_scale :: "u64 \<Rightarrow> u64 \<Rightarrow> u64 \<Rightarrow> u64" where
  "hyperv_scale tsc_scl tsc_off tsc =
    (ucast (drop_bit 64 ((ucast tsc :: u128) * ucast tsc_scl)) + tsc_off) * 100"

partial_function (option) hyperv_pvclock_get_ns ::
  "(nat \<Rightarrow> hyperv_pvclock) \<Rightarrow> (nat \<Rightarrow> u64) \<Rightarrow> u64 \<Rightarrow> nat \<Rightarrow> (u64 \<times> nat) option" where
  "hyperv_pvclock_get_ns page rdtsc msr t =
    (let sequence_start = tsc_sequence (page t)
     in if sequence_start = 0 then Some (msr * 100, t)
        else
          (let tsc = rdtsc (t + 1);
               scl = tsc_scale (page (t + 2));
               off = tsc_offset (page (t + 3));
               sequence_end = tsc_sequence (page (t + 4))
           in if sequence_end \<noteq> sequence_start then hyperv_pvclock_get_ns page rdtsc msr (t + 5)
              else Some (hyperv_scale scl off tsc, t)))"

section \<open>Accuracy of the conversions\<close>

lemma unat_ucast_128 [simp]: "unat (ucast (x :: u64) :: u128) = unat x"
  using unat_lt64 [of x] by (simp add: unsigned_ucast_eq take_bit_nat_eq_self)

lemma unat_push_128:
  assumes "unat (n :: u64) * 2 ^ s < 2 ^ 128"
  shows "unat (push_bit s (ucast n :: u128)) = unat n * 2 ^ s"
  using assms unat_lt64 [of n]
  by (simp add: unsigned_push_bit_eq unsigned_ucast_eq take_bit_nat_eq_self flip: push_bit_eq_mult)

lemma unat_drop_128: "unat (drop_bit k (w :: u128)) = unat w div 2 ^ k"
proof -
  have "unat w < 2 ^ LENGTH(128)" by (rule unsigned_less)
  then show ?thesis unfolding unsigned_drop_bit_eq by (simp add: take_bit_nat_eq_self drop_bit_eq_div)
qed

lemma unat_ucast_64: "unat (x :: u128) < 2 ^ 64 \<Longrightarrow> unat (ucast x :: u64) = unat x"
  by (simp add: unsigned_ucast_eq take_bit_nat_eq_self)

lemma unat_word_of_nat: "n < 2 ^ LENGTH('a::len) \<Longrightarrow> unat (word_of_nat n :: 'a word) = n"
  by (simp add: unsigned_of_nat take_bit_nat_eq_self)

text \<open>The arguments for which the search of the shift is exact.\<close>

definition scalable :: "u64 \<Rightarrow> u64 \<Rightarrow> bool" where
  "scalable n d \<longleftrightarrow> 0 < n \<and> 0 < d \<and>
     (d \<le> n \<or> unat n < 2 ^ 32 \<and> unat d * (2 ^ 64 - 1) < unat n * 2 ^ 96)"

lemma make_scale_spec:
  assumes "scalable n d"
  obtains c where "make_scale n d = Inr c" "unat (sc_mult c) = unat n * 2 ^ sc_shift c div unat d"
    "unat d * (2 ^ 64 - 1) < unat n * 2 ^ Suc (sc_shift c)"
proof -
  let ?s = "find_reciprocal_shift n d"
  let ?c = "\<lparr> sc_shift = ?s, sc_mult = ucast (push_bit ?s (ucast n :: u128) div ucast d) \<rparr>"
  have d: "0 < unat d" "d \<noteq> 0" using assms by (auto simp: scalable_def unat_gt_0)
  have spec: "?s = 0 \<or> unat n * 2 ^ ?s \<le> unat d * (2 ^ 64 - 1)"
    "unat d * (2 ^ 64 - 1) < unat n * 2 ^ Suc ?s"
    using find_reciprocal_shift_spec [of n d] assms by (auto simp: scalable_def Let_def)
  have le: "unat n * 2 ^ ?s div unat d < 2 ^ 64"
    using spec(1)
  proof
    assume "?s = 0"
    then show ?thesis using le_less_trans [OF div_le_dividend unat_lt64 [of n], of "unat d"] by simp
  next
    assume "unat n * 2 ^ ?s \<le> unat d * (2 ^ 64 - 1)"
    then have "unat n * 2 ^ ?s div unat d \<le> unat d * (2 ^ 64 - 1) div unat d" by (rule div_le_mono)
    also have "\<dots> = 2 ^ 64 - 1" using d by simp
    finally show ?thesis by simp
  qed
  have "unat n * 2 ^ ?s < 2 ^ 128"
    using spec(1)
  proof
    assume "?s = 0"
    then show ?thesis using unat_lt64 [of n] by simp
  next
    assume "unat n * 2 ^ ?s \<le> unat d * (2 ^ 64 - 1)"
    also have "\<dots> < 2 ^ 64 * 2 ^ 64" using unat_lt64 [of d] by (intro mult_strict_mono) simp_all
    finally show ?thesis by simp
  qed
  then have "unat (push_bit ?s (ucast n :: u128) div ucast d) = unat n * 2 ^ ?s div unat d"
    by (simp add: unat_div unat_push_128)
  then have "unat (sc_mult ?c) = unat n * 2 ^ sc_shift ?c div unat d"
    using le by (simp add: unat_ucast_64)
  moreover have "make_scale n d = Inr ?c" using d by (simp add: make_scale_def Let_def)
  ultimately show thesis using spec(2) by (intro that [of ?c]) simp_all
qed

lemma unat_apply_scale:
  "unat (apply_scale c (ucast (x :: u64))) = (unat x * unat (sc_mult c) div 2 ^ sc_shift c) mod 2 ^ 64"
proof -
  have "unat x * unat (sc_mult c) < 2 ^ 64 * 2 ^ 64"
    using unat_lt64 [of x] unat_lt64 [of "sc_mult c"] by (intro mult_strict_mono) simp_all
  then have "unat (ucast x * ucast (sc_mult c) :: u128) = unat x * unat (sc_mult c)"
    by (simp add: unat_mult_lem [THEN iffD1])
  then have "unat (drop_bit (sc_shift c) (ucast x * ucast (sc_mult c) :: u128)) =
      unat x * unat (sc_mult c) div 2 ^ sc_shift c"
    by (simp only: unat_drop_128)
  then show ?thesis by (simp add: apply_scale_def unsigned_ucast_eq take_bit_eq_mod)
qed

text \<open>\<open>rounds x n d y\<close>: \<open>y\<close> is \<open>x * n / d\<close> rounded down, up to a relative error of \<open>2 / (2 ^ 64 - 1)\<close>.\<close>

definition rounds :: "nat \<Rightarrow> nat \<Rightarrow> nat \<Rightarrow> nat \<Rightarrow> bool" where
  "rounds x n d y \<longleftrightarrow> y * d \<le> x * n \<and>
     x * n * (2 ^ 64 - 1) \<le> (y + 1) * d * (2 ^ 64 - 1) + 2 * (x * n)"

lemma scaled_rounds:
  fixes x n d s :: nat
  assumes "0 < d" "d * L < n * 2 ^ Suc s" "m = n * 2 ^ s div d" "y = x * m div 2 ^ s"
  shows "y * d \<le> x * n" "x * n * L \<le> (y + 1) * d * L + 2 * (x * n)"
proof -
  have m: "m * d \<le> n * 2 ^ s" "n * 2 ^ s < (m + 1) * d"
    using assms(1,3) by (simp_all add: dividend_less_times_div div_times_less_eq_dividend algebra_simps)
  have y: "y * 2 ^ s \<le> x * m" "x * m < (y + 1) * 2 ^ s"
    using assms(4) by (simp_all add: dividend_less_times_div div_times_less_eq_dividend algebra_simps)
  have "y * d * 2 ^ s \<le> x * n * 2 ^ s"
  proof -
    have "y * 2 ^ s * d \<le> x * m * d" using y(1) by simp
    also have "\<dots> \<le> x * (n * 2 ^ s)" using m(1) by (simp add: mult.assoc)
    finally show ?thesis by (simp add: algebra_simps)
  qed
  then show "y * d \<le> x * n" by simp
  have "x * n * 2 ^ s \<le> x * ((m + 1) * d)" using m(2) by (simp add: mult.assoc)
  also have "\<dots> = x * m * d + x * d" by (simp add: algebra_simps)
  also have "\<dots> \<le> (y + 1) * 2 ^ s * d + x * d" using y(2) by (intro add_mono mult_le_mono1) simp_all
  finally have "x * n * 2 ^ s * L \<le> ((y + 1) * 2 ^ s * d + x * d) * L" by (rule mult_le_mono1)
  also have "\<dots> = (y + 1) * d * L * 2 ^ s + x * (d * L)" by (simp add: algebra_simps)
  also have "\<dots> \<le> (y + 1) * d * L * 2 ^ s + x * (n * 2 ^ Suc s)" using assms(2) by simp
  also have "\<dots> = ((y + 1) * d * L + 2 * (x * n)) * 2 ^ s" by (simp add: algebra_simps)
  finally have "x * n * L * 2 ^ s \<le> ((y + 1) * d * L + 2 * (x * n)) * 2 ^ s" by (simp add: algebra_simps)
  then show "x * n * L \<le> (y + 1) * d * L + 2 * (x * n)" by simp
qed

lemma make_scale_accurate:
  assumes "scalable n d" "unat (x :: u64) * unat n < 2 ^ 64 * unat d"
  shows "\<exists>c. make_scale n d = Inr c \<and> rounds (unat x) (unat n) (unat d) (unat (apply_scale c (ucast x)))"
proof -
  obtain c where c: "make_scale n d = Inr c" "unat (sc_mult c) = unat n * 2 ^ sc_shift c div unat d"
    "unat d * (2 ^ 64 - 1) < unat n * 2 ^ Suc (sc_shift c)"
    using make_scale_spec [OF assms(1)] by blast
  let ?y = "unat x * unat (sc_mult c) div 2 ^ sc_shift c"
  have "0 < unat d" using assms(1) by (auto simp: scalable_def unat_gt_0)
  note r = scaled_rounds [OF this c(3) c(2) refl [of ?y]]
  have "?y * unat d < 2 ^ 64 * unat d" using r(1) assms(2) by (rule le_less_trans)
  then have "unat (apply_scale c (ucast x)) = ?y" by (simp add: unat_apply_scale)
  then show ?thesis using c(1) r by (auto simp: rounds_def)
qed

section \<open>Counters that roll over\<close>

text \<open>The counter of a clock with period \<open>2 ^ k\<close> returns the lower bits of the number of ticks since it started.\<close>

definition period :: "x86_wallclock \<Rightarrow> nat" where
  "period w = (if w = x86_WALLCLOCK_HPET then 2 ^ 32 else 2 ^ 24)"

definition short_counter :: "x86_wallclock \<Rightarrow> bool" where
  "short_counter w \<longleftrightarrow> w = x86_WALLCLOCK_HPET \<or> w = x86_WALLCLOCK_ACPI_PMT"

lemma counter_value:
  "unat (ucast (hpet_get_ticks (word_of_nat t)) :: u64) = t mod 2 ^ 32"
  "unat (ucast (acpi_pmt_get_ticks (ucast (word_of_nat t :: u64))) :: u64) = t mod 2 ^ 24"
proof -
  have m: "(0xFFFFFFFF :: u64) = mask 32" "(0xFFFFFF :: u32) = mask 24"
    by (simp_all add: mask_eq_exp_minus_1)
  show "unat (ucast (hpet_get_ticks (word_of_nat t)) :: u64) = t mod 2 ^ 32"
    unfolding hpet_get_ticks_def m take_bit_eq_mask [symmetric]
    by (simp add: unsigned_ucast_eq unsigned_take_bit_eq unsigned_of_nat take_bit_take_bit) (simp add: take_bit_eq_mod)
  show "unat (ucast (acpi_pmt_get_ticks (ucast (word_of_nat t :: u64))) :: u64) = t mod 2 ^ 24"
    unfolding acpi_pmt_get_ticks_def m take_bit_eq_mask [symmetric]
    by (simp add: unsigned_ucast_eq unsigned_take_bit_eq unsigned_of_nat take_bit_take_bit) (simp add: take_bit_eq_mod)
qed

lemma rollover_is_period: "short_counter w \<Longrightarrow> timer_rollover_point w = word_of_nat (period w)"
  by (auto simp: short_counter_def timer_rollover_point_def period_def ACPI_TIMER_ROLLOVER_def HPET_TIMER_ROLLOVER_def
      push_bit_eq_mult)

text \<open>\<open>counts w B t k\<close>: the clock was last read at the true count \<open>t\<close> and counts from \<open>B\<close>, a multiple of the
  period.\<close>

definition counts :: "x86_wallclock \<Rightarrow> nat \<Rightarrow> nat \<Rightarrow> cpu_clock \<Rightarrow> bool" where
  "counts w B t k \<longleftrightarrow> B \<le> t div period w * period w \<and> unat (last_tick k) = t mod period w \<and>
     rollover k = word_of_nat (t div period w * period w - B)"

lemma period_step:
  fixes t t' P :: nat
  assumes "t \<le> t'" "t' < t + P"
  shows "t' div P = (if t' mod P < t mod P then t div P + 1 else t div P)"
proof -
  have P: "0 < P" using assms by simp
  have e: "t = t div P * P + t mod P" "t' = t' div P * P + t' mod P" by simp_all
  have "t div P \<le> t' div P" using assms(1) by (rule div_le_mono)
  moreover have "t' div P \<le> t div P + 1"
    using div_le_mono [of t' "t + P" P] assms(2) P by (simp add: div_add_self2)
  ultimately consider "t' div P = t div P" | "t' div P = t div P + 1" by linarith
  then show ?thesis
  proof cases
    case 1
    then have "t mod P \<le> t' mod P" using e assms(1) by (metis add_le_cancel_left)
    then show ?thesis using 1 by simp
  next
    case 2
    then have "t' = t div P * P + P + t' mod P" using e(2) by (metis add_mult_distrib mult_1)
    then have "t' mod P < t mod P" using e(1) assms(2) by linarith
    then show ?thesis using 2 by simp
  qed
qed

lemma timer_get_ticks_short:
  assumes "short_counter w"
  obtains c where "unat c = t mod period w"
    "timer_get_ticks w (word_of_nat t) k =
      (let r = (if c < last_tick k then rollover k + word_of_nat (period w) else rollover k)
       in (r + c, k\<lparr>last_tick := c, rollover := r\<rparr>))"
proof -
  let ?c = "if w = x86_WALLCLOCK_HPET then ucast (hpet_get_ticks (word_of_nat t))
    else ucast (acpi_pmt_get_ticks (ucast (word_of_nat t :: u64))) :: u64"
  have "unat ?c = t mod period w" by (simp add: counter_value period_def)
  moreover have "timer_get_ticks w (word_of_nat t) k =
      (let r = (if ?c < last_tick k then rollover k + word_of_nat (period w) else rollover k)
       in (r + ?c, k\<lparr>last_tick := ?c, rollover := r\<rparr>))"
    using rollover_is_period [OF assms] assms
    by (auto simp: timer_get_ticks_def short_counter_def Let_def)
  ultimately show thesis by (rule that)
qed

lemma timer_get_ticks_counts:
  assumes w: "short_counter w" and k: "counts w B t k" and t': "t \<le> t'" "t' < t + period w"
  shows "\<exists>k'. timer_get_ticks w (word_of_nat t') k = (word_of_nat (t' - B), k') \<and> counts w B t' k'"
proof -
  let ?P = "period w"
  obtain c where c: "unat c = t' mod ?P" "timer_get_ticks w (word_of_nat t') k =
      (let r = (if c < last_tick k then rollover k + word_of_nat ?P else rollover k)
       in (r + c, k\<lparr>last_tick := c, rollover := r\<rparr>))"
    using timer_get_ticks_short [OF w] by blast
  define r where "r = (if c < last_tick k then rollover k + word_of_nat ?P else rollover k)"
  have q: "t' div ?P * ?P = (if c < last_tick k then t div ?P * ?P + ?P else t div ?P * ?P)"
    using period_step [OF t'] c(1) k by (simp add: counts_def word_less_nat_alt)
  have B: "B \<le> t' div ?P * ?P" and r: "r = word_of_nat (t' div ?P * ?P - B)"
    using k by (auto simp: q r_def counts_def)
  have "word_of_nat (unat c) = c" by simp
  then have "r + c = word_of_nat (t' div ?P * ?P - B + t' mod ?P)" by (simp only: r c(1) of_nat_add)
  also have "t' div ?P * ?P - B + t' mod ?P = t' - B" using B by (simp add: diff_add_assoc2 [symmetric])
  finally show ?thesis using c B r by (auto simp: r_def [symmetric] Let_def counts_def)
qed

text \<open>A sequence of reads of the time, each less than a period after the one before.\<close>

fun close_reads :: "nat \<Rightarrow> nat \<Rightarrow> nat list \<Rightarrow> bool" where
  "close_reads P t [] = True"
| "close_reads P t (u # us) = (t \<le> u \<and> u < t + P \<and> close_reads P u us)"

fun ns_reads :: "x86_timer \<Rightarrow> nat list \<Rightarrow> cpu_clock \<Rightarrow> u64 list" where
  "ns_reads tm [] k = []"
| "ns_reads tm (t # ts) k = (let (ns, k) = timer_get_ns tm 0 (word_of_nat t) k in ns # ns_reads tm ts k)"

lemma ns_reads_counts:
  assumes "short_counter (current_wallclock tm)"
  shows "counts (current_wallclock tm) B t k \<Longrightarrow> close_reads (period (current_wallclock tm)) t ts \<Longrightarrow>
    ns_reads tm ts k = map (\<lambda>u. apply_scale (freq_scale tm) (ucast (word_of_nat (u - B) :: u64))) ts"
proof (induction ts arbitrary: t k)
  case (Cons u us)
  then obtain k' where "timer_get_ticks (current_wallclock tm) (word_of_nat u) k = (word_of_nat (u - B), k')"
    "counts (current_wallclock tm) B u k'"
    using timer_get_ticks_counts [OF assms] by fastforce
  then show ?case using Cons.IH Cons.prems assms
    by (auto simp: timer_get_ns_def short_counter_def)
qed simp

lemma counts_start: "counts w (t div period w * period w) (t div period w * period w) \<lparr>last_tick = 0, rollover = 0\<rparr>"
  by (simp add: counts_def)

lemma period_pos: "0 < period w"
  by (simp add: period_def)

lemma scalable_ns: "0 < f \<Longrightarrow> unat f < 2 ^ 61 \<Longrightarrow> scalable 1000000000 f"
  by (simp add: scalable_def)



text \<open>The other clocks: the time stamp counter and the counters of RISC-V and LoongArch have 64 bits.\<close>

lemma tsc_get_ns_accurate:
  assumes "0 < f" "unat f < 2 ^ 61" "unat x * 1000000000 < 2 ^ 64 * unat f"
  shows "\<exists>tm. setup_timers (Inr io_port) False True f hpet_freq = Inr tm \<and>
    rounds (unat x) 1000000000 (unat f) (unat (fst (timer_get_ns tm pv x k)))"
  using make_scale_accurate [OF scalable_ns [OF assms(1,2)], of x] assms(3)
  by (auto simp: setup_timers_def Let_def timer_get_ns_def timer_get_ticks_def)

lemma riscv64_timer_accurate:
  assumes "1000 \<le> f" "unat f < 2 ^ 61" "unat x * 1000000000 < 2 ^ 64 * unat f"
    and ms: "0 \<le> ms" "ms < 2 ^ 31" "nat ms * unat f < 2 ^ 64 * 1000"
    and "type \<noteq> TIMER_INTERFACE_UNKNOWN"
  shows "\<exists>tm y. riscv64_setup_timer type f = Inr tm \<and> rounds (unat x) 1000000000 (unat f) (unat (arch_timer_get_ns tm x)) \<and>
    riscv64_timer_deadline tm x ms = x + y \<and> rounds (nat ms) (unat f) 1000 (unat y)"
proof -
  have f: "0 < f" using assms(1) by (simp add: word_gt_0) (auto simp: word_le_nat_alt)
  have n: "nat ms < 2 ^ 31" using ms by simp
  then have w: "unat (word_of_nat (nat ms) :: u64) = nat ms" by (intro unat_word_of_nat) simp
  have "unat (word_of_nat (nat ms) :: u128) = nat ms" using n by (intro unat_word_of_nat) simp
  then have "word_of_nat (nat ms) = (ucast (word_of_nat (nat ms) :: u64) :: u128)"
    by (intro word_eq_unatI) (simp only: unat_ucast_128 w)
  then have w': "(word_of_int ms :: u128) = ucast (word_of_nat (nat ms) :: u64)"
    using ms(1) by simp
  obtain c where c: "make_scale 1000000000 f = Inr c"
    "rounds (unat x) 1000000000 (unat f) (unat (apply_scale c (ucast x)))"
    using make_scale_accurate [OF scalable_ns [OF f assms(2)], of x] assms(3) by auto
  have "scalable f 1000" using assms(1) f by (simp add: scalable_def)
  then obtain e where e: "make_scale f 1000 = Inr e"
    "rounds (nat ms) (unat f) 1000 (unat (apply_scale e (word_of_int ms)))"
    using make_scale_accurate [of f 1000 "word_of_nat (nat ms)"] ms(3) by (auto simp: w w')
  show ?thesis using f c e assms(7)
    by (auto simp: riscv64_setup_timer_def arch_timer_get_ns_def riscv64_timer_deadline_def)
qed

text \<open>The wait on the power management timer ends at once when the counter wraps right after the first read.\<close>

lemma pmt_wait_ends_early:
  assumes "readings 0 = 0xFFFFFF" "readings 1 = 0"
  shows "pmt_spin_wait_ms 10 readings = Inr (Some 2)"
proof -
  have "pmt_ticks_needed 10 = Inr 35796" by (simp add: pmt_ticks_needed_def ACPI_TIMER_FREQUENCY_def)
  moreover have "\<not> ucast (acpi_pmt_get_ticks (readings 1) - acpi_pmt_get_ticks (readings 0)) < (35796 :: u64)"
    unfolding assms acpi_pmt_get_ticks_def by simp
  then have "pmt_wait readings (acpi_pmt_get_ticks (readings 0)) 35796 1 = Some 2"
    by (subst pmt_wait.simps) (simp only: if_False, simp)
  ultimately show ?thesis by (simp add: pmt_spin_wait_ms_def)
qed

section \<open>The shared page of the KVM clock\<close>

text \<open>The hypervisor writes the page in steps: \<open>h u\<close> is the page after \<open>u\<close> writes. It makes the version odd by
  adding one, changes fields while the version is odd, and adds one again.\<close>

definition kvm_writer :: "(nat \<Rightarrow> kvm_pvclock) \<Rightarrow> bool" where
  "kvm_writer h \<longleftrightarrow> (\<forall>u. h (Suc u) = h u \<or> h (Suc u) = (h u)\<lparr>pv_version := pv_version (h u) + 1\<rparr> \<or>
     (bit (pv_version (h u)) 0 \<and> pv_version (h (Suc u)) = pv_version (h u)))"

fun bumps :: "(nat \<Rightarrow> kvm_pvclock) \<Rightarrow> nat \<Rightarrow> nat \<Rightarrow> nat" where
  "bumps h u 0 = 0"
| "bumps h u (Suc n) =
    bumps h u n + (if pv_version (h (Suc (u + n))) = pv_version (h (u + n)) then 0 else 1)"

lemma bumps_le: "bumps h u n \<le> n"
  by (induction n) auto

lemma bumps_mono: "i \<le> n \<Longrightarrow> bumps h u i \<le> bumps h u n"
  by (induction n) (auto simp: le_Suc_eq)

lemma version_bumps:
  "kvm_writer h \<Longrightarrow> pv_version (h (u + n)) = pv_version (h u) + word_of_nat (bumps h u n)"
proof (induction n)
  case (Suc n)
  have "h (Suc (u + n)) = h (u + n) \<or> h (Suc (u + n)) = (h (u + n))\<lparr>pv_version := pv_version (h (u + n)) + 1\<rparr> \<or>
      pv_version (h (Suc (u + n))) = pv_version (h (u + n))"
    using Suc.prems by (auto simp: kvm_writer_def)
  then show ?case using Suc by auto
qed simp

lemma kvm_quiet:
  assumes "kvm_writer h" "\<not> bit (pv_version (h u)) 0" "bumps h u n = 0"
  shows "h (u + n) = h u"
  using assms(3)
proof (induction n)
  case (Suc n)
  then have n: "h (u + n) = h u" "pv_version (h (Suc (u + n))) = pv_version (h (u + n))"
    by (auto split: if_splits)
  have "h (Suc (u + n)) \<noteq> (h (u + n))\<lparr>pv_version := pv_version (h (u + n)) + 1\<rparr>"
  proof
    assume "h (Suc (u + n)) = (h (u + n))\<lparr>pv_version := pv_version (h (u + n)) + 1\<rparr>"
    then show False using n(2) by simp
  qed
  then have "h (Suc (u + n)) = h (u + n)"
    using assms(1) [unfolded kvm_writer_def, THEN spec, of "u + n"] assms(2) n(1) by simp
  then show ?case using n(1) by simp
qed simp

text \<open>An even version that is the same at both ends of fewer than \<open>2 ^ 32\<close> writes: the page did not change in between.\<close>

lemma kvm_stable:
  assumes "kvm_writer h" "\<not> bit (pv_version (h u)) 0" "pv_version (h (u + n)) = pv_version (h u)" "n < 2 ^ 32"
    "i \<le> n"
  shows "h (u + i) = h u"
proof -
  have "(word_of_nat (bumps h u n) :: u32) = 0" using assms(3) version_bumps [OF assms(1), of u n] by simp
  moreover have "bumps h u n < 2 ^ 32" using bumps_le assms(4) by (rule le_less_trans)
  ultimately have "bumps h u n = 0"
    using unat_word_of_nat [where 'a = 32, of "bumps h u n"] by simp
  then have "bumps h u i = 0" using bumps_mono [OF assms(5), of h u] by simp
  then show ?thesis using kvm_quiet assms(1,2) by blast
qed

text \<open>One iteration that succeeds read a page that was the same for all its accesses.\<close>

lemma kvm_read_consistent:
  fixes at :: "nat \<Rightarrow> nat"
  assumes h: "kvm_writer h" and at: "mono at" "at (t + 5) - at t < 2 ^ 32"
    and ok: "pv_version (h (at t)) = pv_version (h (at (t + 5)))" "\<not> bit (pv_version (h (at t))) 0"
    and i: "i \<le> 5"
  shows "h (at (t + i)) = h (at t)"
proof -
  have "at t \<le> at (t + i)" "at (t + i) \<le> at (t + 5)" "at t \<le> at (t + 5)" using at(1) i by (auto intro: monoD)
  then show ?thesis
    using kvm_stable [OF h ok(2), of "at (t + 5) - at t" "at (t + i) - at t"] ok(1) at(2) by simp
qed

text \<open>The result of the loop comes from its last iteration, and the loop ends when one of its iterations succeeds.\<close>

lemma kvm_loop_result:
  assumes "kvm_pvclock_get_ns page rdtsc t0 = Some y"
  shows "kvm_success page (snd y) \<and> fst y = kvm_scale (kvm_attempt page (snd y)) (rdtsc (snd y + 6))"
  by (rule kvm_pvclock_get_ns.raw_induct [OF _ assms, of "\<lambda>page rdtsc t y. kvm_success page (snd y) \<and>
      fst y = kvm_scale (kvm_attempt page (snd y)) (rdtsc (snd y + 6))"]) (auto split: if_splits)

lemma kvm_loop_ends: "kvm_success page (t + 6 * j) \<Longrightarrow> \<exists>y. kvm_pvclock_get_ns page rdtsc t = Some y"
proof (induction j arbitrary: t)
  case (Suc j)
  then show ?case using Suc.IH [of "t + 6"] by (subst kvm_pvclock_get_ns.simps) (auto simp: algebra_simps)
qed (subst kvm_pvclock_get_ns.simps, auto)

lemma kvm_attempt_stable:
  assumes "\<And>i. i \<le> 5 \<Longrightarrow> page (t + i) = page t"
  shows "kvm_attempt page t = page t"
proof -
  have "page (t + 1) = page t" "page (t + 2) = page t" "page (t + 3) = page t" "page (t + 4) = page t"
    by (rule assms; simp)+
  then show ?thesis by (simp add: kvm_attempt_def)
qed

text \<open>C11. The clock of KVM reads a page that the hypervisor changes at any time. Under the protocol of the hypervisor
  (the version is odd while the fields change and grows by one before and after), with fewer than \<open>2 ^ 32\<close> writes during one iteration of the loop,
  the time that \<^verbatim>\<open>kvm_pvclock_get_ns\<close> returns is computed from one state of the page, which did not change while
  the fields were read; and the loop ends as soon as one of its iterations sees no update.\<close>

theorem kvm_pvclock_consistent:
  fixes at :: "nat \<Rightarrow> nat"
  assumes "kvm_writer h" "mono at" "\<forall>t. at (t + 5) - at t < 2 ^ 32"
    and "\<not> bit (pv_version (h (at (t0 + 6 * j)))) 0"
    and "pv_version (h (at (t0 + 6 * j + 5))) = pv_version (h (at (t0 + 6 * j)))"
  shows "\<exists>ns t. kvm_pvclock_get_ns (\<lambda>n. h (at n)) rdtsc t0 = Some (ns, t) \<and>
    \<not> bit (pv_version (h (at t))) 0 \<and> (\<forall>u. u \<le> at (t + 5) - at t \<longrightarrow> h (at t + u) = h (at t)) \<and>
    ns = kvm_scale (h (at t)) (rdtsc (t + 6))"
proof -
  let ?page = "\<lambda>n. h (at n)"
  have "kvm_success ?page (t0 + 6 * j)" using assms(4,5) by (simp add: kvm_success_def)
  then obtain ns t where y: "kvm_pvclock_get_ns ?page rdtsc t0 = Some (ns, t)"
    using kvm_loop_ends by (metis surj_pair)
  have ok: "kvm_success ?page t" and ns: "ns = kvm_scale (kvm_attempt ?page t) (rdtsc (t + 6))"
    using kvm_loop_result [OF y] by simp_all
  have v: "pv_version (h (at t)) = pv_version (h (at (t + 5)))" "\<not> bit (pv_version (h (at t))) 0"
    using ok unfolding kvm_success_def by blast+
  have "at (t + 5) - at t < 2 ^ 32" using assms(3) by blast
  note stable = kvm_read_consistent [OF assms(1,2) this v] and quiet = kvm_stable [OF assms(1) v(2) _ this]
  have "at t \<le> at (t + 5)" using assms(2) by (simp add: monoD)
  then have "h (at t + u) = h (at t)" if "u \<le> at (t + 5) - at t" for u
    using quiet [OF _ that] v(1) by simp
  moreover have "kvm_attempt ?page t = h (at t)" by (rule kvm_attempt_stable) (rule stable)
  ultimately show ?thesis using y v(2) ns by auto
qed

theorem kvm_pvclock_consistent_witness:
  "\<exists>t. kvm_pvclock_get_ns (\<lambda>n. \<lparr>pv_version = 6, tsc_timestamp = 100, system_time = 5000, tsc_to_system_mul = 0x80000000,
     tsc_shift = 1\<rparr>) (\<lambda>n. 1100) 0 = Some (6000, t)"
proof -
  let ?p = "\<lparr>pv_version = 6, tsc_timestamp = 100, system_time = 5000, tsc_to_system_mul = 0x80000000, tsc_shift = 1\<rparr>"
  have "kvm_scale ?p 1100 = 6000" by (simp add: kvm_scale_def)
  then show ?thesis
    using kvm_pvclock_consistent [of "\<lambda>u. ?p" "\<lambda>n. n" 0 0 "\<lambda>n. 1100"] by (simp add: kvm_writer_def mono_def)
qed

end
