(* ===== verification/Acpi.thy ===== *)
theory Acpi
  imports Memory Dwarf Timer
begin

unbundle bit_operations_syntax

text \<open>
  The tables of the firmware: the search for a table by its signature and the checksums (\<^verbatim>\<open>acpi/tables/sdt.c\<close>), the
  description of the interrupt controllers (\<^verbatim>\<open>acpi/tables/madt.c\<close>, \<^verbatim>\<open>arch/x86_64/acpi/madt.c\<close> and the versions of RISC-V and
  LoongArch) and the fixed description table (\<^verbatim>\<open>acpi/tables/fadt.c\<close>), which names the port of the power management timer. Tables
  lie in byte memory at physical addresses; the bytes of one table are a list, and a read beyond the length that its header
  gives is \<open>OutOfBounds\<close>.
\<close>

section \<open>System description tables\<close>

text \<open>The root pointer is at the address \<open>rsdp\<close>, or absent. \<^verbatim>\<open>TO_HHDM_PTR\<close> adds the offset of the direct map, under
  which the memory is indexed by the physical address.\<close>

definition acpi_rsdt_entry_size :: "mem \<Rightarrow> addr \<Rightarrow> nat" where
  "acpi_rsdt_entry_size m rsdp = (if (rd 1 m (rsdp + 15) :: u8) < 2 then 4 else 8)"

definition acpi_get_rsdt :: "mem \<Rightarrow> addr \<Rightarrow> addr" where
  "acpi_get_rsdt m rsdp =
    (if (rd 1 m (rsdp + 15) :: u8) < 2 then ucast (rd 4 m (rsdp + 16) :: u32) else rd 8 m (rsdp + 24))"

text \<open>The number of tables is computed in 64 bits and returned as an \<^verbatim>\<open>int\<close>.\<close>

definition acpi_table_count :: "mem \<Rightarrow> addr \<Rightarrow> int" where
  "acpi_table_count m rsdp =
    (let len = (rd 4 m (acpi_get_rsdt m rsdp + 4) :: u32)
     in sint (ucast ((ucast len - 36 :: u64) div word_of_nat (acpi_rsdt_entry_size m rsdp)) :: u32))"

definition acpi_get_sdt :: "mem \<Rightarrow> addr \<Rightarrow> nat \<Rightarrow> addr" where
  "acpi_get_sdt m rsdp n =
    (let sdt = acpi_get_rsdt m rsdp
     in if acpi_rsdt_entry_size m rsdp = 4 then ucast (rd 4 m (sdt + 36 + 4 * word_of_nat n) :: u32)
        else rd 8 m (sdt + 36 + 8 * word_of_nat n))"

definition sdt_signature :: "mem \<Rightarrow> addr \<Rightarrow> bytes" where
  "sdt_signature m hdr = map (\<lambda>i. m (hdr + word_of_nat i)) [0..<4]"

text \<open>The loop of \<^verbatim>\<open>acpi_find_sdt\<close> over the tables from \<open>i\<close> on; signatures have four characters, none of them zero.\<close>

function find_sdt :: "mem \<Rightarrow> addr \<Rightarrow> bytes \<Rightarrow> nat \<Rightarrow> nat \<Rightarrow> addr option" where
  "find_sdt m rsdp sig i entries =
    (if i < entries then
       (if sdt_signature m (acpi_get_sdt m rsdp i) = sig then Some (acpi_get_sdt m rsdp i)
        else find_sdt m rsdp sig (i + 1) entries)
     else None)"
  by pat_completeness auto
termination
  by (relation "measure (\<lambda>(m, r, s, i, n). n - i)") auto

declare find_sdt.simps [simp del]

definition acpi_find_sdt :: "mem \<Rightarrow> addr option \<Rightarrow> bytes \<Rightarrow> addr option" where
  "acpi_find_sdt m rsdp sig = (case rsdp of
     None \<Rightarrow> None
   | Some r \<Rightarrow> find_sdt m r sig 0 (nat (acpi_table_count m r)))"

definition byte_sum :: "mem \<Rightarrow> addr \<Rightarrow> nat \<Rightarrow> u8" where
  "byte_sum m a n = fold (\<lambda>i checksum. checksum + m (a + word_of_nat i)) [0..<n] 0"

definition acpi_check_sdt_checksum :: "mem \<Rightarrow> addr \<Rightarrow> bool" where
  "acpi_check_sdt_checksum m hdr = (byte_sum m hdr (unat (rd 4 m (hdr + 4) :: u32)) = 0)"

text \<open>\<^verbatim>\<open>acpi_verify_rsdp\<close> only reports bad checksums: the result, and whether the two checksums are good.\<close>

definition acpi_verify_rsdp :: "mem \<Rightarrow> addr option \<Rightarrow> bool \<times> bool \<times> bool" where
  "acpi_verify_rsdp m rsdp = (case rsdp of
     None \<Rightarrow> (False, True, True)
   | Some r \<Rightarrow>
       (True, byte_sum m r 20 = 0,
        (rd 1 m (r + 15) :: u8) < 2 \<or> byte_sum m r (unat (rd 4 m (r + 20) :: u32)) = 0))"

text \<open>The bytes of a table, as long as its header says.\<close>

definition table_bytes :: "mem \<Rightarrow> addr \<Rightarrow> bytes" where
  "table_bytes m hdr = map (\<lambda>i. m (hdr + word_of_nat i)) [0..<unat (rd 4 m (hdr + 4) :: u32)]"

section \<open>Interrupt controllers\<close>

datatype madt_type =
    MADT_TYPE_APIC | MADT_TYPE_x2APIC | MADT_TYPE_IOAPIC | MADT_TYPE_IRQ_OVERRIDE | MADT_TYPE_APIC_NMI
  | MADT_TYPE_x2APIC_NMI | MADT_TYPE_IOAPIC_NMI | MADT_TYPE_APIC_ADDR_OVR
  | MADT_TYPE_RINTC | MADT_TYPE_IMSIC | MADT_TYPE_APLIC | MADT_TYPE_PLIC | MADT_TYPE_other

definition madt_type_of :: "u8 \<Rightarrow> madt_type" where
  "madt_type_of b =
    (if b = 0x00 then MADT_TYPE_APIC else if b = 0x09 then MADT_TYPE_x2APIC
     else if b = 0x01 then MADT_TYPE_IOAPIC else if b = 0x02 then MADT_TYPE_IRQ_OVERRIDE
     else if b = 0x04 then MADT_TYPE_APIC_NMI else if b = 0x0A then MADT_TYPE_x2APIC_NMI
     else if b = 0x03 then MADT_TYPE_IOAPIC_NMI else if b = 0x05 then MADT_TYPE_APIC_ADDR_OVR
     else if b = 0x18 then MADT_TYPE_RINTC else if b = 0x19 then MADT_TYPE_IMSIC
     else if b = 0x1A then MADT_TYPE_APLIC else if b = 0x1B then MADT_TYPE_PLIC else MADT_TYPE_other)"

text \<open>The entry at offset \<open>p\<close>, if it lies in the table: the common tail of \<^verbatim>\<open>madt_first_entry\<close> and \<^verbatim>\<open>madt_next_entry\<close>. The
  structure \<^verbatim>\<open>MADT\<close> has 44 bytes and the header of an entry two.\<close>

definition madt_entry_at :: "bytes \<Rightarrow> nat \<Rightarrow> nat option result" where
  "madt_entry_at bs p = ebind (field 4 bs 4) (\<lambda>len :: u32.
    let end = unat len
    in if p + 2 > end then Inr None
       else ebind (byte_at bs (p + 1)) (\<lambda>elen.
         if elen < 2 then Inr None
         else if p + unat elen > end then Inr None
         else Inr (Some p)))"

definition madt_first_entry :: "bytes \<Rightarrow> nat option result" where
  "madt_first_entry bs = madt_entry_at bs 44"

definition madt_next_entry :: "bytes \<Rightarrow> nat \<Rightarrow> nat option result" where
  "madt_next_entry bs entry = ebind (byte_at bs (entry + 1)) (\<lambda>elen. madt_entry_at bs (entry + unat elen))"

record detected_apic =
  da_apic_id :: u32
  da_acpi_id :: u32
  da_flags :: u32

record detected_ioapic =
  ioapic_id :: u8
  phys_addr :: u32
  gsi_base :: u32

record acpi_irq_override =
  ovr_irq :: u8
  ovr_gsi :: u32
  ovr_flags :: u16

record madt_state =
  detected_apics :: "u32 \<Rightarrow> detected_apic option"
  detected_ioapics :: "detected_ioapic list"
  irq_overrides :: "acpi_irq_override list"
  detected_cpus :: u32
  detected_harts :: u32
  madt_entries :: u32
  unknown_madt_entries :: u32

definition madt_state0 :: madt_state where
  "madt_state0 = \<lparr> detected_apics = (\<lambda>_. None), detected_ioapics = [], irq_overrides = [], detected_cpus = 0,
                   detected_harts = 0, madt_entries = 0, unknown_madt_entries = 0 \<rparr>"

definition madt_register_lapic :: "u32 \<Rightarrow> u32 \<Rightarrow> u32 \<Rightarrow> madt_state \<Rightarrow> madt_state" where
  "madt_register_lapic apic_id acpi_id flags s =
    (if \<not> bit flags 0 then s
     else case detected_apics s apic_id of
       Some node \<Rightarrow>
         s\<lparr>detected_apics := (detected_apics s)(apic_id \<mapsto> node\<lparr>da_acpi_id := acpi_id, da_flags := flags\<rparr>)\<rparr>
     | None \<Rightarrow>
         s\<lparr>detected_apics := (detected_apics s)
             (apic_id \<mapsto> \<lparr> da_apic_id = apic_id, da_acpi_id = acpi_id, da_flags = flags \<rparr>),
           detected_cpus := detected_cpus s + 1\<rparr>)"

definition x86_64_handle_entry :: "bytes \<Rightarrow> nat \<Rightarrow> madt_state \<Rightarrow> madt_state result" where
  "x86_64_handle_entry bs p s =
    (let s = s\<lparr>madt_entries := madt_entries s + 1\<rparr>
     in ebind (byte_at bs p) (\<lambda>type. case madt_type_of type of
          MADT_TYPE_APIC \<Rightarrow>
            ebind (byte_at bs (p + 2)) (\<lambda>acpi_id. ebind (byte_at bs (p + 3)) (\<lambda>apic_id.
            ebind (field 4 bs (p + 4)) (\<lambda>flags. Inr (madt_register_lapic (ucast apic_id) (ucast acpi_id) flags s))))
        | MADT_TYPE_x2APIC \<Rightarrow>
            ebind (field 4 bs (p + 4)) (\<lambda>x2apic_id. ebind (field 4 bs (p + 8)) (\<lambda>flags.
            ebind (field 4 bs (p + 12)) (\<lambda>acpi_id. Inr (madt_register_lapic x2apic_id acpi_id flags s))))
        | MADT_TYPE_IOAPIC \<Rightarrow>
            ebind (byte_at bs (p + 2)) (\<lambda>id. ebind (field 4 bs (p + 4)) (\<lambda>address. ebind (field 4 bs (p + 8)) (\<lambda>gsi.
              Inr (s\<lparr>detected_ioapics := \<lparr> ioapic_id = id, phys_addr = address, gsi_base = gsi \<rparr> # detected_ioapics s\<rparr>))))
        | MADT_TYPE_IRQ_OVERRIDE \<Rightarrow>
            ebind (byte_at bs (p + 3)) (\<lambda>irq. ebind (field 4 bs (p + 4)) (\<lambda>gsi. ebind (field 2 bs (p + 8)) (\<lambda>flags.
              Inr (s\<lparr>irq_overrides := \<lparr> ovr_irq = irq, ovr_gsi = gsi, ovr_flags = flags \<rparr> # irq_overrides s\<rparr>))))
        | MADT_TYPE_APIC_NMI \<Rightarrow> Inr s
        | MADT_TYPE_x2APIC_NMI \<Rightarrow> Inr s
        | MADT_TYPE_IOAPIC_NMI \<Rightarrow> Inr s
        | MADT_TYPE_APIC_ADDR_OVR \<Rightarrow> Inr s
        | _ \<Rightarrow> Inr (s\<lparr>unknown_madt_entries := unknown_madt_entries s + 1\<rparr>)))"

definition riscv64_handle_entry :: "bytes \<Rightarrow> nat \<Rightarrow> madt_state \<Rightarrow> madt_state result" where
  "riscv64_handle_entry bs p s =
    (let s = s\<lparr>madt_entries := madt_entries s + 1\<rparr>
     in ebind (byte_at bs p) (\<lambda>type. case madt_type_of type of
          MADT_TYPE_RINTC \<Rightarrow> Inr (s\<lparr>detected_harts := detected_harts s + 1\<rparr>)
        | MADT_TYPE_IMSIC \<Rightarrow> Inr s
        | MADT_TYPE_APLIC \<Rightarrow> Inr s
        | MADT_TYPE_PLIC \<Rightarrow> Inr s
        | _ \<Rightarrow> Inr (s\<lparr>unknown_madt_entries := unknown_madt_entries s + 1\<rparr>)))"

definition loongarch64_handle_entry :: "bytes \<Rightarrow> nat \<Rightarrow> madt_state \<Rightarrow> madt_state result" where
  "loongarch64_handle_entry bs p s =
    Inr (s\<lparr>madt_entries := madt_entries s + 1, unknown_madt_entries := unknown_madt_entries s + 1\<rparr>)"

lemma madt_entry_at_Some:
  "madt_entry_at bs p = Inr (Some q) \<longleftrightarrow>
    q = p \<and> 8 \<le> length bs \<and> p + 1 < length bs \<and> 2 \<le> unat (bs ! (p + 1)) \<and>
    p + unat (bs ! (p + 1)) \<le> unat (le_word (take 4 (drop 4 bs)) :: u32)"
  by (auto simp: madt_entry_at_def field_def Let_def byte_at_def word_less_nat_alt not_less)

lemma madt_next_entry_Some:
  assumes "madt_next_entry bs p = Inr (Some q)"
  shows "q = p + unat (bs ! (p + 1))" "p < q" "q + 1 < length bs"
proof -
  from assms have q: "q = p + unat (bs ! (p + 1))" "q + 1 < length bs" "2 \<le> unat (bs ! (q + 1))"
    by (auto simp: madt_next_entry_def ebind_Inr_iff byte_at_def madt_entry_at_Some split: if_splits)
  then show "q = p + unat (bs ! (p + 1))" "q + 1 < length bs" by simp_all
  show "p < q" using q by (cases "unat (bs ! (p + 1)) = 0") auto
qed

text \<open>\<^verbatim>\<open>MADT_FOR_EACH_ENTRY\<close> from the entry \<open>p\<close> on, with the handler as the body of the loop.\<close>

function madt_loop :: "(bytes \<Rightarrow> nat \<Rightarrow> 's \<Rightarrow> 's result) \<Rightarrow> bytes \<Rightarrow> nat \<Rightarrow> 's \<Rightarrow> 's result" where
  "madt_loop handle bs p s =
    ebind (handle bs p s) (\<lambda>s.
    ebind (madt_next_entry bs p) (\<lambda>next_entry.
      case next_entry of None \<Rightarrow> Inr s | Some q \<Rightarrow> madt_loop handle bs q s))"
  by pat_completeness auto
termination
proof (relation "measure (\<lambda>(h, bs, p, s). length bs - p)", simp, goal_cases)
  case (1 handle bs p s s' e q)
  then show ?case using madt_next_entry_Some [of bs p q] by simp
qed

declare madt_loop.simps [simp del]

definition madt_for_each :: "(bytes \<Rightarrow> nat \<Rightarrow> 's \<Rightarrow> 's result) \<Rightarrow> bytes \<Rightarrow> 's \<Rightarrow> 's result" where
  "madt_for_each handle bs s =
    ebind (madt_first_entry bs) (\<lambda>first. case first of None \<Rightarrow> Inr s | Some p \<Rightarrow> madt_loop handle bs p s)"

definition MADT_SDT_SIGNATURE :: bytes where
  "MADT_SDT_SIGNATURE = [0x41, 0x50, 0x49, 0x43]"

text \<open>\<^verbatim>\<open>acpi_parse_madt\<close> with the handler of the architecture; without a table nothing is detected.\<close>

definition acpi_parse_madt ::
  "(bytes \<Rightarrow> nat \<Rightarrow> madt_state \<Rightarrow> madt_state result) \<Rightarrow> mem \<Rightarrow> addr option \<Rightarrow> madt_state result" where
  "acpi_parse_madt handle m rsdp = (case acpi_find_sdt m rsdp MADT_SDT_SIGNATURE of
     None \<Rightarrow> Inr madt_state0
   | Some madt \<Rightarrow> madt_for_each handle (table_bytes m madt) madt_state0)"

section \<open>The fixed description table\<close>

definition MAX_FADT_REVISION :: nat where "MAX_FADT_REVISION = 4"

definition fadt_version_sizes :: "nat list" where
  "fadt_version_sizes = [0, 116, 132, 244, 244]"

text \<open>The packed structure \<^verbatim>\<open>FADT\<close>: its members with their sizes in bytes; a table header has 36 bytes and an address structure 12.\<close>

definition FADT_members :: "(string \<times> nat) list" where
  "FADT_members =
    [(''header'', 36), (''firmwareCtrl'', 4), (''dsdt'', 4), (''reserved'', 1),
     (''preferredPowerManagementProfile'', 1), (''sciInterrupt'', 2), (''smiCommandPort'', 4),
     (''acpiEnable'', 1), (''acpiDisable'', 1), (''s4biosRequest'', 1), (''pstateControl'', 1),
     (''pm1aEventBlock'', 4), (''pm1bEventBlock'', 4), (''pm1aControlBlock'', 4),
     (''pm1bControlBlock'', 4), (''pm2ControlBlock'', 4), (''pmTimerBlock'', 4), (''gpe0Block'', 4),
     (''gpe1Block'', 4), (''pm1EventLength'', 1), (''pm1ControlLength'', 1), (''pm2ControlLength'', 1),
     (''pmTimerLength'', 1), (''gpe0Length'', 1), (''gpe1Length'', 1), (''gpe1Base'', 1),
     (''cStateControl'', 1), (''worstC2Latency'', 2), (''worstC3Latency'', 2), (''flushSize'', 2),
     (''flushStride'', 2), (''dutyOffset'', 1), (''dutyWidth'', 1), (''dayAlarm'', 1), (''monthAlarm'', 1),
     (''century'', 1), (''bootArchitectureFlags'', 2), (''reserved2'', 1), (''flags'', 4),
     (''resetReg'', 12), (''resetValue'', 1), (''reserved3'', 3), (''xFirmwareControl'', 8),
     (''xDsdt'', 8), (''xPM1aEventBlock'', 12), (''xPM1bEventBlock'', 12), (''xPM1aControlBlock'', 12),
     (''xPM1bControlBlock'', 12), (''xPM2ControlBlock'', 12), (''xPMTimerBlock'', 12),
     (''xGPE0Block'', 12), (''xGPE1Block'', 12)]"

definition sizeof_FADT :: nat where
  "sizeof_FADT = sum_list (map snd FADT_members)"

definition offsetof_FADT :: "string \<Rightarrow> nat" where
  "offsetof_FADT name = sum_list (map snd (takeWhile (\<lambda>(n, sz). n \<noteq> name) FADT_members))"

text \<open>The search for the greatest revision whose size fits into the table.\<close>

fun fadt_real_rev :: "nat \<Rightarrow> nat \<Rightarrow> nat" where
  "fadt_real_rev len 0 = 0"
| "fadt_real_rev len (Suc r) = (if fadt_version_sizes ! Suc r \<le> len then Suc r else fadt_real_rev len r)"

text \<open>\<^verbatim>\<open>acpi_verify_fadt\<close>: \<open>clean\<close> is the kernel's copy of the table, zero at first. The result says whether the copy was made.\<close>

definition acpi_verify_fadt :: "mem \<Rightarrow> addr option \<Rightarrow> bytes \<Rightarrow> bool \<times> bytes" where
  "acpi_verify_fadt m rsdp clean = (case acpi_find_sdt m rsdp [0x46, 0x41, 0x43, 0x50] of
     None \<Rightarrow> (False, clean)
   | Some hdr \<Rightarrow>
       (let len = unat (rd 4 m (hdr + 4) :: u32);
            real_rev = fadt_real_rev len MAX_FADT_REVISION;
            sz = fadt_version_sizes ! real_rev
        in if real_rev = 0 then (False, clean)
           else (True, (map (\<lambda>i. m (hdr + word_of_nat i)) [0..<sz] @ drop sz clean)[8 := word_of_nat real_rev])))"

definition acpi_is_hw_reduced :: "bytes \<Rightarrow> bool" where
  "acpi_is_hw_reduced clean = bit (le_word (take 4 (drop (offsetof_FADT ''flags'') clean)) :: u32) 20"

text \<open>The fields that \<^verbatim>\<open>setup_acpi_pmt\<close> reads: the extended block of the timer and the port of the first revision.\<close>

definition fadt_pmt_port :: "bytes \<Rightarrow> u64 result" where
  "fadt_pmt_port clean =
    setup_acpi_pmt (le_word (take 8 (drop (offsetof_FADT ''xPMTimerBlock'' + 4) clean)))
      (clean ! offsetof_FADT ''xPMTimerBlock'' = 1) (le_word (take 4 (drop (offsetof_FADT ''pmTimerBlock'') clean)))"

lemma FADT_layout: "sizeof_FADT = 244" "offsetof_FADT ''xPMTimerBlock'' = 208" "offsetof_FADT ''pmTimerBlock'' = 76"
  by code_simp+

section \<open>The walk over the entries\<close>

text \<open>A table: its header gives its length.\<close>

definition is_table :: "bytes \<Rightarrow> bool" where
  "is_table bs \<longleftrightarrow> 8 \<le> length bs \<and> unat (le_word (take 4 (drop 4 bs)) :: u32) = length bs"

definition entry_in :: "bytes \<Rightarrow> nat \<Rightarrow> bool" where
  "entry_in bs p \<longleftrightarrow> p + 1 < length bs \<and> 2 \<le> unat (bs ! (p + 1)) \<and> p + unat (bs ! (p + 1)) \<le> length bs"

text \<open>The entries of a table from the offset \<open>p\<close> on: they follow each other without a gap, each has at least the two
  bytes of its header and ends within the table.\<close>

function entries_from :: "bytes \<Rightarrow> nat \<Rightarrow> nat list" where
  "entries_from bs p = (if entry_in bs p then p # entries_from bs (p + unat (bs ! (p + 1))) else [])"
  by pat_completeness auto
termination
  by (relation "measure (\<lambda>(bs, p). length bs - p)") (auto simp: entry_in_def)

declare entries_from.simps [simp del]

fun run_entries :: "(bytes \<Rightarrow> nat \<Rightarrow> 's \<Rightarrow> 's result) \<Rightarrow> bytes \<Rightarrow> nat list \<Rightarrow> 's \<Rightarrow> 's result" where
  "run_entries handle bs [] s = Inr s"
| "run_entries handle bs (p # ps) s = ebind (handle bs p s) (run_entries handle bs ps)"

lemma entries_from_in: "q \<in> set (entries_from bs p) \<Longrightarrow> entry_in bs q \<and> p \<le> q"
proof (induction bs p rule: entries_from.induct)
  case (1 bs p)
  then show ?case by (subst (asm) (2) entries_from.simps) (auto split: if_splits)
qed

lemma entries_from_sorted: "sorted_wrt (\<lambda>p q. p + unat (bs ! (p + 1)) \<le> q) (entries_from bs p)"
proof (induction bs p rule: entries_from.induct)
  case (1 bs p)
  then show ?case by (subst entries_from.simps) (auto dest: entries_from_in)
qed

lemma madt_entry_at_total:
  "is_table bs \<Longrightarrow> madt_entry_at bs p = Inr (if entry_in bs p then Some p else None)"
  by (auto simp: madt_entry_at_def field_def is_table_def entry_in_def Let_def byte_at_def word_less_nat_alt not_less)

text \<open>The loop runs the handler on the entries of the table.\<close>

lemma madt_loop_run:
  "is_table bs \<Longrightarrow> entry_in bs p \<Longrightarrow> madt_loop handle bs p s = run_entries handle bs (entries_from bs p) s"
proof (induction bs p arbitrary: s rule: entries_from.induct)
  case (1 bs p)
  let ?q = "p + unat (bs ! (p + 1))"
  have "madt_next_entry bs p = Inr (if entry_in bs ?q then Some ?q else None)"
    using "1.prems" madt_entry_at_total [of bs ?q] by (simp add: madt_next_entry_def byte_at_def entry_in_def)
  moreover have "run_entries handle bs (entries_from bs ?q) = Inr" if "\<not> entry_in bs ?q"
    using that by (intro ext, subst entries_from.simps) simp
  ultimately show ?case using "1.IH" "1.prems"
    by (subst madt_loop.simps, subst entries_from.simps) (auto simp: entry_in_def)
qed

lemma madt_for_each_run:
  "is_table bs \<Longrightarrow> madt_for_each handle bs s = run_entries handle bs (entries_from bs 44) s"
  using madt_loop_run [of bs 44 handle s]
  by (auto simp: madt_for_each_def madt_first_entry_def madt_entry_at_total entries_from.simps [of bs 44])

section \<open>The processors\<close>

text \<open>The size of the structure that the handler reads, by the type of the entry.\<close>

definition entry_size :: "madt_type \<Rightarrow> nat" where
  "entry_size ty = (case ty of MADT_TYPE_APIC \<Rightarrow> 8 | MADT_TYPE_x2APIC \<Rightarrow> 16 | MADT_TYPE_IOAPIC \<Rightarrow> 12
     | MADT_TYPE_IRQ_OVERRIDE \<Rightarrow> 10 | _ \<Rightarrow> 2)"

definition well_sized :: "bytes \<Rightarrow> nat \<Rightarrow> bool" where
  "well_sized bs p \<longleftrightarrow> entry_size (madt_type_of (bs ! p)) \<le> unat (bs ! (p + 1))"

text \<open>The processor an entry announces: its identifier, if the entry says that it is usable.\<close>

definition usable_cpu :: "bytes \<Rightarrow> nat \<Rightarrow> u32 option" where
  "usable_cpu bs p = (case madt_type_of (bs ! p) of
     MADT_TYPE_APIC \<Rightarrow>
       (if bit (le_word (take 4 (drop (p + 4) bs)) :: u32) 0 then Some (ucast (bs ! (p + 3))) else None)
   | MADT_TYPE_x2APIC \<Rightarrow>
       (if bit (le_word (take 4 (drop (p + 8) bs)) :: u32) 0 then Some (le_word (take 4 (drop (p + 4) bs))) else None)
   | _ \<Rightarrow> None)"

definition cpus_inv :: "madt_state \<Rightarrow> bool" where
  "cpus_inv s \<longleftrightarrow> finite (dom (detected_apics s)) \<and> detected_cpus s = word_of_nat (card (dom (detected_apics s))) \<and>
     (\<forall>i a. detected_apics s i = Some a \<longrightarrow> da_apic_id a = i \<and> bit (da_flags a) 0)"

lemma madt_register_lapic_inv:
  assumes "cpus_inv s"
  shows "cpus_inv (madt_register_lapic i a f s)"
    "dom (detected_apics (madt_register_lapic i a f s)) = dom (detected_apics s) \<union> (if bit f 0 then {i} else {})"
  using assms
  by (auto simp: cpus_inv_def madt_register_lapic_def insert_absorb domI card_insert_if domIff split: option.splits)

lemma x86_64_handle_entry_safe:
  assumes s: "cpus_inv s" and p: "entry_in bs p" "well_sized bs p"
  shows "\<exists>s'. x86_64_handle_entry bs p s = Inr s' \<and> cpus_inv s' \<and>
    dom (detected_apics s') = dom (detected_apics s) \<union> set_option (usable_cpu bs p) \<and>
    madt_entries s' = madt_entries s + 1"
proof -
  let ?s = "s\<lparr>madt_entries := madt_entries s + 1\<rparr>"
  have inv: "cpus_inv ?s" using s by (simp add: cpus_inv_def)
  have r: "p + entry_size (madt_type_of (bs ! p)) \<le> length bs" "p < length bs"
    using p by (auto simp: entry_in_def well_sized_def)
  have e: "madt_entries (madt_register_lapic i a f ?s) = madt_entries s + 1" for i a f
    by (simp add: madt_register_lapic_def split: option.split)
  note defs = x86_64_handle_entry_def usable_cpu_def byte_at_def field_def Let_def
  note reg = madt_register_lapic_inv [OF inv] e
  show ?thesis
    using r inv
    by (cases "madt_type_of (bs ! p)") (simp_all add: defs entry_size_def reg, simp_all add: cpus_inv_def)
qed

lemma x86_64_run_entries:
  "cpus_inv s \<Longrightarrow> \<forall>p\<in>set ps. entry_in bs p \<and> well_sized bs p \<Longrightarrow>
   \<exists>s'. run_entries x86_64_handle_entry bs ps s = Inr s' \<and> cpus_inv s' \<and>
    dom (detected_apics s') = dom (detected_apics s) \<union> (\<Union>p\<in>set ps. set_option (usable_cpu bs p)) \<and>
    madt_entries s' = madt_entries s + word_of_nat (length ps)"
proof (induction ps arbitrary: s)
  case (Cons p ps)
  then obtain s1 where s1: "x86_64_handle_entry bs p s = Inr s1" "cpus_inv s1"
    "dom (detected_apics s1) = dom (detected_apics s) \<union> set_option (usable_cpu bs p)"
    "madt_entries s1 = madt_entries s + 1"
    using x86_64_handle_entry_safe [of s bs p] by auto
  then show ?case using Cons.IH [OF s1(2)] Cons.prems(2) by (auto simp: algebra_simps)
qed simp

lemma table_bytes_is_table:
  assumes "8 \<le> unat (rd 4 m (hdr + 4) :: u32)"
  shows "is_table (table_bytes m hdr)"
proof -
  let ?n = "unat (rd 4 m (hdr + 4) :: u32)"
  have "take 4 (drop 4 (table_bytes m hdr)) = map (\<lambda>i. m (hdr + 4 + word_of_nat i)) [0..<4]"
    using assms by (intro nth_equalityI) (auto simp: table_bytes_def algebra_simps)
  then show ?thesis using assms by (simp add: is_table_def rd_def) (simp add: table_bytes_def rd_def)
qed


text \<open>A memory with a root pointer at address 0, a root table at 32 and a table of interrupt controllers at 72 that
  lists the processor 5 twice.\<close>

definition example_tables :: mem where
  "example_tables a =
    (let img = replicate 16 0 @ [32] @ replicate 19 0 @ [40] @ replicate 31 0 @ [72] @ replicate 3 0 @
           [0x41, 0x50, 0x49, 0x43, 60] @ replicate 39 0 @ [0, 8, 1, 5, 1, 0, 0, 0] @ [0, 8, 2, 5, 1, 0, 0, 0]
     in if unat a < length img then img ! unat a else 0)"


text \<open>An entry at the end of the table that is shorter than its type asks is read past the end of the table.\<close>

lemma short_entry_out_of_bounds:
  assumes "entry_in bs p" "madt_type_of (bs ! p) = MADT_TYPE_APIC" "length bs = p + 2"
  shows "x86_64_handle_entry bs p s = Inl OutOfBounds"
  using assms by (simp add: x86_64_handle_entry_def byte_at_def entry_in_def)

section \<open>The copy of the fixed table\<close>

lemma fadt_real_rev_spec:
  assumes "r \<le> 4"
  shows "fadt_real_rev len r \<le> r \<and> fadt_version_sizes ! fadt_real_rev len r \<le> len \<and>
    (\<forall>q. fadt_real_rev len r < q \<and> q \<le> r \<longrightarrow> len < fadt_version_sizes ! q)"
  using assms
proof (induction r)
  case (Suc r)
  then show ?case by (auto simp: le_Suc_eq not_le)
qed (auto simp: fadt_version_sizes_def)

text \<open>The copy has the size of the structure, is never longer than the table of the firmware, and the bytes behind it keep
  their value, which is zero at boot.\<close>

lemma acpi_verify_fadt_copy:
  assumes "length clean = sizeof_FADT" "acpi_verify_fadt m rsdp clean = (True, clean')"
  obtains hdr n r where "acpi_find_sdt m rsdp [0x46, 0x41, 0x43, 0x50] = Some hdr"
    "n = fadt_version_sizes ! r" "0 < r" "r \<le> 4" "n \<le> unat (rd 4 m (hdr + 4) :: u32)" "length clean' = sizeof_FADT"
    "\<And>i. i < n \<Longrightarrow> i \<noteq> 8 \<Longrightarrow> clean' ! i = m (hdr + word_of_nat i)"
    "\<And>i. n \<le> i \<Longrightarrow> i < sizeof_FADT \<Longrightarrow> clean' ! i = clean ! i" "clean' ! 8 = word_of_nat r"
proof -
  obtain hdr where hdr: "acpi_find_sdt m rsdp [0x46, 0x41, 0x43, 0x50] = Some hdr"
    using assms(2) by (auto simp: acpi_verify_fadt_def split: option.splits)
  let ?len = "unat (rd 4 m (hdr + 4) :: u32)"
  let ?r = "fadt_real_rev ?len 4"
  let ?n = "fadt_version_sizes ! ?r"
  have r: "?r \<le> 4" "?n \<le> ?len" using fadt_real_rev_spec [of 4 ?len] by simp_all
  have c: "0 < ?r" "clean' = (map (\<lambda>i. m (hdr + word_of_nat i)) [0..<?n] @ drop ?n clean)[8 := word_of_nat ?r]"
    using assms(2) hdr by (auto simp: acpi_verify_fadt_def Let_def MAX_FADT_REVISION_def split: if_splits)
  have "?r = 1 \<or> ?r = 2 \<or> ?r = 3 \<or> ?r = 4" using r(1) c(1) by linarith
  then have n: "116 \<le> ?n" "?n \<le> 244" by (auto simp: fadt_version_sizes_def)
  show thesis
  proof (rule that [OF hdr refl c(1) r])
    show "length clean' = sizeof_FADT" using c(2) n assms(1) by (simp add: FADT_layout)
  qed (use c(2) n assms(1) in \<open>auto simp: nth_append FADT_layout nth_list_update\<close>)
qed

text \<open>A table of the first revision leaves the extended fields of the copy zero, so that the port of the timer comes from the old field.\<close>

lemma fadt_first_revision_port:
  assumes "acpi_verify_fadt m rsdp (replicate sizeof_FADT 0) = (True, clean')" "clean' ! 8 = 1"
  shows "fadt_pmt_port clean' = setup_acpi_pmt 0 False (le_word (take 4 (drop 76 clean')))"
proof -
  have "length (replicate sizeof_FADT 0 :: bytes) = sizeof_FADT" by simp
  then obtain hdr n r where c: "n = fadt_version_sizes ! r" "0 < r" "r \<le> 4" "clean' ! 8 = word_of_nat r"
    "length clean' = sizeof_FADT" "\<And>i. n \<le> i \<Longrightarrow> i < sizeof_FADT \<Longrightarrow> clean' ! i = replicate sizeof_FADT 0 ! i"
    by (rule acpi_verify_fadt_copy [OF _ assms(1)]) blast
  have "r = 1 \<or> r = 2 \<or> r = 3 \<or> r = 4" using c(2,3) by linarith
  then have "n = 116" using assms(2) c(1,4) by (auto simp: fadt_version_sizes_def)
  then have z: "clean' ! i = 0" if "116 \<le> i" "i < 244" for i using c(6) that by (simp add: FADT_layout)
  have "take 8 (drop 212 clean') = replicate 8 0" using c(5) z by (intro nth_equalityI) (auto simp: FADT_layout)
  then show ?thesis using z [of 208] by (simp add: fadt_pmt_port_def FADT_layout numeral_eq_Suc)
qed

end
