(* ===== verification/Spec2Isabelle.thy ===== *)
theory Spec2Isabelle
  imports LibMath Llist Pheap RbTree RbPtr Buddy Memory StringLib Dwarf DwarfLine Spalloc Vmem Elf PagingArch BootMem Paging DwarfCfi Locks Mutex Sched Kmalloc Nanoprintf Timer Acpi
begin

text \<open>
  EvalynOS, a kernel in C for x86-64, RISC-V and LoongArch (\<^verbatim>\<open>src/kernel\<close>): a model of its algorithms and the
  theorems that make them correct. All paths below are relative to \<^verbatim>\<open>src/kernel/src\<close>.

  \<^bold>\<open>The program and its parts.\<close> The boot loader hands over a memory map. The boot allocator (\<^verbatim>\<open>mem/balloc.c\<close>)
  serves pages from it until the page frame database and the buddy allocator (\<^verbatim>\<open>mem/buddy.c\<close>) take over.
  Objects of one size come from the object allocator (\<^verbatim>\<open>mem/spalloc.c\<close>), which takes pages from the buddy
  allocator; \<^verbatim>\<open>kmalloc\<close> (\<^verbatim>\<open>libc/stdlib.c\<close>) puts the two together. Page tables (\<^verbatim>\<open>arch/generic/paging\<close>) map pages
  into address spaces, whose addresses the virtual address allocator (\<^verbatim>\<open>mem/vmem.c\<close>) hands out; it keeps its segments
  in lists and in a red-black tree. The scheduler (\<^verbatim>\<open>sched\<close>) keeps threads on intrusive lists and sleeping threads in
  a pairing heap, and the mutex sleeps on its waiting lists. When the kernel panics it prints a stack trace, for which it reads
  its own ELF file and DWARF sections (\<^verbatim>\<open>loader\<close>).

  \<^bold>\<open>Conventions.\<close> Machine integers are words of their width, so that wrap-around is that of the code. A routine
  that can fail an assertion, panic, leave an array or run into undefined behaviour returns a value of the sum type
  of \<^verbatim>\<open>Prelude\<close>, and each such event is a constructor of its error type. A pointer algorithm that may
  dereference a null pointer or run forever returns an option, where \<open>None\<close> stands for both; that it
  returns is always proved. Loops are recursive functions with a termination proof; the only
  bounds are those of the code. Pointer structures live in stores that map addresses to
  fields; their abstract values are given by representation predicates.

  \<^bold>\<open>The theories.\<close>
  \<^item> \<^verbatim>\<open>Prelude\<close>: types, the result type and its rules, lemmas on lists and words.
  \<^item> \<^verbatim>\<open>LibMath\<close>: \<^verbatim>\<open>utils/lib.h\<close> and \<^verbatim>\<open>libc/math.c\<close>: alignment, logarithms, and the reciprocal shift, which is the greatest one
    that fits.
  \<^item> \<^verbatim>\<open>Llist\<close>: \<^verbatim>\<open>utils/dstruct/llist.c\<close> and \<^verbatim>\<open>stack.h\<close> at pointer level. The locale \<open>refines\<close> states data refinement; its interpretation shows
    that the list implements sequences.
  \<^item> \<^verbatim>\<open>Pheap\<close>: \<^verbatim>\<open>utils/dstruct/pheap.c\<close> at pointer level. The locale \<open>min_queue\<close> is the contract of a priority queue;
    the heap is an interpretation.
  \<^item> \<^verbatim>\<open>RbTree\<close> and \<^verbatim>\<open>RbPtr\<close>: \<^verbatim>\<open>utils/dstruct/rbtree.c\<close>, first on functional trees with the balance proof, then at pointer level with the
    colour packed into the parent word. The locale \<open>ordered_index\<close> is the contract for searches and walks.
  \<^item> \<^verbatim>\<open>Memory\<close> and \<^verbatim>\<open>StringLib\<close>: byte memory and \<^verbatim>\<open>libc/string.c\<close>: the unrolled copies equal byte copies, overlapping
    moves are right, the string functions meet their contracts.
  \<^item> \<^verbatim>\<open>Buddy\<close>: \<^verbatim>\<open>mem/pfndb.h\<close> and \<^verbatim>\<open>mem/buddy.c\<close>: free and allocated blocks partition the memory; allocation, free and new ranges.
  \<^item> \<^verbatim>\<open>Spalloc\<close>: \<^verbatim>\<open>mem/spalloc.c\<close>: live objects are disjoint. The locale \<open>object_pool\<close> is its contract.
  \<^item> \<^verbatim>\<open>Kmalloc\<close>: \<^verbatim>\<open>libc/stdlib.c\<close> over the object allocator and the page allocator: blocks of both kinds never overlap.
  \<^item> \<^verbatim>\<open>Vmem\<close>: \<^verbatim>\<open>mem/vmem.c\<close>: segments partition the range of an allocator; what allocation and free do; the free loop ends.
  \<^item> \<^verbatim>\<open>BootMem\<close>: \<^verbatim>\<open>utils/limine.c\<close>, \<^verbatim>\<open>mem/memmap.c\<close>, \<^verbatim>\<open>mem/balloc.c\<close>, \<^verbatim>\<open>mem/pmm.h\<close>: boot pages are fresh.
  \<^item> \<^verbatim>\<open>PagingArch\<close>: \<^verbatim>\<open>arch/*/intrin/paging.h\<close>: the entry formats of the three architectures as interpretations of
    the locale \<open>pte_format\<close>, with the round trips of address and attributes.
  \<^item> \<^verbatim>\<open>Paging\<close>: \<^verbatim>\<open>arch/generic/paging\<close>: walking, mapping, splitting, unmapping; the range operations return.
  \<^item> \<^verbatim>\<open>Elf\<close>: \<^verbatim>\<open>loader/elf_*.c\<close>, \<^verbatim>\<open>loader/symbols.c\<close>: base, top, sections, and the nearest symbol.
  \<^item> \<^verbatim>\<open>Dwarf\<close>, \<^verbatim>\<open>DwarfLine\<close>, \<^verbatim>\<open>DwarfCfi\<close>: \<^verbatim>\<open>loader/dwarf\<close>: LEB128 numbers, frame descriptions, line tables, the call frame machine and the
    stack trace, on arbitrary section contents.
  \<^item> \<^verbatim>\<open>Locks\<close> and \<^verbatim>\<open>Mutex\<close>: \<^verbatim>\<open>utils/locks\<close>, with one step per atomic access and every interleaving of the threads.
    The locale \<open>exclusive_lock\<close> is interpreted for all three kinds of lock; the ticket lock is first come first served
    and free of starvation in fair runs, and the mutex loses no wake-up.
  \<^item> \<^verbatim>\<open>Sched\<close>: \<^verbatim>\<open>sched/scheduler.c\<close>, \<^verbatim>\<open>sched/wait.c\<close>, \<^verbatim>\<open>sched/reaper.c\<close> and the start and exit of threads, as
    interleaved steps of the processors; no thread is lost or in two places.
  \<^item> \<^verbatim>\<open>Nanoprintf\<close>: \<^verbatim>\<open>libc/stdio.c\<close> and the nanoprintf library in its configuration: bounds of the buffers, the printed text
    and its digits.

  \<^bold>\<open>How the parts meet.\<close> \<^verbatim>\<open>Kmalloc\<close> runs on the states of \<^verbatim>\<open>Spalloc\<close> and of the page allocator; \<^verbatim>\<open>Vmem\<close> on the
  object allocator, with the tree and the lists as the abstract ones that \<^verbatim>\<open>RbPtr\<close> and \<^verbatim>\<open>Llist\<close> refine; \<^verbatim>\<open>Paging\<close> on
  \<^verbatim>\<open>PagingArch\<close>, on \<^verbatim>\<open>BootMem\<close> for early mappings and on the buddy allocator for tables; \<^verbatim>\<open>DwarfCfi\<close>
  on \<^verbatim>\<open>Dwarf\<close>, \<^verbatim>\<open>DwarfLine\<close>, \<^verbatim>\<open>Elf\<close> and on \<^verbatim>\<open>Paging\<close> for the memory it may read; \<^verbatim>\<open>Mutex\<close> and \<^verbatim>\<open>Sched\<close> share the
  waiting lists. The properties C1 to C40 are in the theories of their components.

  \<^bold>\<open>Bounds.\<close> Threads of the ticket lock are fewer than \<open>2 ^ 32\<close>, the range of its counters. The buddy allocator has
  orders 0 to 14 and frames below \<open>2 ^ 52\<close>, as the page entry has. A stack trace has at most eight lines and the
  unwinder a stack of fixed depth, as in the code. Atomic accesses are sequentially consistent in the model.

  \<^bold>\<open>Not modelled.\<close> Assembly, privileged instructions, device registers and the sequence of initialisation calls at boot have no algorithmic content
  beyond single accesses. The set-up of the page frame database and of the
  kernel page table, which only call modelled routines while they walk the memory map. The creation and destruction of address spaces, the program loader and
  the system calls, which compose modelled parts over user memory. The tables of the firmware
  and the device tree, the boot archive, the timers. User programs, build files and patches of other projects.
\<close>

end
